(* ===== verification/Prelude.thy ===== *)
theory Prelude
  imports Main "HOL-Library.Word" "HOL-Library.List_Lexorder" "HOL-Library.Char_ord"
    "HOL-Library.AList"
begin

text \<open>
  Shared vocabulary of the development.

  \<^item> Go strings are byte strings: \<open>string\<close> is a list of 8-bit characters, compared bytewise and
    lexicographically (\<open>List_Lexorder\<close> over \<open>Char_ord\<close>), as Go compares strings.
  \<^item> \<open>uint64\<close> values are \<open>64 word\<close>: addition wraps around.
  \<^item> A Go map is an association list with distinct keys (\<open>gmap_ok\<close>) whose order stands for one
    iteration order of the map; reading a missing key of a numeric map gives the zero value.
  \<^item> \<open>sort.Search\<close> is the library's binary search.
  \<^item> Byte encodings (\<open>encoding/binary\<close>) in both byte orders, with their round trips.
\<close>

type_synonym u64 = "64 word"
type_synonym byte = "8 word"

named_theorems gmap_simps \<open>facts on Go maps as association lists\<close>
named_theorems enc_simps \<open>facts on byte encodings\<close>

section \<open>Go maps\<close>

abbreviation gmap_ok :: "('k \<times> 'v) list \<Rightarrow> bool" where
  "gmap_ok m \<equiv> distinct (map fst m)"

definition vget :: "('k \<times> 'v::zero) list \<Rightarrow> 'k \<Rightarrow> 'v" where
  "vget m k = (case map_of m k of None \<Rightarrow> 0 | Some v \<Rightarrow> v)"

section \<open>Binary search (sort.Search)\<close>

function sort_search_loop :: "nat \<Rightarrow> nat \<Rightarrow> (nat \<Rightarrow> bool) \<Rightarrow> nat" where
  "sort_search_loop i j f =
     (if i < j
      then (let h = (i + j) div 2
            in if f h then sort_search_loop i h f else sort_search_loop (h + 1) j f)
      else i)"
  by pat_completeness auto
termination
  by (relation "measure (\<lambda>(i, j, f). j - i)") auto

declare sort_search_loop.simps [simp del]

definition sort_Search :: "nat \<Rightarrow> (nat \<Rightarrow> bool) \<Rightarrow> nat" where
  "sort_Search n f = sort_search_loop 0 n f"

section \<open>Fixed-width byte encodings (encoding/binary)\<close>

fun le_enc :: "nat \<Rightarrow> nat \<Rightarrow> byte list" where
  "le_enc 0 n = []"
| "le_enc (Suc k) n = of_nat n # le_enc k (n div 256)"

fun le_val :: "byte list \<Rightarrow> nat" where
  "le_val [] = 0"
| "le_val (b # bs) = unat b + 256 * le_val bs"

definition be_enc :: "nat \<Rightarrow> nat \<Rightarrow> byte list" where
  "be_enc k n = rev (le_enc k n)"

definition be_val :: "byte list \<Rightarrow> nat" where
  "be_val bs = le_val (rev bs)"

section \<open>Strings and bytes\<close>

definition bytes_of :: "string \<Rightarrow> byte list" where
  "bytes_of s = map (\<lambda>c. of_nat (of_char c)) s"

definition string_of :: "byte list \<Rightarrow> string" where
  "string_of bs = map (\<lambda>b. char_of (unat b)) bs"

section \<open>Decimal numbers (strconv)\<close>

text \<open>Decimal output of \<open>strconv.FormatUint(_, 10)\<close>.\<close>

fun FormatUint10 :: "nat \<Rightarrow> string" where
  "FormatUint10 n =
     (if n < 10 then [char_of (48 + n)] else FormatUint10 (n div 10) @ [char_of (48 + n mod 10)])"

declare FormatUint10.simps [simp del]

definition is_digit :: "char \<Rightarrow> bool" where
  "is_digit c \<longleftrightarrow> 48 \<le> (of_char c :: nat) \<and> (of_char c :: nat) \<le> 57"

fun dec_val :: "nat \<Rightarrow> string \<Rightarrow> nat" where
  "dec_val acc [] = acc"
| "dec_val acc (c # cs) = dec_val (10 * acc + (of_char c - 48)) cs"

text \<open>
  \<open>strconv.ParseUint(s, 10, 64)\<close>: digits only, at least one, and the value fits.
\<close>

definition ParseUint10 :: "string \<Rightarrow> u64 option" where
  "ParseUint10 s =
     (if s \<noteq> [] \<and> list_all is_digit s \<and> dec_val 0 s < 2 ^ 64 then Some (of_nat (dec_val 0 s)) else None)"

text \<open>
  \<open>strconv.ParseInt(s, 10, 64)\<close> and \<open>strconv.Atoi(s)\<close> (\<open>int\<close> is 64 bits wide): an optional sign, digits,
  and the value fits a signed 64-bit integer.
\<close>

definition ParseInt10 :: "string \<Rightarrow> int option" where
  "ParseInt10 s =
     (let neg = (s \<noteq> [] \<and> hd s = CHR ''-'');
          body = (if s \<noteq> [] \<and> (hd s = CHR ''-'' \<or> hd s = CHR ''+'') then tl s else s)
      in if body = [] \<or> \<not> list_all is_digit body then None
         else if neg then (if dec_val 0 body \<le> 2 ^ 63 then Some (- int (dec_val 0 body)) else None)
         else if dec_val 0 body < 2 ^ 63 then Some (int (dec_val 0 body)) else None)"

section \<open>Lemmas on Go maps\<close>

lemma vget_Nil [simp, gmap_simps]: "vget [] k = 0"
  by (simp add: vget_def)

lemma vget_Cons [gmap_simps]: "vget ((k, v) # m) k' = (if k' = k then v else vget m k')"
  by (simp add: vget_def)

lemma vget_update [simp, gmap_simps]:
  "vget (AList.update k v m) k' = (if k' = k then v else vget m k')"
  by (simp add: vget_def update_conv')

lemma vget_in: "gmap_ok m \<Longrightarrow> (k, v) \<in> set m \<Longrightarrow> vget m k = v"
  by (simp add: vget_def map_of_is_SomeI)

lemma vget_notin: "k \<notin> fst ` set m \<Longrightarrow> vget m k = 0"
  by (simp add: vget_def dom_map_of_conv_image_fst [symmetric] domIff)

lemma gmap_ok_update [simp, intro, gmap_simps]:
  "gmap_ok m \<Longrightarrow> gmap_ok (AList.update k v m)"
  by (rule distinct_update)

lemma update_fresh: "k \<notin> fst ` set m \<Longrightarrow> AList.update k v m = m @ [(k, v)]"
  by (induction m) auto

lemma gmap_ok_snocD: "gmap_ok (m @ [(k, v)]) \<Longrightarrow> gmap_ok m \<and> k \<notin> fst ` set m"
  by auto

text \<open>Copying a map entry by entry rebuilds it.\<close>

lemma fold_update_copy:
  "gmap_ok (acc @ m) \<Longrightarrow> fold (\<lambda>(k, v). AList.update k v) m acc = acc @ m"
proof (induction m arbitrary: acc)
  case Nil
  then show ?case by simp
next
  case (Cons kv m)
  obtain k v where kv: "kv = (k, v)" by (cases kv)
  from Cons.prems have "k \<notin> fst ` set acc" by (auto simp: kv)
  then have "AList.update k v acc = acc @ [(k, v)]" by (rule update_fresh)
  moreover from Cons.prems have "gmap_ok ((acc @ [(k, v)]) @ m)" by (simp add: kv)
  ultimately show ?case using Cons.IH [of "acc @ [(k, v)]"] by (simp add: kv)
qed

lemma enumerate_map_nth: "List.enumerate 0 xs = map (\<lambda>i. (i, xs ! i)) [0..<length xs]"
  by (rule nth_equalityI) (simp_all add: nth_enumerate_eq)

section \<open>Lemmas on sort.Search\<close>

text \<open>The loop's invariant: everything below the window fails, everything above it holds.\<close>

definition search_inv :: "nat \<Rightarrow> (nat \<Rightarrow> bool) \<Rightarrow> nat \<Rightarrow> nat \<Rightarrow> bool" where
  "search_inv n f i j \<longleftrightarrow> i \<le> j \<and> j \<le> n \<and> (\<forall>a<i. \<not> f a) \<and> (\<forall>a. j \<le> a \<longrightarrow> a < n \<longrightarrow> f a)"

lemma search_inv_step:
  assumes "search_inv n f i j" and "i < j" and "h = (i + j) div 2"
    and mono: "\<forall>a b. a \<le> b \<longrightarrow> b < n \<longrightarrow> f a \<longrightarrow> f b"
  shows "f h \<Longrightarrow> search_inv n f i h" and "\<not> f h \<Longrightarrow> search_inv n f (h + 1) j"
proof -
  have h: "i \<le> h" "h < j" "h < n" using assms(1-3) by (auto simp: search_inv_def)
  show "f h \<Longrightarrow> search_inv n f i h"
    using h assms(1) mono unfolding search_inv_def by (meson less_imp_le_nat)
  have low: "\<not> f h \<Longrightarrow> a < h + 1 \<Longrightarrow> \<not> f a" for a
    using mono [rule_format, of a h] h(3) by auto
  show "\<not> f h \<Longrightarrow> search_inv n f (h + 1) j"
    using h assms(1) low unfolding search_inv_def by (simp add: Suc_leI)
qed

lemma sort_search_loop_spec:
  assumes "\<forall>a b. a \<le> b \<longrightarrow> b < n \<longrightarrow> f a \<longrightarrow> f b"
  shows "search_inv n f i j \<Longrightarrow> search_inv n f (sort_search_loop i j f) (sort_search_loop i j f)"
  using assms
proof (induction i j f rule: sort_search_loop.induct)
  case (1 i j f)
  let ?h = "(i + j) div 2"
  note step = search_inv_step [OF "1.prems"(1) _ refl "1.prems"(2)]
  show ?case
  proof (cases "i < j")
    case False
    then have "sort_search_loop i j f = i" by (simp add: sort_search_loop.simps [of i j f])
    with False "1.prems"(1) show ?thesis by (simp add: search_inv_def)
  next
    case True
    then show ?thesis
      using "1.IH" [OF True refl] step "1.prems"(2)
      by (cases "f ?h") (simp_all add: sort_search_loop.simps [of i j f] Let_def)
  qed
qed

text \<open>
  On a monotone predicate, \<open>sort.Search\<close> returns the least index at which it holds, or \<open>n\<close>.
\<close>

lemma sort_Search_spec:
  assumes "\<And>a b. a \<le> b \<Longrightarrow> b < n \<Longrightarrow> f a \<Longrightarrow> f b"
  shows "sort_Search n f \<le> n"
    and "a < sort_Search n f \<Longrightarrow> \<not> f a"
    and "sort_Search n f \<le> a \<Longrightarrow> a < n \<Longrightarrow> f a"
proof -
  have "search_inv n f 0 n" by (simp add: search_inv_def)
  with assms have "search_inv n f (sort_Search n f) (sort_Search n f)"
    unfolding sort_Search_def by (intro sort_search_loop_spec) blast+
  then show "sort_Search n f \<le> n"
    and "a < sort_Search n f \<Longrightarrow> \<not> f a"
    and "sort_Search n f \<le> a \<Longrightarrow> a < n \<Longrightarrow> f a"
    by (auto simp: search_inv_def)
qed

section \<open>Lemmas on encodings\<close>

lemma length_le_enc [simp, enc_simps]: "length (le_enc k n) = k"
  by (induction k arbitrary: n) auto

lemma le_val_le_enc [enc_simps]: "le_val (le_enc k n) = n mod 256 ^ k"
proof (induction k arbitrary: n)
  case 0
  then show ?case by simp
next
  case (Suc k)
  have "unat (of_nat n :: byte) = n mod 256" by (simp add: unat_of_nat)
  then show ?case by (simp add: Suc mod_mult2_eq add.commute)
qed

lemma le_val_bound: "le_val bs < 256 ^ length bs"
proof (induction bs)
  case Nil
  then show ?case by simp
next
  case (Cons b bs)
  have "unat b < 256" using unsigned_less [of b] by simp
  with Cons show ?case by simp
qed

lemma le_enc_le_val: "length bs = k \<Longrightarrow> le_enc k (le_val bs) = bs"
proof (induction bs arbitrary: k)
  case Nil
  then show ?case by simp
next
  case (Cons b bs)
  have b: "unat b < 256" using unsigned_less [of b] by simp
  then have "(unat b + 256 * le_val bs) div 256 = le_val bs" by simp
  moreover have "(of_nat (256 * le_val bs) :: byte) = 0"
  proof -
    have "(of_nat 256 :: byte) = 0" by simp
    then show ?thesis unfolding of_nat_mult by (simp only: mult_zero_left)
  qed
  ultimately show ?case using Cons by (cases k) simp_all
qed

lemma length_be_enc [simp, enc_simps]: "length (be_enc k n) = k"
  by (simp add: be_enc_def)

lemma be_val_be_enc [enc_simps]: "be_val (be_enc k n) = n mod 256 ^ k"
  by (simp add: be_enc_def be_val_def le_val_le_enc)

lemma be_val_bound: "be_val bs < 256 ^ length bs"
  using le_val_bound [of "rev bs"] by (simp add: be_val_def)

lemma unat_mod_word [simp, enc_simps]:
  "unat (w :: 64 word) mod 256 ^ 8 = unat w"
proof -
  have "unat w < 2 ^ 64" using unsigned_less [of w] by simp
  then show ?thesis by simp
qed

lemma string_of_bytes_of [simp, enc_simps]: "string_of (bytes_of s) = s"
proof -
  have "char_of (unat (of_nat (of_char c) :: byte)) = c" for c :: char
  proof -
    have "(of_char c :: nat) < 256" using nat_of_char_less_256 by simp
    then have "unat (of_nat (of_char c) :: byte) = of_char c"
      by (simp add: unat_of_nat)
    then show ?thesis by simp
  qed
  then show ?thesis by (simp add: string_of_def bytes_of_def o_def)
qed

lemma length_bytes_of [simp, enc_simps]: "length (bytes_of s) = length s"
  by (simp add: bytes_of_def)

lemma length_string_of [simp, enc_simps]: "length (string_of bs) = length bs"
  by (simp add: string_of_def)

section \<open>Counters that do not overflow\<close>

lemma unat_u64_bound: "unat (x :: u64) < 2 ^ 64"
  using unsigned_less [of x] by simp

lemma unat_u64_inc:
  assumes "(x :: u64) \<noteq> -1"
  shows "unat (x + 1) = unat x + 1"
proof -
  have "unat (-1 :: u64) = 2 ^ 64 - 1" by (simp add: unsigned_minus_1_eq_mask mask_eq_exp_minus_1)
  moreover have "unat x \<noteq> unat (-1 :: u64)" using assms by (metis word_unat_eq_iff)
  ultimately have "unat x + 1 < 2 ^ 64" using unat_u64_bound [of x] by linarith
  then show ?thesis by (simp add: unat_word_ariths)
qed

lemma u64_less_inc: "(x :: u64) \<noteq> -1 \<Longrightarrow> x < x + 1"
  by (simp add: word_less_nat_alt unat_u64_inc)

section \<open>Lemmas on decimal numbers\<close>

lemma dec_val_append: "dec_val acc (xs @ ys) = dec_val (dec_val acc xs) ys"
  by (induction xs arbitrary: acc) auto

lemma of_char_digit: "d < 10 \<Longrightarrow> (of_char (char_of (48 + d) :: char) :: nat) = 48 + d"
  by (simp add: of_char_of)

lemma FormatUint10_digits: "list_all is_digit (FormatUint10 n) \<and> FormatUint10 n \<noteq> []"
proof (induction n rule: FormatUint10.induct)
  case (1 n)
  have "n mod 10 \<le> 9" using mod_less_divisor [of 10 n] by simp
  with 1 show ?case
    by (simp add: FormatUint10.simps [of n] is_digit_def of_char_digit del: of_char_of)
qed

lemma dec_val_FormatUint10: "dec_val 0 (FormatUint10 n) = n"
proof (induction n rule: FormatUint10.induct)
  case (1 n)
  then show ?case
    by (simp add: FormatUint10.simps [of n] dec_val_append of_char_digit del: of_char_of)
qed

lemma ParseUint10_FormatUint10: "ParseUint10 (FormatUint10 (unat w)) = Some w"
  using FormatUint10_digits [of "unat w"] unat_u64_bound [of w]
  by (simp add: ParseUint10_def dec_val_FormatUint10)

lemma dec_val_zeros: "dec_val 0 (replicate k (CHR ''0'') @ s) = dec_val 0 s"
  by (induction k) (simp_all add: of_char_of)

text \<open>Signed 64-bit arithmetic of Go's \<open>int\<close>: a result is reduced to \<open>[-2^63, 2^63)\<close>.\<close>

definition wrap64 :: "int \<Rightarrow> int" where
  "wrap64 x = (x + 2 ^ 63) mod 2 ^ 64 - 2 ^ 63"

lemma wrap64_id: "- (2 ^ 63) \<le> x \<Longrightarrow> x < 2 ^ 63 \<Longrightarrow> wrap64 x = x"
  by (simp add: wrap64_def)

lemma wrap64_less: "wrap64 x < 2 ^ 63"
proof -
  have "(x + 2 ^ 63) mod 2 ^ 64 < 2 ^ 64" by simp
  then show ?thesis unfolding wrap64_def by simp
qed

lemma wrap64_over: "2 ^ 63 \<le> x \<Longrightarrow> x < 2 ^ 64 \<Longrightarrow> wrap64 x < 0"
proof -
  assume "2 ^ 63 \<le> x" "x < 2 ^ 64"
  then have "(x + 2 ^ 63) mod 2 ^ 64 = x + 2 ^ 63 - 2 ^ 64"
    using mod_pos_pos_trivial [of "x + 2 ^ 63 - 2 ^ 64" "2 ^ 64"] minus_mod_self2 [of "x + 2 ^ 63" "2 ^ 64"] by simp
  then show ?thesis using \<open>x < 2 ^ 64\<close> unfolding wrap64_def by simp
qed

lemma wrap64_sum_greater:
  assumes "0 \<le> a" "0 \<le> b" "a \<le> n" "b \<le> n"
  shows "n < wrap64 (a + b) \<longleftrightarrow> n < a + b \<and> a + b < 2 ^ 63"
proof (cases "a + b < 2 ^ 63")
  case True
  then show ?thesis using assms wrap64_id [of "a + b"] by simp
next
  case False
  then have "\<not> n < wrap64 (a + b)"
    using assms wrap64_less [of "a + b"] wrap64_over [of "a + b"] by (cases "a + b < 2 ^ 64") auto
  then show ?thesis using False by simp
qed

section \<open>Linked structures\<close>

text \<open>A pointer is an address or nil; \<open>fstaddr xs q\<close> is the pointer to the first node of a chain that ends in \<open>q\<close>.\<close>

type_synonym addr = nat

definition fstaddr :: "addr list \<Rightarrow> addr option \<Rightarrow> addr option" where
  "fstaddr xs q = (case xs of [] \<Rightarrow> q | x # _ \<Rightarrow> Some x)"

lemma fstaddr_simps [simp]:
  "fstaddr [] q = q" "fstaddr (x # xs) q = Some x" "fstaddr (xs @ ys) q = fstaddr xs (fstaddr ys q)"
  by (auto simp: fstaddr_def split: list.splits)

end
