(* ===== verification/Versioning.thy ===== *)
theory Versioning
  imports Prelude
begin

text \<open>
  Vector clocks, envelopes and reconciliation: \<open>src/cluster/versioning\<close> and the protobuf
  conversions of \<open>src/cluster/transport/convert.go\<close>.

  A \<open>VectorClock\<close> is a Go map from node id to counter; a nil map and an empty map are both the
  empty list (every reader treats them alike). \<open>now.UnixNano()\<close> is an argument. JSON
  marshalling of an envelope is an argument of \<open>Encode\<close> and \<open>Decode\<close>.
\<close>

section \<open>vector\_clock.go\<close>

type_synonym VectorClock = "(string \<times> u64) list"

datatype Relation = Equal | Before | After | Concurrent

definition VectorClock_Clone :: "VectorClock \<Rightarrow> VectorClock" where
  "VectorClock_Clone vc =
     (if length vc = 0 then [] else fold (\<lambda>(nodeID, counter). AList.update nodeID counter) vc [])"

definition VectorClock_Increment :: "VectorClock \<Rightarrow> string \<Rightarrow> VectorClock" where
  "VectorClock_Increment vc nodeID =
     (let next = VectorClock_Clone vc in AList.update nodeID (vget next nodeID + 1) next)"

fun VectorClock_Merge_loop :: "VectorClock \<Rightarrow> VectorClock \<Rightarrow> VectorClock" where
  "VectorClock_Merge_loop merged [] = merged"
| "VectorClock_Merge_loop merged ((nodeID, counter) # b) =
     VectorClock_Merge_loop
       (if counter > vget merged nodeID then AList.update nodeID counter merged else merged) b"

definition VectorClock_Merge :: "VectorClock \<Rightarrow> VectorClock \<Rightarrow> VectorClock" where
  "VectorClock_Merge a b = VectorClock_Merge_loop (VectorClock_Clone a) b"

text \<open>The two loops of \<open>Compare\<close>; the flags are \<open>(aLess, aGreater)\<close>.\<close>

fun Compare_loop1 :: "VectorClock \<Rightarrow> VectorClock \<Rightarrow> bool \<times> bool \<Rightarrow> bool \<times> bool" where
  "Compare_loop1 [] b flags = flags"
| "Compare_loop1 ((nodeID, aCounter) # a) b (aLess, aGreater) =
     (let bCounter = vget b nodeID
      in Compare_loop1 a b
           (if aCounter < bCounter then True else aLess,
            if aCounter > bCounter then True else aGreater))"

fun Compare_loop2 :: "VectorClock \<Rightarrow> VectorClock \<Rightarrow> bool \<Rightarrow> bool" where
  "Compare_loop2 [] a aLess = aLess"
| "Compare_loop2 ((nodeID, bCounter) # b) a aLess =
     (if map_of a nodeID \<noteq> None then Compare_loop2 b a aLess
      else Compare_loop2 b a (if bCounter > 0 then True else aLess))"

definition Compare :: "VectorClock \<Rightarrow> VectorClock \<Rightarrow> Relation" where
  "Compare a b =
     (let (aLess1, aGreater) = Compare_loop1 a b (False, False);
          aLess = Compare_loop2 b a aLess1
      in if \<not> aLess \<and> \<not> aGreater then Equal
         else if aLess \<and> \<not> aGreater then Before
         else if \<not> aLess \<and> aGreater then After
         else Concurrent)"

section \<open>envelope.go\<close>

definition EnvelopeVersion :: int where
  "EnvelopeVersion = 1"

definition MagicPrefix :: string where
  "MagicPrefix = ''NOSQLCLUSTER1:''"

record Envelope =
  Version :: int
  Clock :: VectorClock
  UpdatedAtUnixNano :: int
  Deleted :: bool
  Value :: string

record KeyEnvelope =
  ke_Key :: string
  ke_Envelope :: Envelope

definition empty_Envelope :: Envelope where
  "empty_Envelope =
     \<lparr>Version = 0, Clock = [], UpdatedAtUnixNano = 0, Deleted = False, Value = ''''\<rparr>"

definition NewPut :: "VectorClock \<Rightarrow> string \<Rightarrow> int \<Rightarrow> Envelope" where
  "NewPut clock value now =
     \<lparr>Version = EnvelopeVersion, Clock = VectorClock_Clone clock, UpdatedAtUnixNano = now,
      Deleted = False, Value = value\<rparr>"

definition NewDelete :: "VectorClock \<Rightarrow> int \<Rightarrow> Envelope" where
  "NewDelete clock now =
     \<lparr>Version = EnvelopeVersion, Clock = VectorClock_Clone clock, UpdatedAtUnixNano = now,
      Deleted = True, Value = ''''\<rparr>"

datatype env_error =
    UnsupportedVersion int
  | UpdatedAtUnset
  | EncodeJSON
  | MissingMagicPrefix
  | DecodeJSON
  | EnvelopeNil

definition Envelope_normalize :: "Envelope \<Rightarrow> Envelope" where
  "Envelope_normalize e =
     (let e1 = e\<lparr>Clock := VectorClock_Clone (Clock e)\<rparr>
      in if Deleted e1 then e1\<lparr>Value := ''''\<rparr> else e1)"

definition Envelope_validate :: "Envelope \<Rightarrow> env_error + unit" where
  "Envelope_validate e =
     (if Version e \<noteq> EnvelopeVersion then Inl (UnsupportedVersion (Version e))
      else if UpdatedAtUnixNano e = 0 then Inl UpdatedAtUnset
      else Inr ())"

definition IsEncoded :: "string \<Rightarrow> bool" where
  "IsEncoded raw = (take (length MagicPrefix) raw = MagicPrefix)"

definition Encode :: "(Envelope \<Rightarrow> string option) \<Rightarrow> Envelope \<Rightarrow> env_error + string" where
  "Encode marshal e0 =
     (let e = Envelope_normalize e0
      in case Envelope_validate e of
           Inl err \<Rightarrow> Inl err
         | Inr _ \<Rightarrow>
             (case marshal e of
                None \<Rightarrow> Inl EncodeJSON
              | Some data \<Rightarrow> Inr (MagicPrefix @ data)))"

definition Decode :: "(string \<Rightarrow> Envelope option) \<Rightarrow> string \<Rightarrow> env_error + Envelope" where
  "Decode unmarshal raw =
     (if \<not> IsEncoded raw then Inl MissingMagicPrefix
      else case unmarshal (drop (length MagicPrefix) raw) of
             None \<Rightarrow> Inl DecodeJSON
           | Some e0 \<Rightarrow>
               (let e = Envelope_normalize e0
                in case Envelope_validate e of
                     Inl err \<Rightarrow> Inl err
                   | Inr _ \<Rightarrow> Inr e))"

section \<open>reconcile.go\<close>

record ReconcileResult =
  Winner :: "Envelope option"
  Siblings :: "Envelope list"
  Context :: VectorClock

definition cloneEnvelope :: "Envelope \<Rightarrow> Envelope" where
  "cloneEnvelope e = e\<lparr>Clock := VectorClock_Clone (Clock e)\<rparr>"

text \<open>The inner loop of \<open>Reconcile\<close>: is candidate number \<open>i\<close> dominated by one of the others?\<close>

fun Reconcile_dominated :: "nat \<Rightarrow> Envelope \<Rightarrow> (nat \<times> Envelope) list \<Rightarrow> bool" where
  "Reconcile_dominated i candidate [] = False"
| "Reconcile_dominated i candidate ((j, other) # rest) =
     (if i = j then Reconcile_dominated i candidate rest
      else case Compare (Clock candidate) (Clock other) of
             Before \<Rightarrow> True
           | Equal \<Rightarrow> (if j < i then True else Reconcile_dominated i candidate rest)
           | _ \<Rightarrow> Reconcile_dominated i candidate rest)"

fun Reconcile_survivors :: "Envelope list \<Rightarrow> (nat \<times> Envelope) list \<Rightarrow> Envelope list" where
  "Reconcile_survivors values [] = []"
| "Reconcile_survivors values ((i, candidate) # rest) =
     (if Reconcile_dominated i candidate (List.enumerate 0 values)
      then Reconcile_survivors values rest
      else cloneEnvelope candidate # Reconcile_survivors values rest)"

definition Reconcile :: "Envelope list \<Rightarrow> ReconcileResult" where
  "Reconcile values =
     (if length values = 0 then \<lparr>Winner = None, Siblings = [], Context = []\<rparr>
      else let nonDominated = Reconcile_survivors values (List.enumerate 0 values);
               ctx = fold (\<lambda>envelope c. VectorClock_Merge c (Clock envelope)) nonDominated []
           in if length nonDominated = 1
              then \<lparr>Winner = Some (hd nonDominated), Siblings = [], Context = ctx\<rparr>
              else \<lparr>Winner = None, Siblings = nonDominated, Context = ctx\<rparr>)"

definition stableClockString :: "VectorClock \<Rightarrow> string" where
  "stableClockString clock =
     concat (map (\<lambda>nodeID. nodeID @ [CHR 0x00] @ FormatUint10 (unat (vget clock nodeID)) @ [CHR 0x00])
       (sort (map fst clock)))"

definition stableEnvelopeLess :: "Envelope \<Rightarrow> Envelope \<Rightarrow> bool" where
  "stableEnvelopeLess a b =
     (if Deleted a \<noteq> Deleted b then \<not> Deleted a \<and> Deleted b
      else if Value a \<noteq> Value b then Value a < Value b
      else stableClockString (Clock a) < stableClockString (Clock b))"

fun PickByTimestamp_loop :: "Envelope \<Rightarrow> Envelope list \<Rightarrow> Envelope" where
  "PickByTimestamp_loop picked [] = picked"
| "PickByTimestamp_loop picked (value # rest) =
     (if UpdatedAtUnixNano value > UpdatedAtUnixNano picked
      then PickByTimestamp_loop (cloneEnvelope value) rest
      else if UpdatedAtUnixNano value = UpdatedAtUnixNano picked \<and> stableEnvelopeLess picked value
      then PickByTimestamp_loop (cloneEnvelope value) rest
      else PickByTimestamp_loop picked rest)"

definition PickByTimestamp :: "Envelope list \<Rightarrow> Envelope" where
  "PickByTimestamp values =
     (case values of
        [] \<Rightarrow> empty_Envelope
      | v # rest \<Rightarrow> PickByTimestamp_loop (cloneEnvelope v) rest)"

section \<open>transport/convert.go\<close>

text \<open>Protobuf messages: a nil pointer is \<open>None\<close>; clock entries are (node id, counter) pairs.\<close>

record pb_Envelope =
  pb_Version :: int
  pb_VectorClock :: "(string \<times> u64) list option"
  pb_UpdatedAtUnixNano :: int
  pb_Deleted :: bool
  pb_Value :: string

record pb_KeyEnvelope =
  pb_ke_Key :: string
  pb_ke_Envelope :: "pb_Envelope option"

definition go_int32 :: "int \<Rightarrow> int" where
  "go_int32 n = (n + 2 ^ 31) mod 2 ^ 32 - 2 ^ 31"

definition VectorClockToProto :: "VectorClock \<Rightarrow> (string \<times> u64) list option" where
  "VectorClockToProto clock =
     Some (map (\<lambda>nodeID. (nodeID, vget clock nodeID)) (sort (map fst clock)))"

definition VectorClockFromProto :: "(string \<times> u64) list option \<Rightarrow> VectorClock" where
  "VectorClockFromProto clock =
     (case clock of
        None \<Rightarrow> []
      | Some entries \<Rightarrow>
          fold (\<lambda>(nodeID, counter) out.
                  if nodeID = '''' then out else AList.update nodeID counter out) entries [])"

definition EnvelopeToProto :: "Envelope \<Rightarrow> pb_Envelope" where
  "EnvelopeToProto envelope =
     \<lparr>pb_Version = go_int32 (Version envelope),
      pb_VectorClock = VectorClockToProto (Clock envelope),
      pb_UpdatedAtUnixNano = UpdatedAtUnixNano envelope,
      pb_Deleted = Deleted envelope, pb_Value = Value envelope\<rparr>"

definition EnvelopeFromProto ::
  "(Envelope \<Rightarrow> string option) \<Rightarrow> (string \<Rightarrow> Envelope option) \<Rightarrow> pb_Envelope option
     \<Rightarrow> env_error + Envelope" where
  "EnvelopeFromProto marshal unmarshal envelope =
     (case envelope of
        None \<Rightarrow> Inl EnvelopeNil
      | Some p \<Rightarrow>
          (let out = \<lparr>Version = pb_Version p, Clock = VectorClockFromProto (pb_VectorClock p),
                      UpdatedAtUnixNano = pb_UpdatedAtUnixNano p, Deleted = pb_Deleted p,
                      Value = pb_Value p\<rparr>
           in case Encode marshal out of
                Inl err \<Rightarrow> Inl err
              | Inr encoded \<Rightarrow> Decode unmarshal encoded))"

definition KeyEnvelopeToProto :: "KeyEnvelope \<Rightarrow> pb_KeyEnvelope" where
  "KeyEnvelopeToProto row =
     \<lparr>pb_ke_Key = ke_Key row, pb_ke_Envelope = Some (EnvelopeToProto (ke_Envelope row))\<rparr>"

definition KeyEnvelopeFromProto ::
  "(Envelope \<Rightarrow> string option) \<Rightarrow> (string \<Rightarrow> Envelope option) \<Rightarrow> pb_KeyEnvelope option
     \<Rightarrow> env_error + KeyEnvelope" where
  "KeyEnvelopeFromProto marshal unmarshal row =
     (case row of
        None \<Rightarrow> Inl EnvelopeNil
      | Some r \<Rightarrow>
          (case EnvelopeFromProto marshal unmarshal (pb_ke_Envelope r) of
             Inl err \<Rightarrow> Inl err
           | Inr envelope \<Rightarrow> Inr \<lparr>ke_Key = pb_ke_Key r, ke_Envelope = envelope\<rparr>))"

section \<open>The causal order\<close>

text \<open>The pointwise order on clocks, missing entries counting as zero.\<close>

definition clock_le :: "VectorClock \<Rightarrow> VectorClock \<Rightarrow> bool" where
  "clock_le a b \<longleftrightarrow> (\<forall>n. vget a n \<le> vget b n)"

definition rel_le :: "Relation \<Rightarrow> bool" where
  "rel_le r \<longleftrightarrow> r = Before \<or> r = Equal"

fun rel_flip :: "Relation \<Rightarrow> Relation" where
  "rel_flip Equal = Equal"
| "rel_flip Before = After"
| "rel_flip After = Before"
| "rel_flip Concurrent = Concurrent"

lemma VectorClock_Clone_id [simp]: "gmap_ok vc \<Longrightarrow> VectorClock_Clone vc = vc"
  using fold_update_copy [of "[]" vc] by (simp add: VectorClock_Clone_def)

lemma fold_update_gmap_ok: "gmap_ok acc \<Longrightarrow> gmap_ok (fold (\<lambda>(k, v). AList.update k v) m acc)"
  by (induction m arbitrary: acc) auto

lemma gmap_ok_Clone [simp, intro]: "gmap_ok (VectorClock_Clone vc)"
  by (simp add: VectorClock_Clone_def fold_update_gmap_ok)

lemma clock_le_refl [simp]: "clock_le a a"
  by (simp add: clock_le_def)

lemma clock_le_trans [trans]: "clock_le a b \<Longrightarrow> clock_le b c \<Longrightarrow> clock_le a c"
  unfolding clock_le_def by (meson order_trans)

lemma gmap_ok_Merge_loop: "gmap_ok m \<Longrightarrow> gmap_ok (VectorClock_Merge_loop m b)"
  by (induction m b rule: VectorClock_Merge_loop.induct) auto

lemma gmap_ok_Merge [simp, intro]: "gmap_ok (VectorClock_Merge a b)"
  by (simp add: VectorClock_Merge_def gmap_ok_Merge_loop)

lemma vget_Merge_loop:
  "gmap_ok b \<Longrightarrow> vget (VectorClock_Merge_loop m b) n = max (vget m n) (vget b n)"
proof (induction m b rule: VectorClock_Merge_loop.induct)
  case (1 m)
  then show ?case by (simp add: max_def)
next
  case (2 m k c b)
  then have IH: "vget (VectorClock_Merge_loop
      (if c > vget m k then AList.update k c m else m) b) n
      = max (vget (if c > vget m k then AList.update k c m else m) n) (vget b n)"
    by simp
  from "2.prems" have "vget b k = 0" by (simp add: vget_notin)
  with IH show ?case by (auto simp: vget_Cons max_def word_gt_0)
qed

lemma vget_Merge:
  "gmap_ok a \<Longrightarrow> gmap_ok b \<Longrightarrow> vget (VectorClock_Merge a b) n = max (vget a n) (vget b n)"
  by (simp add: VectorClock_Merge_def vget_Merge_loop)

lemma vget_Increment:
  "gmap_ok vc \<Longrightarrow>
     vget (VectorClock_Increment vc n) k = (if k = n then vget vc n + 1 else vget vc k)"
  by (simp add: VectorClock_Increment_def Let_def)

lemma gmap_ok_Increment [simp, intro]: "gmap_ok (VectorClock_Increment vc n)"
  by (simp add: VectorClock_Increment_def Let_def)

subsection \<open>Compare decides the causal order\<close>

lemma Compare_loop1_iff:
  "Compare_loop1 a b (l, g) =
     (l \<or> (\<exists>(n, c)\<in>set a. c < vget b n), g \<or> (\<exists>(n, c)\<in>set a. c > vget b n))"
  by (induction a arbitrary: l g) (auto simp: Let_def)

lemma Compare_loop2_iff:
  "Compare_loop2 b a l = (l \<or> (\<exists>(n, c)\<in>set b. n \<notin> fst ` set a \<and> c > 0))"
proof (induction b arbitrary: l)
  case Nil
  then show ?case by simp
next
  case (Cons nc b)
  obtain n c where "nc = (n, c)" by (cases nc)
  moreover have "(map_of a n \<noteq> None) = (n \<in> fst ` set a)"
    by (simp add: map_of_eq_None_iff)
  ultimately show ?case using Cons.IH by auto
qed

lemma not_clock_le_split:
  assumes "gmap_ok a" and "gmap_ok b"
  shows "\<not> clock_le b a \<longleftrightarrow>
    (\<exists>(n, c)\<in>set a. c < vget b n) \<or> (\<exists>(n, c)\<in>set b. n \<notin> fst ` set a \<and> c > 0)" (is "_ \<longleftrightarrow> ?R")
proof
  assume "\<not> clock_le b a"
  then obtain n where n: "vget a n < vget b n" by (auto simp: clock_le_def not_le)
  show ?R
  proof (cases "n \<in> fst ` set a")
    case True
    then obtain c where "(n, c) \<in> set a" by auto
    moreover have "vget a n = c" using calculation assms(1) by (simp add: vget_in)
    ultimately show ?thesis using n by auto
  next
    case False
    then have "vget a n = 0" by (rule vget_notin)
    with n have pos: "vget b n > 0" by simp
    then have "n \<in> fst ` set b" using vget_notin [of n b] by force
    then obtain c where "(n, c) \<in> set b" by auto
    with pos assms(2) False show ?thesis by (auto simp: vget_in)
  qed
next
  assume ?R
  then consider n c where "(n, c) \<in> set a" "c < vget b n"
    | n c where "(n, c) \<in> set b" "n \<notin> fst ` set a" "c > 0" by blast
  then obtain n where "vget a n < vget b n"
    by cases (use assms in \<open>metis vget_in vget_notin\<close>)+
  then show "\<not> clock_le b a" by (auto simp: clock_le_def not_le)
qed

lemma not_clock_le_iff:
  assumes "gmap_ok a"
  shows "\<not> clock_le a b \<longleftrightarrow> (\<exists>(n, c)\<in>set a. c > vget b n)"
proof
  assume "\<not> clock_le a b"
  then obtain n where n: "vget b n < vget a n" by (auto simp: clock_le_def not_le)
  then have "n \<in> fst ` set a" using vget_notin [of n a] by force
  then obtain c where "(n, c) \<in> set a" by auto
  with n assms show "\<exists>(n, c)\<in>set a. c > vget b n" by (auto simp: vget_in)
next
  assume "\<exists>(n, c)\<in>set a. c > vget b n"
  then obtain n c where "(n, c) \<in> set a" "c > vget b n" by auto
  then have "vget b n < vget a n" using assms by (simp add: vget_in)
  then show "\<not> clock_le a b" by (auto simp: clock_le_def not_le)
qed

lemma Compare_eq:
  assumes "gmap_ok a" and "gmap_ok b"
  shows "Compare a b =
    (if clock_le a b then (if clock_le b a then Equal else Before)
     else (if clock_le b a then After else Concurrent))"
proof -
  have g: "snd (Compare_loop1 a b (False, False)) = (\<not> clock_le a b)"
    using not_clock_le_iff [OF assms(1)] by (simp add: Compare_loop1_iff)
  have l: "Compare_loop2 b a (fst (Compare_loop1 a b (False, False))) = (\<not> clock_le b a)"
    using not_clock_le_split [OF assms] by (simp add: Compare_loop1_iff Compare_loop2_iff)
  show ?thesis
    unfolding Compare_def using g l by (simp add: Let_def split_beta)
qed

section \<open>Versions ordered by a comparison\<close>

text \<open>
  What reconciliation and anti-entropy rely on: a comparison of versions that is reflexive,
  antisymmetric up to \<open>Equal\<close> and transitive on well-formed versions.
\<close>

locale version_order =
  fixes ok :: "'a \<Rightarrow> bool"
    and cmp :: "'a \<Rightarrow> 'a \<Rightarrow> Relation"
  assumes cmp_refl: "ok a \<Longrightarrow> cmp a a = Equal"
    and cmp_flip: "ok a \<Longrightarrow> ok b \<Longrightarrow> cmp b a = rel_flip (cmp a b)"
    and cmp_trans: "ok a \<Longrightarrow> ok b \<Longrightarrow> ok c \<Longrightarrow> rel_le (cmp a b) \<Longrightarrow> rel_le (cmp b c) \<Longrightarrow> rel_le (cmp a c)"
begin

lemma Before_After: "ok a \<Longrightarrow> ok b \<Longrightarrow> cmp a b = Before \<longleftrightarrow> cmp b a = After"
  using cmp_flip [of a b] by (cases "cmp a b") auto

lemma Equal_sym: "ok a \<Longrightarrow> ok b \<Longrightarrow> cmp a b = Equal \<longleftrightarrow> cmp b a = Equal"
  using cmp_flip [of a b] by (cases "cmp a b") auto

lemma Before_trans:
  assumes "ok a" "ok b" "ok c" "cmp a b = Before" "rel_le (cmp b c)"
  shows "cmp a c = Before"
proof (rule ccontr)
  assume "cmp a c \<noteq> Before"
  moreover have "rel_le (cmp a c)" using assms cmp_trans [of a b c] by (simp add: rel_le_def)
  ultimately have "cmp a c = Equal" by (simp add: rel_le_def)
  then have "rel_le (cmp c a)" using assms Equal_sym [of a c] by (simp add: rel_le_def)
  then have "rel_le (cmp b a)" using assms cmp_trans [of b c a] by blast
  moreover have "cmp b a = After" using assms Before_After by blast
  ultimately show False by (simp add: rel_le_def)
qed

text \<open>Above every version of a finite set there is one that nothing in the set dominates.\<close>

lemma maximal_above:
  assumes "finite S" "\<forall>y\<in>S. ok y" "x \<in> S"
  shows "\<exists>m\<in>S. rel_le (cmp x m) \<and> (\<forall>y\<in>S. cmp m y \<noteq> Before)"
  using assms
proof (induction "card {y\<in>S. cmp x y = Before}" arbitrary: x rule: less_induct)
  case less
  show ?case
  proof (cases "\<exists>y\<in>S. cmp x y = Before")
    case False
    then show ?thesis using less.prems cmp_refl by (auto simp: rel_le_def)
  next
    case True
    then obtain y where y: "y \<in> S" "cmp x y = Before" by blast
    have oks: "ok x" "ok y" using less.prems y by auto
    have "{z\<in>S. cmp y z = Before} \<subseteq> {z\<in>S. cmp x z = Before}"
      using Before_trans oks y less.prems by (auto simp: rel_le_def)
    moreover have "y \<in> {z\<in>S. cmp x z = Before}" "y \<notin> {z\<in>S. cmp y z = Before}"
      using y oks cmp_refl by auto
    ultimately have "{z\<in>S. cmp y z = Before} \<subset> {z\<in>S. cmp x z = Before}" by blast
    then have "card {z\<in>S. cmp y z = Before} < card {z\<in>S. cmp x z = Before}"
      using less.prems(1) by (simp add: psubset_card_mono)
    then obtain m where m: "m \<in> S" "rel_le (cmp y m)" "\<forall>z\<in>S. cmp m z \<noteq> Before"
      using less.hyps less.prems y by blast
    then have "cmp x m = Before" using Before_trans oks y less.prems by blast
    then show ?thesis using m by (auto simp: rel_le_def)
  qed
qed

lemma maximal_pair:
  assumes "ok a" "ok b" "cmp a b \<noteq> Before" "cmp b a \<noteq> Before" "cmp a b \<noteq> Equal"
  shows "cmp a b = Concurrent"
  using assms Before_After by (cases "cmp a b") auto

end

interpretation clocks: version_order "gmap_ok :: VectorClock \<Rightarrow> bool" Compare
proof unfold_locales
  show "Compare a a = Equal" if "gmap_ok a" for a :: VectorClock
    using that by (simp add: Compare_eq)
  show "Compare b a = rel_flip (Compare a b)" if "gmap_ok a" "gmap_ok b" for a b :: VectorClock
    using that by (simp add: Compare_eq)
  show "rel_le (Compare a c)"
    if "gmap_ok a" "gmap_ok b" "gmap_ok c" "rel_le (Compare a b)" "rel_le (Compare b c)"
    for a b c :: VectorClock
    using that clock_le_trans [of a b c] by (simp add: Compare_eq rel_le_def split: if_splits)
qed

lemma rel_le_Compare: "gmap_ok a \<Longrightarrow> gmap_ok b \<Longrightarrow> rel_le (Compare a b) \<longleftrightarrow> clock_le a b"
  by (simp add: Compare_eq rel_le_def)

section \<open>Reconciliation\<close>

definition env_ok :: "Envelope \<Rightarrow> bool" where
  "env_ok e \<longleftrightarrow> gmap_ok (Clock e)"

definition result_versions :: "ReconcileResult \<Rightarrow> Envelope list" where
  "result_versions r = (case Winner r of None \<Rightarrow> Siblings r | Some w \<Rightarrow> [w])"

lemma cloneEnvelope_id [simp]: "env_ok e \<Longrightarrow> cloneEnvelope e = e"
  by (simp add: cloneEnvelope_def env_ok_def)

lemma Reconcile_dominated_iff:
  "Reconcile_dominated i c js \<longleftrightarrow>
     (\<exists>(j, x)\<in>set js. j \<noteq> i \<and>
        (Compare (Clock c) (Clock x) = Before \<or> Compare (Clock c) (Clock x) = Equal \<and> j < i))"
  by (induction i c js rule: Reconcile_dominated.induct) (auto split: Relation.split)

lemma Reconcile_survivors_eq:
  "Reconcile_survivors vs xs =
     map (cloneEnvelope \<circ> snd)
       (filter (\<lambda>(i, c). \<not> Reconcile_dominated i c (List.enumerate 0 vs)) xs)"
  by (induction vs xs rule: Reconcile_survivors.induct) auto

definition survives :: "Envelope list \<Rightarrow> nat \<Rightarrow> bool" where
  "survives vs i \<longleftrightarrow> i < length vs \<and>
     (\<forall>j<length vs. Compare (Clock (vs ! i)) (Clock (vs ! j)) \<noteq> Before \<and>
        (Compare (Clock (vs ! i)) (Clock (vs ! j)) = Equal \<longrightarrow> i \<le> j))"

lemma not_dominated_iff_survives:
  assumes "i < length vs" and "env_ok (vs ! i)"
  shows "\<not> Reconcile_dominated i (vs ! i) (List.enumerate 0 vs) \<longleftrightarrow> survives vs i"
proof -
  have "Compare (Clock (vs ! i)) (Clock (vs ! i)) = Equal"
    using assms(2) clocks.cmp_refl by (simp add: env_ok_def)
  then show ?thesis
    using assms(1)
    unfolding Reconcile_dominated_iff survives_def enumerate_map_nth
    by (auto simp: not_less) (metis Relation.distinct(1) atLeast0LessThan lessThan_iff)
qed

lemma survivors_nths:
  assumes "\<forall>v\<in>set vs. env_ok v"
  shows "Reconcile_survivors vs (List.enumerate 0 vs) =
    map (\<lambda>i. vs ! i) (filter (survives vs) [0..<length vs])"
proof -
  let ?dom = "\<lambda>i. Reconcile_dominated i (vs ! i) (List.enumerate 0 vs)"
  have "filter (\<lambda>(i, c). \<not> Reconcile_dominated i c (List.enumerate 0 vs)) (List.enumerate 0 vs)
      = map (\<lambda>i. (i, vs ! i)) (filter (\<lambda>i. \<not> ?dom i) [0..<length vs])"
    by (subst (2) enumerate_map_nth) (simp add: filter_map o_def)
  also have "filter (\<lambda>i. \<not> ?dom i) [0..<length vs] = filter (survives vs) [0..<length vs]"
    using assms by (intro filter_cong) (auto simp: not_dominated_iff_survives)
  finally show ?thesis
    unfolding Reconcile_survivors_eq using assms by simp
qed

lemma Reconcile_versions:
  assumes "\<forall>v\<in>set vs. env_ok v"
  shows "result_versions (Reconcile vs) = map (\<lambda>i. vs ! i) (filter (survives vs) [0..<length vs])"
  using survivors_nths [OF assms]
  by (auto simp: Reconcile_def result_versions_def Let_def length_Suc_conv)

lemma survives_above:
  assumes "\<forall>v\<in>set vs. env_ok v" and "k < length vs"
  shows "\<exists>i. survives vs i \<and> clock_le (Clock (vs ! k)) (Clock (vs ! i))"
proof -
  let ?S = "Clock ` set vs"
  have "\<forall>y\<in>?S. gmap_ok y" "Clock (vs ! k) \<in> ?S" using assms by (auto simp: env_ok_def)
  then obtain m where m: "m \<in> ?S" "rel_le (Compare (Clock (vs ! k)) m)"
      "\<forall>y\<in>?S. Compare m y \<noteq> Before"
    using clocks.maximal_above [of ?S "Clock (vs ! k)"] by auto
  let ?P = "\<lambda>i. i < length vs \<and> Compare (Clock (vs ! i)) m = Equal"
  from m(1) obtain i0 where "i0 < length vs" "m = Clock (vs ! i0)"
    by (auto simp: in_set_conv_nth)
  with assms(1) have "?P i0" by (simp add: env_ok_def clocks.cmp_refl)
  then have "\<exists>i. ?P i" by blast
  then have P: "?P (LEAST i. ?P i)" by (rule LeastI_ex)
  have least: "(LEAST i. ?P i) \<le> j" if "?P j" for j using that by (rule Least_le)
  define i where "i = (LEAST i. ?P i)"
  have i: "i < length vs" "Compare (Clock (vs ! i)) m = Equal" using P by (auto simp: i_def)
  have oks: "gmap_ok (Clock (vs ! j))" if "j < length vs" for j
    using that assms(1) by (simp add: env_ok_def)
  have okm: "gmap_ok m" using m(1) assms(1) by (auto simp: env_ok_def)
  have le: "clock_le (Clock (vs ! i)) m" "clock_le m (Clock (vs ! i))"
    using i oks okm by (auto simp: Compare_eq split: if_splits)
  have "survives vs i"
    unfolding survives_def
  proof (intro conjI allI impI)
    fix j assume j: "j < length vs"
    have step: "clock_le (Clock (vs ! i)) (Clock (vs ! j)) = clock_le m (Clock (vs ! j))"
      "clock_le (Clock (vs ! j)) (Clock (vs ! i)) = clock_le (Clock (vs ! j)) m"
      using le clock_le_trans by blast+
    then have same: "Compare (Clock (vs ! i)) (Clock (vs ! j)) = Compare m (Clock (vs ! j))"
      using oks okm i(1) j by (simp add: Compare_eq)
    then show "Compare (Clock (vs ! i)) (Clock (vs ! j)) \<noteq> Before"
      using m(3) j by simp
    show "i \<le> j" if "Compare (Clock (vs ! i)) (Clock (vs ! j)) = Equal"
    proof -
      have "Compare (Clock (vs ! j)) m = Equal"
        using that same clocks.Equal_sym [OF okm oks [OF j]] by simp
      then show ?thesis using least j by (simp add: i_def)
    qed
  qed (rule i(1))
  moreover have "clock_le (Clock (vs ! k)) (Clock (vs ! i))"
    using m(2) oks okm assms(2) le clock_le_trans by (metis rel_le_Compare)
  ultimately show ?thesis by blast
qed

lemma fold_Merge_vget:
  "gmap_ok c \<Longrightarrow> \<forall>v\<in>set vs. env_ok v \<Longrightarrow>
     vget (fold (\<lambda>e c. VectorClock_Merge c (Clock e)) vs c) n =
       fold (\<lambda>e m. max m (vget (Clock e) n)) vs (vget c n)"
  by (induction vs arbitrary: c) (auto simp: vget_Merge env_ok_def)

lemma fold_Merge_gmap_ok:
  "gmap_ok c \<Longrightarrow> gmap_ok (fold (\<lambda>e c. VectorClock_Merge c (Clock e)) vs c)"
  by (induction vs arbitrary: c) auto

lemma fold_max_ge:
  fixes f :: "'a \<Rightarrow> 'b::linorder"
  shows "(\<forall>v\<in>set vs. f v \<le> fold (\<lambda>e m. max m (f e)) vs c) \<and> c \<le> fold (\<lambda>e m. max m (f e)) vs c"
  by (induction vs arbitrary: c) (simp_all, meson max.bounded_iff)

lemma fold_max_le:
  fixes f :: "'a \<Rightarrow> 'b::linorder"
  shows "c \<le> u \<Longrightarrow> \<forall>v\<in>set vs. f v \<le> u \<Longrightarrow> fold (\<lambda>e m. max m (f e)) vs c \<le> u"
  by (induction vs arbitrary: c) auto

text \<open>The context of a reconciliation is the least upper bound of the surviving clocks.\<close>

lemma Reconcile_context_lub:
  assumes "\<forall>v\<in>set vs. env_ok v"
  shows "\<forall>v\<in>set (result_versions (Reconcile vs)). clock_le (Clock v) (Context (Reconcile vs))"
    and "\<forall>v\<in>set (result_versions (Reconcile vs)). clock_le (Clock v) u
         \<Longrightarrow> clock_le (Context (Reconcile vs)) u"
    and "gmap_ok (Context (Reconcile vs))"
proof -
  let ?S = "result_versions (Reconcile vs)"
  let ?join = "fold (\<lambda>e c. VectorClock_Merge c (Clock e)) ?S []"
  have ctx: "Context (Reconcile vs) = ?join"
    using Reconcile_versions [OF assms] survivors_nths [OF assms]
    by (simp add: Reconcile_def Let_def)
  have oks: "\<forall>v\<in>set ?S. env_ok v" using assms by (auto simp: Reconcile_versions [OF assms] survives_def)
  have at: "vget (Context (Reconcile vs)) n = fold (\<lambda>e m. max m (vget (Clock e) n)) ?S 0" for n
    using fold_Merge_vget [OF _ oks, of "[]" n] by (simp add: ctx)
  show "\<forall>v\<in>set ?S. clock_le (Clock v) (Context (Reconcile vs))"
    using fold_max_ge [of ?S "\<lambda>e. vget (Clock e) n" 0 for n] by (simp add: clock_le_def at)
  show "clock_le (Context (Reconcile vs)) u" if "\<forall>v\<in>set ?S. clock_le (Clock v) u"
    using that by (auto simp: clock_le_def at intro!: fold_max_le)
  show "gmap_ok (Context (Reconcile vs))"
    by (simp add: ctx fold_Merge_gmap_ok)
qed

lemma survives_concurrent:
  assumes "\<forall>v\<in>set vs. env_ok v" "survives vs i" "survives vs j" "i \<noteq> j"
  shows "Compare (Clock (vs ! i)) (Clock (vs ! j)) = Concurrent"
proof (rule clocks.maximal_pair)
  have ij: "i < length vs" "j < length vs" using assms by (auto simp: survives_def)
  then show oks: "gmap_ok (Clock (vs ! i))" "gmap_ok (Clock (vs ! j))"
    using assms(1) by (auto simp: env_ok_def)
  show "Compare (Clock (vs ! i)) (Clock (vs ! j)) \<noteq> Before"
    and "Compare (Clock (vs ! j)) (Clock (vs ! i)) \<noteq> Before"
    using assms(2,3) ij by (auto simp: survives_def)
  show "Compare (Clock (vs ! i)) (Clock (vs ! j)) \<noteq> Equal"
    using assms(2-4) ij clocks.Equal_sym [OF oks] unfolding survives_def
    by (metis order_antisym)
qed

text \<open>An increment that does not overflow is strictly after everything below the old clock.\<close>

lemma Increment_after:
  assumes "gmap_ok c" and "vget c n \<noteq> -1" and "gmap_ok a" and "clock_le a c"
  shows "Compare a (VectorClock_Increment c n) = Before"
proof -
  have lt: "vget c n < vget c n + 1"
    using assms(2) by (rule u64_less_inc)
  have an: "vget a k \<le> vget c k" for k using assms(4) by (simp add: clock_le_def)
  have "vget a k \<le> vget (VectorClock_Increment c n) k" for k
    using an [of k] lt by (auto simp: vget_Increment [OF assms(1)])
  then have "clock_le a (VectorClock_Increment c n)" by (simp add: clock_le_def)
  moreover have "vget a n < vget (VectorClock_Increment c n) n"
    using an [of n] lt by (simp add: vget_Increment [OF assms(1)])
  then have "\<not> clock_le (VectorClock_Increment c n) a"
    unfolding clock_le_def by (meson leD)
  ultimately show ?thesis using assms by (simp add: Compare_eq)
qed

subsection \<open>Last writer wins\<close>

lemma stableEnvelopeLess_irrefl: "\<not> stableEnvelopeLess a a"
  by (simp add: stableEnvelopeLess_def)

lemma stableEnvelopeLess_neg_trans:
  "\<not> stableEnvelopeLess b a \<Longrightarrow> \<not> stableEnvelopeLess c b \<Longrightarrow> \<not> stableEnvelopeLess c a"
  by (auto simp: stableEnvelopeLess_def split: if_splits)

lemma stableEnvelopeLess_asym: "stableEnvelopeLess a b \<Longrightarrow> \<not> stableEnvelopeLess b a"
  by (auto simp: stableEnvelopeLess_def split: if_splits)

definition lww_ge :: "Envelope \<Rightarrow> Envelope \<Rightarrow> bool" where
  "lww_ge p v \<longleftrightarrow> UpdatedAtUnixNano v \<le> UpdatedAtUnixNano p \<and>
     (UpdatedAtUnixNano v = UpdatedAtUnixNano p \<longrightarrow> \<not> stableEnvelopeLess p v)"

lemma lww_ge_trans: "lww_ge p q \<Longrightarrow> lww_ge q v \<Longrightarrow> lww_ge p v"
  unfolding lww_ge_def using stableEnvelopeLess_neg_trans by force

lemma PickByTimestamp_loop_ge:
  "env_ok p \<Longrightarrow> \<forall>v\<in>set vs. env_ok v \<Longrightarrow>
     PickByTimestamp_loop p vs \<in> set (p # vs) \<and>
     (\<forall>v\<in>set (p # vs). lww_ge (PickByTimestamp_loop p vs) v)"
proof (induction vs arbitrary: p)
  case Nil
  then show ?case by (simp add: lww_ge_def stableEnvelopeLess_irrefl)
next
  case (Cons v vs)
  let ?better = "UpdatedAtUnixNano v > UpdatedAtUnixNano p
    \<or> UpdatedAtUnixNano v = UpdatedAtUnixNano p \<and> stableEnvelopeLess p v"
  let ?q = "if ?better then v else p"
  have step: "PickByTimestamp_loop p (v # vs) = PickByTimestamp_loop ?q vs"
    using Cons.prems by simp
  have q: "lww_ge ?q p" "lww_ge ?q v"
    using stableEnvelopeLess_asym by (auto simp: lww_ge_def stableEnvelopeLess_irrefl)
  have "env_ok ?q" using Cons.prems by simp
  then have IH: "PickByTimestamp_loop ?q vs \<in> set (?q # vs)"
    "\<forall>w\<in>set (?q # vs). lww_ge (PickByTimestamp_loop ?q vs) w"
    using Cons.IH Cons.prems(2) by simp_all
  then have "lww_ge (PickByTimestamp_loop ?q vs) ?q" by simp
  then have "lww_ge (PickByTimestamp_loop ?q vs) p" "lww_ge (PickByTimestamp_loop ?q vs) v"
    using q lww_ge_trans by blast+
  moreover have "PickByTimestamp_loop ?q vs \<in> set (p # v # vs)"
    using IH(1) by (auto split: if_splits)
  ultimately show ?case unfolding step using IH(2) by simp
qed

section \<open>Properties of vector clocks\<close>

text \<open>
  C17: \<open>Compare\<close> decides the causal order of two clocks (pointwise comparison of counters, a
  missing node counting as 0): each of its four answers is given exactly when it is right.
\<close>

theorem Compare_decides_causality:
  assumes "gmap_ok a" and "gmap_ok b"
  shows "(Compare a b = Equal \<longleftrightarrow> clock_le a b \<and> clock_le b a)
    \<and> (Compare a b = Before \<longleftrightarrow> clock_le a b \<and> \<not> clock_le b a)
    \<and> (Compare a b = After \<longleftrightarrow> clock_le b a \<and> \<not> clock_le a b)
    \<and> (Compare a b = Concurrent \<longleftrightarrow> \<not> clock_le a b \<and> \<not> clock_le b a)"
  using Compare_eq [OF assms] by simp

theorem Compare_decides_causality_witness:
  "Compare [(''a'', 1)] [(''b'', 2), (''a'', 1)] = Before \<and>
   clock_le [(''a'', 1)] [(''b'', 2), (''a'', 1)]"
proof -
  have "Compare [(''a'', 1)] [(''b'', 2), (''a'', 1)] = Before"
    by (simp add: Compare_def vget_def Let_def)
  then show ?thesis
    using Compare_decides_causality [of "[(''a'', 1)]" "[(''b'', 2), (''a'', 1)]"] by simp
qed

text \<open>
  C18: \<open>Merge\<close> of two clocks is their least upper bound in the causal order.
\<close>

theorem Merge_is_join:
  assumes "gmap_ok a" and "gmap_ok b"
  shows "gmap_ok (VectorClock_Merge a b) \<and> clock_le a (VectorClock_Merge a b)
    \<and> clock_le b (VectorClock_Merge a b)
    \<and> (\<forall>u. clock_le a u \<longrightarrow> clock_le b u \<longrightarrow> clock_le (VectorClock_Merge a b) u)"
  using assms by (simp add: clock_le_def vget_Merge)

theorem Merge_is_join_witness:
  "clock_le [(''b'', 3)] (VectorClock_Merge [(''a'', 1)] [(''b'', 3)])"
  using Merge_is_join [of "[(''a'', 1)]" "[(''b'', 3)]"] by simp

text \<open>
  C8: reconciliation. The versions returned are input versions and are pairwise concurrent;
  every input version is causally covered by a returned one; and a write that increments the
  returned context (without counter overflow) causally dominates every input version.
\<close>

theorem Reconcile_correct:
  assumes "\<forall>v\<in>set vs. env_ok v" and "vget (Context (Reconcile vs)) node \<noteq> -1"
  shows "set (result_versions (Reconcile vs)) \<subseteq> set vs
    \<and> (\<forall>i<length (result_versions (Reconcile vs)). \<forall>j<length (result_versions (Reconcile vs)).
         i \<noteq> j \<longrightarrow> Compare (Clock (result_versions (Reconcile vs) ! i))
                           (Clock (result_versions (Reconcile vs) ! j)) = Concurrent)
    \<and> (\<forall>v\<in>set vs. \<exists>s\<in>set (result_versions (Reconcile vs)). clock_le (Clock v) (Clock s))
    \<and> (\<forall>v\<in>set vs. Compare (Clock v)
         (VectorClock_Increment (Context (Reconcile vs)) node) = Before)"
proof (intro conjI)
  let ?S = "result_versions (Reconcile vs)"
  let ?C = "Context (Reconcile vs)"
  let ?is = "filter (survives vs) [0..<length vs]"
  have S: "?S = map (\<lambda>i. vs ! i) ?is" by (rule Reconcile_versions [OF assms(1)])
  show "set ?S \<subseteq> set vs" by (auto simp: S)
  show "\<forall>i<length ?S. \<forall>j<length ?S. i \<noteq> j \<longrightarrow> Compare (Clock (?S ! i)) (Clock (?S ! j)) = Concurrent"
  proof (intro allI impI)
    fix i j assume ij: "i < length ?S" "j < length ?S" "i \<noteq> j"
    have "?is ! i \<noteq> ?is ! j" using ij by (simp add: S nth_eq_iff_index_eq)
    moreover have "survives vs (?is ! i)" "survives vs (?is ! j)"
      using ij nth_mem [of _ ?is] by (auto simp: S)
    ultimately show "Compare (Clock (?S ! i)) (Clock (?S ! j)) = Concurrent"
      using survives_concurrent [OF assms(1)] ij by (simp add: S)
  qed
  show cover: "\<forall>v\<in>set vs. \<exists>s\<in>set ?S. clock_le (Clock v) (Clock s)"
    using survives_above [OF assms(1)] by (force simp: S in_set_conv_nth survives_def)
  have okC: "gmap_ok ?C" by (rule Reconcile_context_lub [OF assms(1)])
  show "\<forall>v\<in>set vs. Compare (Clock v) (VectorClock_Increment ?C node) = Before"
    using cover Reconcile_context_lub(1) [OF assms(1)] clock_le_trans
      Increment_after [OF okC assms(2)] assms(1) by (metis env_ok_def)
qed

theorem Reconcile_correct_witness:
  "set (result_versions (Reconcile [NewPut [(''a'', 1)] ''x'' 5, NewPut [(''b'', 1)] ''y'' 6,
      NewDelete [(''a'', 1), (''c'', 2)] 7]))
   \<subseteq> {NewPut [(''a'', 1)] ''x'' 5, NewPut [(''b'', 1)] ''y'' 6,
      NewDelete [(''a'', 1), (''c'', 2)] 7}"
proof -
  let ?vs = "[NewPut [(''a'', 1)] ''x'' 5, NewPut [(''b'', 1)] ''y'' 6,
      NewDelete [(''a'', 1), (''c'', 2)] 7]"
  have ok: "\<forall>v\<in>set ?vs. env_ok v" by (simp add: env_ok_def NewPut_def NewDelete_def)
  have "Context (Reconcile ?vs) = [(''b'', 1), (''a'', 1), (''c'', 2)]"
    by (simp add: Reconcile_def cloneEnvelope_def VectorClock_Clone_def Compare_def vget_def
        VectorClock_Merge_def Let_def NewPut_def NewDelete_def)
  then have "vget (Context (Reconcile ?vs)) ''a'' \<noteq> -1" by (simp add: vget_def)
  from Reconcile_correct [OF ok this] show ?thesis by simp
qed

text \<open>
  C19: the last-writer-wins helper \<open>PickByTimestamp\<close> returns one of its inputs, none of the
  inputs is more recent, and among the equally recent ones none is larger in the tie-break order
  (live before deleted, then by value, then by the printed clock).
\<close>

theorem PickByTimestamp_max:
  assumes "vs \<noteq> []" and "\<forall>v\<in>set vs. env_ok v"
  shows "PickByTimestamp vs \<in> set vs \<and>
    (\<forall>v\<in>set vs. UpdatedAtUnixNano v \<le> UpdatedAtUnixNano (PickByTimestamp vs) \<and>
      (UpdatedAtUnixNano v = UpdatedAtUnixNano (PickByTimestamp vs) \<longrightarrow>
         \<not> stableEnvelopeLess (PickByTimestamp vs) v))"
proof -
  obtain v rest where vs: "vs = v # rest" using assms(1) by (cases vs) auto
  have "PickByTimestamp vs = PickByTimestamp_loop v rest"
    using assms(2) by (simp add: PickByTimestamp_def vs)
  then show ?thesis
    using PickByTimestamp_loop_ge [of v rest] assms(2) by (simp add: vs lww_ge_def)
qed

theorem PickByTimestamp_max_witness:
  "PickByTimestamp [NewPut [(''a'', 1)] ''x'' 5, NewDelete [(''b'', 1)] 9] \<in>
     set [NewPut [(''a'', 1)] ''x'' 5, NewDelete [(''b'', 1)] 9]"
  using PickByTimestamp_max [of "[NewPut [(''a'', 1)] ''x'' 5, NewDelete [(''b'', 1)] 9]"]
  by (simp add: env_ok_def NewPut_def NewDelete_def)

end
