(* ===== verification/Ring.thy ===== *)
theory Ring
  imports Prelude
begin

text \<open>
  The range map: \<open>src/cluster/ring/range.go\<close> and \<open>src/cluster/ring/rangemap.go\<close>.

  A \<open>Range\<close> is a half-open key interval with its replicas, generation and proposal id; the
  empty string as a bound means unbounded. A Go panic is the outer \<open>None\<close>; an error return is
  \<open>Inl\<close>. The set of bumped proposals is a list of references.
\<close>

section \<open>range.go\<close>

record Range =
  Start :: string
  End :: string
  Replicas :: "string list"
  Generation :: u64
  ProposalID :: string

definition Range_Contains :: "Range \<Rightarrow> string \<Rightarrow> bool" where
  "Range_Contains r key =
     (if Start r \<noteq> '''' \<and> key < Start r then False
      else if End r \<noteq> '''' \<and> key \<ge> End r then False
      else True)"

definition Range_Clone :: "Range \<Rightarrow> Range" where
  "Range_Clone r =
     \<lparr>Start = Start r, End = End r, Replicas = [] @ Replicas r, Generation = Generation r,
      ProposalID = ProposalID r\<rparr>"

section \<open>rangemap.go\<close>

record RangeMap =
  Ranges :: "Range list"

definition RangeMap_Clone :: "RangeMap \<Rightarrow> RangeMap" where
  "RangeMap_Clone m = \<lparr>Ranges = map Range_Clone (Ranges m)\<rparr>"

definition RangeMap_Epoch :: "RangeMap \<Rightarrow> u64" where
  "RangeMap_Epoch m =
     fold (\<lambda>r epoch. if Generation r > epoch then Generation r else epoch) (Ranges m) 0"

datatype rm_error =
    NoRanges
  | FirstRangeBounded string
  | LastRangeBounded string
  | GenerationZero nat
  | NoProposalID nat
  | NoReplicas nat
  | EmptyOrInverted nat
  | NotContiguous nat
  | InvalidCurrent rm_error
  | InvalidIncoming rm_error
  | TieAtMaxGeneration
  | InvalidMerged rm_error

fun RangeMap_Validate_loop :: "Range list \<Rightarrow> nat \<Rightarrow> Range list \<Rightarrow> rm_error + unit" where
  "RangeMap_Validate_loop ranges i [] = Inr ()"
| "RangeMap_Validate_loop ranges i (r # rest) =
     (if Generation r = 0 then Inl (GenerationZero i)
      else if ProposalID r = '''' then Inl (NoProposalID i)
      else if length (Replicas r) = 0 then Inl (NoReplicas i)
      else if End r \<noteq> '''' \<and> Start r \<ge> End r then Inl (EmptyOrInverted i)
      else if i = 0 then RangeMap_Validate_loop ranges (Suc i) rest
      else if Start r \<noteq> End (ranges ! (i - 1)) then Inl (NotContiguous i)
      else RangeMap_Validate_loop ranges (Suc i) rest)"

definition RangeMap_Validate :: "RangeMap \<Rightarrow> rm_error + unit" where
  "RangeMap_Validate m =
     (if length (Ranges m) = 0 then Inl NoRanges
      else if Start (Ranges m ! 0) \<noteq> '''' then Inl (FirstRangeBounded (Start (Ranges m ! 0)))
      else if End (Ranges m ! (length (Ranges m) - 1)) \<noteq> ''''
      then Inl (LastRangeBounded (End (Ranges m ! (length (Ranges m) - 1))))
      else RangeMap_Validate_loop (Ranges m) 0 (Ranges m))"

record rangeSource =
  side :: nat
  src_index :: nat

record mergedSegment =
  seg_start :: string
  seg_end :: string
  seg_range :: Range
  seg_source :: rangeSource

record proposalRef =
  ref_side :: nat
  ref_proposalID :: string
  ref_generation :: u64
  ref_index :: int

definition mergeBoundaries :: "RangeMap \<Rightarrow> RangeMap \<Rightarrow> string list" where
  "mergeBoundaries left right =
     (let unique = remdups (filter (\<lambda>b. b \<noteq> '''') (map End (Ranges left @ Ranges right)))
      in sort unique)"

fun rangeIndexAt_loop :: "nat \<Rightarrow> Range list \<Rightarrow> string \<Rightarrow> nat option" where
  "rangeIndexAt_loop i [] key = None"
| "rangeIndexAt_loop i (r # rest) key =
     (if Range_Contains r key then Some i else rangeIndexAt_loop (Suc i) rest key)"

definition rangeIndexAt :: "Range list \<Rightarrow> string \<Rightarrow> nat option" where
  "rangeIndexAt ranges key = rangeIndexAt_loop 0 ranges key"

definition sameRangeMetadata :: "Range \<Rightarrow> Range \<Rightarrow> bool" where
  "sameRangeMetadata left right =
     (Generation left = Generation right \<and> ProposalID left = ProposalID right
      \<and> Replicas left = Replicas right)"

definition rangesEqual :: "Range \<Rightarrow> Range \<Rightarrow> bool" where
  "rangesEqual left right =
     (Start left = Start right \<and> End left = End right \<and> sameRangeMetadata left right)"

definition rangeMapsEqual :: "RangeMap \<Rightarrow> RangeMap \<Rightarrow> bool" where
  "rangeMapsEqual left right =
     (if length (Ranges left) \<noteq> length (Ranges right) then False
      else list_all2 rangesEqual (Ranges left) (Ranges right))"

fun compareReplicas :: "string list \<Rightarrow> string list \<Rightarrow> int" where
  "compareReplicas [] [] = 0"
| "compareReplicas [] (y # ys) = -1"
| "compareReplicas (x # xs) [] = 1"
| "compareReplicas (x # xs) (y # ys) =
     (if x < y then -1 else if x > y then 1 else compareReplicas xs ys)"

definition compareTieCandidate :: "Range \<Rightarrow> Range \<Rightarrow> int" where
  "compareTieCandidate left right =
     (if ProposalID left < ProposalID right then -1
      else if ProposalID left > ProposalID right then 1
      else if Start left < Start right then -1
      else if Start left > Start right then 1
      else if End left < End right then -1
      else if End left > End right then 1
      else compareReplicas (Replicas left) (Replicas right))"

definition pickRange ::
  "Range \<Rightarrow> Range \<Rightarrow> nat \<Rightarrow> nat \<Rightarrow> Range \<times> rangeSource \<times> bool" where
  "pickRange local incoming localIndex incomingIndex =
     (if Generation local > Generation incoming
      then (Range_Clone local, \<lparr>side = 0, src_index = localIndex\<rparr>, False)
      else if Generation incoming > Generation local
      then (Range_Clone incoming, \<lparr>side = 1, src_index = incomingIndex\<rparr>, False)
      else if rangesEqual local incoming
      then (Range_Clone local, \<lparr>side = 0, src_index = localIndex\<rparr>, False)
      else if compareTieCandidate local incoming \<le> 0
      then (Range_Clone local, \<lparr>side = 0, src_index = localIndex\<rparr>, True)
      else (Range_Clone incoming, \<lparr>side = 1, src_index = incomingIndex\<rparr>, True))"

definition proposalReference :: "rangeSource \<Rightarrow> Range \<Rightarrow> proposalRef" where
  "proposalReference source r =
     \<lparr>ref_side = side source, ref_proposalID = ProposalID r, ref_generation = Generation r,
      ref_index = (if ProposalID r = '''' then int (src_index source) else -1)\<rparr>"

fun coalesceSegments_loop ::
  "Range list \<Rightarrow> rangeSource list \<Rightarrow> mergedSegment list \<Rightarrow> Range list" where
  "coalesceSegments_loop ranges sources [] = ranges"
| "coalesceSegments_loop ranges sources (segment # rest) =
     (let r = (Range_Clone (seg_range segment))\<lparr>Start := seg_start segment, End := seg_end segment\<rparr>
      in if length ranges > 0 \<and> sources ! (length sources - 1) = seg_source segment
            \<and> sameRangeMetadata (ranges ! (length ranges - 1)) r
         then coalesceSegments_loop
                (ranges[length ranges - 1 := (ranges ! (length ranges - 1))\<lparr>End := End r\<rparr>])
                sources rest
         else coalesceSegments_loop (ranges @ [r]) (sources @ [seg_source segment]) rest)"

definition coalesceSegments :: "mergedSegment list \<Rightarrow> Range list" where
  "coalesceSegments segments = coalesceSegments_loop [] [] segments"

text \<open>The segment loop of \<open>Merge\<close>: one segment per boundary, and the references to bump.\<close>

fun RangeMap_Merge_loop ::
  "Range list \<Rightarrow> Range list \<Rightarrow> string \<Rightarrow> string list \<Rightarrow> mergedSegment list \<Rightarrow> proposalRef list
     \<Rightarrow> (rm_error + (mergedSegment list \<times> proposalRef list)) option" where
  "RangeMap_Merge_loop ls rs start [] segments bumps = Some (Inr (segments, bumps))"
| "RangeMap_Merge_loop ls rs start (e # ends) segments bumps =
     (case (rangeIndexAt ls start, rangeIndexAt rs start) of
        (Some localIndex, Some incomingIndex) \<Rightarrow>
          (let (winner, source, tied) =
                 pickRange (ls ! localIndex) (rs ! incomingIndex) localIndex incomingIndex;
               segment = \<lparr>seg_start = start, seg_end = e, seg_range = winner, seg_source = source\<rparr>
           in if tied \<and> Generation winner = -1 then Some (Inl TieAtMaxGeneration)
              else RangeMap_Merge_loop ls rs e ends (segments @ [segment])
                     (if tied then proposalReference source winner # bumps else bumps))
      | _ \<Rightarrow> None)"

definition bumpSegment :: "proposalRef list \<Rightarrow> mergedSegment \<Rightarrow> mergedSegment" where
  "bumpSegment bumps s =
     (if proposalReference (seg_source s) (seg_range s) \<in> set bumps
      then s\<lparr>seg_range := (seg_range s)\<lparr>Generation := Generation (seg_range s) + 1\<rparr>\<rparr> else s)"

definition RangeMap_Merge :: "RangeMap \<Rightarrow> RangeMap \<Rightarrow> (rm_error + (RangeMap \<times> bool)) option" where
  "RangeMap_Merge m incoming =
     (case RangeMap_Validate m of
        Inl err \<Rightarrow> Some (Inl (InvalidCurrent err))
      | Inr _ \<Rightarrow>
     (case RangeMap_Validate incoming of
        Inl err \<Rightarrow> Some (Inl (InvalidIncoming err))
      | Inr _ \<Rightarrow>
     (case RangeMap_Merge_loop (Ranges m) (Ranges incoming) ''''
             (mergeBoundaries m incoming @ ['''']) [] [] of
        None \<Rightarrow> None
      | Some (Inl err) \<Rightarrow> Some (Inl err)
      | Some (Inr (segments, bumps)) \<Rightarrow>
          (let result = \<lparr>Ranges = coalesceSegments (map (bumpSegment bumps) segments)\<rparr>
           in case RangeMap_Validate result of
                Inl err \<Rightarrow> Some (Inl (InvalidMerged err))
              | Inr _ \<Rightarrow> Some (Inr (result, \<not> rangeMapsEqual m result))))))"

fun RangeMap_Owners_loop :: "Range list \<Rightarrow> string \<Rightarrow> (string list \<times> bool)" where
  "RangeMap_Owners_loop [] key = ([], False)"
| "RangeMap_Owners_loop (r # rest) key =
     (if Range_Contains r key then (Replicas r, True) else RangeMap_Owners_loop rest key)"

definition RangeMap_Owners :: "RangeMap \<Rightarrow> string \<Rightarrow> (string list \<times> bool)" where
  "RangeMap_Owners m key = RangeMap_Owners_loop (Ranges m) key"

fun OwnersForKeyRange_loop :: "Range list \<Rightarrow> string \<Rightarrow> string \<Rightarrow> (string list \<times> bool)" where
  "OwnersForKeyRange_loop [] s e = ([], False)"
| "OwnersForKeyRange_loop (r # rest) s e =
     (if \<not> Range_Contains r s then OwnersForKeyRange_loop rest s e
      else if End r \<noteq> '''' \<and> e \<ge> End r then ([], False)
      else (Replicas r, True))"

definition RangeMap_OwnersForKeyRange :: "RangeMap \<Rightarrow> string \<Rightarrow> string \<Rightarrow> (string list \<times> bool)" where
  "RangeMap_OwnersForKeyRange m s e = OwnersForKeyRange_loop (Ranges m) s e"

fun OwnersForRange_loop :: "Range list \<Rightarrow> string \<Rightarrow> string \<Rightarrow> (string list \<times> bool)" where
  "OwnersForRange_loop [] s e = ([], False)"
| "OwnersForRange_loop (r # rest) s e =
     (if \<not> Range_Contains r s then OwnersForRange_loop rest s e
      else if e = '''' then (if End r \<noteq> '''' then ([], False) else (Replicas r, True))
      else if End r \<noteq> '''' \<and> e > End r then ([], False)
      else (Replicas r, True))"

definition RangeMap_OwnersForRange :: "RangeMap \<Rightarrow> string \<Rightarrow> string \<Rightarrow> (string list \<times> bool)" where
  "RangeMap_OwnersForRange m s e =
     (if e \<noteq> '''' \<and> s \<ge> e then ([], False) else OwnersForRange_loop (Ranges m) s e)"

section \<open>What a valid range map is\<close>

definition range_ok :: "Range \<Rightarrow> bool" where
  "range_ok r \<longleftrightarrow> Generation r \<noteq> 0 \<and> ProposalID r \<noteq> '''' \<and> Replicas r \<noteq> []
     \<and> (End r \<noteq> '''' \<longrightarrow> Start r < End r)"

fun chain :: "string \<Rightarrow> Range list \<Rightarrow> bool" where
  "chain e [] = True"
| "chain e (r # rs) = (Start r = e \<and> chain (End r) rs)"

definition ranges_valid :: "Range list \<Rightarrow> bool" where
  "ranges_valid rs \<longleftrightarrow> rs \<noteq> [] \<and> (\<forall>r\<in>set rs. range_ok r) \<and> chain '''' rs \<and> End (last rs) = ''''"

text \<open>No range but the last is unbounded above: what \<open>Validate\<close> does not check.\<close>

definition ranges_proper :: "Range list \<Rightarrow> bool" where
  "ranges_proper rs \<longleftrightarrow> (\<forall>r\<in>set (butlast rs). End r \<noteq> '''')"

definition range_at :: "Range list \<Rightarrow> string \<Rightarrow> Range option" where
  "range_at rs key = find (\<lambda>r. Range_Contains r key) rs"

lemma Range_Clone_id [simp]: "Range_Clone r = r"
  by (simp add: Range_Clone_def)

lemma RangeMap_Clone_id [simp]: "RangeMap_Clone m = m"
  by (simp add: RangeMap_Clone_def map_idI)

lemma empty_le_string [simp]: "([] :: string) \<le> s"
  by (cases s) (simp_all add: list_le_def)

lemma empty_less_string [simp]: "([] :: string) < s \<longleftrightarrow> s \<noteq> []"
  by (cases s) simp_all

lemma not_less_empty_string [simp]: "\<not> (s :: string) < []"
  by simp

lemma Range_Contains_iff:
  "Range_Contains r k \<longleftrightarrow> Start r \<le> k \<and> (End r = '''' \<or> k < End r)"
  by (auto simp: Range_Contains_def)

lemma chain_append:
  "chain e (xs @ ys) \<longleftrightarrow> chain e xs \<and> chain (if xs = [] then e else End (last xs)) ys"
  by (induction xs arbitrary: e) auto

lemma Validate_loop_iff:
  "RangeMap_Validate_loop (pre @ rs) (length pre) rs = Inr () \<longleftrightarrow>
     (\<forall>r\<in>set rs. range_ok r) \<and>
     (if pre = [] then (case rs of [] \<Rightarrow> True | r # rs' \<Rightarrow> chain (End r) rs')
      else chain (End (last pre)) rs)"
proof (induction rs arbitrary: pre)
  case Nil
  then show ?case by simp
next
  case (Cons r rs)
  have "(pre @ r # rs) ! (length pre - 1) = last pre" if "pre \<noteq> []"
    using that by (simp add: nth_append last_conv_nth)
  moreover have "RangeMap_Validate_loop (pre @ r # rs) (Suc (length pre)) rs = Inr () \<longleftrightarrow>
      (\<forall>r\<in>set rs. range_ok r) \<and> chain (End r) rs"
    using Cons.IH [of "pre @ [r]"] by simp
  ultimately show ?case by (auto simp: range_ok_def not_le)
qed

lemma Validate_iff: "RangeMap_Validate m = Inr () \<longleftrightarrow> ranges_valid (Ranges m)"
proof (cases "Ranges m")
  case Nil
  then show ?thesis by (simp add: RangeMap_Validate_def ranges_valid_def)
next
  case (Cons r rs)
  have "End ((r # rs) ! (length (r # rs) - 1)) = End (last (r # rs))"
    by (simp add: last_conv_nth)
  then show ?thesis
    using Validate_loop_iff [of "[]" "r # rs"]
    by (auto simp: RangeMap_Validate_def ranges_valid_def Cons)
qed

lemma Validate_Inr [simp]: "RangeMap_Validate m = Inr u \<longleftrightarrow> ranges_valid (Ranges m)"
  using Validate_iff [of m] by (cases u) simp

text \<open>A valid map covers every key.\<close>

lemma chain_covers:
  "chain e rs \<Longrightarrow> rs \<noteq> [] \<Longrightarrow> End (last rs) = '''' \<Longrightarrow> e \<le> k \<Longrightarrow> \<exists>r\<in>set rs. Range_Contains r k"
proof (induction rs arbitrary: e)
  case Nil
  then show ?case by simp
next
  case (Cons r rs)
  show ?case
  proof (cases "Range_Contains r k")
    case True
    then show ?thesis by simp
  next
    case False
    then have r: "End r \<noteq> ''''" "End r \<le> k"
      using Cons.prems by (auto simp: Range_Contains_iff not_less)
    then have "rs \<noteq> []" using Cons.prems(3) by auto
    then show ?thesis using Cons.IH [of "End r"] Cons.prems r by auto
  qed
qed

lemma ranges_valid_covers: "ranges_valid rs \<Longrightarrow> \<exists>r\<in>set rs. Range_Contains r k"
  using chain_covers [of "''''" rs k] by (auto simp: ranges_valid_def)


lemma rangeIndexAt_SomeD:
  "rangeIndexAt rs k = Some i \<Longrightarrow> i < length rs \<and> range_at rs k = Some (rs ! i)"
  unfolding rangeIndexAt_def range_at_def
proof -
  have "rangeIndexAt_loop n rs k = Some j \<Longrightarrow>
      n \<le> j \<and> j - n < length rs \<and> find (\<lambda>r. Range_Contains r k) rs = Some (rs ! (j - n))" for n j
    by (induction n rs k rule: rangeIndexAt_loop.induct)
      (auto split: if_splits simp: Suc_diff_le nth_Cons')
  from this [of 0 i] show "rangeIndexAt_loop 0 rs k = Some i \<Longrightarrow>
      i < length rs \<and> find (\<lambda>r. Range_Contains r k) rs = Some (rs ! i)" by simp
qed

lemma rangeIndexAt_total: "ranges_valid rs \<Longrightarrow> \<exists>i. rangeIndexAt rs k = Some i"
proof -
  have "\<exists>r\<in>set rs. Range_Contains r k \<Longrightarrow> rangeIndexAt_loop n rs k \<noteq> None" for n
    by (induction n rs k rule: rangeIndexAt_loop.induct) auto
  then show "ranges_valid rs \<Longrightarrow> \<exists>i. rangeIndexAt rs k = Some i"
    using ranges_valid_covers unfolding rangeIndexAt_def by blast
qed

lemma rangeIndexAt_cong:
  "\<forall>r\<in>set rs. Range_Contains r k = Range_Contains r k' \<Longrightarrow> rangeIndexAt rs k = rangeIndexAt rs k'"
proof -
  have "\<forall>r\<in>set rs. Range_Contains r k = Range_Contains r k' \<Longrightarrow>
      rangeIndexAt_loop n rs k = rangeIndexAt_loop n rs k'" for n
    by (induction n rs k rule: rangeIndexAt_loop.induct) auto
  then show "\<forall>r\<in>set rs. Range_Contains r k = Range_Contains r k' \<Longrightarrow>
      rangeIndexAt rs k = rangeIndexAt rs k'"
    by (simp add: rangeIndexAt_def)
qed

section \<open>Merging\<close>

subsection \<open>The segment loop\<close>

fun spans :: "string \<Rightarrow> string list \<Rightarrow> (string \<times> string) list" where
  "spans s [] = []"
| "spans s (e # es) = (s, e) # spans e es"

definition pick_at :: "Range list \<Rightarrow> Range list \<Rightarrow> string \<Rightarrow> Range \<times> rangeSource \<times> bool" where
  "pick_at ls rs k =
     (let i = the (rangeIndexAt ls k); j = the (rangeIndexAt rs k) in pickRange (ls ! i) (rs ! j) i j)"

definition seg_of :: "Range list \<Rightarrow> Range list \<Rightarrow> string \<times> string \<Rightarrow> mergedSegment" where
  "seg_of ls rs se =
     \<lparr>seg_start = fst se, seg_end = snd se, seg_range = fst (pick_at ls rs (fst se)),
      seg_source = fst (snd (pick_at ls rs (fst se)))\<rparr>"

definition tied_at :: "Range list \<Rightarrow> Range list \<Rightarrow> string \<Rightarrow> bool" where
  "tied_at ls rs k = snd (snd (pick_at ls rs k))"

definition tied_refs :: "Range list \<Rightarrow> Range list \<Rightarrow> (string \<times> string) list \<Rightarrow> proposalRef list" where
  "tied_refs ls rs ses =
     map (\<lambda>se. proposalReference (fst (snd (pick_at ls rs (fst se)))) (fst (pick_at ls rs (fst se))))
       (filter (\<lambda>se. tied_at ls rs (fst se)) ses)"

lemma Merge_loop_spec:
  assumes "ranges_valid ls" and "ranges_valid rs"
  shows "RangeMap_Merge_loop ls rs s es segs bumps =
    (if \<exists>se\<in>set (spans s es). tied_at ls rs (fst se) \<and> Generation (fst (pick_at ls rs (fst se))) = -1
     then Some (Inl TieAtMaxGeneration)
     else Some (Inr (segs @ map (seg_of ls rs) (spans s es),
                     rev (tied_refs ls rs (spans s es)) @ bumps)))"
proof (induction es arbitrary: s segs bumps)
  case Nil
  then show ?case by (simp add: tied_refs_def)
next
  case (Cons e es)
  obtain i j where i: "rangeIndexAt ls s = Some i" and j: "rangeIndexAt rs s = Some j"
    using assms rangeIndexAt_total by blast
  obtain w src t where p: "pickRange (ls ! i) (rs ! j) i j = (w, src, t)" by (metis prod_cases3)
  have at: "pick_at ls rs s = (w, src, t)" by (simp add: pick_at_def i j p Let_def)
  show ?case
  proof (cases "t \<and> Generation w = -1")
    case True
    then show ?thesis by (simp add: i j p at tied_at_def)
  next
    case False
    then show ?thesis
      by (auto simp: i j p at tied_at_def tied_refs_def seg_of_def Cons.IH)
  qed
qed

lemma pickRange_cases:
  "pickRange l r i j = (w, src, t) \<Longrightarrow>
     (w = l \<or> w = r) \<and> Generation l \<le> Generation w \<and> Generation r \<le> Generation w
     \<and> (Generation r < Generation l \<longrightarrow> w = l \<and> \<not> t) \<and> (Generation l < Generation r \<longrightarrow> w = r \<and> \<not> t)
     \<and> (Generation l = Generation r \<longrightarrow> t = (l \<noteq> r))"
  by (auto simp: pickRange_def rangesEqual_def sameRangeMetadata_def split: if_splits)

lemma pick_at_props:
  assumes "ranges_valid ls" and "ranges_valid rs"
  obtains l r where "range_at ls k = Some l" "range_at rs k = Some r" "l \<in> set ls" "r \<in> set rs"
    "pick_at ls rs k = pickRange l r (the (rangeIndexAt ls k)) (the (rangeIndexAt rs k))"
proof -
  obtain i j where i: "rangeIndexAt ls k = Some i" and j: "rangeIndexAt rs k = Some j"
    using assms rangeIndexAt_total by blast
  show thesis
    using that [of "ls ! i" "rs ! j"] rangeIndexAt_SomeD [OF i] rangeIndexAt_SomeD [OF j] i j
    by (simp add: pick_at_def Let_def)
qed

lemma pick_at_winner:
  assumes "ranges_valid ls" and "ranges_valid rs"
  shows "fst (pick_at ls rs k) \<in> set ls \<union> set rs"
  using pick_at_props [OF assms, of k] pickRange_cases by (metis UnI1 UnI2 prod.exhaust_sel)

subsection \<open>Boundaries\<close>

lemma mergeBoundaries_props:
  "sorted_wrt (<) (mergeBoundaries m n)"
  "set (mergeBoundaries m n) = End ` (set (Ranges m) \<union> set (Ranges n)) - {''''}"
proof -
  show "sorted_wrt (<) (mergeBoundaries m n)"
    unfolding mergeBoundaries_def Let_def strict_sorted_iff by simp
  show "set (mergeBoundaries m n) = End ` (set (Ranges m) \<union> set (Ranges n)) - {''''}"
    unfolding mergeBoundaries_def Let_def by auto
qed

fun seg_chain :: "string \<Rightarrow> mergedSegment list \<Rightarrow> bool" where
  "seg_chain e [] = True"
| "seg_chain e (s # ss) \<longleftrightarrow> seg_start s = e \<and> (seg_end s \<noteq> '''' \<longrightarrow> e < seg_end s)
     \<and> (seg_end s = '''' \<longleftrightarrow> ss = []) \<and> seg_chain (seg_end s) ss"

lemma seg_chain_spans:
  assumes "sorted_wrt (<) (s # bs)" and "\<forall>b\<in>set bs. b \<noteq> ''''"
    and "\<And>a e. seg_start (f (a, e)) = a \<and> seg_end (f (a, e)) = e"
  shows "seg_chain s (map f (spans s (bs @ [''''])))"
  using assms(1,2)
proof (induction bs arbitrary: s)
  case Nil
  then show ?case by (simp add: assms(3))
next
  case (Cons b bs)
  then show ?case by (cases bs) (auto simp: assms(3))
qed

lemma spans_no_boundary_inside:
  assumes "sorted_wrt (<) (s # bs)" and "(a, e) \<in> set (spans s (bs @ ['''']))" and "b \<in> set bs"
  shows "b \<le> a \<or> (e \<noteq> '''' \<and> e \<le> b) \<or> b = ''''"
  using assms
proof (induction bs arbitrary: s)
  case Nil
  then show ?case by simp
next
  case (Cons c bs)
  show ?case
  proof (cases "(a, e) = (s, c)")
    case True
    then show ?thesis using Cons.prems by (auto simp: less_imp_le)
  next
    case False
    then have in': "(a, e) \<in> set (spans c (bs @ ['''']))" using Cons.prems(2) by auto
    have ge: "c \<le> a" using in' Cons.prems(1)
    proof -
      have "sorted_wrt (<) (c # bs)" using Cons.prems(1) by simp
      then have "(a, e) \<in> set (spans c (bs @ [''''])) \<Longrightarrow> c \<le> a"
      proof (induction bs arbitrary: c)
        case (Cons d bs)
        then show ?case by (auto intro: less_imp_le order_trans)
      qed simp
      with in' show ?thesis by simp
    qed
    show ?thesis
    proof (cases "b = c")
      case True
      then show ?thesis using ge by simp
    next
      case False
      then show ?thesis using Cons.IH [of c] Cons.prems in' by auto
    qed
  qed
qed

subsection \<open>Coalescing\<close>

definition meta :: "Range \<Rightarrow> u64 \<times> string \<times> string list" where
  "meta r = (Generation r, ProposalID r, Replicas r)"

definition meta_ok :: "Range \<Rightarrow> bool" where
  "meta_ok r \<longleftrightarrow> Generation r \<noteq> 0 \<and> ProposalID r \<noteq> '''' \<and> Replicas r \<noteq> []"

definition seg_rng :: "mergedSegment \<Rightarrow> Range" where
  "seg_rng s = (seg_range s)\<lparr>Start := seg_start s, End := seg_end s\<rparr>"

text \<open>The state of the coalescing loop: the ranges so far end where the next segment starts.\<close>

definition co_inv :: "Range list \<Rightarrow> string \<Rightarrow> mergedSegment list \<Rightarrow> bool" where
  "co_inv ranges e segs \<longleftrightarrow>
     (\<forall>r\<in>set ranges. range_ok r) \<and> chain '''' ranges \<and> (\<forall>r\<in>set (butlast ranges). End r \<noteq> '''')
     \<and> e = (if ranges = [] then '''' else End (last ranges)) \<and> seg_chain e segs
     \<and> (if segs = [] then e = '''' \<and> ranges \<noteq> [] else ranges \<noteq> [] \<longrightarrow> e \<noteq> '''')
     \<and> (\<forall>s\<in>set segs. meta_ok (seg_range s))"

lemma seg_rng_sel [simp]:
  "Start (seg_rng s) = seg_start s" "End (seg_rng s) = seg_end s"
  "Generation (seg_rng s) = Generation (seg_range s)" "Replicas (seg_rng s) = Replicas (seg_range s)"
  "ProposalID (seg_rng s) = ProposalID (seg_range s)"
  by (simp_all add: seg_rng_def)

lemma co_inv_push:
  "co_inv ranges e (s # segs) \<Longrightarrow> co_inv (ranges @ [seg_rng s]) (seg_end s) segs"
  by (cases ranges rule: rev_cases)
    (auto simp: co_inv_def range_ok_def meta_ok_def chain_append butlast_append split: if_splits)

lemma co_inv_extend:
  assumes "co_inv (rs @ [r]) e (s # segs)"
  shows "co_inv (rs @ [r\<lparr>End := seg_end s\<rparr>]) (seg_end s) segs"
proof -
  have "range_ok r" "e = End r" "e \<noteq> ''''" "seg_start s = e"
    using assms by (auto simp: co_inv_def split: if_splits)
  moreover have "range_ok (r\<lparr>End := seg_end s\<rparr>)"
    using assms calculation by (auto simp: co_inv_def range_ok_def)
  ultimately show ?thesis
    using assms by (auto simp: co_inv_def chain_append)
qed

lemma find_extend:
  assumes "range_ok r" and "End r = e" and "e \<noteq> ''''" and "Start q = e"
    and "End q \<noteq> '''' \<longrightarrow> e < End q"
  shows "Range_Contains (r\<lparr>End := End q\<rparr>) k \<longleftrightarrow> Range_Contains r k \<or> Range_Contains q k"
  using assms by (auto simp: Range_Contains_iff range_ok_def)

lemma meta_End [simp]: "meta (r\<lparr>End := x\<rparr>) = meta r"
  by (simp add: meta_def)

lemma range_at_simps [simp]:
  "range_at [] k = None"
  "range_at (r # rs) k = (if Range_Contains r k then Some r else range_at rs k)"
  by (simp_all add: range_at_def)

lemma range_at_append:
  "range_at (xs @ ys) k = (case range_at xs k of None \<Rightarrow> range_at ys k | Some r \<Rightarrow> Some r)"
  by (induction xs) auto

lemma coalesce_loop_spec:
  assumes "co_inv ranges e segs"
  shows "ranges_valid (coalesceSegments_loop ranges sources segs)
      \<and> ranges_proper (coalesceSegments_loop ranges sources segs)
      \<and> map_option meta (range_at (coalesceSegments_loop ranges sources segs) k)
        = map_option meta (range_at (ranges @ map seg_rng segs) k)"
  using assms
proof (induction segs arbitrary: ranges sources e)
  case Nil
  then show ?case by (auto simp: co_inv_def ranges_valid_def ranges_proper_def)
next
  case (Cons s segs)
  show ?case
  proof (cases "ranges \<noteq> [] \<and> sources ! (length sources - 1) = seg_source s
      \<and> sameRangeMetadata (ranges ! (length ranges - 1)) (seg_rng s)")
    case False
    then have "coalesceSegments_loop ranges sources (s # segs)
        = coalesceSegments_loop (ranges @ [seg_rng s]) (sources @ [seg_source s]) segs"
      by (auto simp: Let_def seg_rng_def)
    then show ?thesis using Cons.IH [OF co_inv_push [OF Cons.prems]] by simp
  next
    case True
    then obtain rs r where rs: "ranges = rs @ [r]" by (meson rev_exhaust)
    have same: "meta r = meta (seg_rng s)"
      using True by (simp add: rs sameRangeMetadata_def meta_def)
    have step: "coalesceSegments_loop ranges sources (s # segs)
        = coalesceSegments_loop (rs @ [r\<lparr>End := seg_end s\<rparr>]) sources segs"
      using True by (auto simp: Let_def seg_rng_def rs)
    have "range_ok r" "End r = e" "e \<noteq> ''''" "seg_start s = e" "seg_end s \<noteq> '''' \<longrightarrow> e < seg_end s"
      using Cons.prems by (auto simp: rs co_inv_def split: if_splits)
    then have "Range_Contains (r\<lparr>End := seg_end s\<rparr>) k \<longleftrightarrow> Range_Contains r k \<or> Range_Contains (seg_rng s) k"
      using find_extend [of r e "seg_rng s" k] by simp
    then have "map_option meta (range_at (rs @ [r\<lparr>End := seg_end s\<rparr>] @ map seg_rng segs) k)
        = map_option meta (range_at (rs @ r # seg_rng s # map seg_rng segs) k)"
      using same by (auto simp: range_at_append split: option.splits)
    then show ?thesis
      using Cons.IH [OF co_inv_extend [OF Cons.prems [unfolded rs]], of sources]
      unfolding step by (simp add: rs)
  qed
qed

lemma coalesce_spec:
  assumes "seg_chain '''' segs" and "segs \<noteq> []" and "\<forall>s\<in>set segs. meta_ok (seg_range s)"
  shows "ranges_valid (coalesceSegments segs)" and "ranges_proper (coalesceSegments segs)"
    and "map_option meta (range_at (coalesceSegments segs) k) = map_option meta (range_at (map seg_rng segs) k)"
proof -
  have "co_inv [] '''' segs" using assms by (simp add: co_inv_def)
  from coalesce_loop_spec [OF this, of "[]" k]
  show "ranges_valid (coalesceSegments segs)" and "ranges_proper (coalesceSegments segs)"
    and "map_option meta (range_at (coalesceSegments segs) k) = map_option meta (range_at (map seg_rng segs) k)"
    by (simp_all add: coalesceSegments_def)
qed

subsection \<open>The merged map, key by key\<close>

lemma chain_Start: "chain e rs \<Longrightarrow> r \<in> set rs \<Longrightarrow> Start r = e \<or> Start r \<in> End ` set rs"
  by (induction rs arbitrary: e) auto

lemma valid_bounds:
  assumes "ranges_valid (Ranges m)" and "r \<in> set (Ranges m)"
  shows "Start r = '''' \<or> Start r \<in> set (mergeBoundaries m n) \<and> Start r \<in> set (mergeBoundaries n m)"
    and "End r = '''' \<or> End r \<in> set (mergeBoundaries m n) \<and> End r \<in> set (mergeBoundaries n m)"
  using chain_Start [of "''''" "Ranges m" r] assms
  by (auto simp: ranges_valid_def mergeBoundaries_props)

lemma span_Contains_cong:
  assumes "ranges_valid (Ranges m)" and "ranges_valid (Ranges n)"
    and ae: "(a, e) \<in> set (spans '''' (mergeBoundaries m n @ ['''']))"
    and k: "a \<le> k" "e = '''' \<or> k < e"
    and r: "r \<in> set (Ranges m) \<union> set (Ranges n)"
  shows "Range_Contains r a = Range_Contains r k"
proof -
  let ?B = "mergeBoundaries m n"
  have srt: "sorted_wrt (<) ('''' # ?B)"
    using mergeBoundaries_props [of m n] by auto
  have no: "b \<le> a \<or> (e \<noteq> '''' \<and> e \<le> b)" if "b \<in> set ?B" for b
    using spans_no_boundary_inside [OF srt ae that] by auto
  have "Start r = '''' \<or> Start r \<in> set ?B" "End r = '''' \<or> End r \<in> set ?B"
    using valid_bounds [OF assms(1)] valid_bounds [OF assms(2)] r by blast+
  then show ?thesis
    using no k unfolding Range_Contains_iff
    by (smt (verit, ccfv_threshold) empty_le_string linorder_not_less order.trans order_less_le_trans)
qed

lemma pick_at_cong:
  assumes "ranges_valid (Ranges m)" and "ranges_valid (Ranges n)"
    and "(a, e) \<in> set (spans '''' (mergeBoundaries m n @ ['''']))"
    and "a \<le> k" "e = '''' \<or> k < e"
  shows "pick_at (Ranges m) (Ranges n) a = pick_at (Ranges m) (Ranges n) k"
  using rangeIndexAt_cong [of "Ranges m" a k] rangeIndexAt_cong [of "Ranges n" a k]
    span_Contains_cong [OF assms] unfolding pick_at_def by simp

lemma seg_chain_range_at:
  assumes "seg_chain e segs" and "segs \<noteq> []" and "e \<le> k"
  shows "\<exists>s\<in>set segs. range_at (map seg_rng segs) k = Some (seg_rng s)
           \<and> seg_start s \<le> k \<and> (seg_end s = '''' \<or> k < seg_end s)"
  using assms
proof (induction segs arbitrary: e)
  case Nil
  then show ?case by simp
next
  case (Cons s segs)
  show ?case
  proof (cases "Range_Contains (seg_rng s) k")
    case True
    then show ?thesis by (auto simp: Range_Contains_iff)
  next
    case False
    then have "seg_end s \<noteq> ''''" "seg_end s \<le> k"
      using Cons.prems by (auto simp: Range_Contains_iff not_less)
    then show ?thesis using Cons.IH [of "seg_end s"] Cons.prems False by auto
  qed
qed

text \<open>The references that are bumped, and the winner of a key after the bump.\<close>

definition merge_bumps :: "RangeMap \<Rightarrow> RangeMap \<Rightarrow> proposalRef list" where
  "merge_bumps m n = rev (tied_refs (Ranges m) (Ranges n) (spans '''' (mergeBoundaries m n @ [''''])))"

definition merge_segs :: "RangeMap \<Rightarrow> RangeMap \<Rightarrow> mergedSegment list" where
  "merge_segs m n = map (\<lambda>se. bumpSegment (merge_bumps m n) (seg_of (Ranges m) (Ranges n) se))
     (spans '''' (mergeBoundaries m n @ ['''']))"

definition ties_at_max :: "RangeMap \<Rightarrow> RangeMap \<Rightarrow> bool" where
  "ties_at_max m n \<longleftrightarrow> (\<exists>se\<in>set (spans '''' (mergeBoundaries m n @ [''''])).
     tied_at (Ranges m) (Ranges n) (fst se) \<and> Generation (fst (pick_at (Ranges m) (Ranges n) (fst se))) = -1)"

definition bumped_at :: "RangeMap \<Rightarrow> RangeMap \<Rightarrow> string \<Rightarrow> bool" where
  "bumped_at m n k \<longleftrightarrow> (case pick_at (Ranges m) (Ranges n) k of
     (w, src, t) \<Rightarrow> proposalReference src w \<in> set (merge_bumps m n))"

lemma spans_nonempty [simp]: "spans s (bs @ [x]) \<noteq> []"
  by (cases bs) simp_all

lemma bumpSegment_bounds [simp]:
  "seg_start (bumpSegment b s) = seg_start s" "seg_end (bumpSegment b s) = seg_end s"
  "seg_source (bumpSegment b s) = seg_source s"
  by (simp_all add: bumpSegment_def)

lemma merge_segs_chain: "seg_chain '''' (merge_segs m n)"
proof -
  have "sorted_wrt (<) ('''' # mergeBoundaries m n)" "\<forall>b\<in>set (mergeBoundaries m n). b \<noteq> ''''"
    using mergeBoundaries_props [of m n] by auto
  then show ?thesis
    unfolding merge_segs_def by (rule seg_chain_spans) (simp add: seg_of_def)
qed

lemma bump_not_max:
  assumes "\<not> ties_at_max m n" and "bumped_at m n k"
  shows "Generation (fst (pick_at (Ranges m) (Ranges n) k)) \<noteq> -1"
  using assms
  by (auto simp: ties_at_max_def bumped_at_def merge_bumps_def tied_refs_def tied_at_def
      proposalReference_def split: prod.splits)

lemma tied_bumped:
  assumes "ranges_valid (Ranges m)" and "ranges_valid (Ranges n)" and "tied_at (Ranges m) (Ranges n) k"
  shows "bumped_at m n k"
proof -
  have "seg_chain '''' (merge_segs m n)" "merge_segs m n \<noteq> []"
    using merge_segs_chain by (simp_all add: merge_segs_def)
  from seg_chain_range_at [OF this, of k]
  obtain a e where ae: "(a, e) \<in> set (spans '''' (mergeBoundaries m n @ ['''']))"
    and ak: "a \<le> k" "e = '''' \<or> k < e"
    by (fastforce simp: merge_segs_def seg_of_def)
  note eq = pick_at_cong [OF assms(1,2) ae ak]
  show ?thesis
    using assms(3) ae
    by (force simp: bumped_at_def merge_bumps_def tied_refs_def tied_at_def eq [symmetric] split: prod.splits)
qed

lemma merge_segs_meta_ok:
  assumes "ranges_valid (Ranges m)" and "ranges_valid (Ranges n)" and "\<not> ties_at_max m n"
  shows "\<forall>s\<in>set (merge_segs m n). meta_ok (seg_range s)"
proof
  fix s
  assume "s \<in> set (merge_segs m n)"
  then obtain a e where s: "s = bumpSegment (merge_bumps m n) (seg_of (Ranges m) (Ranges n) (a, e))"
    by (auto simp: merge_segs_def)
  let ?p = "pick_at (Ranges m) (Ranges n) a"
  have "meta_ok (fst ?p)"
    using pick_at_winner [OF assms(1,2), of a] assms(1,2)
    by (auto simp: ranges_valid_def range_ok_def meta_ok_def)
  moreover have "Generation (fst ?p) \<noteq> -1 \<or> \<not> bumped_at m n a"
    using bump_not_max [OF assms(3), of a] by blast
  ultimately show "meta_ok (seg_range s)"
    by (auto simp: s bumpSegment_def seg_of_def meta_ok_def bumped_at_def eq_neg_iff_add_eq_0
        split: prod.splits)
qed

lemma Merge_eq:
  assumes "ranges_valid (Ranges m)" and "ranges_valid (Ranges n)"
  shows "RangeMap_Merge m n =
     (if ties_at_max m n then Some (Inl TieAtMaxGeneration)
      else Some (Inr (\<lparr>Ranges = coalesceSegments (merge_segs m n)\<rparr>,
                      \<not> rangeMapsEqual m \<lparr>Ranges = coalesceSegments (merge_segs m n)\<rparr>)))"
proof -
  have "ranges_valid (coalesceSegments (merge_segs m n))" if "\<not> ties_at_max m n"
    using coalesce_spec(1) [OF merge_segs_chain _ merge_segs_meta_ok [OF assms that]]
    by (simp add: merge_segs_def)
  then have "RangeMap_Validate \<lparr>Ranges = coalesceSegments (merge_segs m n)\<rparr> = Inr ()"
    if "\<not> ties_at_max m n" using that by simp
  moreover have "RangeMap_Validate m = Inr ()" "RangeMap_Validate n = Inr ()" using assms by simp_all
  ultimately show ?thesis
    unfolding RangeMap_Merge_def
    by (simp add: Merge_loop_spec [OF assms] ties_at_max_def [symmetric] merge_bumps_def [symmetric]
        merge_segs_def o_def Let_def del: Validate_Inr)
qed

lemma merged_at:
  fixes k :: string
  assumes "ranges_valid (Ranges m)" and "ranges_valid (Ranges n)" and "\<not> ties_at_max m n"
  defines "w \<equiv> fst (pick_at (Ranges m) (Ranges n) k)"
  shows "map_option meta (range_at (coalesceSegments (merge_segs m n)) k)
    = Some (Generation w + (if bumped_at m n k then 1 else 0), ProposalID w, Replicas w)"
proof -
  have ne: "merge_segs m n \<noteq> []" by (simp add: merge_segs_def)
  obtain s where s: "s \<in> set (merge_segs m n)" "range_at (map seg_rng (merge_segs m n)) k = Some (seg_rng s)"
    "seg_start s \<le> k" "seg_end s = '''' \<or> k < seg_end s"
    using seg_chain_range_at [OF merge_segs_chain ne, of k] by auto
  then obtain a e where ae: "(a, e) \<in> set (spans '''' (mergeBoundaries m n @ ['''']))"
    and s': "s = bumpSegment (merge_bumps m n) (seg_of (Ranges m) (Ranges n) (a, e))"
    by (auto simp: merge_segs_def)
  have "a \<le> k" "e = '''' \<or> k < e" using s(3,4) by (simp_all add: s' seg_of_def)
  from pick_at_cong [OF assms(1,2) ae this]
  have "meta (seg_rng s) = (Generation w + (if bumped_at m n k then 1 else 0), ProposalID w, Replicas w)"
    by (auto simp: s' meta_def bumpSegment_def seg_of_def bumped_at_def w_def split: prod.splits)
  then show ?thesis
    using coalesce_spec(3) [OF merge_segs_chain ne merge_segs_meta_ok [OF assms(1-3)], of k] s(2) by simp
qed

lemma rangesEqual_iff [simp]: "rangesEqual l r \<longleftrightarrow> l = r"
  by (auto simp: rangesEqual_def sameRangeMetadata_def)

lemma rangeMapsEqual_iff [simp]: "rangeMapsEqual l r \<longleftrightarrow> l = r"
proof -
  have "list_all2 rangesEqual xs ys \<longleftrightarrow> xs = ys" for xs ys
    by (induction xs arbitrary: ys) (auto simp: list_all2_Cons1)
  then show ?thesis by (auto simp: rangeMapsEqual_def)
qed

section \<open>Properties of the range map\<close>

text \<open>
  C10: \<open>Merge\<close> of two range maps that pass \<open>Validate\<close> never panics and never fails its own
  re-validation: either two different ranges tie at generation \<open>MaxUint64\<close>, or the result is a
  valid map in which only the last range is unbounded, and the returned flag says exactly whether
  the map changed.
\<close>

theorem Merge_valid:
  assumes "RangeMap_Validate m = Inr ()" and "RangeMap_Validate n = Inr ()"
  shows "RangeMap_Merge m n = Some (Inl TieAtMaxGeneration) \<or>
    (\<exists>res changed. RangeMap_Merge m n = Some (Inr (res, changed)) \<and> RangeMap_Validate res = Inr ()
       \<and> ranges_proper (Ranges res) \<and> (changed \<longleftrightarrow> res \<noteq> m))"
proof -
  have v: "ranges_valid (Ranges m)" "ranges_valid (Ranges n)" using assms by simp_all
  note segs = merge_segs_chain [of m n] _ merge_segs_meta_ok [OF v]
  show ?thesis
    using coalesce_spec(1,2) [OF segs]
    by (auto simp: Merge_eq [OF v] merge_segs_def)
qed

text \<open>
  C9: In a merged map the highest generation wins at every key. The replicas and the proposal of
  a key come from the local range or from the incoming one, from the local one when its generation
  is higher and from the incoming one when its is; the merged generation is at least both and
  exceeds them by at most one; two different ranges of equal generation are resolved to the one
  that comes first by proposal id, and their tie raises the generation by exactly one.
\<close>

theorem Merge_highest_generation_wins:
  assumes "RangeMap_Validate m = Inr ()" and "RangeMap_Validate n = Inr ()"
    and "RangeMap_Merge m n = Some (Inr (res, changed))"
    and "range_at (Ranges m) k = Some l" and "range_at (Ranges n) k = Some i"
  shows "\<exists>r w. range_at (Ranges res) k = Some r \<and> (w = l \<or> w = i)
    \<and> Replicas r = Replicas w \<and> ProposalID r = ProposalID w
    \<and> (Generation i < Generation l \<longrightarrow> w = l) \<and> (Generation l < Generation i \<longrightarrow> w = i)
    \<and> (Generation l = Generation i \<longrightarrow> ProposalID w \<le> ProposalID l \<and> ProposalID w \<le> ProposalID i)
    \<and> max (unat (Generation l)) (unat (Generation i)) \<le> unat (Generation r)
    \<and> unat (Generation r) \<le> max (unat (Generation l)) (unat (Generation i)) + 1
    \<and> (Generation l = Generation i \<and> l \<noteq> i \<longrightarrow> unat (Generation r) = unat (Generation l) + 1)"
proof -
  have v: "ranges_valid (Ranges m)" "ranges_valid (Ranges n)" using assms by simp_all
  from assms(3) have nt: "\<not> ties_at_max m n" and res: "Ranges res = coalesceSegments (merge_segs m n)"
    by (auto simp: Merge_eq [OF v] simp del: rangeMapsEqual_iff split: if_splits)
  obtain w src t where p: "pick_at (Ranges m) (Ranges n) k = (w, src, t)" by (metis prod_cases3)
  then have pick: "pickRange l i (the (rangeIndexAt (Ranges m) k)) (the (rangeIndexAt (Ranges n) k)) = (w, src, t)"
    using pick_at_props [OF v, of k] assms(4,5) by (metis option.inject)
  note w = pickRange_cases [OF pick]
  obtain r where r: "range_at (Ranges res) k = Some r"
    "meta r = (Generation w + (if bumped_at m n k then 1 else 0), ProposalID w, Replicas w)"
    using merged_at [OF v nt, of k] by (auto simp: p res)
  have "Generation w \<noteq> -1" if "bumped_at m n k" using bump_not_max [OF nt that] by (simp add: p)
  then have g: "unat (Generation r) = unat (Generation w) + (if bumped_at m n k then 1 else 0)"
    using r(2) by (auto simp: meta_def unat_u64_inc)
  have b: "bumped_at m n k" if "t" using tied_bumped [OF v, of k] that by (simp add: tied_at_def p)
  have "ProposalID w \<le> ProposalID l \<and> ProposalID w \<le> ProposalID i" if "Generation l = Generation i"
    using pick that by (auto simp: pickRange_def compareTieCandidate_def split: if_splits)
  with w r g b show ?thesis
    by (intro exI [of _ r] exI [of _ w]) (auto simp: meta_def word_le_nat_alt word_less_nat_alt)
qed

subsection \<open>Merging a map with itself\<close>

lemma proper_chain_sorted:
  "chain e rs \<Longrightarrow> \<forall>r\<in>set rs. range_ok r \<Longrightarrow> \<forall>r\<in>set (butlast rs). End r \<noteq> '''' \<Longrightarrow>
     sorted_wrt (\<lambda>a b. End a \<noteq> '''' \<and> End a \<le> Start b) rs \<and> (\<forall>r\<in>set rs. e \<le> Start r)"
proof (induction rs arbitrary: e)
  case Nil
  then show ?case by simp
next
  case (Cons r rs)
  then have IH: "sorted_wrt (\<lambda>a b. End a \<noteq> '''' \<and> End a \<le> Start b) rs" "\<forall>q\<in>set rs. End r \<le> Start q"
    using Cons.IH [of "End r"] by (auto split: if_splits)
  then show ?case
    using Cons.prems by (cases rs) (auto simp: range_ok_def intro: order_trans less_imp_le)
qed

lemma proper_range_at:
  assumes "ranges_valid rs" and "ranges_proper rs" and "i < length rs"
  shows "rangeIndexAt rs (Start (rs ! i)) = Some i"
proof -
  have srt: "sorted_wrt (\<lambda>a b. End a \<noteq> '''' \<and> End a \<le> Start b) rs"
    using assms proper_chain_sorted [of "''''" rs] by (auto simp: ranges_valid_def ranges_proper_def)
  obtain j where j: "rangeIndexAt rs (Start (rs ! i)) = Some j"
    using rangeIndexAt_total [OF assms(1)] by blast
  have cj: "j < length rs" "Range_Contains (rs ! j) (Start (rs ! i))"
    using rangeIndexAt_SomeD [OF j] by (auto simp: range_at_def find_Some_iff)
  have first: "\<And>q. q < j \<Longrightarrow> \<not> Range_Contains (rs ! q) (Start (rs ! i))"
  proof -
    have "rangeIndexAt_loop n rs k = Some p \<Longrightarrow> n \<le> q \<Longrightarrow> q < p \<Longrightarrow> \<not> Range_Contains (rs ! (q - n)) k"
      for n p q k
    proof (induction rs arbitrary: n)
      case (Cons r rs)
      then show ?case
        using Cons.IH [of "Suc n"] by (cases "q = n") (auto split: if_splits simp: nth_Cons' Suc_diff_Suc)
    qed simp
    from this [of 0] j show "\<And>q. q < j \<Longrightarrow> \<not> Range_Contains (rs ! q) (Start (rs ! i))"
      by (auto simp: rangeIndexAt_def)
  qed
  have "range_ok (rs ! i)" using assms by (simp add: ranges_valid_def)
  then have "Range_Contains (rs ! i) (Start (rs ! i))" by (auto simp: Range_Contains_iff range_ok_def)
  then have "\<not> i < j" using first by blast
  moreover have "\<not> j < i"
    using sorted_wrt_nth_less [OF srt, of j i] cj assms(3) by (auto simp: Range_Contains_iff)
  ultimately show ?thesis using j by simp
qed

lemma coalesce_distinct:
  "distinct (sources @ map seg_source segs) \<Longrightarrow> length sources = length ranges \<Longrightarrow>
     coalesceSegments_loop ranges sources segs = ranges @ map seg_rng segs"
proof (induction segs arbitrary: ranges sources)
  case Nil
  then show ?case by simp
next
  case (Cons s segs)
  have "sources ! (length sources - 1) \<noteq> seg_source s" if "ranges \<noteq> []"
    using Cons.prems that by (metis UnCI disjoint_iff distinct_append last_conv_nth last_in_set length_0_conv
        list.set_intros(1) list.simps(9))
  then show ?case using Cons.IH [of "sources @ [seg_source s]" "ranges @ [seg_rng s]"] Cons.prems
    by (auto simp: Let_def seg_rng_def)
qed

lemma spans_chain: "chain e rs \<Longrightarrow> spans e (map End rs) = map (\<lambda>r. (Start r, End r)) rs"
  by (induction rs arbitrary: e) auto

lemma mergeBoundaries_self:
  assumes "ranges_valid rs" and "ranges_proper rs"
  shows "mergeBoundaries \<lparr>Ranges = rs\<rparr> \<lparr>Ranges = rs\<rparr> @ [''''] = map End rs"
proof -
  have "sorted_wrt (\<lambda>a b. End a \<noteq> '''' \<and> End a \<le> Start b) rs" "\<forall>r\<in>set rs. range_ok r"
    using assms proper_chain_sorted [of "''''" rs] by (auto simp: ranges_valid_def ranges_proper_def)
  then have "sorted_wrt (\<lambda>a b. End b \<noteq> '''' \<longrightarrow> End a < End b) rs"
    by (induction rs) (auto simp: range_ok_def intro: order_le_less_trans)
  moreover have ne: "rs \<noteq> []" and last: "End (last rs) = ''''" using assms by (auto simp: ranges_valid_def)
  ultimately have srt: "sorted_wrt (<) (map End (butlast rs))"
    using assms(2) by (cases rs rule: rev_cases) (auto simp: sorted_wrt_append sorted_wrt_map ranges_proper_def
        elim!: sorted_wrt_mono_rel [rotated])
  have "set (mergeBoundaries \<lparr>Ranges = rs\<rparr> \<lparr>Ranges = rs\<rparr>) = set (map End (butlast rs))"
    using assms(2) ne last by (cases rs rule: rev_cases) (auto simp: mergeBoundaries_props ranges_proper_def)
  then have "mergeBoundaries \<lparr>Ranges = rs\<rparr> \<lparr>Ranges = rs\<rparr> = map End (butlast rs)"
    using mergeBoundaries_props(1) srt by (metis strict_sorted_equal)
  then show ?thesis using ne last by (cases rs rule: rev_cases) auto
qed

text \<open>
  C20: Merging a map with itself changes nothing: for a valid map whose only unbounded range is the
  last, \<open>Merge\<close> returns the map unchanged, generations included, and reports no change, so two
  nodes that agree exchange maps without further generation bumps.
\<close>

theorem Merge_idempotent:
  assumes "RangeMap_Validate m = Inr ()" and "ranges_proper (Ranges m)"
  shows "RangeMap_Merge m m = Some (Inr (m, False))"
proof -
  let ?rs = "Ranges m"
  have v: "ranges_valid ?rs" using assms by simp
  have self: "pick_at ?rs ?rs k = (?rs ! the (rangeIndexAt ?rs k), \<lparr>side = 0, src_index = the (rangeIndexAt ?rs k)\<rparr>, False)" for k
    by (simp add: pick_at_def pickRange_def Let_def)
  have nt: "\<not> ties_at_max m m" and nb: "merge_bumps m m = []"
    by (simp_all add: ties_at_max_def merge_bumps_def tied_refs_def tied_at_def self)
  have "spans '''' (mergeBoundaries m m @ ['''']) = map (\<lambda>i. (Start (?rs ! i), End (?rs ! i))) [0..<length ?rs]"
  proof -
    have "spans '''' (mergeBoundaries m m @ ['''']) = map (\<lambda>r. (Start r, End r)) ?rs"
      using mergeBoundaries_self [OF v assms(2)] spans_chain [of "''''" ?rs] v
      by (cases m) (simp add: ranges_valid_def)
    also have "\<dots> = map (\<lambda>i. (Start (?rs ! i), End (?rs ! i))) [0..<length ?rs]"
      by (rule nth_equalityI) simp_all
    finally show ?thesis .
  qed
  then have segs: "merge_segs m m = map (\<lambda>i. \<lparr>seg_start = Start (?rs ! i), seg_end = End (?rs ! i),
      seg_range = ?rs ! i, seg_source = \<lparr>side = 0, src_index = i\<rparr>\<rparr>) [0..<length ?rs]"
    using proper_range_at [OF v assms(2)]
    by (auto simp: merge_segs_def nb bumpSegment_def seg_of_def self)
  have "coalesceSegments (merge_segs m m) = map seg_rng (merge_segs m m)"
    unfolding coalesceSegments_def
    by (subst coalesce_distinct) (auto simp: segs distinct_map o_def inj_on_def)
  also have "\<dots> = ?rs" by (auto simp: segs seg_rng_def intro: nth_equalityI)
  finally show ?thesis by (simp add: Merge_eq [OF v v] nt)
qed

subsection \<open>Owners\<close>

lemma Owners_range_at:
  "RangeMap_Owners m k = (case range_at (Ranges m) k of None \<Rightarrow> ([], False) | Some r \<Rightarrow> (Replicas r, True))"
proof -
  have "RangeMap_Owners_loop rs k = (case range_at rs k of None \<Rightarrow> ([], False) | Some r \<Rightarrow> (Replicas r, True))" for rs
    by (induction rs) auto
  then show ?thesis by (simp add: RangeMap_Owners_def)
qed

lemma proper_unique:
  assumes "ranges_valid rs" and "ranges_proper rs" and "i < length rs" and "j < length rs"
    and "Range_Contains (rs ! i) k" and "Range_Contains (rs ! j) k"
  shows "i = j"
proof -
  have srt: "sorted_wrt (\<lambda>a b. End a \<noteq> '''' \<and> End a \<le> Start b) rs"
    using assms proper_chain_sorted [of "''''" rs] by (auto simp: ranges_valid_def ranges_proper_def)
  show ?thesis
    using sorted_wrt_nth_less [OF srt, of i j] sorted_wrt_nth_less [OF srt, of j i] assms
    by (cases i j rule: linorder_cases) (auto simp: Range_Contains_iff)
qed

lemma OwnersForRange_loop_True:
  "OwnersForRange_loop rs s e = (reps, True) \<Longrightarrow> \<exists>r\<in>set rs. Range_Contains r s \<and> reps = Replicas r
     \<and> (e = '''' \<longrightarrow> End r = '''') \<and> (e \<noteq> '''' \<longrightarrow> End r = '''' \<or> e \<le> End r)"
  by (induction rs) (auto split: if_splits)

text \<open>
  C21: In a valid map whose only unbounded range is the last (every merged map is one), each key
  lies in exactly one range; \<open>Owners\<close> finds it and returns its non-empty replica list, and
  \<open>OwnersForRange\<close> answers a key interval only with replicas that own every key of it.
\<close>

theorem Owners_exact:
  assumes "RangeMap_Validate m = Inr ()" and "ranges_proper (Ranges m)"
  shows "(\<exists>!i. i < length (Ranges m) \<and> Range_Contains (Ranges m ! i) k)
    \<and> (\<exists>i<length (Ranges m). Range_Contains (Ranges m ! i) k
      \<and> RangeMap_Owners m k = (Replicas (Ranges m ! i), True) \<and> Replicas (Ranges m ! i) \<noteq> [])
    \<and> (RangeMap_OwnersForRange m s e = (reps, True) \<and> s \<le> k \<and> (e = '''' \<or> k < e)
      \<longrightarrow> RangeMap_Owners m k = (reps, True))"
proof (intro conjI)
  have v: "ranges_valid (Ranges m)" using assms by simp
  obtain i where i: "rangeIndexAt (Ranges m) k = Some i" using rangeIndexAt_total [OF v] by blast
  then have ii: "i < length (Ranges m)" "range_at (Ranges m) k = Some (Ranges m ! i)"
    using rangeIndexAt_SomeD by blast+
  then have c: "Range_Contains (Ranges m ! i) k" by (auto simp: range_at_def find_Some_iff)
  show "\<exists>!i. i < length (Ranges m) \<and> Range_Contains (Ranges m ! i) k"
    using ii(1) c proper_unique [OF v assms(2)] by blast
  show "\<exists>i<length (Ranges m). Range_Contains (Ranges m ! i) k
      \<and> RangeMap_Owners m k = (Replicas (Ranges m ! i), True) \<and> Replicas (Ranges m ! i) \<noteq> []"
    using ii c v by (intro exI [of _ i]) (auto simp: Owners_range_at ranges_valid_def range_ok_def)
  show "RangeMap_OwnersForRange m s e = (reps, True) \<and> s \<le> k \<and> (e = '''' \<or> k < e)
      \<longrightarrow> RangeMap_Owners m k = (reps, True)"
  proof
    assume a: "RangeMap_OwnersForRange m s e = (reps, True) \<and> s \<le> k \<and> (e = '''' \<or> k < e)"
    then have "OwnersForRange_loop (Ranges m) s e = (reps, True)"
      by (auto simp: RangeMap_OwnersForRange_def split: if_splits)
    from OwnersForRange_loop_True [OF this]
    obtain j where j: "j < length (Ranges m)" "Range_Contains (Ranges m ! j) s" "reps = Replicas (Ranges m ! j)"
      "e = '''' \<longrightarrow> End (Ranges m ! j) = ''''" "e \<noteq> '''' \<longrightarrow> End (Ranges m ! j) = '''' \<or> e \<le> End (Ranges m ! j)"
      by (metis in_set_conv_nth)
    then have "Range_Contains (Ranges m ! j) k"
      using a by (auto simp: Range_Contains_iff)
    then have "j = i" using proper_unique [OF v assms(2)] j(1) ii(1) c by blast
    then show "RangeMap_Owners m k = (reps, True)" using ii j(3) by (simp add: Owners_range_at)
  qed
qed

subsection \<open>Concrete maps\<close>

definition ex_map1 :: RangeMap where
  "ex_map1 = \<lparr>Ranges = [\<lparr>Start = '''', End = ''m'', Replicas = [''n1'', ''n2''], Generation = 5, ProposalID = ''p1''\<rparr>,
                       \<lparr>Start = ''m'', End = '''', Replicas = [''n2''], Generation = 1, ProposalID = ''p2''\<rparr>]\<rparr>"

definition ex_map2 :: RangeMap where
  "ex_map2 = \<lparr>Ranges = [\<lparr>Start = '''', End = '''', Replicas = [''n3''], Generation = 1, ProposalID = ''p0''\<rparr>]\<rparr>"

lemma ex_maps_valid:
  "RangeMap_Validate ex_map1 = Inr ()" "RangeMap_Validate ex_map2 = Inr ()" "ranges_proper (Ranges ex_map1)"
  unfolding Validate_iff by (simp_all add: ex_map1_def ex_map2_def ranges_valid_def range_ok_def ranges_proper_def)

lemma ex_merge:
  "RangeMap_Merge ex_map1 ex_map2 = Some (Inr (\<lparr>Ranges =
     [\<lparr>Start = '''', End = ''m'', Replicas = [''n1'', ''n2''], Generation = 5, ProposalID = ''p1''\<rparr>,
      \<lparr>Start = ''m'', End = '''', Replicas = [''n3''], Generation = 2, ProposalID = ''p0''\<rparr>]\<rparr>, True))"
  by code_simp

theorem Merge_valid_witness:
  "\<exists>res. RangeMap_Merge ex_map1 ex_map2 = Some (Inr (res, True)) \<and> RangeMap_Validate res = Inr ()
     \<and> ranges_proper (Ranges res) \<and> res \<noteq> ex_map1"
  using Merge_valid [OF ex_maps_valid(1,2)] ex_merge by auto

theorem Merge_highest_generation_wins_witness:
  "\<exists>r. range_at [\<lparr>Start = '''', End = ''m'', Replicas = [''n1'', ''n2''], Generation = 5, ProposalID = ''p1''\<rparr>,
      \<lparr>Start = ''m'', End = '''', Replicas = [''n3''], Generation = 2, ProposalID = ''p0''\<rparr>] ''z'' = Some r
     \<and> unat (Generation r) = 2"
proof -
  have "range_at (Ranges ex_map1) ''z'' = Some (Ranges ex_map1 ! 1)"
    "range_at (Ranges ex_map2) ''z'' = Some (Ranges ex_map2 ! 0)"
    by (simp_all add: ex_map1_def ex_map2_def Range_Contains_def)
  from Merge_highest_generation_wins [OF ex_maps_valid(1,2) ex_merge this] show ?thesis
    by (auto simp: ex_map1_def ex_map2_def Range_Contains_def)
qed

theorem Merge_idempotent_witness:
  "RangeMap_Validate ex_map1 = Inr () \<and> RangeMap_Merge ex_map1 ex_map1 = Some (Inr (ex_map1, False))"
  using ex_maps_valid Merge_idempotent [OF ex_maps_valid(1,3)] by simp

theorem Owners_exact_witness:
  "RangeMap_OwnersForRange ex_map1 ''n'' '''' = ([''n2''], True) \<and> RangeMap_Owners ex_map1 ''q'' = ([''n2''], True)"
proof -
  have "RangeMap_OwnersForRange ex_map1 ''n'' '''' = ([''n2''], True)" by code_simp
  then show ?thesis using Owners_exact [OF ex_maps_valid(1,3), of "''q''" "''n''" "''''" "[''n2'']"] by simp
qed

text \<open>
  \<open>Validate\<close> also accepts maps with overlapping ranges: an interior range with an empty end is
  not rejected, although the map is documented as non-overlapping.
\<close>

theorem Validate_accepts_overlap:
  "\<exists>m. RangeMap_Validate m = Inr () \<and> \<not> ranges_proper (Ranges m)
     \<and> Range_Contains (Ranges m ! 0) ''k'' \<and> Range_Contains (Ranges m ! 1) ''k''"
proof -
  let ?r = "\<lparr>Start = '''', End = '''', Replicas = [''n1''], Generation = 1, ProposalID = ''p''\<rparr>"
  show ?thesis
    by (intro exI [of _ "\<lparr>Ranges = [?r, ?r]\<rparr>"])
      (simp add: ranges_valid_def range_ok_def ranges_proper_def Range_Contains_def)
qed

end
