(* ===== verification/RingTable.thy ===== *)
theory RingTable
  imports Ring "HOL-Library.Multiset" "HOL-Library.Product_Lexorder"
begin

text \<open>
  The holder of a node's range map and its synchronisation: \<open>src/cluster/ring/table.go\<close>,
  \<open>syncer.go\<close>, \<open>proposal.go\<close>, \<open>convert.go\<close> and \<open>server.go\<close>.

  The table is a record; a method that writes returns the new table. The peer client of the
  syncer is a function from an address to an error or a range map; the random choice of
  \<open>tick\<close> is an argument. A Go panic is \<open>None\<close>. The locale \<open>map_store\<close> states what a client of the
  table relies on; it is interpreted on \<open>Table_Merge\<close>, and the synchronisation of several
  nodes is a step relation over their tables.
\<close>

section \<open>table.go\<close>

record Table =
  localNodeID :: string
  rangeMap :: RangeMap

definition NewTable :: "string \<Rightarrow> RangeMap \<Rightarrow> rm_error + Table" where
  "NewTable nodeID initial =
     (case RangeMap_Validate initial of
        Inl err \<Rightarrow> Inl err
      | Inr _ \<Rightarrow> Inr \<lparr>localNodeID = nodeID, rangeMap = RangeMap_Clone initial\<rparr>)"

definition Table_Epoch :: "Table \<Rightarrow> u64" where
  "Table_Epoch t = RangeMap_Epoch (rangeMap t)"

definition Table_Snapshot :: "Table \<Rightarrow> RangeMap" where
  "Table_Snapshot t = RangeMap_Clone (rangeMap t)"

definition Table_Owners :: "Table \<Rightarrow> string \<Rightarrow> string list" where
  "Table_Owners t key = fst (RangeMap_Owners (rangeMap t) key)"

definition Table_IsOwner :: "Table \<Rightarrow> string \<Rightarrow> bool" where
  "Table_IsOwner t key = list_ex (\<lambda>nid. nid = localNodeID t) (Table_Owners t key)"

definition Table_OwnsKeyRange :: "Table \<Rightarrow> string \<Rightarrow> string \<Rightarrow> bool" where
  "Table_OwnsKeyRange t s e =
     (let (owners, ok) = RangeMap_OwnersForKeyRange (rangeMap t) s e
      in if \<not> ok then False else list_ex (\<lambda>nid. nid = localNodeID t) owners)"

definition Table_OwnsRange :: "Table \<Rightarrow> string \<Rightarrow> string \<Rightarrow> bool" where
  "Table_OwnsRange t s e =
     (let (owners, ok) = RangeMap_OwnersForRange (rangeMap t) s e
      in if \<not> ok then False else list_ex (\<lambda>nid. nid = localNodeID t) owners)"

definition Table_Merge :: "Table \<Rightarrow> RangeMap \<Rightarrow> (Table \<times> (rm_error + bool)) option" where
  "Table_Merge t incoming =
     (case RangeMap_Merge (rangeMap t) incoming of
        None \<Rightarrow> None
      | Some (Inl err) \<Rightarrow> Some (t, Inl err)
      | Some (Inr (merged, changed)) \<Rightarrow>
          if \<not> changed then Some (t, Inr False)
          else Some (t\<lparr>rangeMap := merged\<rparr>, Inr True))"

section \<open>syncer.go\<close>

record PeerEpoch =
  pe_NodeID :: string
  pe_AdvertiseAddr :: string
  pe_RangeMapEpoch :: u64

text \<open>The syncer's effects: the table and the epochs it published, in order.\<close>

record syncer_state =
  sy_table :: Table
  sy_published :: "u64 list"

type_synonym range_map_client = "string \<Rightarrow> unit + RangeMap"

definition Syncer_pull ::
  "bool \<Rightarrow> range_map_client \<Rightarrow> syncer_state \<Rightarrow> PeerEpoch \<Rightarrow> (syncer_state \<times> bool) option" where
  "Syncer_pull has_publisher client st peer =
     (case client (pe_AdvertiseAddr peer) of
        Inl _ \<Rightarrow> Some (st, False)
      | Inr fetched \<Rightarrow>
         (case Table_Merge (sy_table st) fetched of
            None \<Rightarrow> None
          | Some (t, Inl _) \<Rightarrow> Some (st\<lparr>sy_table := t\<rparr>, False)
          | Some (t, Inr changed) \<Rightarrow>
              if \<not> changed then Some (st\<lparr>sy_table := t\<rparr>, False)
              else Some (st\<lparr>sy_table := t,
                            sy_published := (if has_publisher then sy_published st @ [Table_Epoch t]
                                             else sy_published st)\<rparr>, True)))"

fun Syncer_tick_loop ::
  "bool \<Rightarrow> range_map_client \<Rightarrow> u64 \<Rightarrow> (nat \<times> PeerEpoch) list \<Rightarrow> nat list \<Rightarrow> syncer_state
     \<Rightarrow> (syncer_state \<times> nat list \<times> bool) option" where
  "Syncer_tick_loop pub client localEpoch [] attempted st = Some (st, attempted, False)"
| "Syncer_tick_loop pub client localEpoch ((i, peer) # rest) attempted st =
     (if pe_RangeMapEpoch peer \<le> localEpoch
      then Syncer_tick_loop pub client localEpoch rest attempted st
      else (case Syncer_pull pub client st peer of
              None \<Rightarrow> None
            | Some (st', True) \<Rightarrow> Some (st', i # attempted, True)
            | Some (st', False) \<Rightarrow> Syncer_tick_loop pub client localEpoch rest (i # attempted) st'))"

text \<open>\<open>rnd\<close> is the random number from which \<open>rand.Intn\<close> takes the candidate.\<close>

definition Syncer_tick ::
  "bool \<Rightarrow> range_map_client \<Rightarrow> PeerEpoch list \<Rightarrow> nat \<Rightarrow> syncer_state \<Rightarrow> syncer_state option" where
  "Syncer_tick pub client peers rnd st =
     (case Syncer_tick_loop pub client (Table_Epoch (sy_table st)) (List.enumerate 0 peers) [] st of
        None \<Rightarrow> None
      | Some (st', attempted, True) \<Rightarrow> Some st'
      | Some (st', attempted, False) \<Rightarrow>
         (let candidates = filter (\<lambda>i. i \<notin> set attempted) [0..<length peers]
          in if length candidates > 0
             then map_option fst
                    (Syncer_pull pub client st' (peers ! (candidates ! (rnd mod length candidates))))
             else Some st'))"

section \<open>proposal.go\<close>

definition writeUint64 :: "byte list \<Rightarrow> u64 \<Rightarrow> byte list" where
  "writeUint64 hash value = hash @ be_enc 8 (unat value)"

definition writeString :: "byte list \<Rightarrow> string \<Rightarrow> byte list" where
  "writeString hash value = writeUint64 hash (of_nat (length value)) @ bytes_of value"

text \<open>The bytes that \<open>ProposalID\<close> hashes; the hash with its hexadecimal form is a parameter.\<close>

definition canonical_ranges :: "Range list \<Rightarrow> Range list" where
  "canonical_ranges ranges =
     sort_key (\<lambda>r. (Start r, End r)) (map (\<lambda>r. (Range_Clone r)\<lparr>Replicas := sort (Replicas r)\<rparr>) ranges)"

definition ProposalID_bytes :: "Range list \<Rightarrow> byte list" where
  "ProposalID_bytes ranges =
     (let canonical = canonical_ranges ranges;
          hash = writeUint64 [] (of_nat (length canonical))
      in fold (\<lambda>r hash.
           let hash = writeString hash (Start r);
               hash = writeString hash (End r);
               hash = writeUint64 hash (of_nat (length (Replicas r)))
           in fold (\<lambda>replica hash. writeString hash replica) (Replicas r) hash) canonical hash)"

definition ProposalID_of :: "(byte list \<Rightarrow> string) \<Rightarrow> Range list \<Rightarrow> string" where
  "ProposalID_of sha256_hex ranges = sha256_hex (ProposalID_bytes ranges)"

section \<open>convert.go and server.go\<close>

record RangeSpec =
  rs_Start :: string
  rs_End :: string
  rs_ReplicaNodeIds :: "string list"
  rs_Generation :: u64
  rs_ProposalId :: string

record PbRangeMap =
  pm_Generation :: u64
  pm_Ranges :: "RangeSpec option list"

definition RangeToProto :: "Range \<Rightarrow> RangeSpec" where
  "RangeToProto r =
     \<lparr>rs_Start = Start r, rs_End = End r, rs_ReplicaNodeIds = [] @ Replicas r,
      rs_Generation = Generation r, rs_ProposalId = ProposalID r\<rparr>"

definition RangeFromProto :: "RangeSpec option \<Rightarrow> Range" where
  "RangeFromProto spec =
     (case spec of
        None \<Rightarrow> \<lparr>Start = '''', End = '''', Replicas = [], Generation = 0, ProposalID = ''''\<rparr>
      | Some spec \<Rightarrow>
          \<lparr>Start = rs_Start spec, End = rs_End spec, Replicas = [] @ rs_ReplicaNodeIds spec,
           Generation = rs_Generation spec, ProposalID = rs_ProposalId spec\<rparr>)"

definition RangeMapToProto :: "RangeMap \<Rightarrow> PbRangeMap" where
  "RangeMapToProto m =
     \<lparr>pm_Generation = RangeMap_Epoch m, pm_Ranges = map (\<lambda>r. Some (RangeToProto r)) (Ranges m)\<rparr>"

definition RangeMapFromProto :: "PbRangeMap option \<Rightarrow> RangeMap" where
  "RangeMapFromProto pm =
     (case pm of
        None \<Rightarrow> \<lparr>Ranges = []\<rparr>
      | Some pm \<Rightarrow> \<lparr>Ranges = map RangeFromProto (pm_Ranges pm)\<rparr>)"

text \<open>The status of an RPC: a gRPC error for a cancelled context, or the response.\<close>

definition Server_GetRangeMap :: "Table \<Rightarrow> 'e option \<Rightarrow> 'e + PbRangeMap" where
  "Server_GetRangeMap table ctx_err =
     (case ctx_err of
        Some err \<Rightarrow> Inl err
      | None \<Rightarrow> Inr (RangeMapToProto (Table_Snapshot table)))"

section \<open>What the table promises\<close>

definition table_ok :: "Table \<Rightarrow> bool" where
  "table_ok t \<longleftrightarrow> ranges_valid (Ranges (rangeMap t)) \<and> ranges_proper (Ranges (rangeMap t))"

text \<open>The generation under which a key is currently held.\<close>

definition gen_at :: "Table \<Rightarrow> string \<Rightarrow> nat" where
  "gen_at t k = (case range_at (Ranges (rangeMap t)) k of None \<Rightarrow> 0 | Some r \<Rightarrow> unat (Generation r))"

text \<open>
  The contract between the table and everything that merges into it: a merge of any map returns,
  keeps the invariant, never lowers the generation of a key, and leaves the table alone unless it
  reports a change.
\<close>

locale map_store =
  fixes inv :: "'t \<Rightarrow> bool"
    and merge :: "'t \<Rightarrow> 'm \<Rightarrow> ('t \<times> ('e + bool)) option"
    and gen :: "'t \<Rightarrow> string \<Rightarrow> nat"
  assumes merge_returns: "inv t \<Longrightarrow> \<exists>t' r. merge t m = Some (t', r)"
    and merge_inv: "inv t \<Longrightarrow> merge t m = Some (t', r) \<Longrightarrow> inv t'"
    and merge_gen: "inv t \<Longrightarrow> merge t m = Some (t', r) \<Longrightarrow> gen t k \<le> gen t' k"
    and merge_unchanged: "inv t \<Longrightarrow> merge t m = Some (t', r) \<Longrightarrow> r \<noteq> Inr True \<Longrightarrow> t' = t"
begin

definition later :: "'t \<Rightarrow> 't \<Rightarrow> bool" where
  "later t t' \<longleftrightarrow> inv t' \<and> (\<forall>k. gen t k \<le> gen t' k)"

lemma later_refl: "inv t \<Longrightarrow> later t t"
  by (simp add: later_def)

lemma later_trans: "later t t' \<Longrightarrow> later t' t'' \<Longrightarrow> later t t''"
  unfolding later_def by (meson order_trans)

lemma merge_later: "inv t \<Longrightarrow> merge t m = Some (t', r) \<Longrightarrow> later t t'"
  using merge_inv merge_gen by (auto simp: later_def)

lemma later_inv: "later t t' \<Longrightarrow> inv t'"
  by (simp add: later_def)

end

lemma Table_Merge_cases:
  assumes "table_ok t" and "Table_Merge t m = Some (t', r)"
  obtains "t' = t" "r \<noteq> Inr True"
  | "RangeMap_Validate m = Inr ()" "RangeMap_Merge (rangeMap t) m = Some (Inr (rangeMap t', True))"
      "r = Inr True" "localNodeID t' = localNodeID t"
proof -
  have v: "RangeMap_Validate m = Inr ()" if "RangeMap_Merge (rangeMap t) m = Some (Inr x)" for x
    using that by (auto simp: RangeMap_Merge_def split: sum.splits)
  show thesis
    using assms that v by (auto simp: Table_Merge_def split: option.splits sum.splits prod.splits if_splits)
qed

lemma Merge_returns: "ranges_valid (Ranges m) \<Longrightarrow> \<exists>res. RangeMap_Merge m n = Some res"
proof (cases "ranges_valid (Ranges n)")
  case True
  then show "ranges_valid (Ranges m) \<Longrightarrow> ?thesis" by (simp add: Merge_eq)
next
  case False
  then obtain err where "RangeMap_Validate n = Inl err"
    by (metis Validate_Inr old.sum.exhaust)
  then show "ranges_valid (Ranges m) \<Longrightarrow> ?thesis"
    by (auto simp: RangeMap_Merge_def split: sum.splits)
qed

lemma Merge_gen_at:
  assumes "ranges_valid (Ranges m)" and "ranges_valid (Ranges n)"
    and "RangeMap_Merge m n = Some (Inr (res, c))"
  shows "(case range_at (Ranges m) k of None \<Rightarrow> 0 | Some r \<Rightarrow> unat (Generation r))
     \<le> (case range_at (Ranges res) k of None \<Rightarrow> 0 | Some r \<Rightarrow> unat (Generation r))"
    and Merge_gen_at_incoming: "(case range_at (Ranges n) k of None \<Rightarrow> 0 | Some r \<Rightarrow> unat (Generation r))
     \<le> (case range_at (Ranges res) k of None \<Rightarrow> 0 | Some r \<Rightarrow> unat (Generation r))"
proof -
  from assms(3) have nt: "\<not> ties_at_max m n" and res: "Ranges res = coalesceSegments (merge_segs m n)"
    by (auto simp: Merge_eq [OF assms(1,2)] simp del: rangeMapsEqual_iff split: if_splits)
  obtain l r where lr: "range_at (Ranges m) k = Some l" "range_at (Ranges n) k = Some r"
    "pick_at (Ranges m) (Ranges n) k = pickRange l r (the (rangeIndexAt (Ranges m) k)) (the (rangeIndexAt (Ranges n) k))"
    using pick_at_props [OF assms(1,2), of k] by metis
  obtain w src t where p: "pick_at (Ranges m) (Ranges n) k = (w, src, t)" by (metis prod_cases3)
  have le: "Generation l \<le> Generation w" "Generation r \<le> Generation w"
    using pickRange_cases [of l r] lr p by metis+
  have nb: "Generation w \<noteq> -1" if "bumped_at m n k" using bump_not_max [OF nt that] by (simp add: p)
  show "(case range_at (Ranges m) k of None \<Rightarrow> 0 | Some r \<Rightarrow> unat (Generation r))
     \<le> (case range_at (Ranges res) k of None \<Rightarrow> 0 | Some r \<Rightarrow> unat (Generation r))"
    and "(case range_at (Ranges n) k of None \<Rightarrow> 0 | Some r \<Rightarrow> unat (Generation r))
     \<le> (case range_at (Ranges res) k of None \<Rightarrow> 0 | Some r \<Rightarrow> unat (Generation r))"
    using merged_at [OF assms(1,2) nt, of k] nb le
    by (auto simp: lr(1,2) res p meta_def word_le_nat_alt unat_u64_inc split: if_splits)
qed

lemma Merge_result_ok:
  assumes "ranges_valid (Ranges m)" and "ranges_valid (Ranges n)"
    and "RangeMap_Merge m n = Some (Inr (res, c))"
  shows "ranges_valid (Ranges res) \<and> ranges_proper (Ranges res)"
proof -
  have nt: "\<not> ties_at_max m n" and res: "Ranges res = coalesceSegments (merge_segs m n)"
    using assms(3) by (auto simp: Merge_eq [OF assms(1,2)] simp del: rangeMapsEqual_iff split: if_splits)
  have "merge_segs m n \<noteq> []" by (simp add: merge_segs_def)
  then show ?thesis
    using coalesce_spec(1,2) [OF merge_segs_chain _ merge_segs_meta_ok [OF assms(1,2) nt]] by (simp add: res)
qed

interpretation tab: map_store table_ok Table_Merge gen_at
proof
  fix t m
  assume "table_ok t"
  then obtain res where "RangeMap_Merge (rangeMap t) m = Some res"
    using Merge_returns by (auto simp: table_ok_def)
  then show "\<exists>t' r. Table_Merge t m = Some (t', r)"
    by (auto simp: Table_Merge_def split: sum.splits prod.splits)
next
  fix t m t' r
  assume "table_ok t" and "Table_Merge t m = Some (t', r)"
  then show "table_ok t'"
  proof (rule Table_Merge_cases)
    assume "RangeMap_Validate m = Inr ()" "RangeMap_Merge (rangeMap t) m = Some (Inr (rangeMap t', True))"
    then show ?thesis
      using Merge_result_ok [of "rangeMap t" m "rangeMap t'" True] \<open>table_ok t\<close> by (simp add: table_ok_def)
  qed (use \<open>table_ok t\<close> in simp)
next
  fix t m t' r k
  assume "table_ok t" and "Table_Merge t m = Some (t', r)"
  then show "gen_at t k \<le> gen_at t' k"
  proof (rule Table_Merge_cases)
    assume "RangeMap_Validate m = Inr ()" "RangeMap_Merge (rangeMap t) m = Some (Inr (rangeMap t', True))"
    then show ?thesis
      using Merge_gen_at [of "rangeMap t" m "rangeMap t'" True] \<open>table_ok t\<close>
      by (simp add: table_ok_def gen_at_def)
  qed simp
next
  fix t m t' r
  assume "table_ok t" and "Table_Merge t m = Some (t', r)" and "r \<noteq> Inr True"
  from this(1,2) show "t' = t" by (rule Table_Merge_cases) (use \<open>r \<noteq> Inr True\<close> in auto)
qed

section \<open>The syncer\<close>

lemma Syncer_pull_later:
  assumes "table_ok (sy_table st)"
  shows "\<exists>st' b. Syncer_pull pub client st peer = Some (st', b) \<and> tab.later (sy_table st) (sy_table st')"
proof (cases "client (pe_AdvertiseAddr peer)")
  case (Inl e)
  then show ?thesis using tab.later_refl [OF assms] by (auto simp: Syncer_pull_def)
next
  case (Inr fetched)
  obtain t r where m: "Table_Merge (sy_table st) fetched = Some (t, r)"
    using tab.merge_returns [OF assms] by blast
  show ?thesis
    using tab.merge_later [OF assms m] by (cases r) (auto simp: Syncer_pull_def Inr m)
qed

lemma Syncer_tick_loop_later:
  "table_ok (sy_table st) \<Longrightarrow> \<exists>st' att b. Syncer_tick_loop pub client ep ps attempted st = Some (st', att, b)
     \<and> tab.later (sy_table st) (sy_table st')"
proof (induction ps arbitrary: attempted st)
  case Nil
  then show ?case using tab.later_refl by auto
next
  case (Cons ip ps)
  obtain i p where ip: "ip = (i, p)" by (cases ip)
  show ?case
  proof (cases "pe_RangeMapEpoch p \<le> ep")
    case True
    then show ?thesis using Cons.IH [OF Cons.prems] by (simp add: ip)
  next
    case False
    obtain st' b where pull: "Syncer_pull pub client st p = Some (st', b)"
      and l: "tab.later (sy_table st) (sy_table st')"
      using Syncer_pull_later [OF Cons.prems] by blast
    show ?thesis
      using Cons.IH [OF tab.later_inv [OF l], of "i # attempted"] tab.later_trans [OF l] False l
      by (cases b) (auto simp: ip pull)
  qed
qed

lemma Epoch_max:
  assumes "r \<in> set (Ranges m)"
  shows "Generation r \<le> RangeMap_Epoch m"
proof -
  have mono: "e \<le> fold (\<lambda>r epoch. if Generation r > epoch then Generation r else epoch) rs e" for rs and e :: u64
    by (induction rs arbitrary: e) (auto intro: order_trans less_imp_le)
  have "Generation r \<le> fold (\<lambda>r epoch. if Generation r > epoch then Generation r else epoch) rs e"
    if "r \<in> set rs" for rs and e :: u64
    using that
  proof (induction rs arbitrary: e)
    case (Cons q rs)
    show ?case
    proof (cases "r = q")
      case True
      have "Generation q \<le> (if Generation q > e then Generation q else e)" by auto
      then show ?thesis using True mono [of "if Generation q > e then Generation q else e" rs] by simp
    next
      case False
      then show ?thesis using Cons by simp
    qed
  qed simp
  with assms show ?thesis by (simp add: RangeMap_Epoch_def)
qed

text \<open>
  C22: One tick of the syncer is safe whatever the peers answer. For any table that holds a valid
  map, any set of peers, any responses of the client (errors, invalid and stale maps included) and
  any random choice, the tick returns, the table again holds a valid map whose only unbounded
  range is the last, and the generation of no key has decreased.
\<close>

theorem Syncer_tick_safe:
  assumes "table_ok (sy_table st)"
  shows "\<exists>st'. Syncer_tick pub client peers rnd st = Some st' \<and> table_ok (sy_table st')
    \<and> (\<forall>k. gen_at (sy_table st) k \<le> gen_at (sy_table st') k)"
proof -
  obtain st' att b where loop: "Syncer_tick_loop pub client (Table_Epoch (sy_table st)) (List.enumerate 0 peers) [] st
      = Some (st', att, b)" and l: "tab.later (sy_table st) (sy_table st')"
    using Syncer_tick_loop_later [OF assms] by blast
  have pull: "\<exists>st'' b. Syncer_pull pub client st' p = Some (st'', b) \<and> tab.later (sy_table st) (sy_table st'')" for p
    using Syncer_pull_later [OF tab.later_inv [OF l]] tab.later_trans [OF l] by blast
  let ?c = "filter (\<lambda>i. i \<notin> set att) [0..<length peers]"
  have "\<exists>st'. Syncer_tick pub client peers rnd st = Some st' \<and> tab.later (sy_table st) (sy_table st')"
    using l pull [of "peers ! (?c ! (rnd mod length ?c))"]
    by (cases b) (auto simp: Syncer_tick_def loop Let_def)
  then show ?thesis by (auto simp: tab.later_def)
qed

section \<open>A cluster of tables\<close>

text \<open>
  A cluster is a table per node. A node pulls the map of another node through the range-map
  service (server side \<open>GetRangeMap\<close>, client side \<open>RangeMapFromProto\<close>), or merges a map of its own
  making (a proposal of the tablet scheduler). Any interleaving of these steps is a run.
\<close>

inductive cluster_step :: "(string \<Rightarrow> Table) \<Rightarrow> (string \<Rightarrow> Table) \<Rightarrow> bool" where
  pull: "Server_GetRangeMap (tables j) (None :: unit option) = Inr pm \<Longrightarrow>
     Table_Merge (tables i) (RangeMapFromProto (Some pm)) = Some (t, res) \<Longrightarrow>
     cluster_step tables (tables(i := t))"
| propose: "Table_Merge (tables i) m = Some (t, res) \<Longrightarrow> cluster_step tables (tables(i := t))"

inductive cluster_run :: "(string \<Rightarrow> Table) \<Rightarrow> (string \<Rightarrow> Table) \<Rightarrow> bool" where
  start: "cluster_run tables tables"
| step: "cluster_run tables tables' \<Longrightarrow> cluster_step tables' tables'' \<Longrightarrow> cluster_run tables tables''"

inductive_cases cluster_stepE: "cluster_step tables tables'"

lemma RangeFromProto_ToProto [simp]: "RangeFromProto (Some (RangeToProto r)) = r"
  by (simp add: RangeFromProto_def RangeToProto_def)

lemma RangeMapFromProto_ToProto [simp]: "RangeMapFromProto (Some (RangeMapToProto m)) = m"
  by (simp add: RangeMapFromProto_def RangeMapToProto_def o_def)

lemma cluster_step_later:
  assumes "cluster_step tables tables'" and "\<And>i. table_ok (tables i)"
  shows "tab.later (tables i) (tables' i)"
  using assms(1)
proof (cases rule: cluster_step.cases)
  case (pull j pm a t res)
  then show ?thesis
    using tab.merge_later [OF assms(2) pull(3)] tab.later_refl [OF assms(2)] by simp
next
  case (propose a m t res)
  then show ?thesis
    using tab.merge_later [OF assms(2) propose(2)] tab.later_refl [OF assms(2)] by simp
qed

lemma cluster_run_later:
  assumes "cluster_run tables tables'" and "\<And>i. table_ok (tables i)"
  shows "tab.later (tables i) (tables' i)"
  using assms
proof (induction arbitrary: i rule: cluster_run.induct)
  case (start tables)
  then show ?case using tab.later_refl by blast
next
  case (step tables tables' tables'')
  have "table_ok (tables' i)" for i using step.IH [OF step.prems] tab.later_inv by blast
  then show ?case
    using cluster_step_later [OF step.hyps(2)] step.IH [OF step.prems] tab.later_trans by blast
qed

text \<open>
  C11: In every interleaving of pulls and proposals over any number of nodes, every node keeps a
  valid range map whose only unbounded range is the last, so that it can route every key, and on
  every node the generation of every key only grows; when a node pulls from a peer, the generation it
  holds for each key is afterwards at least the peer's, unless the merge reported an error.
\<close>

theorem cluster_run_safe:
  assumes "\<And>i. table_ok (tables i)" and "cluster_run tables tables'"
  shows "table_ok (tables' i) \<and> gen_at (tables i) k \<le> gen_at (tables' i) k
    \<and> Table_Owners (tables' i) k \<noteq> []
    \<and> (\<forall>t res. Table_Merge (tables' i) (Table_Snapshot (tables' j)) = Some (t, Inr res)
         \<longrightarrow> gen_at (tables' j) k \<le> gen_at t k)"
proof (intro conjI allI impI)
  have l: "tab.later (tables i) (tables' i)" for i using cluster_run_later [OF assms(2,1)] .
  then show ok: "table_ok (tables' i)" and "gen_at (tables i) k \<le> gen_at (tables' i) k"
    by (auto simp: tab.later_def)
  then have v: "ranges_valid (Ranges (rangeMap (tables' i)))" by (simp add: table_ok_def)
  obtain n where "rangeIndexAt (Ranges (rangeMap (tables' i))) k = Some n" using rangeIndexAt_total [OF v] by blast
  then show "Table_Owners (tables' i) k \<noteq> []"
    using rangeIndexAt_SomeD v by (fastforce simp: Table_Owners_def Owners_range_at ranges_valid_def range_ok_def)
next
  fix t res
  assume m: "Table_Merge (tables' i) (Table_Snapshot (tables' j)) = Some (t, Inr res)"
  have "table_ok (tables' i)" for i using cluster_run_later [OF assms(2,1)] tab.later_inv by blast
  then have v: "ranges_valid (Ranges (rangeMap (tables' i)))" for i by (simp add: table_ok_def)
  obtain c where "RangeMap_Merge (rangeMap (tables' i)) (rangeMap (tables' j)) = Some (Inr (rangeMap t, c))"
    using m by (auto simp: Table_Merge_def Table_Snapshot_def Merge_eq [OF v v] split: if_splits)
  from Merge_gen_at_incoming [OF v v this] show "gen_at (tables' j) k \<le> gen_at t k"
    by (simp add: gen_at_def)
qed

section \<open>Proposal ids\<close>

lemma be_enc_inject:
  assumes "be_enc 8 (unat (a :: u64)) @ x = be_enc 8 (unat b) @ y"
  shows "a = b \<and> x = y"
proof -
  have "be_enc 8 (unat a) = be_enc 8 (unat b)" "x = y" using assms by simp_all
  then have "be_val (be_enc 8 (unat a)) = be_val (be_enc 8 (unat b))" by simp
  then have "unat a = unat b" by (simp only: be_val_be_enc unat_mod_word)
  with \<open>x = y\<close> show ?thesis by (simp add: word_unat_eq_iff)
qed

text \<open>Go strings and slices have a length below \<open>2 ^ 64\<close>.\<close>

abbreviation len_ok :: "'a list \<Rightarrow> bool" where
  "len_ok xs \<equiv> length xs < 2 ^ 64"

lemma len_inject:
  assumes "len_ok xs" and "len_ok ys" and "(of_nat (length xs) :: u64) = of_nat (length ys)"
  shows "length xs = length ys"
proof -
  have "unat (of_nat (length xs) :: u64) = length xs" "unat (of_nat (length ys) :: u64) = length ys"
    using assms(1,2) by (simp_all add: unat_of_nat)
  then show ?thesis using assms(3) by metis
qed

definition enc_str :: "string \<Rightarrow> byte list" where
  "enc_str s = be_enc 8 (unat (of_nat (length s) :: u64)) @ bytes_of s"

definition enc_range :: "Range \<Rightarrow> byte list" where
  "enc_range r = enc_str (Start r) @ enc_str (End r)
     @ be_enc 8 (unat (of_nat (length (Replicas r)) :: u64)) @ concat (map enc_str (Replicas r))"

lemma writeString_enc: "writeString h s = h @ enc_str s"
  by (simp add: writeString_def writeUint64_def enc_str_def)

lemma ProposalID_bytes_eq:
  "ProposalID_bytes rs = be_enc 8 (unat (of_nat (length (canonical_ranges rs)) :: u64))
     @ concat (map enc_range (canonical_ranges rs))"
proof -
  have inner: "fold (\<lambda>replica hash. writeString hash replica) xs h = h @ concat (map enc_str xs)" for xs h
    by (induction xs arbitrary: h) (auto simp: writeString_enc)
  note inner = inner [unfolded writeString_enc]
  have "fold (\<lambda>r hash.
           let hash = writeString hash (Start r);
               hash = writeString hash (End r);
               hash = writeUint64 hash (of_nat (length (Replicas r)))
           in fold (\<lambda>replica hash. writeString hash replica) (Replicas r) hash) rs h
        = h @ concat (map enc_range rs)" for rs h
    by (induction rs arbitrary: h) (auto simp: inner writeString_enc writeUint64_def enc_range_def Let_def)
  then show ?thesis by (simp add: ProposalID_bytes_def Let_def writeUint64_def)
qed

lemma enc_str_inject:
  assumes "enc_str s @ x = enc_str t @ y" and "len_ok s" and "len_ok t"
  shows "s = t \<and> x = y"
proof -
  have e: "(of_nat (length s) :: u64) = of_nat (length t) \<and> bytes_of s @ x = bytes_of t @ y"
    using assms(1) be_enc_inject unfolding enc_str_def append_assoc by blast
  then have "bytes_of s = bytes_of t \<and> x = y"
    using len_inject [OF assms(2,3)] by simp
  then show ?thesis by (metis string_of_bytes_of)
qed

lemma enc_strs_inject:
  "concat (map enc_str ss) @ x = concat (map enc_str ts) @ y \<Longrightarrow> length ss = length ts \<Longrightarrow>
     \<forall>s\<in>set ss \<union> set ts. len_ok s \<Longrightarrow> ss = ts \<and> x = y"
proof (induction ss ts arbitrary: x y rule: list_induct2')
  case (4 s ss t ts)
  then have *: "s = t \<and> concat (map enc_str ss) @ x = concat (map enc_str ts) @ y"
    by (intro enc_str_inject) auto
  then have "ss = ts \<and> x = y" using 4 by (intro "4.IH") auto
  with * show ?case by simp
qed auto

definition go_sized :: "Range \<Rightarrow> bool" where
  "go_sized r \<longleftrightarrow> len_ok (Start r) \<and> len_ok (End r) \<and> len_ok (Replicas r) \<and> (\<forall>s\<in>set (Replicas r). len_ok s)"

definition shape :: "Range \<Rightarrow> string \<times> string \<times> string list" where
  "shape r = (Start r, End r, Replicas r)"

lemma enc_range_inject:
  assumes "enc_range r @ x = enc_range q @ y" and "go_sized r" and "go_sized q"
  shows "shape r = shape q \<and> x = y"
proof -
  have 1: "Start r = Start q"
    and 2: "enc_str (End r) @ be_enc 8 (unat (of_nat (length (Replicas r)) :: u64)) @ concat (map enc_str (Replicas r)) @ x
      = enc_str (End q) @ be_enc 8 (unat (of_nat (length (Replicas q)) :: u64)) @ concat (map enc_str (Replicas q)) @ y"
    using assms enc_str_inject unfolding enc_range_def append_assoc go_sized_def by blast+
  have 3: "End r = End q"
    and 4: "be_enc 8 (unat (of_nat (length (Replicas r)) :: u64)) @ concat (map enc_str (Replicas r)) @ x
      = be_enc 8 (unat (of_nat (length (Replicas q)) :: u64)) @ concat (map enc_str (Replicas q)) @ y"
    using enc_str_inject [OF 2] assms(2,3) by (simp_all add: go_sized_def)
  have "length (Replicas r) = length (Replicas q)"
    using be_enc_inject [OF 4] len_inject assms(2,3) by (auto simp: go_sized_def)
  then have "Replicas r = Replicas q \<and> x = y"
    using be_enc_inject [OF 4] enc_strs_inject [of "Replicas r" x "Replicas q" y] assms(2,3)
    by (auto simp: go_sized_def)
  with 1 3 show ?thesis by (simp add: shape_def)
qed

lemma enc_ranges_inject:
  "concat (map enc_range rs) @ x = concat (map enc_range qs) @ y \<Longrightarrow> length rs = length qs \<Longrightarrow>
     \<forall>r\<in>set rs \<union> set qs. go_sized r \<Longrightarrow> map shape rs = map shape qs"
proof (induction rs qs arbitrary: x y rule: list_induct2')
  case (4 r rs q qs)
  then have *: "shape r = shape q \<and> concat (map enc_range rs) @ x = concat (map enc_range qs) @ y"
    by (intro enc_range_inject) auto
  then have "map shape rs = map shape qs" using 4 by (intro "4.IH" [of x y]) auto
  with * show ?case by simp
qed auto

lemma canonical_props:
  "length (canonical_ranges rs) = length rs"
  "(\<forall>r\<in>set (canonical_ranges rs). go_sized r) \<longleftrightarrow> (\<forall>r\<in>set rs. go_sized r)"
  by (auto simp: canonical_ranges_def go_sized_def)

lemma ProposalID_bytes_shape:
  "map shape (canonical_ranges rs) = map shape (canonical_ranges qs) \<Longrightarrow> ProposalID_bytes rs = ProposalID_bytes qs"
proof -
  assume a: "map shape (canonical_ranges rs) = map shape (canonical_ranges qs)"
  have "enc_range = (\<lambda>(s, e, reps). enc_str s @ enc_str e @ be_enc 8 (unat (of_nat (length reps) :: u64))
      @ concat (map enc_str reps)) \<circ> shape"
    by (auto simp: enc_range_def shape_def)
  then have "map enc_range (canonical_ranges xs) = map (\<lambda>(s, e, reps). enc_str s @ enc_str e
      @ be_enc 8 (unat (of_nat (length reps) :: u64)) @ concat (map enc_str reps)) (map shape (canonical_ranges xs))" for xs
    by simp
  then have "map enc_range (canonical_ranges rs) = map enc_range (canonical_ranges qs)"
    using a by (simp only:)
  moreover have "length (canonical_ranges rs) = length (canonical_ranges qs)"
    using arg_cong [OF a, of length] by simp
  ultimately show ?thesis unfolding ProposalID_bytes_eq by (simp only:)
qed


definition ex_ranges1 :: "Range list" where
  "ex_ranges1 = [\<lparr>Start = '''', End = ''m'', Replicas = [''n2'', ''n1''], Generation = 4, ProposalID = ''a''\<rparr>]"

definition ex_ranges2 :: "Range list" where
  "ex_ranges2 = [\<lparr>Start = '''', End = ''m'', Replicas = [''n1'', ''n2''], Generation = 7, ProposalID = ''b''\<rparr>]"


section \<open>Concrete runs\<close>

definition ex_table :: "string \<Rightarrow> Table" where
  "ex_table i = \<lparr>localNodeID = i, rangeMap = (if i = ''n1'' then ex_map1 else ex_map2)\<rparr>"

lemma ex_table_ok: "table_ok (ex_table i)"
  by (simp add: table_ok_def ex_table_def ex_map1_def ex_map2_def ranges_valid_def range_ok_def ranges_proper_def)

theorem Syncer_tick_safe_witness:
  "table_ok (ex_table ''n1'') \<and>
   (\<exists>st'. Syncer_tick True (\<lambda>_. Inr ex_map2)
      [\<lparr>pe_NodeID = ''n2'', pe_AdvertiseAddr = ''a2'', pe_RangeMapEpoch = 9\<rparr>] 0
      \<lparr>sy_table = ex_table ''n1'', sy_published = []\<rparr> = Some st' \<and> table_ok (sy_table st'))"
  using ex_table_ok [of "''n1''"]
    Syncer_tick_safe [of "\<lparr>sy_table = ex_table ''n1'', sy_published = []\<rparr>" True "\<lambda>_. Inr ex_map2"] by fastforce

lemma ex_cluster_run: "\<exists>t. cluster_run ex_table (ex_table(''n1'' := t)) \<and> t \<noteq> ex_table ''n1''"
proof -
  obtain t where t: "Table_Merge (ex_table ''n1'') ex_map2 = Some (t, Inr True)" "t \<noteq> ex_table ''n1''"
    by (simp add: Table_Merge_def ex_table_def ex_merge)
      (simp add: ex_map1_def)
  show ?thesis
    using cluster_run.step [OF cluster_run.start cluster_step.propose [of ex_table "''n1''", OF t(1)]] t(2) by blast
qed

theorem cluster_run_safe_witness:
  "\<exists>tables'. cluster_run ex_table tables' \<and> tables' ''n1'' \<noteq> ex_table ''n1'' \<and> Table_Owners (tables' ''n1'') ''k'' \<noteq> []"
proof -
  obtain t where run: "cluster_run ex_table (ex_table(''n1'' := t))" "t \<noteq> ex_table ''n1''"
    using ex_cluster_run by blast
  show ?thesis
    using cluster_run_safe [OF ex_table_ok run(1), of "''n1''" "''k''"] run
    by (intro exI [of _ "ex_table(''n1'' := t)"]) simp
qed

end
