(* ===== verification/Memtable.thy ===== *)
theory Memtable
  imports Prelude "HOL-Library.Monad_Syntax" "HOL-Library.Multiset"
begin

text \<open>
  The in-memory tables of the storage engine: \<open>src/memtable\<close> (interface, hash map, B-tree, immutable
  snapshot) with \<open>src/models/key_value\<close>.

  The Go interface \<open>Memtable\<close> is a record of operations over a state type; \<open>None\<close> is a panic. The
  callbacks of \<open>Scan\<close> are the list of calls in order. The locale \<open>memtable\<close> states the contract the
  engine relies on (a table is a finite map with a byte count), is interpreted for the hash map
  and for the B-tree, and carries the lemmas the engine uses. The locks of \<open>syncMemtable\<close> make each
  operation one atomic step; the wrapper forwards every operation and has no content of its own.
\<close>

section \<open>key\_value.go and config.json\<close>

type_synonym KeyValue = "string \<times> string"

definition Tombstone :: string where
  "Tombstone = ''<DELETED!>''"

definition SortByKeys :: "KeyValue list \<Rightarrow> KeyValue list" where
  "SortByKeys data = sort_key fst data"

section \<open>memtable.go\<close>

record 'm MemtableOps =
  mo_New :: 'm
  mo_Add :: "'m \<Rightarrow> string \<Rightarrow> string \<Rightarrow> 'm option"
  mo_Get :: "'m \<Rightarrow> string \<Rightarrow> (string \<times> bool) option"
  mo_Scan :: "'m \<Rightarrow> (string \<Rightarrow> bool) \<Rightarrow> KeyValue list option"
  mo_ToRaw :: "'m \<Rightarrow> KeyValue list option"
  mo_GetSize :: "'m \<Rightarrow> int"
  mo_Clear :: "'m \<Rightarrow> 'm"
  mo_TakeSnapshot :: "'m \<Rightarrow> (KeyValue list \<times> 'm) option"

definition entryBytes :: "string \<Rightarrow> string \<Rightarrow> int" where
  "entryBytes key value = int (length key) + int (length value)"

section \<open>hashmap.go\<close>

record HashMap =
  hm_data :: "(string \<times> string) list"
  hm_byteSize :: int

definition NewHashMap :: HashMap where
  "NewHashMap = \<lparr>hm_data = [], hm_byteSize = 0\<rparr>"

definition HashMap_GetSize :: "HashMap \<Rightarrow> int" where
  "HashMap_GetSize h = hm_byteSize h"

definition HashMap_Add :: "HashMap \<Rightarrow> string \<Rightarrow> string \<Rightarrow> HashMap" where
  "HashMap_Add h key value =
     (let size = (case map_of (hm_data h) key of
                    Some old \<Rightarrow> hm_byteSize h + (entryBytes key value - entryBytes key old)
                  | None \<Rightarrow> hm_byteSize h + entryBytes key value)
      in h\<lparr>hm_data := AList.update key value (hm_data h), hm_byteSize := size\<rparr>)"

definition HashMap_Get :: "HashMap \<Rightarrow> string \<Rightarrow> string \<times> bool" where
  "HashMap_Get h key =
     (case map_of (hm_data h) key of
        None \<Rightarrow> ('''', False)
      | Some value \<Rightarrow> if value = Tombstone then ('''', False) else (value, True))"

definition HashMap_Scan :: "HashMap \<Rightarrow> (string \<Rightarrow> bool) \<Rightarrow> KeyValue list" where
  "HashMap_Scan h pred = filter (\<lambda>(k, v). pred k) (hm_data h)"

definition HashMap_ToRaw :: "HashMap \<Rightarrow> KeyValue list" where
  "HashMap_ToRaw h = map (\<lambda>(k, v). (k, v)) (hm_data h)"

definition HashMap_Clear :: "HashMap \<Rightarrow> HashMap" where
  "HashMap_Clear h = h\<lparr>hm_data := [], hm_byteSize := 0\<rparr>"

definition HashMap_TakeSnapshot :: "HashMap \<Rightarrow> KeyValue list \<times> HashMap" where
  "HashMap_TakeSnapshot h = (let raw = HashMap_ToRaw h in (raw, h\<lparr>hm_data := [], hm_byteSize := 0\<rparr>))"

definition HashMap_ops :: "HashMap MemtableOps" where
  "HashMap_ops =
     \<lparr>mo_New = NewHashMap,
      mo_Add = (\<lambda>h k v. Some (HashMap_Add h k v)),
      mo_Get = (\<lambda>h k. Some (HashMap_Get h k)),
      mo_Scan = (\<lambda>h p. Some (HashMap_Scan h p)),
      mo_ToRaw = (\<lambda>h. Some (HashMap_ToRaw h)),
      mo_GetSize = HashMap_GetSize,
      mo_Clear = HashMap_Clear,
      mo_TakeSnapshot = (\<lambda>h. Some (HashMap_TakeSnapshot h))\<rparr>"

section \<open>btree.go\<close>

datatype bTreeNode =
  BNode (bt_keys: "string list") (bt_values: "string list") (bt_children: "bTreeNode list")
    (bt_isLeaf: bool)

record BTree =
  bt_root :: bTreeNode
  bt_order :: nat
  bt_byteSize :: int

definition NewBTree :: "int \<Rightarrow> BTree" where
  "NewBTree order =
     (let order = (if order < 2 then 2 else order)
      in \<lparr>bt_root = BNode [] [] [] True, bt_order = nat order, bt_byteSize = 0\<rparr>)"

definition BTree_GetSize :: "BTree \<Rightarrow> int" where
  "BTree_GetSize t = bt_byteSize t"

text \<open>The forward loop \<open>for i < len(keys) && key > keys[i]\<close> of the lookups.\<close>

function key_loop :: "string list \<Rightarrow> string \<Rightarrow> nat \<Rightarrow> nat" where
  "key_loop keys key i = (if i < length keys \<and> key > keys ! i then key_loop keys key (Suc i) else i)"
  by pat_completeness auto
termination
  by (relation "measure (\<lambda>(keys, key, i). length keys - i)") auto

declare key_loop.simps [simp del]

fun bt_height :: "bTreeNode \<Rightarrow> nat" where
  "bt_height (BNode ks vs cs leaf) = Suc (foldr max (map bt_height cs) 0)"

lemma foldr_max_ge: "x \<in> set xs \<Longrightarrow> x \<le> foldr max xs (0 :: nat)"
  by (induction xs) auto

lemma foldr_max_le: "(\<forall>x\<in>set xs. x \<le> b) \<Longrightarrow> foldr max xs (0 :: nat) \<le> b"
  by (induction xs) auto

lemma bt_height_child [simp]: "i < length cs \<Longrightarrow> bt_height (cs ! i) < bt_height (BNode ks vs cs leaf)"
  by (auto simp: less_Suc_eq_le intro!: foldr_max_ge)

function bTreeNode_search :: "bTreeNode \<Rightarrow> string \<Rightarrow> (string \<times> bool) option" where
  "bTreeNode_search (BNode keys values children isLeaf) key =
     (let i = key_loop keys key 0
      in if i < length keys \<and> key = keys ! i
         then (if i < length values
               then (if values ! i = Tombstone then Some ('''', False) else Some (values ! i, True))
               else None)
         else if isLeaf then Some ('''', False)
         else if i < length children then bTreeNode_search (children ! i) key else None)"
  by pat_completeness auto
termination
  by (relation "measure (\<lambda>(n, key). bt_height n)") (simp_all del: bt_height.simps)

definition BTree_Get :: "BTree \<Rightarrow> string \<Rightarrow> (string \<times> bool) option" where
  "BTree_Get t key = bTreeNode_search (bt_root t) key"

function bTreeNode_lookup :: "bTreeNode \<Rightarrow> string \<Rightarrow> (string \<times> bool) option" where
  "bTreeNode_lookup (BNode keys values children isLeaf) key =
     (let i = key_loop keys key 0
      in if i < length keys \<and> key = keys ! i
         then (if i < length values then Some (values ! i, True) else None)
         else if isLeaf then Some ('''', False)
         else if i < length children then bTreeNode_lookup (children ! i) key else None)"
  by pat_completeness auto
termination
  by (relation "measure (\<lambda>(n, key). bt_height n)") (simp_all del: bt_height.simps)

function bTreeNode_updateExisting :: "bTreeNode \<Rightarrow> string \<Rightarrow> string \<Rightarrow> bTreeNode option" where
  "bTreeNode_updateExisting (BNode keys values children isLeaf) key value =
     (let i = key_loop keys key 0
      in if i < length keys \<and> key = keys ! i
         then (if i < length values then Some (BNode keys (values[i := value]) children isLeaf) else None)
         else if \<not> isLeaf
         then (if i < length children
               then (case bTreeNode_updateExisting (children ! i) key value of
                       None \<Rightarrow> None
                     | Some c \<Rightarrow> Some (BNode keys values (children[i := c]) isLeaf))
               else None)
         else Some (BNode keys values children isLeaf))"
  by pat_completeness auto
termination
  by (relation "measure (\<lambda>(n, key, value). bt_height n)") (simp_all del: bt_height.simps)

text \<open>
  The backward loop of \<open>insertNonFull\<close>. The argument is the Go index plus one, so that it never
  becomes negative; in a leaf the loop shifts the entries one to the right as it goes.
\<close>

fun shift_loop :: "string list \<Rightarrow> string list \<Rightarrow> string \<Rightarrow> nat \<Rightarrow> (string list \<times> string list \<times> nat) option" where
  "shift_loop keys values key 0 = Some (keys, values, 0)"
| "shift_loop keys values key (Suc i) =
     (if key < keys ! i
      then (if Suc i < length keys \<and> Suc i < length values
            then shift_loop (keys[Suc i := keys ! i]) (values[Suc i := values ! i]) key i
            else None)
      else Some (keys, values, Suc i))"

fun back_loop :: "string list \<Rightarrow> string \<Rightarrow> nat \<Rightarrow> nat" where
  "back_loop keys key 0 = 0"
| "back_loop keys key (Suc i) = (if key < keys ! i then back_loop keys key i else Suc i)"

text \<open>\<open>append(s, zero); copy(s[i+1:], s[i:]); s[i] = x\<close>\<close>

definition insert_at :: "nat \<Rightarrow> 'a \<Rightarrow> 'a list \<Rightarrow> 'a list" where
  "insert_at i x xs = take i xs @ [x] @ drop i xs"

definition splitChild :: "bTreeNode \<Rightarrow> nat \<Rightarrow> nat \<Rightarrow> bTreeNode option" where
  "splitChild n i order =
     (case n of BNode keys values children isLeaf \<Rightarrow>
        if i < length children
        then (case children ! i of BNode fkeys fvalues fchildren fleaf \<Rightarrow>
                if 0 < order \<and> order - 1 < length fkeys \<and> order - 1 < length fvalues
                   \<and> (\<not> fleaf \<longrightarrow> order \<le> length fchildren) \<and> i \<le> length keys \<and> i \<le> length values
                then (let sibling = BNode (drop order fkeys) (drop order fvalues)
                                      (if fleaf then [] else drop order fchildren) fleaf;
                          full = BNode (take (order - 1) fkeys) (take (order - 1) fvalues)
                                      (if fleaf then fchildren else take order fchildren) fleaf
                      in Some (BNode (insert_at i (fkeys ! (order - 1)) keys)
                                     (insert_at i (fvalues ! (order - 1)) values)
                                     (insert_at (i + 1) sibling (children[i := full])) isLeaf))
                else None)
        else None)"

lemma bt_height_split:
  assumes "splitChild n i order = Some (BNode ks vs cs leaf)" and "c \<in> set cs"
  shows "bt_height c < bt_height n"
proof -
  obtain nks nvs ncs nleaf where n: "n = BNode nks nvs ncs nleaf" by (cases n)
  have i: "i < length ncs" using assms(1) by (auto simp: splitChild_def n split: if_splits)
  obtain fks fvs fcs fleaf where f: "ncs ! i = BNode fks fvs fcs fleaf" by (cases "ncs ! i")
  have sub: "bt_height (BNode a b ds l) \<le> bt_height (ncs ! i)" if "set ds \<subseteq> set fcs" for a b ds l
    using that by (simp add: f, intro foldr_max_le) (auto intro!: foldr_max_ge)
  have "c \<in> set ncs \<or> bt_height c \<le> bt_height (ncs ! i)"
    using assms i sub set_take_subset [of _ fcs] set_drop_subset [of _ fcs]
    by (auto simp: splitChild_def n f insert_at_def Let_def split: if_splits simp del: bt_height.simps
        dest!: in_set_takeD in_set_dropD set_update_subset_insert [THEN subsetD])
  then show ?thesis
    using bt_height_child [OF i] by (auto simp: n in_set_conv_nth simp del: bt_height.simps intro: order_le_less_trans)
qed

function insertNonFull :: "bTreeNode \<Rightarrow> string \<Rightarrow> string \<Rightarrow> nat \<Rightarrow> bTreeNode option" where
  "insertNonFull (BNode keys values children isLeaf) key value order =
     (if isLeaf
      then (case shift_loop (keys @ ['''']) (values @ ['''']) key (length keys) of
              None \<Rightarrow> None
            | Some (ks, vs, i) \<Rightarrow>
                if i < length ks \<and> i < length vs
                then Some (BNode (ks[i := key]) (vs[i := value]) children isLeaf) else None)
      else (let i = back_loop keys key (length keys)
            in if \<not> i < length children then None
               else if length (bt_keys (children ! i)) = 2 * order - 1
               then (case splitChild (BNode keys values children isLeaf) i order of
                       None \<Rightarrow> None
                     | Some (BNode ks vs cs leaf) \<Rightarrow>
                         (let j = (if key > ks ! i then i + 1 else i)
                          in if j < length cs
                             then (case insertNonFull (cs ! j) key value order of
                                     None \<Rightarrow> None
                                   | Some c \<Rightarrow> Some (BNode ks vs (cs[j := c]) leaf))
                             else None))
               else (case insertNonFull (children ! i) key value order of
                       None \<Rightarrow> None
                     | Some c \<Rightarrow> Some (BNode keys values (children[i := c]) isLeaf))))"
  by pat_completeness auto
termination
  by (relation "measure (\<lambda>(n, key, value, order). bt_height n)")
    (auto simp del: bt_height.simps intro: bt_height_split)

definition BTree_Add :: "BTree \<Rightarrow> string \<Rightarrow> string \<Rightarrow> BTree option" where
  "BTree_Add t key value =
     (case bTreeNode_lookup (bt_root t) key of
        None \<Rightarrow> None
      | Some (old, True) \<Rightarrow>
          (case bTreeNode_updateExisting (bt_root t) key value of
             None \<Rightarrow> None
           | Some root \<Rightarrow>
               Some (t\<lparr>bt_byteSize := bt_byteSize t + (entryBytes key value - entryBytes key old),
                       bt_root := root\<rparr>))
      | Some (_, False) \<Rightarrow>
          (let t = t\<lparr>bt_byteSize := bt_byteSize t + entryBytes key value\<rparr>; root = bt_root t
           in if length (bt_keys root) = 2 * bt_order t - 1
              then (case splitChild (BNode [] [] [root] False) 0 (bt_order t) of
                      None \<Rightarrow> None
                    | Some splitRoot \<Rightarrow>
                        (case insertNonFull splitRoot key value (bt_order t) of
                           None \<Rightarrow> None
                         | Some root \<Rightarrow> Some (t\<lparr>bt_root := root\<rparr>)))
              else (case insertNonFull root key value (bt_order t) of
                      None \<Rightarrow> None
                    | Some root \<Rightarrow> Some (t\<lparr>bt_root := root\<rparr>))))"

text \<open>
  The in-order walk of \<open>scan\<close> and \<open>collect\<close>: before key number \<open>i\<close> the walk visits child \<open>i\<close>, and at the end
  the child after the last key.
\<close>

fun walk_children :: "bool \<Rightarrow> KeyValue list option list \<Rightarrow> string list \<Rightarrow> string list
    \<Rightarrow> (string \<Rightarrow> bool) \<Rightarrow> KeyValue list option" where
  "walk_children leaf cs (k # ks) (v # vs) pred =
     (if leaf
      then do {
        rest \<leftarrow> walk_children leaf cs ks vs pred;
        Some ((if pred k then [(k, v)] else []) @ rest)
      }
      else (case cs of
              [] \<Rightarrow> None
            | c # cs' \<Rightarrow> do {
                cvs \<leftarrow> c;
                rest \<leftarrow> walk_children leaf cs' ks vs pred;
                Some (cvs @ (if pred k then [(k, v)] else []) @ rest)
              }))"
| "walk_children leaf cs [] vs pred =
     (if leaf then Some [] else (case cs of [] \<Rightarrow> None | c # cs' \<Rightarrow> c))"
| "walk_children leaf cs (k # ks) [] pred = None"

fun bTreeNode_scan :: "bTreeNode \<Rightarrow> (string \<Rightarrow> bool) \<Rightarrow> KeyValue list option" where
  "bTreeNode_scan (BNode keys values children isLeaf) pred =
     walk_children isLeaf (map (\<lambda>c. bTreeNode_scan c pred) children) keys values pred"

fun bTreeNode_collect :: "bTreeNode \<Rightarrow> KeyValue list option" where
  "bTreeNode_collect (BNode keys values children isLeaf) =
     walk_children isLeaf (map bTreeNode_collect children) keys values (\<lambda>k. True)"

definition BTree_Scan :: "BTree \<Rightarrow> (string \<Rightarrow> bool) \<Rightarrow> KeyValue list option" where
  "BTree_Scan t pred = bTreeNode_scan (bt_root t) pred"

definition BTree_ToRaw :: "BTree \<Rightarrow> KeyValue list option" where
  "BTree_ToRaw t = bTreeNode_collect (bt_root t)"

definition BTree_Clear :: "BTree \<Rightarrow> BTree" where
  "BTree_Clear t = t\<lparr>bt_root := BNode [] [] [] True, bt_byteSize := 0\<rparr>"

definition BTree_TakeSnapshot :: "BTree \<Rightarrow> (KeyValue list \<times> BTree) option" where
  "BTree_TakeSnapshot t =
     (case BTree_ToRaw t of
        None \<Rightarrow> None
      | Some raw \<Rightarrow> Some (raw, t\<lparr>bt_root := BNode [] [] [] True, bt_byteSize := 0\<rparr>))"

definition defaultBTreeOrder :: int where
  "defaultBTreeOrder = 3"

definition BTree_ops :: "BTree MemtableOps" where
  "BTree_ops =
     \<lparr>mo_New = NewBTree defaultBTreeOrder, mo_Add = BTree_Add, mo_Get = BTree_Get, mo_Scan = BTree_Scan,
      mo_ToRaw = BTree_ToRaw, mo_GetSize = BTree_GetSize, mo_Clear = BTree_Clear,
      mo_TakeSnapshot = BTree_TakeSnapshot\<rparr>"

section \<open>immutable.go\<close>

record ImmutableMemtable =
  im_data :: "KeyValue list"
  im_maxLSN :: u64

definition NewImmutableMemtable :: "KeyValue list \<Rightarrow> u64 \<Rightarrow> ImmutableMemtable" where
  "NewImmutableMemtable snapshot maxLSN = \<lparr>im_data = SortByKeys snapshot, im_maxLSN = maxLSN\<rparr>"

definition ImmutableMemtable_Get :: "ImmutableMemtable \<Rightarrow> string \<Rightarrow> string \<times> bool" where
  "ImmutableMemtable_Get im key =
     (let i = sort_Search (length (im_data im)) (\<lambda>i. fst (im_data im ! i) \<ge> key)
      in if i < length (im_data im) \<and> fst (im_data im ! i) = key
         then (if snd (im_data im ! i) = Tombstone then ('''', False) else (snd (im_data im ! i), True))
         else ('''', False))"

definition ImmutableMemtable_Scan :: "ImmutableMemtable \<Rightarrow> (string \<Rightarrow> bool) \<Rightarrow> KeyValue list" where
  "ImmutableMemtable_Scan im pred = filter (\<lambda>(k, v). pred k) (im_data im)"

definition ImmutableMemtable_ToRaw :: "ImmutableMemtable \<Rightarrow> KeyValue list" where
  "ImmutableMemtable_ToRaw im = im_data im"

section \<open>The contract of a memtable\<close>

text \<open>
  What the engine relies on: no operation panics, the content is a finite map in which \<open>Add\<close> sets
  one key, \<open>Get\<close> reads it and hides tombstones, \<open>Scan\<close> reports every entry (tombstones included)
  that satisfies the predicate, and \<open>GetSize\<close> is the number of bytes held.
\<close>

definition raw_bytes :: "KeyValue list \<Rightarrow> int" where
  "raw_bytes raw = (\<Sum>(k, v)\<leftarrow>raw. entryBytes k v)"

definition visible :: "string option \<Rightarrow> string \<times> bool" where
  "visible v = (case v of None \<Rightarrow> ('''', False) | Some v \<Rightarrow> if v = Tombstone then ('''', False) else (v, True))"

lemma raw_bytes_simps [simp]:
  "raw_bytes [] = 0" "raw_bytes ((k, v) # r) = entryBytes k v + raw_bytes r"
  "raw_bytes (r @ r') = raw_bytes r + raw_bytes r'"
  by (simp_all add: raw_bytes_def)

text \<open>A sequence of calls of \<open>Add\<close>.\<close>

fun Memtable_adds :: "'m MemtableOps \<Rightarrow> 'm \<Rightarrow> KeyValue list \<Rightarrow> 'm option" where
  "Memtable_adds ops m [] = Some m"
| "Memtable_adds ops m ((k, v) # kvs) =
     (case mo_Add ops m k v of None \<Rightarrow> None | Some m' \<Rightarrow> Memtable_adds ops m' kvs)"

locale memtable =
  fixes ops :: "'m MemtableOps" and ok :: "'m \<Rightarrow> bool"
  assumes new: "ok (mo_New ops)" "mo_ToRaw ops (mo_New ops) = Some []"
    and raw: "ok m \<Longrightarrow> \<exists>r. mo_ToRaw ops m = Some r \<and> gmap_ok r"
    and add: "ok m \<Longrightarrow> mo_ToRaw ops m = Some r \<Longrightarrow> \<exists>m' r'. mo_Add ops m k v = Some m' \<and> ok m'
        \<and> mo_ToRaw ops m' = Some r' \<and> map_of r' = (map_of r)(k \<mapsto> v)"
    and get: "ok m \<Longrightarrow> mo_ToRaw ops m = Some r \<Longrightarrow> mo_Get ops m k = Some (visible (map_of r k))"
    and scan: "ok m \<Longrightarrow> mo_ToRaw ops m = Some r \<Longrightarrow> mo_Scan ops m p = Some (filter (\<lambda>(k, v). p k) r)"
    and size: "ok m \<Longrightarrow> mo_ToRaw ops m = Some r \<Longrightarrow> mo_GetSize ops m = raw_bytes r"
    and clear: "ok m \<Longrightarrow> ok (mo_Clear ops m) \<and> mo_ToRaw ops (mo_Clear ops m) = Some []"
    and snapshot: "ok m \<Longrightarrow> mo_ToRaw ops m = Some r \<Longrightarrow>
        \<exists>m'. mo_TakeSnapshot ops m = Some (r, m') \<and> ok m' \<and> mo_ToRaw ops m' = Some []"
begin

text \<open>The map a table represents.\<close>

definition content :: "'m \<Rightarrow> string \<rightharpoonup> string" where
  "content m = map_of (the (mo_ToRaw ops m))"

lemma content_raw: "mo_ToRaw ops m = Some r \<Longrightarrow> content m = map_of r"
  by (simp add: content_def)

lemma content_new: "content (mo_New ops) = Map.empty"
  by (simp add: content_def new)

lemma content_clear: "ok m \<Longrightarrow> content (mo_Clear ops m) = Map.empty"
  by (simp add: content_def clear)

lemma add_content:
  assumes "ok m"
  shows "\<exists>m'. mo_Add ops m k v = Some m' \<and> ok m' \<and> content m' = (content m)(k \<mapsto> v)"
  using raw [OF assms] add [OF assms] content_raw by metis

lemma get_content: "ok m \<Longrightarrow> mo_Get ops m k = Some (visible (content m k))"
  using raw get content_raw by metis

lemma scan_content:
  assumes "ok m"
  shows "\<exists>r. mo_Scan ops m p = Some r \<and> gmap_ok r
    \<and> map_of r = (\<lambda>k. if p k then content m k else None)"
proof -
  obtain r where r: "mo_ToRaw ops m = Some r" "gmap_ok r" using raw [OF assms] by blast
  have "map_of (filter (\<lambda>(k, v). p k) r) k = (if p k then map_of r k else None)" for k
    by (induction r) auto
  moreover have "gmap_ok (filter (\<lambda>(k, v). p k) r)" using r(2) by (simp add: distinct_map_filter)
  ultimately show ?thesis using scan [OF assms r(1)] content_raw [OF r(1)] by auto
qed

text \<open>In a sequence of insertions the last one of each key counts.\<close>

lemma adds_content:
  "ok m \<Longrightarrow> \<exists>m'. Memtable_adds ops m kvs = Some m' \<and> ok m' \<and> content m' = content m ++ map_of (rev kvs)"
proof (induction kvs arbitrary: m)
  case Nil
  then show ?case by simp
next
  case (Cons kv kvs)
  obtain k v where kv: "kv = (k, v)" by (cases kv)
  obtain m1 where m1: "mo_Add ops m k v = Some m1" "ok m1" "content m1 = (content m)(k \<mapsto> v)"
    using add_content [OF Cons.prems] by blast
  have "content m ++ map_of (rev kvs @ [(k, v)]) = (content m)(k \<mapsto> v) ++ map_of (rev kvs)"
    by (simp add: map_add_assoc)
  then show ?case using Cons.IH [OF m1(2)] unfolding kv m1(3) by (simp add: m1(1) fun_upd_def)
qed

lemma size_content:
  assumes "ok m"
  shows "mo_GetSize ops m = (\<Sum>k\<in>dom (content m). entryBytes k (the (content m k)))"
proof -
  obtain r where r: "mo_ToRaw ops m = Some r" "gmap_ok r" using raw [OF assms] by blast
  have "raw_bytes r = (\<Sum>k\<in>set (map fst r). entryBytes k (the (map_of r k)))"
    using r(2)
  proof (induction r)
    case (Cons x r)
    obtain a b where x: "x = (a, b)" by (cases x)
    have "a \<notin> set (map fst r)" using Cons.prems by (simp add: x)
    then have "(\<Sum>k\<in>set (map fst r). entryBytes k (the (map_of (x # r) k)))
        = (\<Sum>k\<in>set (map fst r). entryBytes k (the (map_of r k)))"
      by (intro sum.cong) (auto simp: x)
    then show ?case using Cons \<open>a \<notin> _\<close> by (simp add: x)
  qed simp
  moreover have "dom (content m) = set (map fst r)" by (simp add: content_raw [OF r(1)] dom_map_of_conv_image_fst)
  ultimately show ?thesis using size [OF assms r(1)] by (simp add: content_raw [OF r(1)])
qed

lemma adds_new:
  assumes "ok m" and "content m = Map.empty"
  shows "\<exists>m'. Memtable_adds ops m kvs = Some m' \<and> ok m'
    \<and> (\<forall>k. mo_Get ops m' k = Some (visible (map_of (rev kvs) k)))
    \<and> mo_GetSize ops m' = (\<Sum>k\<in>set (map fst kvs). entryBytes k (the (map_of (rev kvs) k)))"
proof -
  obtain m' where m': "Memtable_adds ops m kvs = Some m'" "ok m'" "content m' = map_of (rev kvs)"
    using adds_content [OF assms(1), of kvs] assms(2) by auto
  moreover have "dom (map_of (rev kvs)) = set (map fst kvs)" by (simp add: dom_map_of_conv_image_fst)
  ultimately show ?thesis using get_content [OF m'(2)] size_content [OF m'(2)] by simp
qed

end

section \<open>The hash map\<close>

definition HashMap_ok :: "HashMap \<Rightarrow> bool" where
  "HashMap_ok h \<longleftrightarrow> gmap_ok (hm_data h) \<and> hm_byteSize h = raw_bytes (hm_data h)"

lemma raw_bytes_update:
  "gmap_ok r \<Longrightarrow> raw_bytes (AList.update k v r) =
     raw_bytes r + entryBytes k v - (case map_of r k of None \<Rightarrow> 0 | Some old \<Rightarrow> entryBytes k old)"
  by (induction r) (auto split: option.splits simp del: map_of_eq_Some_iff)

lemma HashMap_Add_ok: "HashMap_ok h \<Longrightarrow> HashMap_ok (HashMap_Add h k v)"
  by (auto simp: HashMap_ok_def HashMap_Add_def Let_def raw_bytes_update split: option.splits
      simp del: map_of_eq_Some_iff)

lemma map_case_prod_id [simp]: "map (\<lambda>(k, v). (k, v)) xs = xs"
  by (simp add: case_prod_beta)

interpretation hm: memtable HashMap_ops HashMap_ok
  by unfold_locales
    (auto simp: HashMap_ops_def HashMap_Add_ok NewHashMap_def HashMap_ok_def HashMap_ToRaw_def
      HashMap_Add_def Let_def update_conv' HashMap_Get_def visible_def HashMap_Scan_def
      HashMap_GetSize_def HashMap_Clear_def HashMap_TakeSnapshot_def raw_bytes_update split: option.splits)

section \<open>The B-tree\<close>

subsection \<open>Interleaving children and entries\<close>

fun ileave :: "'a list list \<Rightarrow> 'a list \<Rightarrow> 'a list" where
  "ileave [] kvs = []"
| "ileave (c # cs) [] = c"
| "ileave (c # cs) (kv # kvs) = c @ kv # ileave cs kvs"

fun before :: "'a list list \<Rightarrow> 'a list \<Rightarrow> 'a list" where
  "before (c # cs) (kv # kvs) = c @ kv # before cs kvs"
| "before cs kvs = []"

fun after :: "'a list \<Rightarrow> 'a list list \<Rightarrow> 'a list" where
  "after (kv # kvs) (c # cs) = kv # c @ after kvs cs"
| "after kvs cs = []"

lemma ileave_split:
  "length as = length xs \<Longrightarrow> length bs = length ys \<Longrightarrow>
     ileave (as @ c # bs) (xs @ ys) = before as xs @ c @ after ys bs"
proof (induction as xs rule: list_induct2)
  case Nil
  then show ?case
  proof (induction ys arbitrary: bs c)
    case (Cons y ys)
    then show ?case by (cases bs) auto
  qed simp
qed auto

lemma before_append:
  "length as = length xs \<Longrightarrow> before (as @ [c]) (xs @ [x]) = before as xs @ c @ [x]"
  by (induction as xs rule: list_induct2) auto

lemma ileave_nth:
  assumes "length cs = Suc (length kvs)" and "i \<le> length kvs"
  shows "ileave cs kvs = before (take i cs) (take i kvs) @ cs ! i @ after (drop i kvs) (drop (Suc i) cs)"
  using ileave_split [of "take i cs" "take i kvs" "drop (Suc i) cs" "drop i kvs" "cs ! i"] assms
  by (simp add: id_take_nth_drop [symmetric])

lemma ileave_split_at:
  assumes "length cs = Suc (length kvs)" and "i < length kvs"
  shows "ileave cs kvs = ileave (take (Suc i) cs) (take i kvs) @ kvs ! i # ileave (drop (Suc i) cs) (drop (Suc i) kvs)"
  using assms
proof (induction i arbitrary: cs kvs)
  case 0
  then show ?case by (cases cs; cases kvs) (auto simp: neq_Nil_conv)
next
  case (Suc i)
  then obtain c cs' kv kvs' where "cs = c # cs'" "kvs = kv # kvs'" by (cases cs; cases kvs) auto
  then show ?case using Suc by auto
qed

lemma fst_before: "x \<in> set xs \<Longrightarrow> length as = length xs \<Longrightarrow> x \<in> set (before as xs)"
  by (induction as xs rule: before.induct) auto

lemma set_after: "x \<in> set ys \<Longrightarrow> length bs = length ys \<Longrightarrow> x \<in> set (after ys bs)"
  by (induction ys bs rule: after.induct) auto

subsection \<open>Ordered association lists\<close>

definition ins :: "string \<Rightarrow> string \<Rightarrow> KeyValue list \<Rightarrow> KeyValue list" where
  "ins k v xs = filter (\<lambda>(a, b). a < k) xs @ (k, v) # filter (\<lambda>(a, b). k < a) xs"

abbreviation keys_sorted :: "KeyValue list \<Rightarrow> bool" where
  "keys_sorted xs \<equiv> sorted_wrt (<) (map fst xs)"

lemma ins_mid:
  assumes "\<forall>(a, b)\<in>set l. a < k" and "\<forall>(a, b)\<in>set r. k < a"
  shows "ins k v (l @ c @ r) = l @ ins k v c @ r"
proof -
  have "filter (\<lambda>(a, b). a < k) l = l" "filter (\<lambda>(a, b). k < a) l = []"
    "filter (\<lambda>(a, b). a < k) r = []" "filter (\<lambda>(a, b). k < a) r = r"
    using assms by (force simp: filter_id_conv filter_empty_conv)+
  then show ?thesis by (simp add: ins_def)
qed

lemma map_of_ins [simp]: "map_of (ins k v xs) = (map_of xs)(k \<mapsto> v)"
proof
  fix x
  have l: "map_of (filter (\<lambda>(a, b). a < k) xs) x = (if x < k then map_of xs x else None)"
    by (induction xs) auto
  have r: "map_of (filter (\<lambda>(a, b). k < a) xs) x = (if k < x then map_of xs x else None)"
    by (induction xs) auto
  show "map_of (ins k v xs) x = ((map_of xs)(k \<mapsto> v)) x"
    using l r by (cases x k rule: linorder_cases) (auto simp: ins_def map_add_def split: option.splits)
qed

lemma keys_sorted_ins: "keys_sorted xs \<Longrightarrow> keys_sorted (ins k v xs)"
  by (auto simp: ins_def sorted_wrt_append sorted_wrt_map sorted_wrt_filter intro: less_trans)

lemma keys_sorted_distinct: "keys_sorted xs \<Longrightarrow> gmap_ok xs"
  by (simp add: strict_sorted_iff)

lemma raw_bytes_ins:
  assumes "keys_sorted xs"
  shows "raw_bytes (ins k v xs) = raw_bytes xs + entryBytes k v
     - (case map_of xs k of None \<Rightarrow> 0 | Some old \<Rightarrow> entryBytes k old)"
  using assms
proof (induction xs)
  case Nil
  then show ?case by (simp add: ins_def)
next
  case (Cons x xs)
  obtain a b where x: "x = (a, b)" by (cases x)
  have notin: "map_of xs k = None" if "k \<le> a"
    using Cons.prems that by (force simp: x map_of_eq_None_iff)
  have all: "filter (\<lambda>(c, d). c < k) xs = [] \<and> filter (\<lambda>(c, d). k < c) xs = xs" if "k \<le> a"
    using Cons.prems that by (force simp: x filter_id_conv filter_empty_conv)
  show ?case
    using Cons notin all by (cases k a rule: linorder_cases) (auto simp: x ins_def split: option.splits)
qed

lemma map_of_mid:
  fixes l c r :: "KeyValue list"
  assumes "\<forall>(a, b)\<in>set l. a < k" and "\<forall>(a, b)\<in>set r. k < a"
  shows "map_of (l @ c @ r) k = map_of c k"
proof -
  have "\<forall>a\<in>fst ` set l. a < k" "\<forall>a\<in>fst ` set r. k < a" using assms by (simp_all add: case_prod_beta)
  then have "k \<notin> fst ` set l" "k \<notin> fst ` set r" by blast+
  then have "map_of l k = None" "map_of r k = None" by (simp_all add: map_of_eq_None_iff)
  then show ?thesis by (auto simp: map_add_def split: option.splits)
qed

subsection \<open>Shape and content of a node\<close>

text \<open>A node of height \<open>h\<close> in a B-tree of order \<open>t\<close>: the arrays agree in length and no node is overfull.\<close>

fun bt_ok :: "nat \<Rightarrow> nat \<Rightarrow> bTreeNode \<Rightarrow> bool" where
  "bt_ok t 0 (BNode ks vs cs leaf) \<longleftrightarrow> leaf \<and> cs = [] \<and> length vs = length ks \<and> length ks \<le> 2 * t - 1"
| "bt_ok t (Suc h) (BNode ks vs cs leaf) \<longleftrightarrow> \<not> leaf \<and> length cs = Suc (length ks) \<and> length vs = length ks
     \<and> length ks \<le> 2 * t - 1 \<and> (\<forall>c\<in>set cs. bt_ok t h c \<and> t - 1 \<le> length (bt_keys c))"

fun inorder :: "bTreeNode \<Rightarrow> KeyValue list" where
  "inorder (BNode ks vs cs leaf) = (if leaf then zip ks vs else ileave (map inorder cs) (zip ks vs))"

lemma walk_leaf:
  "length vs = length ks \<Longrightarrow> walk_children True cs ks vs p = Some (filter (\<lambda>(k, v). p k) (zip ks vs))"
  by (induction ks vs rule: list_induct2') auto

lemma walk_inner:
  assumes "length vs = length ks" and "length cs = Suc (length ks)"
    and "cs' = map (\<lambda>c. Some (filter (\<lambda>(k, v). p k) c)) cs"
  shows "walk_children False cs' ks vs p = Some (filter (\<lambda>(k, v). p k) (ileave cs (zip ks vs)))"
  using assms
proof (induction ks arbitrary: vs cs cs')
  case Nil
  then show ?case by (cases cs) auto
next
  case (Cons k ks)
  then obtain v vs' c cs2 where "vs = v # vs'" "cs = c # cs2" by (cases vs; cases cs) auto
  with Cons show ?case by auto
qed

lemma scan_inorder: "bt_ok t h n \<Longrightarrow> bTreeNode_scan n p = Some (filter (\<lambda>(k, v). p k) (inorder n))"
proof (induction h arbitrary: n)
  case 0
  then show ?case by (cases n) (auto simp: walk_leaf)
next
  case (Suc h)
  then show ?case
    by (cases n) (auto intro!: walk_inner simp: o_def)
qed

lemma collect_scan: "bTreeNode_collect n = bTreeNode_scan n (\<lambda>k. True)"
  by (induction n) (auto cong: map_cong)

lemma collect_inorder: "bt_ok t h n \<Longrightarrow> bTreeNode_collect n = Some (inorder n)"
  by (simp add: collect_scan scan_inorder)

subsection \<open>Finding the position of a key\<close>

lemma key_loop_spec:
  "j \<le> length ks \<Longrightarrow> j \<le> key_loop ks key j \<and> key_loop ks key j \<le> length ks
     \<and> (\<forall>m. j \<le> m \<longrightarrow> m < key_loop ks key j \<longrightarrow> ks ! m < key)
     \<and> (key_loop ks key j < length ks \<longrightarrow> key \<le> ks ! key_loop ks key j)"
proof (induction ks key j rule: key_loop.induct)
  case (1 ks key j)
  show ?case
  proof (cases "j < length ks \<and> ks ! j < key")
    case True
    then have step: "key_loop ks key j = key_loop ks key (Suc j)" by (simp add: key_loop.simps [of ks key j])
    have IH: "Suc j \<le> key_loop ks key (Suc j) \<and> key_loop ks key (Suc j) \<le> length ks
        \<and> (\<forall>m. Suc j \<le> m \<longrightarrow> m < key_loop ks key (Suc j) \<longrightarrow> ks ! m < key)
        \<and> (key_loop ks key (Suc j) < length ks \<longrightarrow> key \<le> ks ! key_loop ks key (Suc j))"
      using "1.IH" True by simp
    then have "\<forall>m. j \<le> m \<longrightarrow> m < key_loop ks key (Suc j) \<longrightarrow> ks ! m < key"
      using True by (metis Suc_leI le_neq_implies_less)
    with IH show ?thesis by (simp add: step)
  next
    case False
    then have "key_loop ks key j = j" by (subst key_loop.simps) auto
    with False "1.prems" show ?thesis by (auto simp: not_less)
  qed
qed

lemma back_loop_spec:
  "n \<le> length ks \<Longrightarrow> back_loop ks key n \<le> n
     \<and> (\<forall>m. back_loop ks key n \<le> m \<longrightarrow> m < n \<longrightarrow> key < ks ! m)
     \<and> (0 < back_loop ks key n \<longrightarrow> \<not> key < ks ! (back_loop ks key n - 1))"
proof (induction n)
  case (Suc n)
  then show ?case by (auto simp: less_Suc_eq)
qed simp

lemma node_mid:
  assumes "length cs = Suc (length kvs)" and "keys_sorted (ileave cs kvs)" and "i \<le> length kvs"
    and "0 < i \<Longrightarrow> fst (kvs ! (i - 1)) < k" and "i < length kvs \<Longrightarrow> k < fst (kvs ! i)"
  defines "l \<equiv> before (take i cs) (take i kvs)" and "r \<equiv> after (drop i kvs) (drop (Suc i) cs)"
  shows "ileave cs kvs = l @ cs ! i @ r" and "\<forall>(a, b)\<in>set l. a < k" and "\<forall>(a, b)\<in>set r. k < a"
proof -
  show eq: "ileave cs kvs = l @ cs ! i @ r" using ileave_nth assms(1,3) by (auto simp: l_def r_def)
  with assms(2) have srt: "keys_sorted l" "keys_sorted r" by (simp_all add: sorted_wrt_append)
  show "\<forall>(a, b)\<in>set l. a < k"
  proof (cases i)
    case (Suc j)
    then have "l = before (take j cs) (take j kvs) @ cs ! j @ [kvs ! j]"
      using before_append [of "take j cs" "take j kvs" "cs ! j" "kvs ! j"] assms(1,3)
      by (simp add: l_def take_Suc_conv_app_nth)
    with srt(1) have "\<forall>(a, b)\<in>set l. a \<le> fst (kvs ! j)"
      by (auto simp: sorted_wrt_append less_imp_le)
    then show ?thesis using assms(4) Suc by fastforce
  qed (simp add: l_def)
  show "\<forall>(a, b)\<in>set r. k < a"
  proof (cases "i < length kvs")
    case True
    then have "drop i kvs = kvs ! i # drop (Suc i) kvs" by (rule Cons_nth_drop_Suc [symmetric])
    moreover have "drop (Suc i) cs = cs ! Suc i # drop (Suc (Suc i)) cs"
      using True assms(1) by (metis Cons_nth_drop_Suc Suc_less_eq)
    ultimately obtain rest where "r = kvs ! i # rest" by (simp add: r_def)
    with srt(2) assms(5) [OF True] show ?thesis by (auto intro: less_trans)
  qed (simp add: r_def)
qed

lemma ileave_update:
  assumes "length cs = Suc (length kvs)" and "i \<le> length kvs"
  shows "ileave (cs[i := c]) kvs
    = before (take i cs) (take i kvs) @ c @ after (drop i kvs) (drop (Suc i) cs)"
  using ileave_nth [of "cs[i := c]" kvs i] assms by simp

subsection \<open>Lookup\<close>

lemma zip_nth_pair: "i < length ks \<Longrightarrow> length vs = length ks \<Longrightarrow> zip ks vs ! i = (ks ! i, vs ! i)"
  by simp

lemma leaf_not_found:
  assumes "length vs = length ks" and "keys_sorted (zip ks vs)" and "i \<le> length ks"
    and "\<forall>m<i. ks ! m < k" and "i < length ks \<Longrightarrow> k < ks ! i"
  shows "map_of (zip ks vs) k = None"
proof -
  have "ks ! j \<noteq> k" if "j < length ks" for j
  proof (cases "j < i")
    case False
    have "sorted_wrt (<) ks" using assms(1,2) by simp
    then have "ks ! i \<le> ks ! j" using False that by (metis nless_le not_less sorted_wrt_nth_less)
    then show ?thesis using assms(5) False that by force
  qed (use assms(4) in auto)
  then show ?thesis using assms(1) by (auto simp: map_of_eq_None_iff in_set_conv_nth)
qed

lemma found_at:
  assumes "keys_sorted xs" and "(k, v) \<in> set xs"
  shows "map_of xs k = Some v"
  using assms keys_sorted_distinct by (metis map_of_is_SomeI)

lemma set_ileave_kv: "length cs = Suc (length kvs) \<Longrightarrow> x \<in> set kvs \<Longrightarrow> x \<in> set (ileave cs kvs)"
proof (induction cs kvs rule: ileave.induct)
  case (3 c cs kv kvs)
  then show ?case by auto
qed auto

lemma lookup_inorder:
  "bt_ok t h n \<Longrightarrow> keys_sorted (inorder n) \<Longrightarrow>
     bTreeNode_lookup n k = Some (case map_of (inorder n) k of None \<Rightarrow> ('''', False) | Some v \<Rightarrow> (v, True))"
proof (induction h arbitrary: n)
  case 0
  then obtain ks vs where n: "n = BNode ks vs [] True" "length vs = length ks" by (cases n) auto
  have spec: "key_loop ks k 0 \<le> length ks" "\<forall>m<key_loop ks k 0. ks ! m < k"
    "key_loop ks k 0 < length ks \<longrightarrow> k \<le> ks ! key_loop ks k 0" using key_loop_spec [of 0 ks k] by auto
  show ?case
  proof (cases "key_loop ks k 0 < length ks \<and> k = ks ! key_loop ks k 0")
    case True
    then have "(k, vs ! key_loop ks k 0) \<in> set (zip ks vs)"
      using n(2) by (metis zip_nth_pair length_zip min.idem nth_mem)
    then show ?thesis using found_at [OF "0.prems"(2)] True n by (simp add: Let_def)
  next
    case False
    then have "map_of (zip ks vs) k = None"
      using leaf_not_found [of vs ks "key_loop ks k 0" k] spec "0.prems"(2) n by force
    then have "map_of (inorder n) k = None" using n by simp
    then show ?thesis using False n(1) by (auto simp: Let_def simp del: inorder.simps)
  qed
next
  case (Suc h)
  then obtain ks vs cs where n: "n = BNode ks vs cs False" "length cs = Suc (length ks)" "length vs = length ks"
    "\<forall>c\<in>set cs. bt_ok t h c" by (cases n) auto
  let ?i = "key_loop ks k 0"
  have spec: "?i \<le> length ks" "\<forall>m<?i. ks ! m < k" "?i < length ks \<longrightarrow> k \<le> ks ! ?i"
    using key_loop_spec [of 0 ks k] by auto
  show ?case
  proof (cases "?i < length ks \<and> k = ks ! ?i")
    case True
    then have "(k, vs ! ?i) \<in> set (zip ks vs)"
      using n(3) by (metis zip_nth_pair length_zip min.idem nth_mem)
    then have "(k, vs ! ?i) \<in> set (inorder n)"
      using set_ileave_kv [of "map inorder cs" "zip ks vs"] n by simp
    then show ?thesis using found_at [OF Suc.prems(2)] True n by (simp add: Let_def)
  next
    case False
    have mid: "inorder n = before (take ?i (map inorder cs)) (take ?i (zip ks vs)) @ map inorder cs ! ?i
        @ after (drop ?i (zip ks vs)) (drop (Suc ?i) (map inorder cs))"
      "\<forall>(a, b)\<in>set (before (take ?i (map inorder cs)) (take ?i (zip ks vs))). a < k"
      "\<forall>(a, b)\<in>set (after (drop ?i (zip ks vs)) (drop (Suc ?i) (map inorder cs))). k < a"
      using node_mid [of "map inorder cs" "zip ks vs" ?i k] n spec Suc.prems(2) False by force+
    have c: "bt_ok t h (cs ! ?i)" "keys_sorted (inorder (cs ! ?i))"
      using n spec Suc.prems(2) mid(1) by (auto simp: sorted_wrt_append)
    have "map_of (inorder n) k = map_of (inorder (cs ! ?i)) k"
      using map_of_mid [OF mid(2,3), of "map inorder cs ! ?i"] mid(1) n(2) spec(1) by simp
    moreover have "bTreeNode_lookup n k = bTreeNode_lookup (cs ! ?i) k"
      using False n spec(1) by (auto simp: Let_def)
    ultimately show ?thesis using Suc.IH [OF c] by simp
  qed
qed

lemma search_lookup:
  "bTreeNode_search n k = (case bTreeNode_lookup n k of
     None \<Rightarrow> None | Some (v, False) \<Rightarrow> Some ('''', False)
   | Some (v, True) \<Rightarrow> if v = Tombstone then Some ('''', False) else Some (v, True))"
  by (induction n k rule: bTreeNode_search.induct) (auto simp: Let_def)

lemma search_inorder:
  "bt_ok t h n \<Longrightarrow> keys_sorted (inorder n) \<Longrightarrow> bTreeNode_search n k = Some (visible (map_of (inorder n) k))"
  by (simp add: search_lookup lookup_inorder visible_def split: option.splits)

subsection \<open>Updating a key that is present\<close>

lemma zip_update_ins:
  assumes "length vs = length ks" and "keys_sorted (zip ks vs)" and "i < length ks"
  shows "zip ks (vs[i := v]) = ins (ks ! i) v (zip ks vs)"
proof -
  have d: "zip ks vs = take i (zip ks vs) @ (ks ! i, vs ! i) # drop (Suc i) (zip ks vs)"
    using assms id_take_nth_drop [of i "zip ks vs"] by simp
  have "sorted_wrt (<) (map fst (take i (zip ks vs) @ (ks ! i, vs ! i) # drop (Suc i) (zip ks vs)))"
    using assms(2) d by simp
  then have "\<forall>x\<in>set (take i (zip ks vs)). fst x < ks ! i" "\<forall>x\<in>set (drop (Suc i) (zip ks vs)). ks ! i < fst x"
    by (simp_all add: sorted_wrt_append)
  then have "\<forall>(a, b)\<in>set (take i (zip ks vs)). a < ks ! i" "\<forall>(a, b)\<in>set (drop (Suc i) (zip ks vs)). ks ! i < a"
    by (simp_all add: case_prod_beta)
  from ins_mid [OF this, of v "[(ks ! i, vs ! i)]"]
  have "ins (ks ! i) v (zip ks vs) = take i (zip ks vs) @ (ks ! i, v) # drop (Suc i) (zip ks vs)"
    using d by (simp add: ins_def)
  moreover have "zip ks (vs[i := v]) = (zip ks vs)[i := (ks ! i, v)]"
    using assms by (intro nth_equalityI) (auto simp: nth_list_update)
  ultimately show ?thesis using assms by (simp add: upd_conv_take_nth_drop)
qed

lemma ileave_update_kv:
  assumes "length cs = Suc (length kvs)" and "keys_sorted (ileave cs kvs)" and "i < length kvs"
  shows "ileave cs (kvs[i := (fst (kvs ! i), v)]) = ins (fst (kvs ! i)) v (ileave cs kvs)"
proof -
  let ?l = "ileave (take (Suc i) cs) (take i kvs)" and ?r = "ileave (drop (Suc i) cs) (drop (Suc i) kvs)"
  have d: "ileave cs kvs = ?l @ kvs ! i # ?r" using ileave_split_at assms(1,3) by blast
  then have s: "keys_sorted (?l @ kvs ! i # ?r)" using assms(2) by simp
  have "\<forall>(a, b)\<in>set ?l. a < fst (kvs ! i)" "\<forall>(a, b)\<in>set ?r. fst (kvs ! i) < a"
    using s by (fastforce simp: sorted_wrt_append)+
  from ins_mid [OF this, of v "[kvs ! i]"]
  have "ins (fst (kvs ! i)) v (ileave cs kvs) = ?l @ (fst (kvs ! i), v) # ?r"
    by (simp add: d) (simp add: ins_def case_prod_beta)
  moreover have "ileave cs (kvs[i := (fst (kvs ! i), v)]) = ?l @ (fst (kvs ! i), v) # ?r"
    using ileave_split_at [of cs "kvs[i := (fst (kvs ! i), v)]" i] assms by simp
  ultimately show ?thesis by simp
qed

lemma update_inorder:
  "bt_ok t h n \<Longrightarrow> keys_sorted (inorder n) \<Longrightarrow> map_of (inorder n) k \<noteq> None \<Longrightarrow>
     \<exists>n'. bTreeNode_updateExisting n k v = Some n' \<and> bt_ok t h n' \<and> bt_keys n' = bt_keys n
       \<and> inorder n' = ins k v (inorder n)"
proof (induction h arbitrary: n)
  case 0
  then obtain ks vs where n: "n = BNode ks vs [] True" "length vs = length ks" by (cases n) auto
  have spec: "key_loop ks k 0 \<le> length ks" "\<forall>m<key_loop ks k 0. ks ! m < k"
    "key_loop ks k 0 < length ks \<longrightarrow> k \<le> ks ! key_loop ks k 0" using key_loop_spec [of 0 ks k] by auto
  have "key_loop ks k 0 < length ks \<and> k = ks ! key_loop ks k 0"
  proof (rule ccontr)
    assume "\<not> (key_loop ks k 0 < length ks \<and> k = ks ! key_loop ks k 0)"
    then have "map_of (zip ks vs) k = None"
      using leaf_not_found [of vs ks "key_loop ks k 0" k] spec "0.prems"(2) n by force
    then show False using "0.prems"(3) n by simp
  qed
  then show ?case
    using zip_update_ins [of vs ks "key_loop ks k 0" v] n "0.prems" by (auto simp: Let_def)
next
  case (Suc h)
  then obtain ks vs cs where n: "n = BNode ks vs cs False" "length cs = Suc (length ks)" "length vs = length ks"
    "\<forall>c\<in>set cs. bt_ok t h c \<and> t - 1 \<le> length (bt_keys c)" by (cases n) auto
  let ?i = "key_loop ks k 0"
  have spec: "?i \<le> length ks" "\<forall>m<?i. ks ! m < k" "?i < length ks \<longrightarrow> k \<le> ks ! ?i"
    using key_loop_spec [of 0 ks k] by auto
  show ?case
  proof (cases "?i < length ks \<and> k = ks ! ?i")
    case True
    have "zip ks (vs[?i := v]) = (zip ks vs)[?i := (fst (zip ks vs ! ?i), v)]"
      using n True by (intro nth_equalityI) (auto simp: nth_list_update)
    then have "ileave (map inorder cs) (zip ks (vs[?i := v])) = ins k v (ileave (map inorder cs) (zip ks vs))"
      using ileave_update_kv [of "map inorder cs" "zip ks vs" ?i v] n True Suc.prems(2) by simp
    then show ?thesis using True n Suc.prems(1) by (auto simp: Let_def)
  next
    case False
    let ?l = "before (take ?i (map inorder cs)) (take ?i (zip ks vs))"
    let ?r = "after (drop ?i (zip ks vs)) (drop (Suc ?i) (map inorder cs))"
    have mid: "inorder n = ?l @ inorder (cs ! ?i) @ ?r" "\<forall>(a, b)\<in>set ?l. a < k" "\<forall>(a, b)\<in>set ?r. k < a"
      using node_mid [of "map inorder cs" "zip ks vs" ?i k] n spec Suc.prems(2) False by force+
    have c: "bt_ok t h (cs ! ?i)" "keys_sorted (inorder (cs ! ?i))" "map_of (inorder (cs ! ?i)) k \<noteq> None"
      using n spec Suc.prems(2,3) mid(1) map_of_mid [OF mid(2,3), of "inorder (cs ! ?i)"]
      by (auto simp: sorted_wrt_append)
    from Suc.IH [OF this] obtain c' where c': "bTreeNode_updateExisting (cs ! ?i) k v = Some c'" "bt_ok t h c'"
      "bt_keys c' = bt_keys (cs ! ?i)" "inorder c' = ins k v (inorder (cs ! ?i))" by blast
    have "ileave (map inorder (cs[?i := c'])) (zip ks vs) = ?l @ inorder c' @ ?r"
      using ileave_update [of "map inorder cs" "zip ks vs" ?i] n spec(1) by (simp add: map_update)
    also have "\<dots> = ins k v (inorder n)" using ins_mid [OF mid(2,3)] mid(1) c'(4) by simp
    finally have "inorder (BNode ks vs (cs[?i := c']) False) = ins k v (inorder n)" by simp
    moreover have "bTreeNode_updateExisting n k v = Some (BNode ks vs (cs[?i := c']) False)"
      using False n spec(1) c'(1) by (auto simp: Let_def)
    moreover have "bt_ok t (Suc h) (BNode ks vs (cs[?i := c']) False)"
      using n c'(2,3) spec(1) Suc.prems(1) set_update_subset_insert [of cs ?i c'] by fastforce
    ultimately show ?thesis using n(1) by simp
  qed
qed

subsection \<open>Splitting a full child\<close>

lemma bt_ok_lengths: "bt_ok t h (BNode ks vs cs leaf) \<Longrightarrow> length vs = length ks"
  by (cases h) auto

lemma zip_insert_at:
  "length vs = length ks \<Longrightarrow> i \<le> length ks \<Longrightarrow> zip (insert_at i k ks) (insert_at i v vs) = insert_at i (k, v) (zip ks vs)"
  by (simp add: insert_at_def zip_append take_zip drop_zip)

lemma length_insert_at [simp]: "length (insert_at i x xs) = Suc (length xs)"
  by (simp add: insert_at_def)

lemma set_insert_at [simp]: "set (insert_at i x xs) = insert x (set xs)"
proof -
  have "set xs = set (take i xs) \<union> set (drop i xs)" by (metis append_take_drop_id set_append)
  then show ?thesis by (auto simp: insert_at_def)
qed

lemma split_full:
  assumes "bt_ok t h (BNode ks vs cs leaf)" and "length ks = 2 * t - 1" and "2 \<le> t"
  defines "lft \<equiv> BNode (take (t - 1) ks) (take (t - 1) vs) (if leaf then cs else take t cs) leaf"
    and "rgt \<equiv> BNode (drop t ks) (drop t vs) (if leaf then [] else drop t cs) leaf"
  shows "bt_ok t h lft" and "bt_ok t h rgt"
    and "length (bt_keys lft) = t - 1" and "length (bt_keys rgt) = t - 1"
    and "inorder (BNode ks vs cs leaf) = inorder lft @ (ks ! (t - 1), vs ! (t - 1)) # inorder rgt"
proof -
  have len: "length vs = length ks" using bt_ok_lengths [OF assms(1)] .
  show "bt_ok t h lft" "bt_ok t h rgt"
    using assms(1-3) by (cases h; auto simp: lft_def rgt_def dest: in_set_takeD in_set_dropD)+
  show "length (bt_keys lft) = t - 1" "length (bt_keys rgt) = t - 1"
    using assms(2,3) by (simp_all add: lft_def rgt_def)
  have t: "Suc (t - 1) = t" using assms(3) by simp
  show "inorder (BNode ks vs cs leaf) = inorder lft @ (ks ! (t - 1), vs ! (t - 1)) # inorder rgt"
  proof (cases leaf)
    case True
    have "t - 1 < length (zip ks vs)" using assms(2,3) len by simp
    from id_take_nth_drop [OF this] show ?thesis
      using True len assms(2,3) t by (simp add: lft_def rgt_def take_zip drop_zip)
  next
    case False
    then have lc: "length cs = Suc (length ks)" using assms(1) by (cases h) auto
    have "t - 1 < length (zip ks vs)" using assms(2,3) len by simp
    from ileave_split_at [of "map inorder cs", OF _ this] show ?thesis
      using False lc len t assms(2,3) by (simp add: lft_def rgt_def take_zip drop_zip take_map drop_map)
  qed
qed

lemma splitChild_ok:
  assumes n: "bt_ok t (Suc h) (BNode ks vs cs False) \<or> ks = [] \<and> vs = [] \<and> length cs = 1 \<and> bt_ok t h (hd cs)"
    and i: "i < length cs" and full: "length (bt_keys (cs ! i)) = 2 * t - 1" and t: "2 \<le> t"
    and room: "length ks < 2 * t - 1"
  shows "\<exists>ks' vs' cs'. splitChild (BNode ks vs cs False) i t = Some (BNode ks' vs' cs' False)
    \<and> bt_ok t (Suc h) (BNode ks' vs' cs' False) \<and> (\<exists>x. ks' = insert_at i x ks)
    \<and> inorder (BNode ks' vs' cs' False) = inorder (BNode ks vs cs False)
    \<and> length (bt_keys (cs' ! i)) = t - 1 \<and> length (bt_keys (cs' ! Suc i)) = t - 1"
proof -
  obtain fks fvs fcs fl where f: "cs ! i = BNode fks fvs fcs fl" by (cases "cs ! i")
  have lens: "length cs = Suc (length ks)" "length vs = length ks" using n by auto
  have fok: "bt_ok t h (BNode fks fvs fcs fl)"
    using n
  proof
    assume "bt_ok t (Suc h) (BNode ks vs cs False)"
    then show ?thesis using i f by (metis bt_ok.simps(2) nth_mem)
  next
    assume "ks = [] \<and> vs = [] \<and> length cs = 1 \<and> bt_ok t h (hd cs)"
    then show ?thesis using i f by (cases cs) auto
  qed
  have len: "length fks = 2 * t - 1" using full f by simp
  note sp = split_full [OF fok len t]
  let ?l = "BNode (take (t - 1) fks) (take (t - 1) fvs) (if fl then fcs else take t fcs) fl"
  let ?r = "BNode (drop t fks) (drop t fvs) (if fl then [] else drop t fcs) fl"
  let ?ks = "insert_at i (fks ! (t - 1)) ks" and ?vs = "insert_at i (fvs ! (t - 1)) vs"
  let ?cs = "insert_at (i + 1) ?r (cs[i := ?l])"
  have "t \<le> length fcs" if "\<not> fl" using fok that len t by (cases h) auto
  then have eq: "splitChild (BNode ks vs cs False) i t = Some (BNode ?ks ?vs ?cs False)"
    using i f len t lens bt_ok_lengths [OF fok] by (auto simp: splitChild_def Let_def)
  have cs': "?cs = take i cs @ ?l # ?r # drop (Suc i) cs"
    using i by (simp add: insert_at_def upd_conv_take_nth_drop min_def)
  have "inorder (BNode ?ks ?vs ?cs False)
      = ileave (map inorder (take i cs) @ inorder ?l # inorder ?r # map inorder (drop (Suc i) cs))
          (take i (zip ks vs) @ (fks ! (t - 1), fvs ! (t - 1)) # drop i (zip ks vs))"
  proof -
    have "zip ?ks ?vs = take i (zip ks vs) @ (fks ! (t - 1), fvs ! (t - 1)) # drop i (zip ks vs)"
      using zip_insert_at [of vs ks i] lens i by (simp add: insert_at_def)
    then show ?thesis unfolding inorder.simps [of ?ks ?vs] cs' by simp
  qed
  also have "\<dots> = before (map inorder (take i cs)) (take i (zip ks vs)) @ inorder ?l
      @ after ((fks ! (t - 1), fvs ! (t - 1)) # drop i (zip ks vs)) (inorder ?r # map inorder (drop (Suc i) cs))"
    using lens i by (intro ileave_split) simp_all
  also have "\<dots> = inorder (BNode ks vs cs False)"
    using ileave_nth [of "map inorder cs" "zip ks vs" i] lens i sp(5) f
    by (simp add: take_map drop_map)
  finally have ino: "inorder (BNode ?ks ?vs ?cs False) = inorder (BNode ks vs cs False)" .
  have old: "bt_ok t h c \<and> t - 1 \<le> length (bt_keys c)" if "c \<in> set (take i cs) \<union> set (drop (Suc i) cs)" for c
    using n that lens i by (auto dest: in_set_takeD in_set_dropD)
  have "\<forall>c\<in>set ?cs. bt_ok t h c \<and> t - 1 \<le> length (bt_keys c)"
    unfolding cs' using old sp(1-4) by auto
  then have ok: "bt_ok t (Suc h) (BNode ?ks ?vs ?cs False)" using lens room by simp
  have nth: "?cs ! i = ?l" "?cs ! Suc i = ?r" unfolding cs' using i by (simp_all add: nth_append)
  show ?thesis
    using eq ok ino sp(3,4) nth by (intro exI conjI) (assumption | rule refl | simp)+
qed

subsection \<open>Inserting a new key\<close>

lemma back_loop_cong:
  "(\<And>m. m < n \<Longrightarrow> xs ! m = ys ! m) \<Longrightarrow> back_loop xs key n = back_loop ys key n"
  by (induction n) auto

lemma take_drop_snoc: "j \<le> n \<Longrightarrow> n < length xs \<Longrightarrow> take (Suc n - j) (drop j xs) = take (n - j) (drop j xs) @ [xs ! n]"
  by (simp add: Suc_diff_le take_Suc_conv_app_nth)

lemma shift_loop_spec:
  "n < length xs \<Longrightarrow> n < length ys \<Longrightarrow> \<exists>xs' ys'. shift_loop xs ys key n = Some (xs', ys', back_loop xs key n)
     \<and> length xs' = length xs \<and> length ys' = length ys
     \<and> xs'[back_loop xs key n := a] =
         take (back_loop xs key n) xs @ a # take (n - back_loop xs key n) (drop (back_loop xs key n) xs) @ drop (Suc n) xs
     \<and> ys'[back_loop xs key n := b] =
         take (back_loop xs key n) ys @ b # take (n - back_loop xs key n) (drop (back_loop xs key n) ys) @ drop (Suc n) ys"
proof (induction n arbitrary: xs ys)
  case 0
  then show ?case by (auto simp: neq_Nil_conv Suc_le_eq dest: gr_implies_not0)
next
  case (Suc n)
  show ?case
  proof (cases "key < xs ! n")
    case False
    then show ?thesis using Suc.prems
      by (simp add: upd_conv_take_nth_drop)
  next
    case True
    let ?xs = "xs[Suc n := xs ! n]" and ?ys = "ys[Suc n := ys ! n]"
    have j: "back_loop ?xs key n = back_loop xs key n" by (rule back_loop_cong) simp
    let ?j = "back_loop xs key n"
    have jn: "?j \<le> n" using back_loop_spec [of n xs key] Suc.prems by simp
    have d: "drop (Suc n) (zs[Suc n := zs ! n]) = zs ! n # drop (Suc (Suc n)) zs" if "Suc n < length zs" for zs :: "string list"
      using that by (metis Cons_nth_drop_Suc drop_update_cancel length_list_update lessI nth_list_update_eq)
    have t: "take (Suc n - ?j) (drop ?j zs) = take (n - ?j) (drop ?j (zs[Suc n := zs ! n])) @ [zs ! n]"
      if "Suc n < length zs" for zs :: "string list"
      using take_drop_snoc [OF jn, of zs] that jn by (simp add: drop_update_swap)
    show ?thesis
      using Suc.IH [of ?xs ?ys] Suc.prems True jn t d by (auto simp: j simp del: drop_update_swap)
  qed
qed

lemma sorted_nth_le: "sorted_wrt (<) (ks :: string list) \<Longrightarrow> i \<le> j \<Longrightarrow> j < length ks \<Longrightarrow> ks ! i \<le> ks ! j"
  by (metis le_neq_implies_less less_imp_le order_refl sorted_wrt_nth_less)

lemma insert_at_ins:
  assumes "length vs = length ks" and "keys_sorted (zip ks vs)" and "j \<le> length ks"
    and "0 < j \<Longrightarrow> ks ! (j - 1) < k" and "j < length ks \<Longrightarrow> k < ks ! j"
  shows "insert_at j (k, v) (zip ks vs) = ins k v (zip ks vs)"
proof -
  have srt: "sorted_wrt (<) ks" using assms(1,2) by simp
  have "ks ! m < k" if "m < j" for m
    using sorted_nth_le [OF srt, of m "j - 1"] assms(3,4) that by (metis One_nat_def Suc_diff_1 Suc_le_eq gr_implies_not0 le_less_trans less_Suc_eq_le neq0_conv)
  then have "\<forall>(a, b)\<in>set (take j (zip ks vs)). a < k"
    using assms(1,3) by (auto simp: in_set_conv_nth)
  moreover have "k < ks ! m" if "j \<le> m" "m < length ks" for m
    using sorted_nth_le [OF srt that] assms(5) that by (meson le_less_trans less_le_trans)
  then have "\<forall>(a, b)\<in>set (drop j (zip ks vs)). k < a"
    using assms(1,3) by (auto simp: in_set_conv_nth)
  ultimately have "ins k v (take j (zip ks vs) @ [] @ drop j (zip ks vs)) = take j (zip ks vs) @ ins k v [] @ drop j (zip ks vs)"
    by (rule ins_mid)
  then show ?thesis by (simp add: insert_at_def ins_def)
qed

lemma insert_child:
  assumes "bt_ok t (Suc h) (BNode ks vs cs False)" and "keys_sorted (inorder (BNode ks vs cs False))"
    and "j \<le> length ks" and "0 < j \<Longrightarrow> ks ! (j - 1) < k" and "j < length ks \<Longrightarrow> k < ks ! j"
    and "map_of (inorder (BNode ks vs cs False)) k = None"
    and IH: "keys_sorted (inorder (cs ! j)) \<Longrightarrow> map_of (inorder (cs ! j)) k = None \<Longrightarrow>
      \<exists>c. insertNonFull (cs ! j) k v t = Some c \<and> bt_ok t h c \<and> inorder c = ins k v (inorder (cs ! j))
        \<and> length (bt_keys (cs ! j)) \<le> length (bt_keys c)"
  shows "\<exists>c. insertNonFull (cs ! j) k v t = Some c \<and> bt_ok t (Suc h) (BNode ks vs (cs[j := c]) False)
     \<and> inorder (BNode ks vs (cs[j := c]) False) = ins k v (inorder (BNode ks vs cs False))"
proof -
  have lens: "length cs = Suc (length ks)" "length vs = length ks" using assms(1) by auto
  let ?l = "before (take j (map inorder cs)) (take j (zip ks vs))"
  let ?r = "after (drop j (zip ks vs)) (drop (Suc j) (map inorder cs))"
  have mid: "inorder (BNode ks vs cs False) = ?l @ inorder (cs ! j) @ ?r"
    "\<forall>(a, b)\<in>set ?l. a < k" "\<forall>(a, b)\<in>set ?r. k < a"
    using node_mid [of "map inorder cs" "zip ks vs" j k] lens assms(2-5) by force+
  have "keys_sorted (inorder (cs ! j))" using assms(2) unfolding mid(1) by (simp add: sorted_wrt_append)
  moreover have "map_of (inorder (cs ! j)) k = None"
    using assms(6) map_of_mid [OF mid(2,3), of "inorder (cs ! j)"] unfolding mid(1) by simp
  ultimately obtain c where c: "insertNonFull (cs ! j) k v t = Some c" "bt_ok t h c"
    "inorder c = ins k v (inorder (cs ! j))" "length (bt_keys (cs ! j)) \<le> length (bt_keys c)"
    using IH by blast
  have "ileave (map inorder (cs[j := c])) (zip ks vs) = ?l @ inorder c @ ?r"
    using ileave_update [of "map inorder cs" "zip ks vs" j] lens assms(3) by (simp add: map_update)
  also have "\<dots> = ins k v (inorder (BNode ks vs cs False))" using ins_mid [OF mid(2,3)] mid(1) c(3) by simp
  finally have ino: "inorder (BNode ks vs (cs[j := c]) False) = ins k v (inorder (BNode ks vs cs False))" by simp
  moreover have "cs ! j \<in> set cs" using assms(3) lens by simp
  then have "t - 1 \<le> length (bt_keys c)" using assms(1) c(4) by auto
  then have "\<forall>d\<in>set (cs[j := c]). bt_ok t h d \<and> t - 1 \<le> length (bt_keys d)"
    using assms(1) c(2) set_update_subset_insert [of cs j c] by auto
  then have "bt_ok t (Suc h) (BNode ks vs (cs[j := c]) False)" using assms(1) by simp
  ultimately show ?thesis using c(1) by blast
qed

lemma insert_leaf:
  assumes "bt_ok t 0 n" and "length (bt_keys n) < 2 * t - 1" and "keys_sorted (inorder n)"
    and "map_of (inorder n) k = None"
  shows "\<exists>n'. insertNonFull n k v t = Some n' \<and> bt_ok t 0 n' \<and> inorder n' = ins k v (inorder n)
     \<and> length (bt_keys n) \<le> length (bt_keys n')"
proof -
  obtain ks vs where n: "n = BNode ks vs [] True" "length vs = length ks" using assms(1) by (cases n) auto
  let ?j = "back_loop ks k (length ks)"
  have j: "back_loop (ks @ ['''']) k (length ks) = ?j" by (rule back_loop_cong) (simp add: nth_append)
  have spec: "?j \<le> length ks" "\<forall>m. ?j \<le> m \<longrightarrow> m < length ks \<longrightarrow> k < ks ! m" "0 < ?j \<longrightarrow> \<not> k < ks ! (?j - 1)"
    using back_loop_spec [of "length ks" ks k] by auto
  obtain xs ys where sh: "shift_loop (ks @ ['''']) (vs @ ['''']) k (length ks) = Some (xs, ys, ?j)"
    "length xs = Suc (length ks)" "length ys = Suc (length ks)"
    "xs[?j := k] = insert_at ?j k ks" "ys[?j := v] = insert_at ?j v vs"
    using shift_loop_spec [of "length ks" "ks @ ['''']" "vs @ ['''']" k k v] spec(1) n(2)
    by (auto simp: j insert_at_def)
  have "k \<notin> set ks" using assms(4) n by (simp add: map_of_zip_is_None)
  then have "ks ! (?j - 1) < k" if "0 < ?j"
    using that spec(1,3) by (metis One_nat_def Suc_diff_1 Suc_le_eq antisym_conv3 nth_mem)
  then have "insert_at ?j (k, v) (zip ks vs) = ins k v (zip ks vs)"
    using insert_at_ins [of vs ks ?j k v] n assms(3) spec by simp
  then show ?thesis
    using sh n assms(2) spec(1) zip_insert_at [of vs ks ?j k v] by auto
qed

lemma not_in_keys:
  assumes "length cs = Suc (length ks)" and "length vs = length ks"
    and "map_of (inorder (BNode ks vs cs False)) k = None"
  shows "k \<notin> set ks"
proof
  assume "k \<in> set ks"
  then obtain v where "(k, v) \<in> set (zip ks vs)" using assms(2) by (metis map_of_SomeD map_of_zip_is_None not_None_eq)
  then have "(k, v) \<in> set (inorder (BNode ks vs cs False))"
    using set_ileave_kv [of "map inorder cs" "zip ks vs"] assms(1,2) by simp
  then show False using assms(3) by (force simp: map_of_eq_None_iff)
qed

lemma insert_inner_eq:
  assumes "i = back_loop ks k (length ks)" and "i < length cs"
  shows "length (bt_keys (cs ! i)) \<noteq> 2 * t - 1 \<Longrightarrow> insertNonFull (cs ! i) k v t = Some c \<Longrightarrow>
      insertNonFull (BNode ks vs cs False) k v t = Some (BNode ks vs (cs[i := c]) False)"
    and "length (bt_keys (cs ! i)) = 2 * t - 1 \<Longrightarrow>
      splitChild (BNode ks vs cs False) i t = Some (BNode ks' vs' cs' False) \<Longrightarrow>
      j = (if k > ks' ! i then i + 1 else i) \<Longrightarrow> j < length cs' \<Longrightarrow> insertNonFull (cs' ! j) k v t = Some c \<Longrightarrow>
      insertNonFull (BNode ks vs cs False) k v t = Some (BNode ks' vs' (cs'[j := c]) False)"
  using assms by (auto simp: Let_def)

declare insertNonFull.simps [simp del]

lemma insert_inorder:
  "bt_ok t h n \<Longrightarrow> length (bt_keys n) < 2 * t - 1 \<Longrightarrow> keys_sorted (inorder n) \<Longrightarrow>
     map_of (inorder n) k = None \<Longrightarrow> 2 \<le> t \<Longrightarrow>
     \<exists>n'. insertNonFull n k v t = Some n' \<and> bt_ok t h n' \<and> inorder n' = ins k v (inorder n)
       \<and> length (bt_keys n) \<le> length (bt_keys n')"
proof (induction h arbitrary: n)
  case 0
  then show ?case using insert_leaf by blast
next
  case (Suc h)
  then obtain ks vs cs where n: "n = BNode ks vs cs False" "length cs = Suc (length ks)" "length vs = length ks"
    "\<forall>c\<in>set cs. bt_ok t h c" by (cases n) auto
  let ?i = "back_loop ks k (length ks)"
  have spec: "?i \<le> length ks" "\<forall>m. ?i \<le> m \<longrightarrow> m < length ks \<longrightarrow> k < ks ! m" "0 < ?i \<longrightarrow> \<not> k < ks ! (?i - 1)"
    using back_loop_spec [of "length ks" ks k] by auto
  note prems = Suc.prems [unfolded n(1)]
  have "k \<notin> set ks" using not_in_keys [OF n(2,3) prems(4)] .
  then have lt: "ks ! (?i - 1) < k" if "0 < ?i"
    using that spec(1,3) by (metis One_nat_def Suc_diff_1 Suc_le_eq antisym_conv3 nth_mem)
  show ?case
  proof (cases "length (bt_keys (cs ! ?i)) = 2 * t - 1")
    case False
    have c: "bt_ok t h (cs ! ?i)" using n spec(1) by simp
    then have "length (bt_keys (cs ! ?i)) < 2 * t - 1" using False by (cases h; cases "cs ! ?i") auto
    note IH = Suc.IH [OF c this _ _ Suc.prems(5)]
    have gt: "k < ks ! ?i" if "?i < length ks" using spec(2) that by blast
    obtain c where c: "insertNonFull (cs ! ?i) k v t = Some c" "bt_ok t (Suc h) (BNode ks vs (cs[?i := c]) False)"
      "inorder (BNode ks vs (cs[?i := c]) False) = ins k v (inorder n)"
      using insert_child [OF prems(1,3) spec(1) lt gt prems(4) IH] unfolding n(1) by blast
    have "insertNonFull n k v t = Some (BNode ks vs (cs[?i := c]) False)"
      using insert_inner_eq(1) [OF refl _ False c(1)] n spec(1) by simp
    then show ?thesis using c(2,3) n(1) by auto
  next
    case True
    obtain ks' vs' cs' x where s: "splitChild (BNode ks vs cs False) ?i t = Some (BNode ks' vs' cs' False)"
      "bt_ok t (Suc h) (BNode ks' vs' cs' False)" "ks' = insert_at ?i x ks"
      "inorder (BNode ks' vs' cs' False) = inorder n"
      "length (bt_keys (cs' ! ?i)) = t - 1" "length (bt_keys (cs' ! Suc ?i)) = t - 1"
    proof -
      have "?i < length cs" "length ks < 2 * t - 1" using prems(2) n(2) spec(1) by auto
      from splitChild_ok [OF disjI1 [OF prems(1)] this(1) True prems(5) this(2)]
      show thesis using that unfolding n(1) by blast
    qed
    let ?j = "if k > ks' ! ?i then ?i + 1 else ?i"
    have lens: "length cs' = Suc (length ks')" "length vs' = length ks'" "length ks' = Suc (length ks)"
      using s(2,3) by auto
    have nth: "ks' ! ?i = x" "0 < ?i \<Longrightarrow> ks' ! (?i - 1) = ks ! (?i - 1)" "?i < length ks \<Longrightarrow> ks' ! Suc ?i = ks ! ?i"
      using spec(1) by (auto simp: s(3) insert_at_def nth_append)
    have n': "keys_sorted (inorder (BNode ks' vs' cs' False))" "map_of (inorder (BNode ks' vs' cs' False)) k = None"
      unfolding s(4) using Suc.prems(3,4) .
    have "k \<notin> set ks'" using not_in_keys [OF lens(1,2) n'(2)] .
    then have x: "x \<noteq> k" by (auto simp: s(3))
    have pos1: "?j \<le> length ks'" using spec(1) lens(3) by simp
    have pos2: "ks' ! (?j - 1) < k" if "0 < ?j" using nth(1,2) lt that by (cases "k > ks' ! ?i") simp_all
    have pos3: "k < ks' ! ?j" if "?j < length ks'"
      using nth(1,3) spec(2) x that lens(3) by (cases "k > ks' ! ?i") auto
    have mem: "cs' ! ?j \<in> set cs'" using pos1 lens(1) by simp
    have c1: "bt_ok t h (cs' ! ?j)" using s(2) mem by simp
    have c2: "length (bt_keys (cs' ! ?j)) < 2 * t - 1" using s(5,6) Suc.prems(5) by simp
    obtain c where c: "insertNonFull (cs' ! ?j) k v t = Some c" "bt_ok t (Suc h) (BNode ks' vs' (cs'[?j := c]) False)"
      "inorder (BNode ks' vs' (cs'[?j := c]) False) = ins k v (inorder n)"
      using insert_child [OF s(2) n'(1) pos1 pos2 pos3 n'(2) Suc.IH [OF c1 c2 _ _ Suc.prems(5)]]
      unfolding s(4) by blast
    have "insertNonFull n k v t = Some (BNode ks' vs' (cs'[?j := c]) False)"
      unfolding n(1) using pos1 lens(1) n(2) spec(1)
      by (intro insert_inner_eq(2) [OF refl _ True s(1) refl _ c(1)]) simp_all
    moreover have "length (bt_keys n) \<le> length (bt_keys (BNode ks' vs' (cs'[?j := c]) False))"
      using n(1) lens(3) by simp
    ultimately show ?thesis using c(2,3) by blast
  qed
qed

definition BTree_ok :: "BTree \<Rightarrow> bool" where
  "BTree_ok b \<longleftrightarrow> 2 \<le> bt_order b \<and> (\<exists>h. bt_ok (bt_order b) h (bt_root b)) \<and> keys_sorted (inorder (bt_root b))
     \<and> bt_byteSize b = raw_bytes (inorder (bt_root b))"

lemma BTree_Add_spec:
  assumes "BTree_ok b"
  shows "\<exists>b'. BTree_Add b k v = Some b' \<and> BTree_ok b' \<and> inorder (bt_root b') = ins k v (inorder (bt_root b))
    \<and> bt_order b' = bt_order b"
proof -
  let ?t = "bt_order b" and ?n = "bt_root b"
  obtain h where t: "2 \<le> ?t" and ok: "bt_ok ?t h ?n" and srt: "keys_sorted (inorder ?n)"
    and sz: "bt_byteSize b = raw_bytes (inorder ?n)" using assms by (auto simp: BTree_ok_def)
  note bytes = raw_bytes_ins [OF srt, of k v] and srt' = keys_sorted_ins [OF srt, of k v]
  show ?thesis
  proof (cases "map_of (inorder ?n) k")
    case (Some old)
    then obtain n' where "bTreeNode_updateExisting ?n k v = Some n'" "bt_ok ?t h n'"
      "inorder n' = ins k v (inorder ?n)" using update_inorder [OF ok srt] by (metis option.distinct(1))
    then show ?thesis
      using lookup_inorder [OF ok srt, of k] Some t srt' sz bytes
      by (auto simp: BTree_Add_def BTree_ok_def)
  next
    case None
    have "\<exists>m h'. (if length (bt_keys ?n) = 2 * ?t - 1 then
          (case splitChild (BNode [] [] [?n] False) 0 ?t of None \<Rightarrow> None | Some r \<Rightarrow> insertNonFull r k v ?t)
        else insertNonFull ?n k v ?t) = Some m \<and> bt_ok ?t h' m \<and> inorder m = ins k v (inorder ?n)"
    proof (cases "length (bt_keys ?n) = 2 * ?t - 1")
      case True
      obtain ks vs cs where s: "splitChild (BNode [] [] [?n] False) 0 ?t = Some (BNode ks vs cs False)"
        "bt_ok ?t (Suc h) (BNode ks vs cs False)" "length ks = 1" "inorder (BNode ks vs cs False) = inorder ?n"
        using splitChild_ok [of ?t h "[]" "[]" "[?n]" 0] ok True t by force
      obtain m where "insertNonFull (BNode ks vs cs False) k v ?t = Some m" "bt_ok ?t (Suc h) m"
        "inorder m = ins k v (inorder ?n)"
      proof -
        have "length (bt_keys (BNode ks vs cs False)) < 2 * ?t - 1" using s(3) t by simp
        from insert_inorder [OF s(2) this _ _ t, of k v] show thesis
          using that srt None unfolding s(4) by blast
      qed
      then show ?thesis using True s(1) by auto
    next
      case False
      then have "length (bt_keys ?n) < 2 * ?t - 1" using ok by (cases h; cases ?n) auto
      then show ?thesis using insert_inorder [OF ok _ srt None t, of v] False by auto
    qed
    then show ?thesis
      using lookup_inorder [OF ok srt, of k] None t srt' sz bytes
      by (auto simp: BTree_Add_def BTree_ok_def Let_def split: if_splits option.splits)
  qed
qed

interpretation bt: memtable BTree_ops BTree_ok
proof
  show "BTree_ok (mo_New BTree_ops)" "mo_ToRaw BTree_ops (mo_New BTree_ops) = Some []"
    by (auto simp: BTree_ops_def BTree_ok_def NewBTree_def defaultBTreeOrder_def BTree_ToRaw_def
        intro!: exI [of _ 0])
next
  fix m r k v p
  assume ok: "BTree_ok m" and r: "mo_ToRaw BTree_ops m = Some r"
  obtain h where h: "bt_ok (bt_order m) h (bt_root m)" "keys_sorted (inorder (bt_root m))"
    using ok by (auto simp: BTree_ok_def)
  have r': "r = inorder (bt_root m)"
    using r collect_inorder [OF h(1)] by (simp add: BTree_ops_def BTree_ToRaw_def)
  show "\<exists>m' r'. mo_Add BTree_ops m k v = Some m' \<and> BTree_ok m' \<and> mo_ToRaw BTree_ops m' = Some r'
      \<and> map_of r' = (map_of r)(k \<mapsto> v)"
    using BTree_Add_spec [OF ok, of k v] collect_inorder
    by (fastforce simp: BTree_ops_def BTree_ToRaw_def r' BTree_ok_def)
  show "mo_Get BTree_ops m k = Some (visible (map_of r k))"
    using search_inorder [OF h] by (simp add: BTree_ops_def BTree_Get_def r')
  show "mo_Scan BTree_ops m p = Some (filter (\<lambda>(k, v). p k) r)"
    using scan_inorder [OF h(1)] by (simp add: BTree_ops_def BTree_Scan_def r')
  show "mo_GetSize BTree_ops m = raw_bytes r"
    using ok by (simp add: BTree_ops_def BTree_GetSize_def BTree_ok_def r')
  show "\<exists>m'. mo_TakeSnapshot BTree_ops m = Some (r, m') \<and> BTree_ok m' \<and> mo_ToRaw BTree_ops m' = Some []"
    using r ok by (auto simp: BTree_ops_def BTree_TakeSnapshot_def BTree_ToRaw_def BTree_ok_def intro!: exI [of _ 0])
next
  fix m
  assume ok: "BTree_ok m"
  then obtain h where "bt_ok (bt_order m) h (bt_root m)" "keys_sorted (inorder (bt_root m))"
    by (auto simp: BTree_ok_def)
  then show "\<exists>r. mo_ToRaw BTree_ops m = Some r \<and> gmap_ok r"
    using collect_inorder keys_sorted_distinct by (auto simp: BTree_ops_def BTree_ToRaw_def)
  show "BTree_ok (mo_Clear BTree_ops m) \<and> mo_ToRaw BTree_ops (mo_Clear BTree_ops m) = Some []"
    using ok by (auto simp: BTree_ops_def BTree_Clear_def BTree_ToRaw_def BTree_ok_def intro!: exI [of _ 0])
qed

lemma NewBTree_ok: "BTree_ok (NewBTree order)"
  by (auto simp: BTree_ok_def NewBTree_def intro!: exI [of _ 0])

lemma NewBTree_content: "bt.content (NewBTree order) = Map.empty"
proof -
  have "mo_ToRaw BTree_ops (NewBTree order) = Some []" by (simp add: BTree_ops_def BTree_ToRaw_def NewBTree_def)
  then show ?thesis using bt.content_raw by fastforce
qed

section \<open>The immutable snapshot\<close>

lemma SortByKeys_props:
  assumes "gmap_ok r"
  shows "keys_sorted (SortByKeys r)" and "map_of (SortByKeys r) = map_of r" and "mset (SortByKeys r) = mset r"
proof -
  show m: "mset (SortByKeys r) = mset r" by (simp add: SortByKeys_def)
  then have d: "gmap_ok (SortByKeys r)"
    using assms by (metis mset_eq_imp_distinct_iff mset_map)
  then show "keys_sorted (SortByKeys r)" by (simp add: SortByKeys_def strict_sorted_iff)
  show "map_of (SortByKeys r) = map_of r"
    using d assms m by (metis map_of_inject_set set_mset_mset)
qed

lemma Immutable_Get_sorted:
  assumes "keys_sorted (im_data im)"
  shows "ImmutableMemtable_Get im k = visible (map_of (im_data im) k)"
proof -
  let ?d = "im_data im" and ?f = "\<lambda>i. fst (im_data im ! i) \<ge> k"
  let ?i = "sort_Search (length ?d) ?f"
  have le: "fst (?d ! a) \<le> fst (?d ! b)" if "a \<le> b" "b < length ?d" for a b
    using sorted_nth_le [OF assms, of a b] that by simp
  have mono: "?f b" if "a \<le> b" "b < length ?d" "?f a" for a b
    using le [OF that(1,2)] that(3) by (rule order_trans [rotated])
  have below: "fst (?d ! a) < k" if "a < ?i" for a
    using sort_Search_spec(2) [of "length ?d" ?f a] mono that by (metis not_le)
  have above: "k \<le> fst (?d ! a)" if "?i \<le> a" "a < length ?d" for a
    using sort_Search_spec(3) [of "length ?d" ?f a] mono that by metis
  show ?thesis
  proof (cases "?i < length ?d \<and> fst (?d ! ?i) = k")
    case True
    then have "(k, snd (?d ! ?i)) \<in> set ?d" by (metis nth_mem prod.collapse)
    then have "map_of ?d k = Some (snd (?d ! ?i))" by (rule found_at [OF assms])
    then show ?thesis using True by (simp add: ImmutableMemtable_Get_def Let_def visible_def)
  next
    case False
    have "fst (?d ! a) \<noteq> k" if "a < length ?d" for a
    proof (cases "a < ?i")
      case f: False
      then have i: "?i < length ?d" using that by simp
      then have "k < fst (?d ! ?i)" using above [of ?i] False by force
      also have "\<dots> \<le> fst (?d ! a)" using le [of ?i a] f that by simp
      finally show ?thesis by simp
    qed (use below in auto)
    then have "map_of ?d k = None"
      by (auto simp: map_of_eq_None_iff in_set_conv_nth) (metis fst_conv)
    then show ?thesis using False by (auto simp: ImmutableMemtable_Get_def Let_def visible_def)
  qed
qed

lemma Immutable_Get:
  "gmap_ok r \<Longrightarrow> ImmutableMemtable_Get (NewImmutableMemtable r lsn) k = visible (map_of r k)"
  by (simp add: Immutable_Get_sorted NewImmutableMemtable_def SortByKeys_props)

section \<open>Properties of the memtables\<close>

text \<open>
  C6: The B-tree memtable of any order implements a map. After any sequence of insertions into a
  new tree (splits of the root and of inner nodes included) no operation has panicked, every key
  reads as the value inserted last under it (a tombstone reads as absent), the full walk lists the
  entries in strictly increasing key order, and the reported size is the number of bytes of the
  distinct keys and their current values.
\<close>

theorem BTree_implements_map:
  "\<exists>t raw. Memtable_adds BTree_ops (NewBTree order) kvs = Some t
     \<and> BTree_ToRaw t = Some raw \<and> sorted_wrt (<) (map fst raw) \<and> map_of raw = map_of (rev kvs)
     \<and> (\<forall>k. BTree_Get t k = Some (visible (map_of (rev kvs) k)))
     \<and> BTree_GetSize t = (\<Sum>k\<in>set (map fst kvs). entryBytes k (the (map_of (rev kvs) k)))"
proof -
  let ?b = "NewBTree order"
  note new = NewBTree_ok [of order]
  have "bt.content ?b = Map.empty" by (rule NewBTree_content)
  with new obtain t where t: "Memtable_adds BTree_ops ?b kvs = Some t" "BTree_ok t"
    "bt.content t = map_of (rev kvs)"
    "\<forall>k. mo_Get BTree_ops t k = Some (visible (map_of (rev kvs) k))"
    "mo_GetSize BTree_ops t = (\<Sum>k\<in>set (map fst kvs). entryBytes k (the (map_of (rev kvs) k)))"
    using bt.adds_content [OF new, of kvs] bt.adds_new [OF new, of kvs] by auto
  obtain h where "bt_ok (bt_order t) h (bt_root t)" "keys_sorted (inorder (bt_root t))"
    using t(2) by (auto simp: BTree_ok_def)
  then have r: "BTree_ToRaw t = Some (inorder (bt_root t))" "keys_sorted (inorder (bt_root t))"
    using collect_inorder by (auto simp: BTree_ToRaw_def)
  then have "map_of (inorder (bt_root t)) = map_of (rev kvs)"
    using t(3) bt.content_raw [of t] by (simp add: BTree_ops_def)
  with r t show ?thesis by (auto simp: BTree_ops_def)
qed

text \<open>
  C24: The B-tree stays balanced: after any sequence of insertions every leaf is at the same depth,
  every node has at most \<open>2 * order - 1\<close> keys, every node but the root has at least
  \<open>order - 1\<close>, an inner node has one child more than keys, and keys and values stay parallel.
\<close>

theorem BTree_balanced:
  "\<exists>t h. Memtable_adds BTree_ops (NewBTree order) kvs = Some t \<and> bt_order t = nat (max 2 order)
     \<and> bt_ok (bt_order t) h (bt_root t)"
proof -
  have "\<exists>t'. Memtable_adds BTree_ops t kvs = Some t' \<and> bt_order t' = bt_order t \<and> BTree_ok t'" if "BTree_ok t" for t
    using that
  proof (induction kvs arbitrary: t)
    case (Cons kv kvs)
    obtain k v where kv: "kv = (k, v)" by (cases kv)
    obtain b where b: "BTree_Add t k v = Some b" "BTree_ok b" "bt_order b = bt_order t"
      using BTree_Add_spec [OF Cons.prems] by blast
    have "mo_Add BTree_ops t k v = Some b" using b(1) by (simp add: BTree_ops_def)
    then show ?case using Cons.IH [OF b(2)] b(3) by (simp add: kv)
  qed simp
  moreover note NewBTree_ok [of order]
  moreover have "bt_order (NewBTree order) = nat (max 2 order)" by (simp add: NewBTree_def max_def)
  ultimately show ?thesis unfolding BTree_ok_def by metis
qed

text \<open>
  C25: The memtable implementations are interchangeable: the hash map and the B-tree, given the same
  insertions, answer every \<open>Get\<close> alike and report the same size, so the flush threshold does not
  depend on the configured type; and the sorted immutable snapshot made from either answers every
  \<open>Get\<close> by binary search exactly as the table it was made from.
\<close>

theorem memtables_equivalent:
  "\<exists>h t raw. Memtable_adds HashMap_ops NewHashMap kvs = Some h
     \<and> Memtable_adds BTree_ops (NewBTree order) kvs = Some t \<and> BTree_ToRaw t = Some raw
     \<and> (\<forall>k. BTree_Get t k = Some (HashMap_Get h k)) \<and> BTree_GetSize t = HashMap_GetSize h
     \<and> (\<forall>k. ImmutableMemtable_Get (NewImmutableMemtable raw lsn) k = HashMap_Get h k)
     \<and> (\<forall>k. ImmutableMemtable_Get (NewImmutableMemtable (HashMap_ToRaw h) lsn) k = HashMap_Get h k)"
proof -
  note new = NewBTree_ok [of order] NewBTree_content [of order] hm.new(1) hm.content_new
  have "mo_New HashMap_ops = NewHashMap" by (simp add: HashMap_ops_def)
  note new = new [unfolded this]
  obtain t where t: "Memtable_adds BTree_ops (NewBTree order) kvs = Some t" "BTree_ok t"
    "\<forall>k. mo_Get BTree_ops t k = Some (visible (map_of (rev kvs) k))"
    "mo_GetSize BTree_ops t = (\<Sum>k\<in>set (map fst kvs). entryBytes k (the (map_of (rev kvs) k)))"
    using bt.adds_new [OF new(1,2), of kvs] by auto
  obtain h where h: "Memtable_adds HashMap_ops NewHashMap kvs = Some h" "HashMap_ok h"
    "\<forall>k. mo_Get HashMap_ops h k = Some (visible (map_of (rev kvs) k))"
    "mo_GetSize HashMap_ops h = (\<Sum>k\<in>set (map fst kvs). entryBytes k (the (map_of (rev kvs) k)))"
    using hm.adds_new [OF new(3,4), of kvs] by auto
  obtain raw where raw: "mo_ToRaw BTree_ops t = Some raw" "gmap_ok raw" using bt.raw [OF t(2)] by blast
  have g: "visible (map_of raw k) = HashMap_Get h k" "visible (map_of (HashMap_ToRaw h) k) = HashMap_Get h k" for k
    using bt.get [OF t(2) raw(1), of k] t(3) h(3) hm.get [OF h(2), of "HashMap_ToRaw h" k]
    by (simp_all add: HashMap_ops_def)
  have "gmap_ok (HashMap_ToRaw h)" using h(2) by (simp add: HashMap_ToRaw_def HashMap_ok_def)
  then show ?thesis
    using t h raw g Immutable_Get by (intro exI [of _ h] exI [of _ t] exI [of _ raw]) (simp add: BTree_ops_def HashMap_ops_def)
qed

end
