(* ===== verification/Wal.thy ===== *)
theory Wal
  imports Prelude "HOL-Library.Multiset"
begin

unbundle bit_operations_syntax

text \<open>
  The write-ahead log: \<open>src/wal/record\<close>, \<open>src/wal/storage\<close> and \<open>src/wal\<close>.

  A record is encoded into bytes with its CRC-32. The log directory is an association list from
  file name to file content; \<open>fail\<close> says which kinds of file operations fail in a call, so that
  every early return on an I/O error is a branch of the model (a failed write writes nothing). The
  bytes of each file that have been synced are recorded beside the content: a crash may cut a file
  anywhere behind them. The mutex of the storage makes each operation one step.
\<close>

section \<open>record.go\<close>

definition recordHeaderSize :: nat where
  "recordHeaderSize = 25"

definition OpPut :: byte where "OpPut = 0x01"

definition OpDelete :: byte where "OpDelete = 0x02"

record Record =
  r_LSN :: u64
  r_Op :: byte
  r_Key :: "byte list"
  r_Value :: "byte list"

text \<open>\<open>crc32.ChecksumIEEE\<close>: the reflected polynomial \<open>0xEDB88320\<close>, bit by bit.\<close>

fun crc_bits :: "nat \<Rightarrow> 32 word \<Rightarrow> 32 word" where
  "crc_bits 0 c = c"
| "crc_bits (Suc n) c =
     crc_bits n (if bit c 0 then xor (drop_bit 1 c) 0xEDB88320 else drop_bit 1 c)"

definition ChecksumIEEE :: "byte list \<Rightarrow> 32 word" where
  "ChecksumIEEE bs = not (fold (\<lambda>b c. crc_bits 8 (xor c (ucast b))) bs (-1))"

datatype wal_error =
    InvalidOp byte
  | DeleteWithValue
  | RecordTooShort
  | InvalidRecordLength
  | BufferShort
  | CrcMismatch
  | RecordLengthMismatch
  | EOF
  | IOError
  | SegmentNotFound

definition EncodeRecord :: "byte \<Rightarrow> byte list \<Rightarrow> byte list \<Rightarrow> u64 \<Rightarrow> wal_error + byte list" where
  "EncodeRecord oper key value lsn =
     (if oper \<noteq> OpPut \<and> oper \<noteq> OpDelete then Inl (InvalidOp oper)
      else if oper = OpDelete \<and> length value \<noteq> 0 then Inl DeleteWithValue
      else (let recordLen = recordHeaderSize + length key + length value;
                body = le_enc 4 recordLen @ le_enc 8 (unat lsn) @ [oper] @ le_enc 4 (length key)
                         @ le_enc 4 (length value) @ key @ value;
                crc = ChecksumIEEE body
            in Inr (le_enc 4 (unat crc) @ body)))"

definition slice :: "nat \<Rightarrow> nat \<Rightarrow> 'a list \<Rightarrow> 'a list" where
  "slice a b xs = take (b - a) (drop a xs)"

definition DecodeRecord :: "byte list \<Rightarrow> wal_error + Record" where
  "DecodeRecord buf =
     (if length buf < recordHeaderSize then Inl RecordTooShort
      else (let recordLen = le_val (slice 4 8 buf)
            in if recordLen < recordHeaderSize then Inl InvalidRecordLength
               else if length buf < recordLen then Inl BufferShort
               else (let recordBuf = take recordLen buf;
                         expectedCRC = le_val (slice 0 4 recordBuf)
                     in if unat (ChecksumIEEE (slice 4 recordLen recordBuf)) \<noteq> expectedCRC then Inl CrcMismatch
                        else (let oper = recordBuf ! 16
                              in if oper \<noteq> OpPut \<and> oper \<noteq> OpDelete then Inl (InvalidOp oper)
                                 else (let keyLen = le_val (slice 17 21 recordBuf);
                                           valLen = le_val (slice 21 25 recordBuf)
                                       in if recordHeaderSize + keyLen + valLen \<noteq> recordLen
                                          then Inl RecordLengthMismatch
                                          else (let keyStart = recordHeaderSize; keyEnd = keyStart + keyLen;
                                                    valEnd = keyEnd + valLen
                                                in Inr \<lparr>r_LSN = of_nat (le_val (slice 8 16 recordBuf)), r_Op = oper,
                                                        r_Key = slice keyStart keyEnd recordBuf,
                                                        r_Value = slice keyEnd valEnd recordBuf\<rparr>))))))"

section \<open>segment.go\<close>

text \<open>File names: \<open>fmt.Sprintf("%09d.log", id)\<close>.\<close>

definition SegmentName :: "u64 \<Rightarrow> string" where
  "SegmentName sid =
     (let s = FormatUint10 (unat sid) in replicate (9 - length s) (CHR ''0'') @ s @ ''.log'')"

definition HasSuffix :: "string \<Rightarrow> string \<Rightarrow> bool" where
  "HasSuffix s suffix \<longleftrightarrow> length suffix \<le> length s \<and> drop (length s - length suffix) s = suffix"

definition parseSegmentID :: "string \<Rightarrow> u64 option" where
  "parseSegmentID name =
     (if \<not> HasSuffix name ''.log'' then None
      else (let stem = take (length name - 4) name
            in if length stem \<noteq> 9 then None
               else if \<not> list_all is_digit stem then None
               else ParseUint10 stem))"

type_synonym wal_files = "(string \<times> byte list) list"

datatype io_op = OpMkdir | OpReadDir | OpStat | OpOpen | OpWrite | OpSync | OpClose | OpRemove

text \<open>The segments of the directory, ordered by id; a segment is its id and the name of its file.\<close>

definition ListSegmentsInDir :: "(io_op \<Rightarrow> bool) \<Rightarrow> wal_files \<Rightarrow> wal_error + (u64 \<times> string) list" where
  "ListSegmentsInDir fail dir =
     (if fail OpReadDir then Inl IOError
      else Inr (sort_key fst
             (List.map_filter (\<lambda>(name, _). map_option (\<lambda>sid. (sid, name)) (parseSegmentID name)) dir)))"

definition NextSegmentIDInDir :: "(io_op \<Rightarrow> bool) \<Rightarrow> wal_files \<Rightarrow> wal_error + u64" where
  "NextSegmentIDInDir fail dir =
     (case ListSegmentsInDir fail dir of
        Inl err \<Rightarrow> Inl err
      | Inr segments \<Rightarrow> if length segments = 0 then Inr 1 else Inr (fst (last segments) + 1))"

section \<open>append\_file.go: reading\<close>

text \<open>\<open>fileSegmentReader\<close>: the state is what remains of the file.\<close>

definition fileSegmentReader_Next :: "byte list \<Rightarrow> wal_error + (Record \<times> byte list)" where
  "fileSegmentReader_Next file =
     (if length file < 8 then Inl EOF
      else (let header = take 8 file; recordLen = le_val (slice 4 8 header)
            in if recordLen < 8 then Inl EOF
               else if length file < recordLen then Inl EOF
               else (let recordBuf = take recordLen file
                     in case DecodeRecord recordBuf of
                          Inl _ \<Rightarrow> Inl EOF
                        | Inr rec \<Rightarrow> Inr (rec, drop recordLen file))))"

lemma reader_progress [termination_simp]:
  "fileSegmentReader_Next file = Inr (rec, rest) \<Longrightarrow> length rest < length file"
  by (auto simp: fileSegmentReader_Next_def Let_def split: if_splits sum.splits)

text \<open>The loop that reads a segment up to \<open>io.EOF\<close>: the records it delivers.\<close>

function read_segment :: "byte list \<Rightarrow> Record list" where
  "read_segment file =
     (case fileSegmentReader_Next file of
        Inl _ \<Rightarrow> []
      | Inr (rec, rest) \<Rightarrow> rec # read_segment rest)"
  by pat_completeness auto
termination
  by (relation "measure length") (auto simp: reader_progress)

declare read_segment.simps [simp del]

definition maxLSNInSegment :: "(io_op \<Rightarrow> bool) \<Rightarrow> wal_files \<Rightarrow> string \<Rightarrow> wal_error + u64" where
  "maxLSNInSegment fail dir path =
     (if fail OpOpen then Inl IOError
      else (case map_of dir path of
              None \<Rightarrow> Inl IOError
            | Some file \<Rightarrow> Inr (fold (\<lambda>rec maxLSN. r_LSN rec) (read_segment file) 0)))"

section \<open>append\_file.go: the storage\<close>

record AppendFileStorage =
  segmentSize :: int
  writeBufferSize :: int
  segmentID :: u64
  s_file :: "string option"
  writeBuffer :: "byte list"
  nextLSN :: u64
  appendedLSN :: u64
  durableLSN :: u64
  walDir :: wal_files
  synced :: "(string \<times> byte list) list"

text \<open>The content of a file, and the write at its end (the file is opened with \<open>O_APPEND\<close>).\<close>

definition file_content :: "wal_files \<Rightarrow> string \<Rightarrow> byte list" where
  "file_content dir name = (case map_of dir name of None \<Rightarrow> [] | Some bs \<Rightarrow> bs)"

definition openSegment :: "(io_op \<Rightarrow> bool) \<Rightarrow> AppendFileStorage \<Rightarrow> u64 \<Rightarrow> string \<Rightarrow> AppendFileStorage \<times> wal_error option" where
  "openSegment fail s sid path =
     (if fail OpOpen then (s, Some IOError)
      else (s\<lparr>walDir := (if map_of (walDir s) path = None then AList.update path [] (walDir s) else walDir s),
              segmentID := sid, s_file := Some path, writeBuffer := []\<rparr>, None))"

definition openNewSegment :: "(io_op \<Rightarrow> bool) \<Rightarrow> AppendFileStorage \<Rightarrow> u64 \<Rightarrow> AppendFileStorage \<times> wal_error option" where
  "openNewSegment fail s sid = openSegment fail s sid (SegmentName sid)"

text \<open>
  \<open>flushLocked\<close> writes the buffer at the end of the open file; writing to a nil file is an error.
\<close>

definition flushLocked :: "(io_op \<Rightarrow> bool) \<Rightarrow> AppendFileStorage \<Rightarrow> AppendFileStorage \<times> wal_error option" where
  "flushLocked fail s =
     (if length (writeBuffer s) = 0 then (s, None)
      else (case s_file s of
              None \<Rightarrow> (s, Some IOError)
            | Some path \<Rightarrow>
                if fail OpWrite then (s, Some IOError)
                else (s\<lparr>walDir := AList.update path (file_content (walDir s) path @ writeBuffer s) (walDir s),
                        writeBuffer := []\<rparr>, None)))"

definition fsync :: "AppendFileStorage \<Rightarrow> string \<Rightarrow> AppendFileStorage" where
  "fsync s path = s\<lparr>synced := AList.update path (file_content (walDir s) path) (synced s)\<rparr>"

definition syncLocked :: "(io_op \<Rightarrow> bool) \<Rightarrow> AppendFileStorage \<Rightarrow> AppendFileStorage \<times> wal_error option" where
  "syncLocked fail s =
     (case flushLocked fail s of
        (s, Some err) \<Rightarrow> (s, Some err)
      | (s, None) \<Rightarrow>
          (case s_file s of
             None \<Rightarrow> (s, None)
           | Some path \<Rightarrow>
               if fail OpSync then (s, Some IOError)
               else ((fsync s path)\<lparr>durableLSN := appendedLSN s\<rparr>, None)))"

definition closeLocked :: "(io_op \<Rightarrow> bool) \<Rightarrow> AppendFileStorage \<Rightarrow> AppendFileStorage \<times> wal_error option" where
  "closeLocked fail s =
     (case syncLocked fail s of
        (s, Some err) \<Rightarrow> (s, Some err)
      | (s, None) \<Rightarrow>
          (case s_file s of
             None \<Rightarrow> (s, None)
           | Some path \<Rightarrow> (s\<lparr>s_file := None\<rparr>, if fail OpClose then Some IOError else None)))"

definition rotateIfNeededLocked :: "(io_op \<Rightarrow> bool) \<Rightarrow> AppendFileStorage \<Rightarrow> AppendFileStorage \<times> wal_error option" where
  "rotateIfNeededLocked fail s =
     (case s_file s of
        None \<Rightarrow> (s, None)
      | Some path \<Rightarrow>
          (case flushLocked fail s of
             (s, Some err) \<Rightarrow> (s, Some err)
           | (s, None) \<Rightarrow>
               if fail OpStat then (s, Some IOError)
               else if int (length (file_content (walDir s) path)) < segmentSize s then (s, None)
               else if fail OpSync then (s, Some IOError)
               else (let s = (fsync s path)\<lparr>durableLSN := appendedLSN s\<rparr>
                     in if fail OpClose then (s, Some IOError)
                        else (let s = s\<lparr>s_file := None\<rparr>
                              in case NextSegmentIDInDir fail (walDir s) of
                                   Inl err \<Rightarrow> (s, Some err)
                                 | Inr sid \<Rightarrow> openNewSegment fail s sid))))"

definition Storage_Append ::
  "(io_op \<Rightarrow> bool) \<Rightarrow> AppendFileStorage \<Rightarrow> byte \<Rightarrow> byte list \<Rightarrow> byte list \<Rightarrow> AppendFileStorage \<times> (wal_error + u64)" where
  "Storage_Append fail s oper key value =
     (let lsn = nextLSN s; s = s\<lparr>nextLSN := nextLSN s + 1\<rparr>
      in case EncodeRecord oper key value lsn of
           Inl err \<Rightarrow> (s, Inl err)
         | Inr encoded \<Rightarrow>
             (let s = s\<lparr>writeBuffer := writeBuffer s @ encoded, appendedLSN := lsn\<rparr>
              in case (if int (length (writeBuffer s)) \<ge> writeBufferSize s then flushLocked fail s else (s, None)) of
                   (s, Some err) \<Rightarrow> (s, Inl err)
                 | (s, None) \<Rightarrow>
                     (case rotateIfNeededLocked fail s of
                        (s, Some err) \<Rightarrow> (s, Inl err)
                      | (s, None) \<Rightarrow> (s, Inr lsn))))"

definition Storage_Sync :: "(io_op \<Rightarrow> bool) \<Rightarrow> AppendFileStorage \<Rightarrow> AppendFileStorage \<times> wal_error option" where
  "Storage_Sync fail s = syncLocked fail s"

definition Storage_Close :: "(io_op \<Rightarrow> bool) \<Rightarrow> AppendFileStorage \<Rightarrow> AppendFileStorage \<times> wal_error option" where
  "Storage_Close fail s = closeLocked fail s"

fun PurgeUpTo_loop ::
  "(io_op \<Rightarrow> bool) \<Rightarrow> u64 \<Rightarrow> AppendFileStorage \<Rightarrow> (u64 \<times> string) list \<Rightarrow> AppendFileStorage \<times> wal_error option" where
  "PurgeUpTo_loop fail checkpointLSN s [] = (s, None)"
| "PurgeUpTo_loop fail checkpointLSN s ((sid, path) # segments) =
     (if sid = segmentID s then PurgeUpTo_loop fail checkpointLSN s segments
      else (case maxLSNInSegment fail (walDir s) path of
              Inl err \<Rightarrow> (s, Some err)
            | Inr maxLSN \<Rightarrow>
                if maxLSN > checkpointLSN then (s, None)
                else if fail OpRemove then (s, Some IOError)
                else PurgeUpTo_loop fail checkpointLSN
                       (s\<lparr>walDir := AList.delete path (walDir s), synced := AList.delete path (synced s)\<rparr>) segments))"

definition Storage_PurgeUpTo :: "(io_op \<Rightarrow> bool) \<Rightarrow> AppendFileStorage \<Rightarrow> u64 \<Rightarrow> AppendFileStorage \<times> wal_error option" where
  "Storage_PurgeUpTo fail s checkpointLSN =
     (case ListSegmentsInDir fail (walDir s) of
        Inl err \<Rightarrow> (s, Some err)
      | Inr segments \<Rightarrow> PurgeUpTo_loop fail checkpointLSN s segments)"

definition maxLSNFromLastSegment :: "(io_op \<Rightarrow> bool) \<Rightarrow> wal_files \<Rightarrow> (u64 \<times> string) list \<Rightarrow> wal_error + u64" where
  "maxLSNFromLastSegment fail dir segments =
     (if fail OpStat then Inl IOError
      else (let last_path = snd (last segments);
                scanPath = (if length (file_content dir last_path) = 0 \<and> length segments > 1
                            then snd (segments ! (length segments - 2)) else last_path)
            in maxLSNInSegment fail dir scanPath))"

definition NewAppendStorageInDir ::
  "(io_op \<Rightarrow> bool) \<Rightarrow> wal_files \<Rightarrow> int \<Rightarrow> int \<Rightarrow> AppendFileStorage \<times> wal_error option" where
  "NewAppendStorageInDir fail dir segSize bufSize =
     (let s = \<lparr>segmentSize = segSize, writeBufferSize = bufSize, segmentID = 0, s_file = None, writeBuffer = [],
               nextLSN = 1, appendedLSN = 0, durableLSN = 0, walDir = dir, synced = dir\<rparr>
      in if fail OpMkdir then (s, Some IOError)
         else (case ListSegmentsInDir fail dir of
                 Inl err \<Rightarrow> (s, Some err)
               | Inr segments \<Rightarrow>
                   if length segments = 0 then openNewSegment fail s 1
                   else (case maxLSNFromLastSegment fail dir segments of
                           Inl err \<Rightarrow> (s, Some err)
                         | Inr maxLSN \<Rightarrow>
                             (let s = s\<lparr>nextLSN := (if maxLSN > 0 then maxLSN + 1 else nextLSN s),
                                        appendedLSN := maxLSN, durableLSN := maxLSN\<rparr>
                              in if fail OpStat then (s, Some IOError)
                                 else if int (length (file_content dir (snd (last segments)))) \<ge> segSize
                                 then (case NextSegmentIDInDir fail dir of
                                         Inl err \<Rightarrow> (s, Some err)
                                       | Inr sid \<Rightarrow> openNewSegment fail s sid)
                                 else openSegment fail s (fst (last segments)) (snd (last segments))))))"

section \<open>wal.go and replay.go\<close>

record Entry =
  e_LSN :: u64
  e_Op :: byte
  e_Key :: string
  e_Value :: string

definition recordToEntry :: "Record \<Rightarrow> Entry" where
  "recordToEntry rec =
     \<lparr>e_LSN = r_LSN rec, e_Op = r_Op rec, e_Key = string_of (r_Key rec), e_Value = string_of (r_Value rec)\<rparr>"

definition WAL_AppendPut :: "(io_op \<Rightarrow> bool) \<Rightarrow> AppendFileStorage \<Rightarrow> string \<Rightarrow> string \<Rightarrow> AppendFileStorage \<times> (wal_error + u64)" where
  "WAL_AppendPut fail s key value = Storage_Append fail s OpPut (bytes_of key) (bytes_of value)"

definition WAL_AppendDelete :: "(io_op \<Rightarrow> bool) \<Rightarrow> AppendFileStorage \<Rightarrow> string \<Rightarrow> AppendFileStorage \<times> (wal_error + u64)" where
  "WAL_AppendDelete fail s key = Storage_Append fail s OpDelete (bytes_of key) []"

text \<open>
  \<open>ReplayFunc\<close> with the callback of \<open>Replay\<close> that collects the entries. A segment whose file cannot
  be opened is an error.
\<close>

fun Replay_loop :: "(io_op \<Rightarrow> bool) \<Rightarrow> wal_files \<Rightarrow> (u64 \<times> string) list \<Rightarrow> Entry list \<Rightarrow> wal_error + Entry list" where
  "Replay_loop fail dir [] entries = Inr entries"
| "Replay_loop fail dir ((sid, path) # segments) entries =
     (if fail OpStat \<or> map_of dir (SegmentName sid) = None then Inl SegmentNotFound
      else if fail OpOpen then Inl IOError
      else Replay_loop fail dir segments
             (entries @ map recordToEntry (read_segment (file_content dir (SegmentName sid)))))"

definition WAL_Replay :: "(io_op \<Rightarrow> bool) \<Rightarrow> AppendFileStorage \<Rightarrow> wal_error + Entry list" where
  "WAL_Replay fail s =
     (case ListSegmentsInDir fail (walDir s) of
        Inl err \<Rightarrow> Inl err
      | Inr segments \<Rightarrow> Replay_loop fail (walDir s) segments [])"

section \<open>Records\<close>

definition rec_ok :: "Record \<Rightarrow> bool" where
  "rec_ok r \<longleftrightarrow> (r_Op r = OpPut \<or> r_Op r = OpDelete \<and> r_Value r = [])
     \<and> recordHeaderSize + length (r_Key r) + length (r_Value r) < 2 ^ 32"

definition rec_body :: "Record \<Rightarrow> byte list" where
  "rec_body r = le_enc 4 (recordHeaderSize + length (r_Key r) + length (r_Value r)) @ le_enc 8 (unat (r_LSN r))
     @ [r_Op r] @ le_enc 4 (length (r_Key r)) @ le_enc 4 (length (r_Value r)) @ r_Key r @ r_Value r"

definition rec_bytes :: "Record \<Rightarrow> byte list" where
  "rec_bytes r = le_enc 4 (unat (ChecksumIEEE (rec_body r))) @ rec_body r"

lemma op_distinct [simp]: "OpPut \<noteq> OpDelete" "OpDelete \<noteq> OpPut"
  by (simp_all add: OpPut_def OpDelete_def)

lemma EncodeRecord_ok:
  "rec_ok r \<Longrightarrow> EncodeRecord (r_Op r) (r_Key r) (r_Value r) (r_LSN r) = Inr (rec_bytes r)"
  by (auto simp: EncodeRecord_def rec_ok_def rec_bytes_def rec_body_def Let_def)

lemma length_rec_bytes [simp]:
  "length (rec_bytes r) = recordHeaderSize + length (r_Key r) + length (r_Value r)"
  by (simp add: rec_bytes_def rec_body_def recordHeaderSize_def)

lemma rec_slices:
  fixes r rest
  defines "b \<equiv> rec_bytes r @ rest"
  shows "slice 0 4 b = le_enc 4 (unat (ChecksumIEEE (rec_body r)))"
    and "slice 4 8 b = le_enc 4 (length (rec_bytes r))"
    and "slice 8 16 b = le_enc 8 (unat (r_LSN r))" and "b ! 16 = r_Op r"
    and "slice 17 21 b = le_enc 4 (length (r_Key r))" and "slice 21 25 b = le_enc 4 (length (r_Value r))"
    and "slice 25 (25 + length (r_Key r)) b = r_Key r"
    and "slice (25 + length (r_Key r)) (25 + length (r_Key r) + length (r_Value r)) b = r_Value r"
    and "slice 4 (length (rec_bytes r)) b = rec_body r"
proof -
  have b: "b = le_enc 4 (unat (ChecksumIEEE (rec_body r))) @ le_enc 4 (length (rec_bytes r)) @ le_enc 8 (unat (r_LSN r))
     @ [r_Op r] @ le_enc 4 (length (r_Key r)) @ le_enc 4 (length (r_Value r)) @ r_Key r @ r_Value r @ rest"
    by (simp add: b_def rec_bytes_def rec_body_def recordHeaderSize_def add.assoc)
  show "slice 0 4 b = le_enc 4 (unat (ChecksumIEEE (rec_body r)))"
    "slice 4 8 b = le_enc 4 (length (rec_bytes r))"
    "slice 8 16 b = le_enc 8 (unat (r_LSN r))" "b ! 16 = r_Op r"
    "slice 17 21 b = le_enc 4 (length (r_Key r))" "slice 21 25 b = le_enc 4 (length (r_Value r))"
    "slice 25 (25 + length (r_Key r)) b = r_Key r"
    "slice (25 + length (r_Key r)) (25 + length (r_Key r) + length (r_Value r)) b = r_Value r"
    unfolding b by (simp_all add: slice_def nth_append drop_Cons')
  show "slice 4 (length (rec_bytes r)) b = rec_body r"
    by (simp add: b_def slice_def rec_bytes_def)
qed

lemma DecodeRecord_bytes:
  assumes "rec_ok r"
  shows "DecodeRecord (rec_bytes r @ rest) = Inr r"
proof -
  have small: "length (rec_bytes r) < 256 ^ 4" "length (r_Key r) < 256 ^ 4" "length (r_Value r) < 256 ^ 4"
    using assms by (simp_all add: rec_ok_def)
  have crc: "unat (ChecksumIEEE bs) mod 256 ^ 4 = unat (ChecksumIEEE bs)" for bs
    using unsigned_less [of "ChecksumIEEE bs", where ?'a = nat] by simp
  note sl = rec_slices [of r "[]", simplified] rec_slices(2) [of r rest]
  have len: "le_val (slice 4 8 (rec_bytes r @ rest)) = length (rec_bytes r)"
    using small(1) by (simp add: sl(10) le_val_le_enc del: length_rec_bytes)
  have "slice 4 (length (rec_bytes r)) (rec_bytes r) = rec_body r"
    using rec_slices(9) [of r "[]"] by (simp only: append_Nil2)
  then have "unat (ChecksumIEEE (slice 4 (length (rec_bytes r)) (rec_bytes r))) = le_val (slice 0 4 (rec_bytes r))"
    unfolding sl(1) by (simp only: le_val_le_enc crc)
  moreover have "of_nat (le_val (slice 8 16 (rec_bytes r))) = r_LSN r"
    unfolding sl(3) by (simp only: le_val_le_enc unat_mod_word) simp
  moreover have "le_val (slice 17 21 (rec_bytes r)) = length (r_Key r)" "le_val (slice 21 25 (rec_bytes r)) = length (r_Value r)"
    unfolding sl(5,6) le_val_le_enc using small(2,3) by simp_all
  moreover have "r_Op r = OpPut \<or> r_Op r = OpDelete" using assms by (auto simp: rec_ok_def)
  ultimately show ?thesis
    unfolding DecodeRecord_def Let_def len
    using sl(4,7,8) by (auto simp: recordHeaderSize_def)
qed

lemma Next_bytes:
  assumes "rec_ok r"
  shows "fileSegmentReader_Next (rec_bytes r @ rest) = Inr (r, rest)"
proof -
  have "length (rec_bytes r) < 256 ^ 4" using assms by (simp add: rec_ok_def)
  moreover have "slice 4 8 (take 8 xs) = slice 4 8 xs" for xs :: "byte list"
    by (simp add: slice_def drop_take)
  ultimately have "le_val (slice 4 8 (take 8 (rec_bytes r @ rest))) = length (rec_bytes r)"
    by (simp only: rec_slices(2) le_val_le_enc mod_less)
  then show ?thesis
    using DecodeRecord_bytes [OF assms, of "[]"]
    by (simp add: fileSegmentReader_Next_def Let_def recordHeaderSize_def)
qed

text \<open>What decodes is exactly an encoding.\<close>

lemma take_slices:
  "25 \<le> n \<Longrightarrow> n = 25 + k + v \<Longrightarrow> n \<le> length b \<Longrightarrow>
     take n b = slice 0 4 b @ slice 4 8 b @ slice 8 16 b @ [b ! 16] @ slice 17 21 b @ slice 21 25 b
       @ slice 25 (25 + k) b @ slice (25 + k) (25 + k + v) b"
proof -
  assume n: "25 \<le> n" "n = 25 + k + v" "n \<le> length b"
  have cut: "take y b = take x b @ slice x y b" if "x \<le> y" for x y
    using that by (metis slice_def le_add_diff_inverse take_add)
  have "take 17 b = take 16 b @ [b ! 16]" using take_Suc_conv_app_nth [of 16 b] n by simp
  then have "take 25 b = slice 0 4 b @ slice 4 8 b @ slice 8 16 b @ [b ! 16] @ slice 17 21 b @ slice 21 25 b"
    using cut [of 0 4] cut [of 4 8] cut [of 8 16] cut [of 17 21] cut [of 21 25] by simp
  then show ?thesis using cut [of 25 "25 + k"] cut [of "25 + k" "25 + k + v"] n by simp
qed

lemma DecodeRecord_sound:
  assumes "DecodeRecord buf = Inr r"
  shows "take (length (rec_bytes r)) buf = rec_bytes r \<and> length (rec_bytes r) \<le> length buf"
    and "r_Op r = OpPut \<or> r_Op r = OpDelete"
proof -
  define n where "n = le_val (slice 4 8 buf)"
  define k where "k = le_val (slice 17 21 (take n buf))"
  define v where "v = le_val (slice 21 25 (take n buf))"
  define crc where "crc = unat (ChecksumIEEE (slice 4 n (take n buf)))"
  have "DecodeRecord buf =
     (if length buf < 25 then Inl RecordTooShort else if n < 25 then Inl InvalidRecordLength
      else if length buf < n then Inl BufferShort
      else if crc \<noteq> le_val (slice 0 4 (take n buf)) then Inl CrcMismatch
      else if take n buf ! 16 \<noteq> OpPut \<and> take n buf ! 16 \<noteq> OpDelete then Inl (InvalidOp (take n buf ! 16))
      else if 25 + k + v \<noteq> n then Inl RecordLengthMismatch
      else Inr \<lparr>r_LSN = of_nat (le_val (slice 8 16 (take n buf))), r_Op = take n buf ! 16,
        r_Key = slice 25 (25 + k) (take n buf), r_Value = slice (25 + k) (25 + k + v) (take n buf)\<rparr>)"
    by (simp only: DecodeRecord_def Let_def recordHeaderSize_def n_def k_def v_def crc_def)
  with assms have buf: "25 \<le> length buf" and n: "25 \<le> n" "n \<le> length buf"
    and c: "crc = le_val (slice 0 4 (take n buf))" and o: "take n buf ! 16 = OpPut \<or> take n buf ! 16 = OpDelete"
    and len_eq: "25 + k + v = n"
    and r: "r = \<lparr>r_LSN = of_nat (le_val (slice 8 16 (take n buf))), r_Op = take n buf ! 16,
        r_Key = slice 25 (25 + k) (take n buf), r_Value = slice (25 + k) (25 + k + v) (take n buf)\<rparr>"
    by (simp_all split: if_split_asm)
  have tk: "slice a b (take n buf) = slice a b buf" if "b \<le> n" for a b
    using that by (cases "a \<le> b") (simp_all add: slice_def drop_take min_def)
  have nth: "take n buf ! 16 = buf ! 16" using n by simp
  have kd: "k = le_val (slice 17 21 buf)" and vd: "v = le_val (slice 21 25 buf)"
    unfolding k_def v_def using n by (simp_all add: tk)
  have d: "25 + k + v = n" "unat (ChecksumIEEE (slice 4 n buf)) = le_val (slice 0 4 buf)"
    "r = \<lparr>r_LSN = of_nat (le_val (slice 8 16 buf)), r_Op = buf ! 16,
      r_Key = slice 25 (25 + k) (take n buf), r_Value = slice (25 + k) (25 + k + v) (take n buf)\<rparr>"
    "buf ! 16 = OpPut \<or> buf ! 16 = OpDelete"
    using len_eq c o r n by (simp_all add: crc_def tk nth)
  then show "r_Op r = OpPut \<or> r_Op r = OpDelete" by simp
  have kv: "slice 25 (25 + k) (take n buf) = slice 25 (25 + k) buf"
    "slice (25 + k) (25 + k + v) (take n buf) = slice (25 + k) (25 + k + v) buf"
    using d(1) by (intro tk, linarith)+
  have len: "length (slice a b buf) = b - a" if "b \<le> length buf" for a b using that by (simp add: slice_def)
  have kl: "length (r_Key r) = k" "length (r_Value r) = v" using d(1,3) n kv by (simp_all add: len)
  have lb: "length (rec_bytes r) = n" using kl d(1) by (simp add: recordHeaderSize_def)
  have lsn: "le_enc 8 (unat (r_LSN r)) = slice 8 16 buf"
  proof -
    have "le_val (slice 8 16 buf) < 2 ^ 64" using le_val_bound [of "slice 8 16 buf"] len [of 16 8] buf by simp
    then have "unat (r_LSN r) = le_val (slice 8 16 buf)" using d(3) by (simp add: unat_of_nat)
    then show ?thesis using le_enc_le_val [of "slice 8 16 buf" 8] len [of 16 8] buf by simp
  qed
  have enc4: "le_enc 4 (le_val (slice a (a + 4) buf)) = slice a (a + 4) buf" if "a + 4 \<le> 25" for a
    using that buf by (intro le_enc_le_val) (simp add: len)
  have tb: "take n buf = slice 0 4 buf @ slice 4 8 buf @ slice 8 16 buf @ [buf ! 16] @ slice 17 21 buf
      @ slice 21 25 buf @ slice 25 (25 + k) buf @ slice (25 + k) (25 + k + v) buf"
    by (rule take_slices [OF n(1) d(1) [symmetric] n(2)])
  have body: "rec_body r = slice 4 8 buf @ slice 8 16 buf @ [buf ! 16] @ slice 17 21 buf @ slice 21 25 buf
      @ slice 25 (25 + k) buf @ slice (25 + k) (25 + k + v) buf"
  proof -
    have "le_enc 4 n = slice 4 8 buf" "le_enc 4 k = slice 17 21 buf" "le_enc 4 v = slice 21 25 buf"
      using enc4 [of 4] enc4 [of 17] enc4 [of 21] by (simp_all add: n_def kd vd)
    then show ?thesis
      unfolding rec_body_def lsn kl recordHeaderSize_def using d(1,3) kv by simp
  qed
  have "slice 4 n buf = drop 4 (take n buf)" by (simp add: slice_def drop_take)
  also have "\<dots> = rec_body r" unfolding tb body using len [of 4 0] buf by simp
  finally have "le_enc 4 (unat (ChecksumIEEE (rec_body r))) = slice 0 4 buf"
    using d(2) enc4 [of 0] by simp
  then have "rec_bytes r = take n buf" unfolding rec_bytes_def tb body by simp
  then show "take (length (rec_bytes r)) buf = rec_bytes r \<and> length (rec_bytes r) \<le> length buf"
    using lb n(2) by simp
qed

section \<open>Reading a segment\<close>

abbreviation recs_bytes :: "Record list \<Rightarrow> byte list" where
  "recs_bytes rs \<equiv> concat (map rec_bytes rs)"

lemma read_segment_append:
  "\<forall>r\<in>set rs. rec_ok r \<Longrightarrow> read_segment (recs_bytes rs @ tail) = rs @ read_segment tail"
proof (induction rs)
  case (Cons r rs)
  then show ?case by (subst read_segment.simps) (simp add: Next_bytes)
qed simp

lemma read_segment_Nil [simp]: "read_segment [] = []"
  by (subst read_segment.simps) (simp add: fileSegmentReader_Next_def)

lemma read_segment_recs: "\<forall>r\<in>set rs. rec_ok r \<Longrightarrow> read_segment (recs_bytes rs) = rs"
  using read_segment_append [of rs "[]"] by simp

lemma torn_Next:
  assumes "rec_ok r" and "8 \<le> n" and "length junk + n < length (rec_bytes r)"
  shows "fileSegmentReader_Next (take n (rec_bytes r) @ junk) = Inl EOF"
proof -
  have n: "n < length (rec_bytes r)" using assms(3) by simp
  have "slice 4 8 (take 8 (take n (rec_bytes r) @ junk)) = slice 4 8 (rec_bytes r)"
    using assms(2) n by (simp add: slice_def drop_take min_def)
  moreover have "length (rec_bytes r) < 256 ^ 4" using assms(1) by (simp add: rec_ok_def)
  ultimately have "le_val (slice 4 8 (take 8 (take n (rec_bytes r) @ junk))) = length (rec_bytes r)"
    using rec_slices(2) [of r "[]"] by (simp only: append_Nil2 le_val_le_enc mod_less)
  then show ?thesis
    using assms(2,3) n by (simp add: fileSegmentReader_Next_def Let_def)
qed

text \<open>A record that was not written to its end is not delivered, and neither is what follows it.\<close>

lemma read_torn:
  assumes "\<forall>r\<in>set rs. rec_ok r" and "rec_ok r" and "n < length (rec_bytes r)"
  shows "read_segment (recs_bytes rs @ take n (rec_bytes r)) = rs"
proof -
  have "fileSegmentReader_Next (take n (rec_bytes r)) = Inl EOF"
  proof (cases "8 \<le> n")
    case True
    then show ?thesis using torn_Next [OF assms(2), of n "[]"] assms(3) by simp
  qed (use assms(3) in \<open>simp add: fileSegmentReader_Next_def\<close>)
  then have "read_segment (take n (rec_bytes r)) = []" by (subst read_segment.simps) simp
  then show ?thesis using read_segment_append [OF assms(1)] by simp
qed

text \<open>Cutting a segment anywhere leaves the records that lie before the cut.\<close>

lemma read_cut:
  assumes "\<forall>r\<in>set rs. rec_ok r"
  shows "\<exists>m. read_segment (take n (recs_bytes rs)) = take m rs
    \<and> (\<forall>j\<le>length rs. length (recs_bytes (take j rs)) \<le> n \<longrightarrow> j \<le> m)"
  using assms
proof (induction rs arbitrary: n)
  case Nil
  then show ?case by simp
next
  case (Cons r rs)
  show ?case
  proof (cases "length (rec_bytes r) \<le> n")
    case True
    obtain m where m: "read_segment (take (n - length (rec_bytes r)) (recs_bytes rs)) = take m rs"
      "\<forall>j\<le>length rs. length (recs_bytes (take j rs)) \<le> n - length (rec_bytes r) \<longrightarrow> j \<le> m"
      using Cons by (metis list.set_intros(2))
    have "read_segment (take n (recs_bytes (r # rs))) = take (Suc m) (r # rs)"
      using read_segment_append [of "[r]" "take (n - length (rec_bytes r)) (recs_bytes rs)"] True Cons.prems m(1)
      by (simp del: length_rec_bytes)
    moreover have "\<forall>j\<le>length (r # rs). length (recs_bytes (take j (r # rs))) \<le> n \<longrightarrow> j \<le> Suc m"
    proof (intro allI impI)
      fix j
      assume "j \<le> length (r # rs)" "length (recs_bytes (take j (r # rs))) \<le> n"
      then show "j \<le> Suc m" using m(2) by (cases j) (auto simp del: length_rec_bytes)
    qed
    ultimately show ?thesis by blast
  next
    case False
    then have "read_segment (take n (recs_bytes (r # rs))) = []"
      using read_torn [of "[]" r n] Cons.prems by simp
    moreover have "\<forall>j\<le>length (r # rs). length (recs_bytes (take j (r # rs))) \<le> n \<longrightarrow> j \<le> 0"
    proof (intro allI impI)
      fix j
      assume "length (recs_bytes (take j (r # rs))) \<le> n"
      then show "j \<le> 0" using False by (cases j) auto
    qed
    ultimately show ?thesis by (intro exI [of _ 0]) simp
  qed
qed

section \<open>Segment names\<close>

abbreviation max_segments :: nat where
  "max_segments \<equiv> 1000000000"

lemma length_FormatUint10: "n < 10 ^ k \<Longrightarrow> 0 < k \<Longrightarrow> length (FormatUint10 n) \<le> k"
proof (induction n arbitrary: k rule: FormatUint10.induct)
  case (1 n)
  show ?case
  proof (cases "n < 10")
    case True
    then show ?thesis using "1.prems" by (simp add: FormatUint10.simps [of n])
  next
    case False
    then obtain k' where k: "k = Suc k'" "0 < k'" using "1.prems" by (cases k; cases "k - 1") auto
    then have "n div 10 < 10 ^ k'" using "1.prems"(1) by (simp add: less_mult_imp_div_less mult.commute)
    then show ?thesis using "1.IH" [OF False _ k(2)] False k by (simp add: FormatUint10.simps [of n])
  qed
qed

lemma parse_SegmentName:
  assumes "unat sid < max_segments"
  shows "parseSegmentID (SegmentName sid) = Some sid"
proof -
  let ?s = "FormatUint10 (unat sid)"
  let ?stem = "replicate (9 - length ?s) (CHR ''0'') @ ?s"
  have len: "length ?s \<le> 9" using length_FormatUint10 [of "unat sid" 9] assms by simp
  have name: "SegmentName sid = ?stem @ ''.log''" by (simp add: SegmentName_def Let_def)
  have stem: "length ?stem = 9" "?stem \<noteq> []" using len FormatUint10_digits [of "unat sid"] by auto
  have "is_digit (CHR ''0'')" by (simp add: is_digit_def)
  then have dig: "list_all is_digit ?stem" using FormatUint10_digits [of "unat sid"] by (auto simp: list_all_iff)
  have "ParseUint10 ?stem = Some sid"
    unfolding ParseUint10_def dec_val_zeros dec_val_FormatUint10 using dig stem(2) unat_u64_bound [of sid] by simp
  then show ?thesis
    using dig stem unfolding parseSegmentID_def HasSuffix_def name by (simp add: Let_def)
qed

lemma SegmentName_inject:
  "unat a < max_segments \<Longrightarrow> unat b < max_segments \<Longrightarrow> SegmentName a = SegmentName b \<longleftrightarrow> a = b"
  using parse_SegmentName by (metis option.inject)

section \<open>The state of the log\<close>

abbreviation no_fail :: "io_op \<Rightarrow> bool" where
  "no_fail \<equiv> \<lambda>_. False"

text \<open>A directory that holds exactly the segments \<open>ids\<close>.\<close>

definition dir_ids :: "wal_files \<Rightarrow> u64 list \<Rightarrow> bool" where
  "dir_ids dir ids \<longleftrightarrow> map fst dir = map SegmentName ids \<and> distinct ids \<and> (\<forall>i\<in>set ids. unat i < max_segments)"

lemma list_segments:
  assumes "dir_ids dir ids"
  shows "ListSegmentsInDir no_fail dir = Inr (map (\<lambda>i. (i, SegmentName i)) (sort ids))"
proof -
  have "List.map_filter (\<lambda>(name, _). map_option (\<lambda>sid. (sid, name)) (parseSegmentID name)) d
      = map (\<lambda>i. (i, SegmentName i)) is"
    if "map fst d = map SegmentName is" "\<forall>i\<in>set is. unat i < max_segments" for d :: wal_files and "is"
    using that by (induction d arbitrary: "is") (auto simp: List.map_filter_simps parse_SegmentName Cons_eq_map_conv)
  with assms have "ListSegmentsInDir no_fail dir = Inr (sort_key fst (map (\<lambda>i. (i, SegmentName i)) ids))"
    by (simp add: ListSegmentsInDir_def dir_ids_def)
  moreover have "sort_key fst (map (\<lambda>i. (i, SegmentName i)) ids) = map (\<lambda>i. (i, SegmentName i)) (sort ids)"
    by (rule sort_key_inj_key_eq) (auto simp: inj_on_def o_def)
  ultimately show ?thesis by simp
qed

text \<open>
  The log on disk: segment \<open>i\<close> holds the records \<open>recs i\<close>. Everything but a tail of the active segment
  has been synced, that tail lies above the durable LSN, and the other segments below it.
\<close>

definition log_of :: "u64 list \<Rightarrow> (u64 \<Rightarrow> Record list) \<Rightarrow> Record list" where
  "log_of ids recs = concat (map recs (sort ids))"

definition wal_inv :: "AppendFileStorage \<Rightarrow> u64 list \<Rightarrow> (u64 \<Rightarrow> Record list) \<Rightarrow> bool" where
  "wal_inv s ids recs \<longleftrightarrow> dir_ids (walDir s) ids \<and> segmentID s \<in> set ids \<and> (\<forall>i\<in>set ids. i \<le> segmentID s)
     \<and> s_file s = Some (SegmentName (segmentID s)) \<and> writeBuffer s = []
     \<and> (\<forall>i\<in>set ids. map_of (walDir s) (SegmentName i) = Some (recs_bytes (recs i)) \<and> (\<forall>r\<in>set (recs i). rec_ok r))
     \<and> (\<forall>i\<in>set ids. i \<noteq> segmentID s \<longrightarrow> file_content (synced s) (SegmentName i) = recs_bytes (recs i))
     \<and> (\<exists>n. file_content (synced s) (SegmentName (segmentID s)) = recs_bytes (take n (recs (segmentID s)))
            \<and> (\<forall>r\<in>set (drop n (recs (segmentID s))). durableLSN s < r_LSN r))
     \<and> (\<forall>p. p \<notin> SegmentName ` set ids \<longrightarrow> file_content (synced s) p = [])
     \<and> (\<forall>i\<in>set ids. i \<noteq> segmentID s \<longrightarrow> (\<forall>r\<in>set (recs i). r_LSN r \<le> durableLSN s))
     \<and> durableLSN s \<le> appendedLSN s \<and> nextLSN s = appendedLSN s + 1
     \<and> (\<forall>r\<in>set (log_of ids recs). r_LSN r \<le> appendedLSN s)"

lemma set_log_of: "set (log_of ids recs) = (\<Union>i\<in>set ids. set (recs i))"
  by (simp add: log_of_def)

lemma Replay_loop_eq:
  assumes "\<forall>i\<in>set is. map_of dir (SegmentName i) \<noteq> None"
  shows "Replay_loop no_fail dir (map (\<lambda>i. (i, SegmentName i)) is) es
    = Inr (es @ map recordToEntry (concat (map (\<lambda>i. read_segment (file_content dir (SegmentName i))) is)))"
  using assms by (induction "is" arbitrary: es) auto

lemma Replay_log:
  assumes "wal_inv s ids recs"
  shows "WAL_Replay no_fail s = Inr (map recordToEntry (log_of ids recs))"
proof -
  have "read_segment (file_content (walDir s) (SegmentName i)) = recs i" if "i \<in> set ids" for i
    using assms that read_segment_recs by (simp add: wal_inv_def file_content_def)
  then have "concat (map (\<lambda>i. read_segment (file_content (walDir s) (SegmentName i))) (sort ids)) = log_of ids recs"
    by (auto simp: log_of_def intro!: arg_cong [where f = concat])
  moreover have "dir_ids (walDir s) ids" "\<forall>i\<in>set (sort ids). map_of (walDir s) (SegmentName i) \<noteq> None"
    using assms by (simp_all add: wal_inv_def)
  ultimately show ?thesis
    using Replay_loop_eq [of "sort ids" "walDir s" "[]"] by (simp add: WAL_Replay_def list_segments)
qed

lemma sort_active:
  fixes ids :: "u64 list"
  assumes "distinct ids" and "a \<in> set ids" and "\<forall>i\<in>set ids. i \<le> a"
  shows "\<exists>pre. sort ids = pre @ [a] \<and> a \<notin> set pre \<and> insert a (set pre) = set ids"
proof -
  obtain pre x where px: "sort ids = pre @ [x]" by (metis assms(2) empty_iff empty_set rev_exhaust set_sort)
  have set: "set (pre @ [x]) = set ids" by (metis px set_sort)
  have d: "distinct (pre @ [x])" by (metis px assms(1) distinct_sort)
  have "sorted (pre @ [x])" by (metis px sorted_sort)
  then have "\<forall>i\<in>set ids. i \<le> x" using set by (auto simp: sorted_append)
  then have "x = a" using assms(2,3) set by (intro antisym) auto
  then show ?thesis using px set d by auto
qed

section \<open>Appending\<close>

lemma file_content_update [simp]:
  "file_content (AList.update p c d) q = (if q = p then c else file_content d q)"
  by (simp add: file_content_def update_conv')

lemma dir_ids_update:
  assumes "dir_ids dir ids" and "i \<in> set ids"
  shows "dir_ids (AList.update (SegmentName i) c dir) ids"
proof -
  have "SegmentName i \<in> fst ` set dir"
    using assms unfolding dir_ids_def by (metis image_eqI set_map)
  then have "map fst (AList.update (SegmentName i) c dir) = map fst dir"
    by (induction dir) auto
  then show ?thesis using assms(1) by (simp add: dir_ids_def)
qed

lemma dir_ids_new:
  assumes "dir_ids dir ids" and "i \<notin> set ids" and "unat i < max_segments"
  shows "map_of dir (SegmentName i) = None" and "dir_ids (AList.update (SegmentName i) c dir) (ids @ [i])"
proof -
  have "SegmentName i \<notin> SegmentName ` set ids"
    using assms SegmentName_inject by (auto simp: dir_ids_def)
  then have n: "SegmentName i \<notin> fst ` set dir"
    using assms(1) unfolding dir_ids_def by (metis set_map)
  then show "map_of dir (SegmentName i) = None" by (simp add: map_of_eq_None_iff)
  show "dir_ids (AList.update (SegmentName i) c dir) (ids @ [i])"
    using update_fresh [OF n, of c] assms by (simp add: dir_ids_def)
qed

text \<open>The storage after the bytes of one record have reached the active file.\<close>

definition appended :: "AppendFileStorage \<Rightarrow> Record \<Rightarrow> AppendFileStorage" where
  "appended s r = s\<lparr>nextLSN := nextLSN s + 1, appendedLSN := r_LSN r,
     walDir := AList.update (SegmentName (segmentID s))
       (file_content (walDir s) (SegmentName (segmentID s)) @ rec_bytes r) (walDir s)\<rparr>"

lemma rotate_eq:
  assumes "s_file t = Some p" and "writeBuffer t = []"
  shows "rotateIfNeededLocked no_fail t =
    (if int (length (file_content (walDir t) p)) < segmentSize t then (t, None)
     else (let t' = (fsync t p)\<lparr>durableLSN := appendedLSN t, s_file := None\<rparr>
           in case NextSegmentIDInDir no_fail (walDir t) of
                Inl err \<Rightarrow> (t', Some err)
              | Inr sid \<Rightarrow> openNewSegment no_fail t' sid))"
  using assms by (simp add: rotateIfNeededLocked_def flushLocked_def Let_def fsync_def)

lemma Append_rotate:
  assumes "s_file s = Some (SegmentName (segmentID s))" and "writeBuffer s = []"
    and "rec_ok r" and "r_LSN r = nextLSN s"
  shows "Storage_Append no_fail s (r_Op r) (r_Key r) (r_Value r) =
    (case rotateIfNeededLocked no_fail (appended s r) of
       (s', Some err) \<Rightarrow> (s', Inl err) | (s', None) \<Rightarrow> (s', Inr (r_LSN r)))"
proof -
  have e: "EncodeRecord (r_Op r) (r_Key r) (r_Value r) (nextLSN s) = Inr (rec_bytes r)"
    using EncodeRecord_ok [OF assms(3)] assms(4) by simp
  have ne: "rec_bytes r \<noteq> []" by (simp add: rec_bytes_def rec_body_def)
  define q where "q = s\<lparr>nextLSN := nextLSN s + 1, writeBuffer := rec_bytes r, appendedLSN := nextLSN s\<rparr>"
  have f: "flushLocked no_fail q = (appended s r, None)"
    using assms ne by (simp add: flushLocked_def appended_def q_def recordHeaderSize_def)
  have f': "flushLocked no_fail (appended s r) = (appended s r, None)"
    using assms by (simp add: flushLocked_def appended_def)
  have files: "s_file q = Some (SegmentName (segmentID s))" "s_file (appended s r) = Some (SegmentName (segmentID s))"
    using assms by (simp_all add: q_def appended_def)
  have rot: "rotateIfNeededLocked no_fail q = rotateIfNeededLocked no_fail (appended s r)"
    unfolding rotateIfNeededLocked_def files f f' by simp
  define lsn where "lsn = nextLSN s"
  have "Storage_Append no_fail s (r_Op r) (r_Key r) (r_Value r) =
      (case (if int (length (writeBuffer q)) \<ge> writeBufferSize q then flushLocked no_fail q else (q, None)) of
         (s', Some err) \<Rightarrow> (s', Inl err)
       | (s', None) \<Rightarrow> (case rotateIfNeededLocked no_fail s' of
             (s', Some err) \<Rightarrow> (s', Inl err) | (s', None) \<Rightarrow> (s', Inr lsn)))"
    unfolding lsn_def q_def Storage_Append_def Let_def by (simp add: e assms(2))
  then show ?thesis unfolding lsn_def assms(4) by (simp add: f rot)
qed

lemma log_active:
  assumes "wal_inv s ids recs"
  shows "\<exists>pre. (\<forall>recs. log_of ids recs = concat (map recs pre) @ recs (segmentID s))
    \<and> segmentID s \<notin> set pre \<and> insert (segmentID s) (set pre) = set ids"
proof -
  have "distinct ids" "segmentID s \<in> set ids" "\<forall>i\<in>set ids. i \<le> segmentID s"
    using assms by (auto simp: wal_inv_def dir_ids_def)
  from sort_active [OF this] show ?thesis by (auto simp: log_of_def)
qed

lemma appended_inv:
  assumes inv: "wal_inv s ids recs" and r: "rec_ok r" "r_LSN r = nextLSN s" and lsn: "appendedLSN s \<noteq> -1"
  defines "recs' \<equiv> recs(segmentID s := recs (segmentID s) @ [r])"
  shows "wal_inv (appended s r) ids recs'" and "log_of ids recs' = log_of ids recs @ [r]"
proof -
  let ?a = "segmentID s"
  obtain pre where pre: "\<And>recs. log_of ids recs = concat (map recs pre) @ recs ?a" "?a \<notin> set pre" "insert ?a (set pre) = set ids"
    using log_active [OF inv] by blast
  have "map recs' pre = map recs pre" using pre(2) by (auto simp: recs'_def)
  moreover have "recs' ?a = recs ?a @ [r]" by (simp add: recs'_def)
  ultimately show log: "log_of ids recs' = log_of ids recs @ [r]" unfolding pre(1) by (simp only: append_assoc)
  have d: "dir_ids (walDir s) ids" and a: "?a \<in> set ids" and ids: "\<forall>i\<in>set ids. unat i < max_segments"
    using inv by (auto simp: wal_inv_def dir_ids_def)
  have next_lsn: "nextLSN s = appendedLSN s + 1" "durableLSN s \<le> appendedLSN s" using inv by (auto simp: wal_inv_def)
  then have lt: "appendedLSN s < r_LSN r" using r(2) u64_less_inc [OF lsn] by simp
  obtain n where n: "file_content (synced s) (SegmentName ?a) = recs_bytes (take n (recs ?a))"
    "\<forall>r\<in>set (drop n (recs ?a)). durableLSN s < r_LSN r" using inv by (auto simp: wal_inv_def)
  let ?n = "min n (length (recs ?a))"
  have n': "recs_bytes (take n (recs ?a)) = recs_bytes (take ?n (recs' ?a))"
    "\<forall>r\<in>set (drop ?n (recs' ?a)). durableLSN s < r_LSN r"
    using n(2) lt next_lsn(2) by (auto simp: recs'_def min_def)
  have files: "map_of (walDir (appended s r)) (SegmentName i) = Some (recs_bytes (recs' i))
      \<and> (\<forall>r\<in>set (recs' i). rec_ok r)" if "i \<in> set ids" for i
    using inv r(1) that a ids SegmentName_inject [of i ?a]
    by (auto simp: wal_inv_def appended_def recs'_def update_conv' file_content_def)
  have rest: "segmentID (appended s r) = ?a" "s_file (appended s r) = s_file s" "writeBuffer (appended s r) = writeBuffer s"
    "synced (appended s r) = synced s" "durableLSN (appended s r) = durableLSN s" "appendedLSN (appended s r) = r_LSN r"
    "nextLSN (appended s r) = r_LSN r + 1" "dir_ids (walDir (appended s r)) ids"
    using dir_ids_update [OF d a] r(2) by (simp_all add: appended_def)
  have "\<forall>x\<in>set (log_of ids recs'). r_LSN x \<le> r_LSN r"
    using inv lt log by (auto simp: wal_inv_def intro: order_trans less_imp_le)
  then show "wal_inv (appended s r) ids recs'"
    unfolding wal_inv_def rest
  proof (intro conjI)
    show "\<exists>n. file_content (synced s) (SegmentName ?a) = recs_bytes (take n (recs' ?a))
        \<and> (\<forall>r\<in>set (drop n (recs' ?a)). durableLSN s < r_LSN r)"
      using n(1) n' by metis
    show "dir_ids (walDir (appended s r)) ids" by (rule rest(8))
    show "\<forall>i\<in>set ids. i \<noteq> ?a \<longrightarrow> file_content (synced s) (SegmentName i) = recs_bytes (recs' i)"
      using inv by (simp add: wal_inv_def recs'_def)
    show "\<forall>i\<in>set ids. i \<noteq> ?a \<longrightarrow> (\<forall>r\<in>set (recs' i). r_LSN r \<le> durableLSN s)"
      using inv by (simp add: wal_inv_def recs'_def)
    show "durableLSN s \<le> r_LSN r" using lt next_lsn(2) by simp
  qed (use inv files in \<open>auto simp: wal_inv_def\<close>)
qed

lemma sort_snoc_max:
  fixes ids :: "u64 list"
  assumes "distinct (ids @ [x])" and "\<forall>i\<in>set ids. i < x"
  shows "sort (ids @ [x]) = sort ids @ [x]"
  using assms by (intro sort_key_inj_key_eq) (auto simp: sorted_append less_imp_le)

lemma rotated_inv:
  assumes inv: "wal_inv s ids recs" and a: "unat (segmentID s) + 1 < max_segments"
  defines "t \<equiv> (fsync s (SegmentName (segmentID s)))\<lparr>durableLSN := appendedLSN s, s_file := None\<rparr>"
  shows "NextSegmentIDInDir no_fail (walDir s) = Inr (segmentID s + 1)"
    and "wal_inv (fst (openNewSegment no_fail t (segmentID s + 1))) (ids @ [segmentID s + 1]) (recs(segmentID s + 1 := []))"
    and "log_of (ids @ [segmentID s + 1]) (recs(segmentID s + 1 := [])) = log_of ids recs"
proof -
  let ?a = "segmentID s" and ?b = "segmentID s + 1"
  have d: "dir_ids (walDir s) ids" and mem: "?a \<in> set ids" and max: "\<forall>i\<in>set ids. i \<le> ?a"
    and small: "\<forall>i\<in>set ids. unat i < max_segments" using inv by (auto simp: wal_inv_def dir_ids_def)
  have "?a \<noteq> -1" using a by (auto simp: unsigned_minus_1_eq_mask mask_eq_exp_minus_1)
  then have lt: "?a < ?b" and ub: "unat ?b = unat ?a + 1" by (simp_all add: u64_less_inc unat_u64_inc)
  have less: "\<forall>i\<in>set ids. i < ?b" using max lt by (auto intro: le_less_trans)
  then have new: "?b \<notin> set ids" by auto
  obtain pre where pre: "sort ids = pre @ [?a]"
    using sort_active [OF _ mem max] d by (auto simp: dir_ids_def)
  then show "NextSegmentIDInDir no_fail (walDir s) = Inr ?b"
    by (simp add: NextSegmentIDInDir_def list_segments [OF d])
  have "distinct (ids @ [?b])" using d new by (simp add: dir_ids_def)
  then have srt: "sort (ids @ [?b]) = sort ids @ [?b]" using less by (rule sort_snoc_max)
  have same: "map (recs(?b := [])) (sort ids) = map recs (sort ids)" using new by (auto simp: map_eq_conv)
  show log: "log_of (ids @ [?b]) (recs(?b := [])) = log_of ids recs"
    unfolding log_of_def srt map_append concat_append same by simp
  note nd = dir_ids_new [OF d new, unfolded ub, OF a]
  have nm: "SegmentName i \<noteq> SegmentName ?b" if "i \<in> set ids" for i
    using SegmentName_inject [of i ?b] small that a ub new by auto
  let ?s = "fst (openNewSegment no_fail t ?b)"
  have f: "walDir ?s = AList.update (SegmentName ?b) [] (walDir s)" "segmentID ?s = ?b" "s_file ?s = Some (SegmentName ?b)"
    "writeBuffer ?s = []" "durableLSN ?s = appendedLSN s" "appendedLSN ?s = appendedLSN s" "nextLSN ?s = nextLSN s"
    "synced ?s = AList.update (SegmentName ?a) (file_content (walDir s) (SegmentName ?a)) (synced s)"
    using nd(1) by (simp_all add: openNewSegment_def openSegment_def t_def fsync_def)
  have "SegmentName ?b \<notin> SegmentName ` set ids" using nm by (metis image_iff)
  then have syn: "file_content (synced ?s) (SegmentName ?b) = []"
    unfolding f using inv nm [OF mem] by (auto simp: wal_inv_def)
  have out: "file_content (synced ?s) p = []" if "p \<notin> SegmentName ` set (ids @ [?b])" for p
    unfolding f using inv that mem by (auto simp: wal_inv_def)
  have files: "map_of (walDir ?s) (SegmentName i) = Some (recs_bytes ((recs(?b := [])) i))
      \<and> (\<forall>r\<in>set ((recs(?b := [])) i). rec_ok r)" if "i \<in> set (ids @ [?b])" for i
    using that inv nm new unfolding f by (auto simp: wal_inv_def update_conv')
  have sync1: "file_content (synced ?s) (SegmentName i) = recs_bytes ((recs(?b := [])) i)"
    if "i \<in> set (ids @ [?b])" "i \<noteq> ?b" for i
  proof (cases "i = ?a")
    case True
    then show ?thesis using inv mem lt unfolding f by (auto simp: wal_inv_def file_content_def update_conv')
  next
    case False
    then have "SegmentName i \<noteq> SegmentName ?a" using SegmentName_inject [of i ?a] that small a by auto
    then show ?thesis using inv that False unfolding f by (auto simp: wal_inv_def)
  qed
  show "wal_inv ?s (ids @ [?b]) (recs(?b := []))"
    unfolding wal_inv_def f(2-7) log
  proof (intro conjI)
    show "dir_ids (walDir ?s) (ids @ [?b])" unfolding f(1) by (rule nd(2))
    show "\<exists>n. file_content (synced ?s) (SegmentName ?b) = recs_bytes (take n ((recs(?b := [])) ?b))
        \<and> (\<forall>r\<in>set (drop n ((recs(?b := [])) ?b)). appendedLSN s < r_LSN r)"
      by (simp add: syn)
    show "\<forall>i\<in>set (ids @ [?b]). i \<noteq> ?b \<longrightarrow> (\<forall>r\<in>set ((recs(?b := [])) i). r_LSN r \<le> appendedLSN s)"
      using inv by (simp add: wal_inv_def set_log_of)
  qed (use files sync1 out less inv in \<open>auto simp: wal_inv_def less_imp_le\<close>)
qed

lemma Append_inv:
  assumes inv: "wal_inv s ids recs" and r: "rec_ok r" "r_LSN r = nextLSN s"
    and lsn: "appendedLSN s \<noteq> -1" and room: "unat (segmentID s) + 1 < max_segments"
  shows "\<exists>s' ids' recs'. Storage_Append no_fail s (r_Op r) (r_Key r) (r_Value r) = (s', Inr (r_LSN r))
    \<and> wal_inv s' ids' recs' \<and> log_of ids' recs' = log_of ids recs @ [r] \<and> appendedLSN s' = r_LSN r
    \<and> unat (segmentID s') \<le> unat (segmentID s) + 1 \<and> durableLSN s \<le> durableLSN s'"
proof -
  let ?recs = "recs(segmentID s := recs (segmentID s) @ [r])" and ?t = "appended s r"
  note inv' = appended_inv [OF inv r lsn]
  have s: "s_file s = Some (SegmentName (segmentID s))" "writeBuffer s = []" using inv by (auto simp: wal_inv_def)
  have t: "s_file ?t = Some (SegmentName (segmentID s))" "writeBuffer ?t = []" "segmentID ?t = segmentID s"
    "appendedLSN ?t = r_LSN r" "segmentSize ?t = segmentSize s" using s by (simp_all add: appended_def)
  note app = Append_rotate [OF s r] and rot = rotate_eq [OF t(1,2)]
  show ?thesis
  proof (cases "int (length (file_content (walDir ?t) (SegmentName (segmentID s)))) < segmentSize s")
    case True
    then have "Storage_Append no_fail s (r_Op r) (r_Key r) (r_Value r) = (?t, Inr (r_LSN r))"
      unfolding app rot t(5) by simp
    moreover have "durableLSN ?t = durableLSN s" by (simp add: appended_def)
    ultimately show ?thesis using inv' t(3,4) by (metis le_add1 order_refl)
  next
    case False
    have "unat (segmentID ?t) + 1 < max_segments" using room t(3) by simp
    note ro = rotated_inv [OF inv'(1) this, unfolded t(3,4)]
    let ?u = "openNewSegment no_fail ((fsync ?t (SegmentName (segmentID s)))\<lparr>durableLSN := r_LSN r, s_file := None\<rparr>) (segmentID s + 1)"
    have u: "snd ?u = None" "appendedLSN (fst ?u) = r_LSN r" "segmentID (fst ?u) = segmentID s + 1"
      "durableLSN (fst ?u) = r_LSN r"
      using t(4) by (simp_all add: openNewSegment_def openSegment_def fsync_def)
    have "durableLSN s \<le> appendedLSN s" "nextLSN s = appendedLSN s + 1" using inv by (auto simp: wal_inv_def)
    then have "durableLSN s \<le> r_LSN r" using r(2) u64_less_inc [OF lsn] by simp
    then have dur: "durableLSN s \<le> durableLSN (fst ?u)" using u(4) by simp
    have "Storage_Append no_fail s (r_Op r) (r_Key r) (r_Value r) = (fst ?u, Inr (r_LSN r))"
      unfolding app rot t(4,5) ro(1) using False u(1) by (simp add: Let_def case_prod_beta)
    moreover have "unat (segmentID s + 1) \<le> unat (segmentID s) + 1"
      using unat_u64_inc [of "segmentID s"] by (cases "segmentID s = -1") simp_all
    ultimately show ?thesis using ro(2,3) inv'(2) u(2,3) dur by metis
  qed
qed

lemma Sync_inv:
  assumes inv: "wal_inv s ids recs"
  shows "\<exists>s'. Storage_Sync no_fail s = (s', None) \<and> wal_inv s' ids recs \<and> durableLSN s' = appendedLSN s
    \<and> segmentID s' = segmentID s \<and> appendedLSN s' = appendedLSN s
    \<and> walDir s' = walDir s \<and> (\<forall>i\<in>set ids. file_content (synced s') (SegmentName i) = recs_bytes (recs i))"
proof -
  let ?a = "segmentID s"
  let ?s = "(fsync s (SegmentName ?a))\<lparr>durableLSN := appendedLSN s\<rparr>"
  have s: "s_file s = Some (SegmentName ?a)" "writeBuffer s = []" "?a \<in> set ids"
    "map_of (walDir s) (SegmentName ?a) = Some (recs_bytes (recs ?a))"
    "\<forall>i\<in>set ids. unat i < max_segments" using inv by (auto simp: wal_inv_def dir_ids_def)
  have sync: "Storage_Sync no_fail s = (?s, None)"
    using s by (simp add: Storage_Sync_def syncLocked_def flushLocked_def)
  have syn: "file_content (synced ?s) (SegmentName i) = recs_bytes (recs i)" if "i \<in> set ids" for i
    using inv s that SegmentName_inject [of i ?a] by (auto simp: fsync_def wal_inv_def file_content_def update_conv')
  have out: "file_content (synced ?s) p = []" if "p \<notin> SegmentName ` set ids" for p
    using inv s(3) that by (auto simp: fsync_def wal_inv_def)
  have f: "walDir ?s = walDir s" "segmentID ?s = ?a" "s_file ?s = s_file s" "writeBuffer ?s = writeBuffer s"
    "durableLSN ?s = appendedLSN s" "appendedLSN ?s = appendedLSN s" "nextLSN ?s = nextLSN s" by (simp_all add: fsync_def)
  have "wal_inv ?s ids recs"
    unfolding wal_inv_def f
  proof (intro conjI)
    show "\<exists>n. file_content (synced ?s) (SegmentName ?a) = recs_bytes (take n (recs ?a))
        \<and> (\<forall>r\<in>set (drop n (recs ?a)). appendedLSN s < r_LSN r)"
      using syn [OF s(3)] by (intro exI [of _ "length (recs ?a)"]) simp
    show "\<forall>i\<in>set ids. i \<noteq> ?a \<longrightarrow> (\<forall>r\<in>set (recs i). r_LSN r \<le> appendedLSN s)"
      using inv by (simp add: wal_inv_def set_log_of)
  qed (use inv syn out in \<open>auto simp: wal_inv_def\<close>)
  then show ?thesis using sync syn f by metis
qed

section \<open>Crashes\<close>

text \<open>
  After a crash the directory holds the same files; each is cut at some point behind what had been
  synced.
\<close>

definition crash :: "AppendFileStorage \<Rightarrow> wal_files \<Rightarrow> bool" where
  "crash s dir \<longleftrightarrow> map fst dir = map fst (walDir s) \<and> gmap_ok dir
     \<and> (\<forall>p\<in>fst ` set dir. \<exists>n. file_content dir p = take n (file_content (walDir s) p)
          \<and> length (file_content (synced s) p) \<le> n)"

lemma crash_segment:
  assumes inv: "wal_inv s ids recs" and c: "crash s dir" and i: "i \<in> set ids"
  shows "i \<noteq> segmentID s \<Longrightarrow> read_segment (file_content dir (SegmentName i)) = recs i"
    and "i = segmentID s \<Longrightarrow> \<exists>m. read_segment (file_content dir (SegmentName i)) = take m (recs i)
      \<and> (\<forall>r\<in>set (drop m (recs i)). durableLSN s < r_LSN r)"
proof -
  have w: "file_content (walDir s) (SegmentName i) = recs_bytes (recs i)" and ok: "\<forall>r\<in>set (recs i). rec_ok r"
    using inv i by (auto simp: wal_inv_def file_content_def)
  have "SegmentName i \<in> fst ` set dir"
    using c inv i unfolding crash_def wal_inv_def dir_ids_def by (metis image_eqI set_map)
  then obtain n where n: "file_content dir (SegmentName i) = take n (recs_bytes (recs i))"
    "length (file_content (synced s) (SegmentName i)) \<le> n" using c w by (auto simp: crash_def)
  show "read_segment (file_content dir (SegmentName i)) = recs i" if "i \<noteq> segmentID s"
    using inv i that n read_segment_recs [OF ok] by (simp add: wal_inv_def)
  show "\<exists>m. read_segment (file_content dir (SegmentName i)) = take m (recs i)
      \<and> (\<forall>r\<in>set (drop m (recs i)). durableLSN s < r_LSN r)" if act: "i = segmentID s"
  proof -
    obtain j where j: "file_content (synced s) (SegmentName i) = recs_bytes (take j (recs i))"
      "\<forall>r\<in>set (drop j (recs i)). durableLSN s < r_LSN r" using inv unfolding act wal_inv_def by blast
    obtain m where m: "read_segment (take n (recs_bytes (recs i))) = take m (recs i)"
      "\<forall>j\<le>length (recs i). length (recs_bytes (take j (recs i))) \<le> n \<longrightarrow> j \<le> m" using read_cut [OF ok] by blast
    have "min j (length (recs i)) \<le> m" using m(2) n(2) j(1) by (metis min.cobounded1 min.cobounded2 min_def take_all_iff)
    then have "set (drop m (recs i)) \<subseteq> set (drop j (recs i))"
      by (cases "j \<le> length (recs i)") (simp_all add: set_drop_subset_set_drop)
    then show ?thesis using m(1) n(1) j(2) by auto
  qed
qed

lemma crash_replay:
  assumes inv: "wal_inv s ids recs" and c: "crash s dir"
  shows "\<exists>m. WAL_Replay no_fail (s\<lparr>walDir := dir\<rparr>) = Inr (map recordToEntry (take m (log_of ids recs)))
    \<and> (\<forall>r\<in>set (drop m (log_of ids recs)). durableLSN s < r_LSN r)"
proof -
  let ?a = "segmentID s"
  have "distinct ids" "?a \<in> set ids" "\<forall>i\<in>set ids. i \<le> ?a" using inv by (auto simp: wal_inv_def dir_ids_def)
  from sort_active [OF this] obtain pre where
    pre: "sort ids = pre @ [?a]" "?a \<notin> set pre" "insert ?a (set pre) = set ids" by blast
  have d: "dir_ids dir ids" using inv c by (simp add: crash_def wal_inv_def dir_ids_def)
  have "\<forall>i\<in>set (sort ids). map_of dir (SegmentName i) \<noteq> None"
  proof
    fix i
    assume "i \<in> set (sort ids)"
    then have "SegmentName i \<in> fst ` set dir" using d unfolding dir_ids_def by (metis image_eqI set_map set_sort)
    then show "map_of dir (SegmentName i) \<noteq> None" by (simp add: map_of_eq_None_iff)
  qed
  note loop = Replay_loop_eq [OF this, of "[]"]
  obtain m where m: "read_segment (file_content dir (SegmentName ?a)) = take m (recs ?a)"
    "\<forall>r\<in>set (drop m (recs ?a)). durableLSN s < r_LSN r"
    using crash_segment(2) [OF inv c] pre(3) by blast
  have "map (\<lambda>i. read_segment (file_content dir (SegmentName i))) pre = map recs pre"
    using crash_segment(1) [OF inv c] pre by auto
  then have "concat (map (\<lambda>i. read_segment (file_content dir (SegmentName i))) (sort ids)) = concat (map recs pre) @ take m (recs ?a)"
    unfolding pre(1) map_append concat_append by (simp only:) (simp add: m(1))
  note loop [unfolded this]
  then have "WAL_Replay no_fail (s\<lparr>walDir := dir\<rparr>) = Inr (map recordToEntry (concat (map recs pre) @ take m (recs ?a)))"
    using list_segments [OF d] by (simp add: WAL_Replay_def)
  then show ?thesis
    using m(2) by (intro exI [of _ "length (concat (map recs pre)) + m"]) (simp add: log_of_def pre(1))
qed

section \<open>Properties of the log\<close>

datatype wal_op = WPut string string | WDelete string

fun op_entry :: "u64 \<Rightarrow> wal_op \<Rightarrow> Entry" where
  "op_entry lsn (WPut k v) = \<lparr>e_LSN = lsn, e_Op = OpPut, e_Key = k, e_Value = v\<rparr>"
| "op_entry lsn (WDelete k) = \<lparr>e_LSN = lsn, e_Op = OpDelete, e_Key = k, e_Value = ''''\<rparr>"

fun op_size :: "wal_op \<Rightarrow> nat" where
  "op_size (WPut k v) = length k + length v"
| "op_size (WDelete k) = length k"

fun op_record :: "u64 \<Rightarrow> wal_op \<Rightarrow> Record" where
  "op_record lsn (WPut k v) = \<lparr>r_LSN = lsn, r_Op = OpPut, r_Key = bytes_of k, r_Value = bytes_of v\<rparr>"
| "op_record lsn (WDelete k) = \<lparr>r_LSN = lsn, r_Op = OpDelete, r_Key = bytes_of k, r_Value = []\<rparr>"

text \<open>Appending a list of operations through \<open>AppendPut\<close> and \<open>AppendDelete\<close>: the LSNs returned.\<close>

fun WAL_append_all :: "AppendFileStorage \<Rightarrow> wal_op list \<Rightarrow> AppendFileStorage \<times> u64 list option" where
  "WAL_append_all s [] = (s, Some [])"
| "WAL_append_all s (op1 # ops) =
     (case (case op1 of WPut k v \<Rightarrow> WAL_AppendPut no_fail s k v | WDelete k \<Rightarrow> WAL_AppendDelete no_fail s k) of
        (s, Inl err) \<Rightarrow> (s, None)
      | (s, Inr lsn) \<Rightarrow> (case WAL_append_all s ops of (s, lsns) \<Rightarrow> (s, map_option (\<lambda>ls. lsn # ls) lsns)))"

fun op_records :: "u64 \<Rightarrow> wal_op list \<Rightarrow> Record list" where
  "op_records lsn [] = []"
| "op_records lsn (op1 # ops) = op_record lsn op1 # op_records (lsn + 1) ops"

fun op_entries :: "u64 \<Rightarrow> wal_op list \<Rightarrow> Entry list" where
  "op_entries lsn [] = []"
| "op_entries lsn (op1 # ops) = op_entry lsn op1 # op_entries (lsn + 1) ops"

lemma recordToEntry_op: "recordToEntry (op_record lsn op1) = op_entry lsn op1"
  by (cases op1) (simp_all add: recordToEntry_def, simp add: string_of_def)

lemma map_op_records: "map recordToEntry (op_records lsn ops) = op_entries lsn ops"
  by (induction ops arbitrary: lsn) (simp_all add: recordToEntry_op)

lemma op_record_ok: "op_size op1 < 2 ^ 32 - 25 \<Longrightarrow> rec_ok (op_record lsn op1)"
  by (cases op1) (simp_all add: rec_ok_def recordHeaderSize_def)

lemma append_op_eq:
  "(case op1 of WPut k v \<Rightarrow> WAL_AppendPut fail s k v | WDelete k \<Rightarrow> WAL_AppendDelete fail s k)
     = Storage_Append fail s (r_Op (op_record lsn op1)) (r_Key (op_record lsn op1)) (r_Value (op_record lsn op1))"
  by (cases op1) (simp_all add: WAL_AppendPut_def WAL_AppendDelete_def)

lemma append_all_inv:
  assumes "wal_inv s ids recs" and "\<forall>op1\<in>set ops. op_size op1 < 2 ^ 32 - 25"
    and "unat (segmentID s) + length ops < max_segments" and "unat (appendedLSN s) + length ops < 2 ^ 64"
  shows "\<exists>s' ids' recs'. WAL_append_all s ops = (s', Some (map r_LSN (op_records (nextLSN s) ops)))
    \<and> wal_inv s' ids' recs' \<and> log_of ids' recs' = log_of ids recs @ op_records (nextLSN s) ops
    \<and> durableLSN s \<le> durableLSN s' \<and> unat (appendedLSN s') = unat (appendedLSN s) + length ops
    \<and> unat (segmentID s') \<le> unat (segmentID s) + length ops"
  using assms
proof (induction ops arbitrary: s ids recs)
  case Nil
  then show ?case by auto
next
  case (Cons op1 ops)
  let ?r = "op_record (nextLSN s) op1"
  have lsn: "r_LSN ?r = nextLSN s" by (cases op1) simp_all
  have ok: "rec_ok ?r" using Cons.prems(2) by (intro op_record_ok) simp
  have nm: "appendedLSN s \<noteq> -1"
    using Cons.prems(4) by (auto simp: unsigned_minus_1_eq_mask mask_eq_exp_minus_1)
  have room: "unat (segmentID s) + 1 < max_segments \<or> ops = []" using Cons.prems(3) by (cases ops) auto
  have room': "unat (segmentID s) + 1 < max_segments" using Cons.prems(3) by simp
  obtain s1 ids1 recs1 where s1: "Storage_Append no_fail s (r_Op ?r) (r_Key ?r) (r_Value ?r) = (s1, Inr (nextLSN s))"
    "wal_inv s1 ids1 recs1" "log_of ids1 recs1 = log_of ids recs @ [?r]" "appendedLSN s1 = nextLSN s"
    "unat (segmentID s1) \<le> unat (segmentID s) + 1" "durableLSN s \<le> durableLSN s1"
    using Append_inv [OF Cons.prems(1) ok lsn nm room'] lsn by auto
  have n1: "nextLSN s1 = nextLSN s + 1" "nextLSN s = appendedLSN s + 1"
    using s1(2,4) Cons.prems(1) by (simp_all add: wal_inv_def)
  have "unat (appendedLSN s1) + length ops < 2 ^ 64"
    using Cons.prems(4) s1(4) n1(2) unat_u64_inc [OF nm] by simp
  moreover have "unat (segmentID s1) + length ops < max_segments" using s1(5) Cons.prems(3) by simp
  ultimately obtain s' ids' recs' where "WAL_append_all s1 ops = (s', Some (map r_LSN (op_records (nextLSN s1) ops)))"
    "wal_inv s' ids' recs'" "log_of ids' recs' = log_of ids1 recs1 @ op_records (nextLSN s1) ops"
    "durableLSN s1 \<le> durableLSN s'" "unat (appendedLSN s') = unat (appendedLSN s1) + length ops"
    "unat (segmentID s') \<le> unat (segmentID s1) + length ops"
    using Cons.IH [OF s1(2)] Cons.prems(2) by auto
  moreover have "(case op1 of WPut k v \<Rightarrow> WAL_AppendPut no_fail s k v | WDelete k \<Rightarrow> WAL_AppendDelete no_fail s k)
      = (s1, Inr (nextLSN s))" unfolding append_op_eq [where lsn = "nextLSN s"] by (rule s1(1))
  ultimately show ?case using s1(3-6) n1 lsn unat_u64_inc [OF nm] by (auto intro: order_trans)
qed

lemma fresh_inv:
  assumes "NewAppendStorageInDir no_fail [] segSize bufSize = (s, None)"
  shows "wal_inv s [1] (\<lambda>_. [])" and "segmentID s = 1" and "appendedLSN s = 0" and "nextLSN s = 1"
proof -
  have s: "s = \<lparr>segmentSize = segSize, writeBufferSize = bufSize, segmentID = 1, s_file = Some (SegmentName 1),
      writeBuffer = [], nextLSN = 1, appendedLSN = 0, durableLSN = 0, walDir = [(SegmentName 1, [])], synced = []\<rparr>"
    using assms by (simp add: NewAppendStorageInDir_def ListSegmentsInDir_def openNewSegment_def openSegment_def
        List.map_filter_simps)
  show "wal_inv s [1] (\<lambda>_. [])"
    by (simp add: s wal_inv_def dir_ids_def file_content_def log_of_def)
  show "segmentID s = 1" "appendedLSN s = 0" "nextLSN s = 1" by (simp_all add: s)
qed

lemma op_records_le:
  "unat lsn + length ops \<le> 2 ^ 64 \<Longrightarrow> r \<in> set (op_records lsn ops) \<Longrightarrow> unat (r_LSN r) < unat lsn + length ops"
proof (induction ops arbitrary: lsn)
  case (Cons op1 ops)
  show ?case
  proof (cases "r = op_record lsn op1")
    case True
    then show ?thesis by (cases op1) simp_all
  next
    case False
    then have r: "r \<in> set (op_records (lsn + 1) ops)" using Cons.prems by simp
    then have "ops \<noteq> []" by auto
    then have "lsn \<noteq> -1" using Cons.prems(1) by (cases ops) (auto simp: unsigned_minus_1_eq_mask mask_eq_exp_minus_1)
    then show ?thesis using Cons.IH [OF _ r] Cons.prems(1) by (simp add: unat_u64_inc)
  qed
qed simp


text \<open>
  C16: What is appended is replayed. Starting from an empty directory, any sequence of puts and
  deletes (each below the 32-bit record length, fewer than a thousand million in all) is appended
  without error with the LSNs 1, 2, 3, \<dots>, across any number of segment rotations, and a replay
  delivers exactly these operations, in order, with those LSNs.
\<close>

theorem append_replay:
  assumes "NewAppendStorageInDir no_fail [] segSize bufSize = (s0, None)"
    and "\<forall>op1\<in>set ops. op_size op1 < 2 ^ 32 - 25" and "length ops + 1 < max_segments"
  shows "\<exists>s. WAL_append_all s0 ops = (s, Some (map e_LSN (op_entries 1 ops)))
    \<and> WAL_Replay no_fail s = Inr (op_entries 1 ops)"
proof -
  note f = fresh_inv [OF assms(1)]
  obtain s ids recs where s: "WAL_append_all s0 ops = (s, Some (map r_LSN (op_records 1 ops)))"
    "wal_inv s ids recs" "log_of ids recs = log_of [1] (\<lambda>_. []) @ op_records 1 ops"
    using append_all_inv [OF f(1) assms(2)] f(2-4) assms(3) by auto
  have "map r_LSN (op_records l ops) = map e_LSN (op_entries l ops)" for l
    by (simp add: map_op_records [symmetric] recordToEntry_def)
  then show ?thesis
    using s Replay_log [OF s(2)] by (simp add: log_of_def map_op_records)
qed

lemma op_records_take: "take m (op_records l ops) = op_records l (take m ops)"
proof (induction ops arbitrary: l m)
  case (Cons op1 ops)
  then show ?case by (cases m) simp_all
qed simp

lemma op_records_append: "op_records l (xs @ ys) = op_records l xs @ op_records (l + of_nat (length xs)) ys"
  by (induction xs arbitrary: l) (simp_all add: algebra_simps)

lemma length_op_records [simp]: "length (op_records l ops) = length ops"
  by (induction ops arbitrary: l) auto

lemma synced_run:
  assumes "NewAppendStorageInDir no_fail [] segSize bufSize = (s0, None)"
    and "\<forall>op1\<in>set (ops1 @ ops2). op_size op1 < 2 ^ 32 - 25" and "length (ops1 @ ops2) + 1 < max_segments"
    and "WAL_append_all s0 ops1 = (s1, lsns1)" and "Storage_Sync no_fail s1 = (s2, None)"
    and "WAL_append_all s2 ops2 = (s3, lsns2)"
  shows "\<exists>ids recs. wal_inv s3 ids recs \<and> log_of ids recs = op_records 1 (ops1 @ ops2)
    \<and> length ops1 \<le> unat (durableLSN s3) \<and> unat (durableLSN s3) \<le> length (ops1 @ ops2)"
proof -
  note f = fresh_inv [OF assms(1)]
  obtain ids1 recs1 where i1: "wal_inv s1 ids1 recs1" "log_of ids1 recs1 = op_records 1 ops1"
    "unat (appendedLSN s1) = length ops1" "unat (segmentID s1) \<le> 1 + length ops1"
    using append_all_inv [OF f(1), of ops1] f(2-4) assms(2-4) by (auto simp: log_of_def)
  have i2: "wal_inv s2 ids1 recs1" and d2: "durableLSN s2 = appendedLSN s1"
    and e2: "segmentID s2 = segmentID s1" "appendedLSN s2 = appendedLSN s1"
    using Sync_inv [OF i1(1)] assms(5) by auto
  have "appendedLSN s1 = of_nat (length ops1)" unfolding i1(3) [symmetric] by simp
  then have n2: "nextLSN s2 = 1 + of_nat (length ops1)" using i2 e2(2) by (simp add: wal_inv_def)
  obtain ids3 recs3 where i3: "wal_inv s3 ids3 recs3"
    "log_of ids3 recs3 = op_records 1 ops1 @ op_records (1 + of_nat (length ops1)) ops2" "durableLSN s2 \<le> durableLSN s3"
    "unat (appendedLSN s3) = length ops1 + length ops2"
    using append_all_inv [OF i2, of ops2] e2 i1 assms(2,3,6) n2 by auto
  have "durableLSN s3 \<le> appendedLSN s3" using i3(1) by (simp add: wal_inv_def)
  then show ?thesis using i3 d2 i1(3) by (auto simp: op_records_append word_le_nat_alt)
qed

text \<open>
  C5: Synced operations survive a crash, and a crash never invents or reorders. If the log is
  synced after \<open>ops1\<close> and more operations \<open>ops2\<close> are appended, then after any crash (every file cut at
  any point behind what was synced, in the middle of a record too) the replay delivers all of
  \<open>ops1\<close> followed by some prefix of \<open>ops2\<close>.
\<close>

theorem crash_keeps_synced:
  assumes "NewAppendStorageInDir no_fail [] segSize bufSize = (s0, None)"
    and "\<forall>op1\<in>set (ops1 @ ops2). op_size op1 < 2 ^ 32 - 25" and "length (ops1 @ ops2) + 1 < max_segments"
    and "WAL_append_all s0 ops1 = (s1, lsns1)" and "Storage_Sync no_fail s1 = (s2, None)"
    and "WAL_append_all s2 ops2 = (s3, lsns2)" and "crash s3 dir"
  shows "\<exists>m. WAL_Replay no_fail (s3\<lparr>walDir := dir\<rparr>) = Inr (op_entries 1 (ops1 @ take m ops2))"
proof -
  obtain ids3 recs3 where i3: "wal_inv s3 ids3 recs3" and log: "log_of ids3 recs3 = op_records 1 (ops1 @ ops2)"
    and d3: "length ops1 \<le> unat (durableLSN s3)" using synced_run [OF assms(1-6)] by blast
  obtain m where m: "WAL_Replay no_fail (s3\<lparr>walDir := dir\<rparr>) = Inr (map recordToEntry (take m (log_of ids3 recs3)))"
    "\<forall>r\<in>set (drop m (log_of ids3 recs3)). durableLSN s3 < r_LSN r" using crash_replay [OF i3 assms(7)] by blast
  have "length ops1 \<le> m"
  proof (rule ccontr)
    assume lt: "\<not> length ops1 \<le> m"
    let ?r = "op_records 1 ops1 ! m"
    have r: "?r \<in> set (op_records 1 ops1)" using lt by simp
    then have "unat (r_LSN ?r) \<le> length ops1" using op_records_le [of 1 ops1 ?r] assms(3) by simp
    then have "r_LSN ?r \<le> durableLSN s3" using d3 by (simp add: word_le_nat_alt)
    moreover have "?r \<in> set (drop m (log_of ids3 recs3))"
      using lt by (simp add: log op_records_append Cons_nth_drop_Suc [symmetric])
    ultimately show False using m(2) by force
  qed
  then have "take m (log_of ids3 recs3) = op_records 1 (ops1 @ take (m - length ops1) ops2)"
    by (simp add: log op_records_take)
  then show ?thesis using m(1) map_op_records by metis
qed

lemma crash_refl:
  assumes "wal_inv s ids recs"
  shows "crash s (walDir s)"
proof -
  have d: "map fst (walDir s) = map SegmentName ids" "distinct ids" "\<forall>i\<in>set ids. unat i < max_segments"
    using assms by (auto simp: wal_inv_def dir_ids_def)
  have "length (file_content (synced s) p) \<le> length (file_content (walDir s) p)" if "p \<in> fst ` set (walDir s)" for p
  proof -
    have "fst ` set (walDir s) = SegmentName ` set ids" using arg_cong [OF d(1), of set] by simp
    with that obtain i where i: "i \<in> set ids" "p = SegmentName i" by auto
    have w: "file_content (walDir s) p = recs_bytes (recs i)" using assms i by (simp add: wal_inv_def file_content_def)
    obtain n where n: "file_content (synced s) p = recs_bytes (take n (recs i))"
    proof (cases "i = segmentID s")
      case True
      have "\<exists>n. file_content (synced s) (SegmentName (segmentID s)) = recs_bytes (take n (recs (segmentID s)))"
        using assms unfolding wal_inv_def by blast
      then show ?thesis using that True i(2) by blast
    next
      case False
      then have "file_content (synced s) p = recs_bytes (take (length (recs i)) (recs i))"
        using assms i by (simp add: wal_inv_def)
      then show ?thesis by (rule that)
    qed
    have "recs_bytes (recs i) = recs_bytes (take n (recs i)) @ recs_bytes (drop n (recs i))"
      by (metis append_take_drop_id concat_append map_append)
    then show ?thesis using w n by simp
  qed
  moreover have "gmap_ok (walDir s)" unfolding d(1) using d(2,3) SegmentName_inject
    by (simp add: distinct_map inj_on_def)
  ultimately show ?thesis
    unfolding crash_def by (metis order_refl take_all)
qed

section \<open>Concrete logs\<close>


lemma fresh_exists: "\<exists>s0. NewAppendStorageInDir no_fail [] segSize bufSize = (s0, None)"
  by (simp add: NewAppendStorageInDir_def ListSegmentsInDir_def openNewSegment_def openSegment_def List.map_filter_simps)

theorem append_replay_witness:
  "\<exists>s0 s. NewAppendStorageInDir no_fail [] 30 8 = (s0, None)
     \<and> WAL_append_all s0 [WPut ''a'' ''1'', WDelete ''a''] = (s, Some [1, 2])
     \<and> WAL_Replay no_fail s = Inr [\<lparr>e_LSN = 1, e_Op = OpPut, e_Key = ''a'', e_Value = ''1''\<rparr>,
         \<lparr>e_LSN = 2, e_Op = OpDelete, e_Key = ''a'', e_Value = ''''\<rparr>]"
proof -
  obtain s0 where s0: "NewAppendStorageInDir no_fail [] 30 8 = (s0, None)" using fresh_exists by blast
  then show ?thesis using append_replay [OF s0, of "[WPut ''a'' ''1'', WDelete ''a'']"] by auto
qed

theorem crash_keeps_synced_witness:
  "\<exists>s0 s1 s2 s3 dir m. NewAppendStorageInDir no_fail [] 1000 8 = (s0, None)
     \<and> WAL_append_all s0 [WPut ''a'' ''1''] = (s1, Some [1]) \<and> Storage_Sync no_fail s1 = (s2, None)
     \<and> WAL_append_all s2 [WPut ''b'' ''2''] = (s3, Some [2]) \<and> crash s3 dir
     \<and> WAL_Replay no_fail (s3\<lparr>walDir := dir\<rparr>) = Inr (op_entries 1 ([WPut ''a'' ''1''] @ take m [WPut ''b'' ''2'']))"
proof -
  let ?a = "[WPut ''a'' ''1'']" and ?b = "[WPut ''b'' ''2'']"
  obtain s0 where s0: "NewAppendStorageInDir no_fail [] 1000 8 = (s0, None)" using fresh_exists by blast
  note f = fresh_inv [OF s0]
  obtain s1 ids1 recs1 where s1: "WAL_append_all s0 ?a = (s1, Some [1])" "wal_inv s1 ids1 recs1"
    "unat (appendedLSN s1) = 1" "unat (segmentID s1) \<le> 2"
    using append_all_inv [OF f(1), of ?a] f(2-4) by auto
  obtain s2 where s2: "Storage_Sync no_fail s1 = (s2, None)" "wal_inv s2 ids1 recs1"
    "segmentID s2 = segmentID s1" "appendedLSN s2 = appendedLSN s1" using Sync_inv [OF s1(2)] by blast
  have "appendedLSN s1 = of_nat 1" unfolding s1(3) [symmetric] by simp
  then have n2: "nextLSN s2 = 2" using s2(2,4) by (simp add: wal_inv_def)
  obtain s3 ids3 recs3 where s3: "WAL_append_all s2 ?b = (s3, Some [2])" "wal_inv s3 ids3 recs3"
    using append_all_inv [OF s2(2), of ?b] s2(3,4) s1(3,4) n2 by auto
  obtain m where "WAL_Replay no_fail (s3\<lparr>walDir := walDir s3\<rparr>) = Inr (op_entries 1 (?a @ take m ?b))"
    using crash_keeps_synced [OF s0 _ _ s1(1) s2(1) s3(1) crash_refl [OF s3(2)]] by auto
  then show ?thesis using s0 s1(1) s2(1) s3(1) crash_refl [OF s3(2)] by blast
qed

text \<open>
  A torn record at the end of the active segment hides every record appended behind it: the storage
  reopens the segment and appends after the torn bytes, and the reader stops at them.
\<close>

theorem torn_tail_hides_writes:
  assumes "rec_ok r" and "rec_ok q" and "8 \<le> n" and "length (rec_bytes q) + n < length (rec_bytes r)"
    and "\<forall>x\<in>set rs. rec_ok x"
  shows "read_segment (recs_bytes rs @ take n (rec_bytes r) @ rec_bytes q) = rs"
proof -
  have "fileSegmentReader_Next (take n (rec_bytes r) @ rec_bytes q) = Inl EOF"
    using torn_Next [OF assms(1,3,4)] .
  then have "read_segment (take n (rec_bytes r) @ rec_bytes q) = []" by (subst read_segment.simps) simp
  then show ?thesis using read_segment_append [OF assms(5)] by simp
qed

text \<open>
  When a purge has left only an empty active segment, a restart numbers its records from 1 again.
\<close>

theorem lsn_restarts_after_purge:
  "\<exists>s. NewAppendStorageInDir no_fail [(SegmentName 7, [])] 1000 8 = (s, None) \<and> nextLSN s = 1"
proof -
  have l: "ListSegmentsInDir no_fail [(SegmentName 7, [])] = Inr [(7, SegmentName 7)]"
    by (simp add: ListSegmentsInDir_def List.map_filter_simps parse_SegmentName)
  then show ?thesis
    by (simp add: NewAppendStorageInDir_def maxLSNFromLastSegment_def maxLSNInSegment_def file_content_def
        openSegment_def Let_def)
qed

end
