(* ===== verification/ClusterConfig.thy ===== *)
theory ClusterConfig
  imports Prelude
begin

text \<open>
  The configuration of a cluster node: \<open>src/cluster/config/config.go\<close>.

  The field names are the Go names. Durations are in nanoseconds. The environment is a function from
  variable name to value; the JSON decoder of the configuration file and \<open>time.ParseDuration\<close> are
  arguments. A function of the source that updates the configuration step by step and returns at
  the first error is a list of steps run by \<open>run_steps\<close>.
\<close>

section \<open>Strings\<close>

text \<open>
  \<open>strings.TrimSpace\<close>: white space is a byte sequence, the UTF-8 encoding of a Unicode space; it is
  removed from both ends as often as it occurs.
\<close>

definition space_seqs :: "string list" where
  "space_seqs =
     [[CHR 0x09], [CHR 0x0A], [CHR 0x0B], [CHR 0x0C], [CHR 0x0D], [CHR 0x20],
      [CHR 0xC2, CHR 0x85], [CHR 0xC2, CHR 0xA0], [CHR 0xE1, CHR 0x9A, CHR 0x80],
      [CHR 0xE2, CHR 0x80, CHR 0x80], [CHR 0xE2, CHR 0x80, CHR 0x81], [CHR 0xE2, CHR 0x80, CHR 0x82],
      [CHR 0xE2, CHR 0x80, CHR 0x83], [CHR 0xE2, CHR 0x80, CHR 0x84], [CHR 0xE2, CHR 0x80, CHR 0x85],
      [CHR 0xE2, CHR 0x80, CHR 0x86], [CHR 0xE2, CHR 0x80, CHR 0x87], [CHR 0xE2, CHR 0x80, CHR 0x88],
      [CHR 0xE2, CHR 0x80, CHR 0x89], [CHR 0xE2, CHR 0x80, CHR 0x8A], [CHR 0xE2, CHR 0x80, CHR 0xA8],
      [CHR 0xE2, CHR 0x80, CHR 0xA9], [CHR 0xE2, CHR 0x80, CHR 0xAF], [CHR 0xE2, CHR 0x81, CHR 0x9F],
      [CHR 0xE3, CHR 0x80, CHR 0x80]]"

definition leading :: "string list \<Rightarrow> string \<Rightarrow> string option" where
  "leading seqs s = find (\<lambda>w. w \<noteq> [] \<and> take (length w) s = w) seqs"

lemma leading_shorter:
  "leading seqs s = Some w \<Longrightarrow> length (drop (length w) s) < length s"
  by (cases s) (auto simp: leading_def find_Some_iff)

function trim_left :: "string list \<Rightarrow> string \<Rightarrow> string" where
  "trim_left seqs s = (case leading seqs s of None \<Rightarrow> s | Some w \<Rightarrow> trim_left seqs (drop (length w) s))"
  by pat_completeness auto
termination
  by (relation "measure (\<lambda>(seqs, s). length s)") (auto dest: leading_shorter)

declare trim_left.simps [simp del]

definition TrimSpace :: "string \<Rightarrow> string" where
  "TrimSpace s = rev (trim_left (map rev space_seqs) (rev (trim_left space_seqs s)))"

text \<open>\<open>strings.Split(value, ",")\<close>\<close>

fun split_comma :: "string \<Rightarrow> string \<Rightarrow> string list" where
  "split_comma acc [] = [rev acc]"
| "split_comma acc (c # cs) = (if c = CHR '','' then rev acc # split_comma [] cs else split_comma (c # acc) cs)"

definition splitCSV :: "string \<Rightarrow> string list" where
  "splitCSV value =
     fold (\<lambda>part seeds. let part = TrimSpace part in if part \<noteq> '''' then seeds @ [part] else seeds)
       (split_comma [] value) []"

section \<open>The configuration\<close>

record Config =
  NodeID :: string
  ClusterID :: string
  DataDir :: string
  ListenAddr :: string
  AdvertiseAddr :: string
  Seeds :: "string list"
  ReplicationFactor :: int
  ReadQuorum :: int
  WriteQuorum :: int
  TabletSplitBytes :: int
  TabletMergeBytes :: int
  TabletCheckInterval :: int
  TabletSettlingTicks :: int
  AntiEntropyInterval :: int
  AntiEntropyTimeout :: int
  AntiEntropyFanout :: int
  AntiEntropyLeafItemThreshold :: int
  AntiEntropyMaxDepth :: int
  GossipInterval :: int
  PingTimeout :: int
  SuspectTimeout :: int
  DeadTimeout :: int
  ReplicationTimeout :: int
  IndirectPingFanout :: int
  RangeMapGeneration :: u64
  RangeMapReplicas :: "string list"

record fileConfig =
  fc_NodeID :: "string option"
  fc_ClusterID :: "string option"
  fc_DataDir :: "string option"
  fc_ListenAddr :: "string option"
  fc_AdvertiseAddr :: "string option"
  fc_Seeds :: "string list option"
  fc_ReplicationFactor :: "int option"
  fc_ReadQuorum :: "int option"
  fc_WriteQuorum :: "int option"
  fc_TabletSplitBytes :: "int option"
  fc_TabletMergeBytes :: "int option"
  fc_TabletCheckInterval :: "string option"
  fc_TabletSettlingTicks :: "int option"
  fc_AntiEntropyInterval :: "string option"
  fc_AntiEntropyTimeout :: "string option"
  fc_AntiEntropyFanout :: "int option"
  fc_AntiEntropyLeafItemThreshold :: "int option"
  fc_AntiEntropyMaxDepth :: "int option"
  fc_GossipInterval :: "string option"
  fc_PingTimeout :: "string option"
  fc_SuspectTimeout :: "string option"
  fc_DeadTimeout :: "string option"
  fc_ReplicationTimeout :: "string option"
  fc_IndirectPingFanout :: "int option"
  fc_RangeMapGeneration :: "u64 option"
  fc_RangeMapReplicas :: "string list option"

datatype cfg_error =
    CannotReadFile
  | CannotParseFile
  | CannotParse string
  | Invalid string

abbreviation seconds :: "int \<Rightarrow> int" where
  "seconds n \<equiv> n * 1000000000"

definition DefaultConfig :: Config where
  "DefaultConfig =
     \<lparr>NodeID = ''node-1'',
      ClusterID = ''nosql-cluster'',
      DataDir = ''data/cluster/node-1'',
      ListenAddr = ''0.0.0.0:7000'',
      AdvertiseAddr = ''127.0.0.1:7000'',
      Seeds = [],
      ReplicationFactor = 3,
      ReadQuorum = 2,
      WriteQuorum = 2,
      TabletSplitBytes = 256 * 2 ^ 20,
      TabletMergeBytes = 64 * 2 ^ 20,
      TabletCheckInterval = seconds 30,
      TabletSettlingTicks = 2,
      AntiEntropyInterval = seconds 60,
      AntiEntropyTimeout = seconds 5,
      AntiEntropyFanout = 4,
      AntiEntropyLeafItemThreshold = 32,
      AntiEntropyMaxDepth = 6,
      GossipInterval = seconds 1,
      PingTimeout = 500000000,
      SuspectTimeout = seconds 5,
      DeadTimeout = seconds 30,
      ReplicationTimeout = seconds 2,
      IndirectPingFanout = 3,
      RangeMapGeneration = 1,
      RangeMapReplicas = []\<rparr>"

text \<open>Steps run in order; the first error is returned.\<close>

fun run_steps :: "('c \<Rightarrow> 'e + 'c) list \<Rightarrow> 'c \<Rightarrow> 'e + 'c" where
  "run_steps [] c = Inr c"
| "run_steps (f # fs) c = (case f c of Inl e \<Rightarrow> Inl e | Inr c' \<Rightarrow> run_steps fs c')"

text \<open>A value that is set when it is given; a value that is parsed first.\<close>

definition opt_step :: "'a option \<Rightarrow> ('a \<Rightarrow> 'c \<Rightarrow> 'c) \<Rightarrow> 'c \<Rightarrow> 'e + 'c" where
  "opt_step v upd c = (case v of None \<Rightarrow> Inr c | Some x \<Rightarrow> Inr (upd x c))"

definition parse_step ::
  "'e \<Rightarrow> 'a option \<Rightarrow> ('a \<Rightarrow> 'b option) \<Rightarrow> ('b \<Rightarrow> 'c \<Rightarrow> 'c) \<Rightarrow> 'c \<Rightarrow> 'e + 'c" where
  "parse_step err v parse upd c =
     (case v of None \<Rightarrow> Inr c | Some x \<Rightarrow> (case parse x of None \<Rightarrow> Inl err | Some y \<Rightarrow> Inr (upd y c)))"

definition applyFileConfig ::
  "(string \<Rightarrow> fileConfig option) \<Rightarrow> (string \<Rightarrow> int option) \<Rightarrow> Config \<Rightarrow> string \<Rightarrow> cfg_error + Config" where
  "applyFileConfig Unmarshal ParseDuration cfg data =
     (case Unmarshal data of
        None \<Rightarrow> Inl CannotParseFile
      | Some fc \<Rightarrow> run_steps
          [opt_step (fc_NodeID fc) (\<lambda>v c. c\<lparr>NodeID := v\<rparr>),
           opt_step (fc_ClusterID fc) (\<lambda>v c. c\<lparr>ClusterID := v\<rparr>),
           opt_step (fc_DataDir fc) (\<lambda>v c. c\<lparr>DataDir := v\<rparr>),
           opt_step (fc_ListenAddr fc) (\<lambda>v c. c\<lparr>ListenAddr := v\<rparr>),
           opt_step (fc_AdvertiseAddr fc) (\<lambda>v c. c\<lparr>AdvertiseAddr := v\<rparr>),
           opt_step (fc_Seeds fc) (\<lambda>v c. c\<lparr>Seeds := v\<rparr>),
           opt_step (fc_ReplicationFactor fc) (\<lambda>v c. c\<lparr>ReplicationFactor := v\<rparr>),
           opt_step (fc_ReadQuorum fc) (\<lambda>v c. c\<lparr>ReadQuorum := v\<rparr>),
           opt_step (fc_WriteQuorum fc) (\<lambda>v c. c\<lparr>WriteQuorum := v\<rparr>),
           opt_step (fc_TabletSplitBytes fc) (\<lambda>v c. c\<lparr>TabletSplitBytes := v\<rparr>),
           opt_step (fc_TabletMergeBytes fc) (\<lambda>v c. c\<lparr>TabletMergeBytes := v\<rparr>),
           parse_step (CannotParse ''tablet_check_interval'') (fc_TabletCheckInterval fc) ParseDuration (\<lambda>d c. c\<lparr>TabletCheckInterval := d\<rparr>),
           opt_step (fc_TabletSettlingTicks fc) (\<lambda>v c. c\<lparr>TabletSettlingTicks := v\<rparr>),
           parse_step (CannotParse ''anti_entropy_interval'') (fc_AntiEntropyInterval fc) ParseDuration (\<lambda>d c. c\<lparr>AntiEntropyInterval := d\<rparr>),
           parse_step (CannotParse ''anti_entropy_timeout'') (fc_AntiEntropyTimeout fc) ParseDuration (\<lambda>d c. c\<lparr>AntiEntropyTimeout := d\<rparr>),
           opt_step (fc_AntiEntropyFanout fc) (\<lambda>v c. c\<lparr>AntiEntropyFanout := v\<rparr>),
           opt_step (fc_AntiEntropyLeafItemThreshold fc) (\<lambda>v c. c\<lparr>AntiEntropyLeafItemThreshold := v\<rparr>),
           opt_step (fc_AntiEntropyMaxDepth fc) (\<lambda>v c. c\<lparr>AntiEntropyMaxDepth := v\<rparr>),
           parse_step (CannotParse ''gossip_interval'') (fc_GossipInterval fc) ParseDuration (\<lambda>d c. c\<lparr>GossipInterval := d\<rparr>),
           parse_step (CannotParse ''ping_timeout'') (fc_PingTimeout fc) ParseDuration (\<lambda>d c. c\<lparr>PingTimeout := d\<rparr>),
           parse_step (CannotParse ''suspect_timeout'') (fc_SuspectTimeout fc) ParseDuration (\<lambda>d c. c\<lparr>SuspectTimeout := d\<rparr>),
           parse_step (CannotParse ''dead_timeout'') (fc_DeadTimeout fc) ParseDuration (\<lambda>d c. c\<lparr>DeadTimeout := d\<rparr>),
           parse_step (CannotParse ''replication_timeout'') (fc_ReplicationTimeout fc) ParseDuration (\<lambda>d c. c\<lparr>ReplicationTimeout := d\<rparr>),
           opt_step (fc_IndirectPingFanout fc) (\<lambda>v c. c\<lparr>IndirectPingFanout := v\<rparr>),
           opt_step (fc_RangeMapGeneration fc) (\<lambda>v c. c\<lparr>RangeMapGeneration := v\<rparr>),
           opt_step (fc_RangeMapReplicas fc) (\<lambda>v c. c\<lparr>RangeMapReplicas := v\<rparr>)] cfg)"

definition envPrefix :: string where
  "envPrefix = ''NOSQL_CLUSTER_''"

definition getenv :: "(string \<Rightarrow> string option) \<Rightarrow> string \<Rightarrow> string option" where
  "getenv LookupEnv key = LookupEnv (envPrefix @ key)"

definition applyEnv :: "(string \<Rightarrow> string option) \<Rightarrow> (string \<Rightarrow> int option) \<Rightarrow> Config \<Rightarrow> cfg_error + Config" where
  "applyEnv env ParseDuration cfg =
     run_steps
       [opt_step (getenv env ''NODE_ID'') (\<lambda>v c. c\<lparr>NodeID := v\<rparr>),
        opt_step (getenv env ''CLUSTER_ID'') (\<lambda>v c. c\<lparr>ClusterID := v\<rparr>),
        opt_step (getenv env ''DATA_DIR'') (\<lambda>v c. c\<lparr>DataDir := v\<rparr>),
        opt_step (getenv env ''LISTEN_ADDR'') (\<lambda>v c. c\<lparr>ListenAddr := v\<rparr>),
        opt_step (getenv env ''ADVERTISE_ADDR'') (\<lambda>v c. c\<lparr>AdvertiseAddr := v\<rparr>),
        opt_step (getenv env ''SEEDS'') (\<lambda>v c. c\<lparr>Seeds := splitCSV v\<rparr>),
        parse_step (CannotParse (envPrefix @ ''REPLICATION_FACTOR'')) (getenv env ''REPLICATION_FACTOR'') ParseInt10 (\<lambda>n c. c\<lparr>ReplicationFactor := n\<rparr>),
        parse_step (CannotParse (envPrefix @ ''READ_QUORUM'')) (getenv env ''READ_QUORUM'') ParseInt10 (\<lambda>n c. c\<lparr>ReadQuorum := n\<rparr>),
        parse_step (CannotParse (envPrefix @ ''WRITE_QUORUM'')) (getenv env ''WRITE_QUORUM'') ParseInt10 (\<lambda>n c. c\<lparr>WriteQuorum := n\<rparr>),
        parse_step (CannotParse (envPrefix @ ''TABLET_SPLIT_BYTES'')) (getenv env ''TABLET_SPLIT_BYTES'') ParseInt10 (\<lambda>n c. c\<lparr>TabletSplitBytes := n\<rparr>),
        parse_step (CannotParse (envPrefix @ ''TABLET_MERGE_BYTES'')) (getenv env ''TABLET_MERGE_BYTES'') ParseInt10 (\<lambda>n c. c\<lparr>TabletMergeBytes := n\<rparr>),
        parse_step (CannotParse (envPrefix @ ''TABLET_CHECK_INTERVAL'')) (getenv env ''TABLET_CHECK_INTERVAL'') ParseDuration (\<lambda>n c. c\<lparr>TabletCheckInterval := n\<rparr>),
        parse_step (CannotParse (envPrefix @ ''TABLET_SETTLING_TICKS'')) (getenv env ''TABLET_SETTLING_TICKS'') ParseInt10 (\<lambda>n c. c\<lparr>TabletSettlingTicks := n\<rparr>),
        parse_step (CannotParse (envPrefix @ ''ANTI_ENTROPY_INTERVAL'')) (getenv env ''ANTI_ENTROPY_INTERVAL'') ParseDuration (\<lambda>n c. c\<lparr>AntiEntropyInterval := n\<rparr>),
        parse_step (CannotParse (envPrefix @ ''ANTI_ENTROPY_TIMEOUT'')) (getenv env ''ANTI_ENTROPY_TIMEOUT'') ParseDuration (\<lambda>n c. c\<lparr>AntiEntropyTimeout := n\<rparr>),
        parse_step (CannotParse (envPrefix @ ''ANTI_ENTROPY_FANOUT'')) (getenv env ''ANTI_ENTROPY_FANOUT'') ParseInt10 (\<lambda>n c. c\<lparr>AntiEntropyFanout := n\<rparr>),
        parse_step (CannotParse (envPrefix @ ''ANTI_ENTROPY_LEAF_ITEM_THRESHOLD'')) (getenv env ''ANTI_ENTROPY_LEAF_ITEM_THRESHOLD'') ParseInt10 (\<lambda>n c. c\<lparr>AntiEntropyLeafItemThreshold := n\<rparr>),
        parse_step (CannotParse (envPrefix @ ''ANTI_ENTROPY_MAX_DEPTH'')) (getenv env ''ANTI_ENTROPY_MAX_DEPTH'') ParseInt10 (\<lambda>n c. c\<lparr>AntiEntropyMaxDepth := n\<rparr>),
        parse_step (CannotParse (envPrefix @ ''GOSSIP_INTERVAL'')) (getenv env ''GOSSIP_INTERVAL'') ParseDuration (\<lambda>n c. c\<lparr>GossipInterval := n\<rparr>),
        parse_step (CannotParse (envPrefix @ ''PING_TIMEOUT'')) (getenv env ''PING_TIMEOUT'') ParseDuration (\<lambda>n c. c\<lparr>PingTimeout := n\<rparr>),
        parse_step (CannotParse (envPrefix @ ''SUSPECT_TIMEOUT'')) (getenv env ''SUSPECT_TIMEOUT'') ParseDuration (\<lambda>n c. c\<lparr>SuspectTimeout := n\<rparr>),
        parse_step (CannotParse (envPrefix @ ''DEAD_TIMEOUT'')) (getenv env ''DEAD_TIMEOUT'') ParseDuration (\<lambda>n c. c\<lparr>DeadTimeout := n\<rparr>),
        parse_step (CannotParse (envPrefix @ ''REPLICATION_TIMEOUT'')) (getenv env ''REPLICATION_TIMEOUT'') ParseDuration (\<lambda>n c. c\<lparr>ReplicationTimeout := n\<rparr>),
        parse_step (CannotParse (envPrefix @ ''INDIRECT_PING_FANOUT'')) (getenv env ''INDIRECT_PING_FANOUT'') ParseInt10 (\<lambda>n c. c\<lparr>IndirectPingFanout := n\<rparr>),
        parse_step (CannotParse (envPrefix @ ''RANGE_MAP_GENERATION'')) (getenv env ''RANGE_MAP_GENERATION'') ParseUint10 (\<lambda>n c. c\<lparr>RangeMapGeneration := n\<rparr>),
        opt_step (getenv env ''RANGE_MAP_REPLICAS'') (\<lambda>v c. c\<lparr>RangeMapReplicas := splitCSV v\<rparr>)] cfg"

definition Config_Validate :: "Config \<Rightarrow> cfg_error + unit" where
  "Config_Validate cfg =
     (if TrimSpace (NodeID cfg) = '''' then Inl (Invalid ''node_id'')
      else if TrimSpace (ClusterID cfg) = '''' then Inl (Invalid ''cluster_id'')
      else if TrimSpace (ListenAddr cfg) = '''' then Inl (Invalid ''listen_addr'')
      else if TrimSpace (AdvertiseAddr cfg) = '''' then Inl (Invalid ''advertise_addr'')
      else if ReplicationFactor cfg < 1 then Inl (Invalid ''replication_factor'')
      else if ReadQuorum cfg < 1 \<or> ReadQuorum cfg > ReplicationFactor cfg then Inl (Invalid ''read_quorum'')
      else if WriteQuorum cfg < 1 \<or> WriteQuorum cfg > ReplicationFactor cfg then Inl (Invalid ''write_quorum'')
      else if wrap64 (ReadQuorum cfg + WriteQuorum cfg) \<le> ReplicationFactor cfg then Inl (Invalid ''read_quorum + write_quorum'')
      else if TabletMergeBytes cfg \<le> 0 then Inl (Invalid ''tablet_merge_bytes'')
      else if TabletSplitBytes cfg \<le> TabletMergeBytes cfg then Inl (Invalid ''tablet_split_bytes'')
      else if TabletCheckInterval cfg \<le> 0 then Inl (Invalid ''tablet_check_interval'')
      else if TabletSettlingTicks cfg < 1 then Inl (Invalid ''tablet_settling_ticks'')
      else if AntiEntropyInterval cfg \<le> 0 then Inl (Invalid ''anti_entropy_interval'')
      else if AntiEntropyTimeout cfg \<le> 0 then Inl (Invalid ''anti_entropy_timeout'')
      else if AntiEntropyFanout cfg < 2 then Inl (Invalid ''anti_entropy_fanout'')
      else if AntiEntropyLeafItemThreshold cfg < 1 then Inl (Invalid ''anti_entropy_leaf_item_threshold'')
      else if AntiEntropyMaxDepth cfg < 1 then Inl (Invalid ''anti_entropy_max_depth'')
      else if GossipInterval cfg \<le> 0 then Inl (Invalid ''gossip_interval'')
      else if PingTimeout cfg \<le> 0 then Inl (Invalid ''ping_timeout'')
      else if SuspectTimeout cfg \<le> PingTimeout cfg then Inl (Invalid ''suspect_timeout'')
      else if DeadTimeout cfg \<le> SuspectTimeout cfg then Inl (Invalid ''dead_timeout'')
      else if ReplicationTimeout cfg \<le> 0 then Inl (Invalid ''replication_timeout'')
      else if IndirectPingFanout cfg < 0 then Inl (Invalid ''indirect_ping_fanout'')
      else if RangeMapGeneration cfg < 1 then Inl (Invalid ''range_map_generation'')
      else Inr ())"

definition Load ::
  "(string \<Rightarrow> string option) \<Rightarrow> (string \<Rightarrow> fileConfig option) \<Rightarrow> (string \<Rightarrow> int option) \<Rightarrow> (string \<Rightarrow> string option)
     \<Rightarrow> string \<Rightarrow> cfg_error + Config" where
  "Load ReadFile Unmarshal ParseDuration env path =
     (let cfg = DefaultConfig
      in case (if path \<noteq> ''''
               then (case ReadFile path of
                       None \<Rightarrow> Inl CannotReadFile
                     | Some data \<Rightarrow> applyFileConfig Unmarshal ParseDuration cfg data)
               else Inr cfg) of
           Inl err \<Rightarrow> Inl err
         | Inr cfg \<Rightarrow>
             (case applyEnv env ParseDuration cfg of
                Inl err \<Rightarrow> Inl err
              | Inr cfg \<Rightarrow>
                  (let cfg = (if length (RangeMapReplicas cfg) = 0 then cfg\<lparr>RangeMapReplicas := [NodeID cfg]\<rparr> else cfg)
                   in case Config_Validate cfg of
                        Inl err \<Rightarrow> Inl err
                      | Inr _ \<Rightarrow> Inr cfg)))"

section \<open>What a loaded configuration satisfies\<close>

text \<open>A step keeps a field when it does not change it.\<close>

definition keeps :: "('c \<Rightarrow> 'f) \<Rightarrow> ('c \<Rightarrow> 'e + 'c) \<Rightarrow> bool" where
  "keeps field f \<longleftrightarrow> (\<forall>c c'. f c = Inr c' \<longrightarrow> field c' = field c)"

lemma keeps_opt [intro]: "(\<And>v c. field (upd v c) = field c) \<Longrightarrow> keeps field (opt_step v upd)"
  by (auto simp: keeps_def opt_step_def split: option.splits)

lemma keeps_parse [intro]: "(\<And>v c. field (upd v c) = field c) \<Longrightarrow> keeps field (parse_step err v parse upd)"
  by (auto simp: keeps_def parse_step_def split: option.splits)

lemma run_steps_keeps: "run_steps fs c = Inr c' \<Longrightarrow> \<forall>f\<in>set fs. keeps field f \<Longrightarrow> field c' = field c"
proof (induction fs arbitrary: c)
  case (Cons f fs)
  then show ?case by (auto simp: keeps_def split: sum.splits)
qed simp

lemma run_steps_append:
  "run_steps (fs @ gs) c = (case run_steps fs c of Inl e \<Rightarrow> Inl e | Inr c' \<Rightarrow> run_steps gs c')"
  by (induction fs arbitrary: c) (auto split: sum.splits)

text \<open>The one step that changes a field decides its final value.\<close>

lemma run_steps_field:
  assumes "run_steps (fs @ f # gs) c = Inr c'" and "\<forall>g\<in>set fs \<union> set gs. keeps field g"
  obtains c1 c2 where "field c1 = field c" "f c1 = Inr c2" "field c' = field c2"
proof -
  obtain c1 where c1: "run_steps fs c = Inr c1" using assms(1) by (auto simp: run_steps_append split: sum.splits)
  obtain c2 where c2: "f c1 = Inr c2" "run_steps gs c2 = Inr c'"
    using assms(1) c1 by (auto simp: run_steps_append split: sum.splits)
  show thesis
    using that [of c1 c2] c2 run_steps_keeps [OF c1, of field] run_steps_keeps [OF c2(2), of field] assms(2) by simp
qed

lemma run_steps_opt:
  assumes "run_steps (fs @ opt_step v upd # gs) c = Inr c'" and "\<forall>g\<in>set fs \<union> set gs. keeps field g"
    and "\<And>x c. field (upd x c) = fx x"
  shows "field c' = (case v of None \<Rightarrow> field c | Some x \<Rightarrow> fx x)"
  by (rule run_steps_field [OF assms(1,2)]) (auto simp: opt_step_def assms(3) split: option.splits)

lemma run_steps_parse:
  assumes "run_steps (fs @ parse_step err v parse upd # gs) c = Inr c'" and "\<forall>g\<in>set fs \<union> set gs. keeps field g"
    and "\<And>x c. field (upd x c) = x"
  shows "case v of None \<Rightarrow> field c' = field c | Some x \<Rightarrow> parse x = Some (field c')"
  by (rule run_steps_field [OF assms(1,2)]) (auto simp: parse_step_def assms(3) split: option.splits)

lemma env_NodeID:
  assumes "applyEnv env pd c = Inr c'"
  shows "NodeID c' = (case getenv env ''NODE_ID'' of None \<Rightarrow> NodeID c | Some v \<Rightarrow> v)"
  using assms unfolding applyEnv_def
  by (intro run_steps_opt [where fs = "[]" and fx = "\<lambda>v. v", simplified]) (auto simp: keeps_opt keeps_parse)

lemma file_NodeID:
  assumes "applyFileConfig um pd c data = Inr c'" and "um data = Some fc"
  shows "NodeID c' = (case fc_NodeID fc of None \<Rightarrow> NodeID c | Some v \<Rightarrow> v)"
  using assms unfolding applyFileConfig_def
  by (intro run_steps_opt [where fs = "[]" and fx = "\<lambda>v. v", simplified]) (auto simp: keeps_opt keeps_parse)

lemma env_ReadQuorum:
  assumes "applyEnv env pd c = Inr c'"
  shows "case getenv env ''READ_QUORUM'' of None \<Rightarrow> ReadQuorum c' = ReadQuorum c
         | Some s \<Rightarrow> ParseInt10 s = Some (ReadQuorum c')"
  using assms unfolding applyEnv_def
  by (intro run_steps_parse
        [where fs = "[f1, f2, f3, f4, f5, f6, f7]" for f1 f2 f3 f4 f5 f6 f7, unfolded append_Cons append_Nil])
     (assumption | auto simp: keeps_opt keeps_parse)+

lemma file_ReadQuorum:
  assumes "applyFileConfig um pd c data = Inr c'" and "um data = Some fc"
  shows "ReadQuorum c' = (case fc_ReadQuorum fc of None \<Rightarrow> ReadQuorum c | Some v \<Rightarrow> v)"
  using assms unfolding applyFileConfig_def
  by (intro run_steps_opt
        [where fs = "[f1, f2, f3, f4, f5, f6, f7]" and fx = "\<lambda>v. v" for f1 f2 f3 f4 f5 f6 f7,
          unfolded append_Cons append_Nil])
     (simp, auto simp: keeps_opt keeps_parse)

lemma Validate_Inr_iff:
  "Config_Validate cfg = Inr () \<longleftrightarrow>
     TrimSpace (NodeID cfg) \<noteq> '''' \<and> TrimSpace (ClusterID cfg) \<noteq> '''' \<and> TrimSpace (ListenAddr cfg) \<noteq> ''''
     \<and> TrimSpace (AdvertiseAddr cfg) \<noteq> '''' \<and> 1 \<le> ReplicationFactor cfg
     \<and> 1 \<le> ReadQuorum cfg \<and> ReadQuorum cfg \<le> ReplicationFactor cfg
     \<and> 1 \<le> WriteQuorum cfg \<and> WriteQuorum cfg \<le> ReplicationFactor cfg
     \<and> ReplicationFactor cfg < ReadQuorum cfg + WriteQuorum cfg \<and> ReadQuorum cfg + WriteQuorum cfg < 2 ^ 63
     \<and> 0 < TabletMergeBytes cfg \<and> TabletMergeBytes cfg < TabletSplitBytes cfg \<and> 0 < TabletCheckInterval cfg
     \<and> 1 \<le> TabletSettlingTicks cfg \<and> 0 < AntiEntropyInterval cfg \<and> 0 < AntiEntropyTimeout cfg
     \<and> 2 \<le> AntiEntropyFanout cfg \<and> 1 \<le> AntiEntropyLeafItemThreshold cfg \<and> 1 \<le> AntiEntropyMaxDepth cfg
     \<and> 0 < GossipInterval cfg \<and> 0 < PingTimeout cfg \<and> PingTimeout cfg < SuspectTimeout cfg
     \<and> SuspectTimeout cfg < DeadTimeout cfg \<and> 0 < ReplicationTimeout cfg \<and> 0 \<le> IndirectPingFanout cfg
     \<and> RangeMapGeneration cfg \<noteq> 0"
proof -
  have "1 \<le> ReadQuorum cfg \<Longrightarrow> ReadQuorum cfg \<le> ReplicationFactor cfg \<Longrightarrow> 1 \<le> WriteQuorum cfg
    \<Longrightarrow> WriteQuorum cfg \<le> ReplicationFactor cfg \<Longrightarrow> wrap64 (ReadQuorum cfg + WriteQuorum cfg) \<le> ReplicationFactor cfg \<longleftrightarrow>
      \<not> (ReplicationFactor cfg < ReadQuorum cfg + WriteQuorum cfg \<and> ReadQuorum cfg + WriteQuorum cfg < 2 ^ 63)"
    using wrap64_sum_greater [of "ReadQuorum cfg" "WriteQuorum cfg" "ReplicationFactor cfg"] by linarith
  then show ?thesis
    unfolding Config_Validate_def
    by (cases "1 \<le> ReadQuorum cfg \<and> ReadQuorum cfg \<le> ReplicationFactor cfg \<and> 1 \<le> WriteQuorum cfg
          \<and> WriteQuorum cfg \<le> ReplicationFactor cfg")
       (auto simp: not_less not_le linorder_not_less)
qed

lemma Load_cases:
  assumes "Load rf um pd env path = Inr cfg"
  obtains c0 c1 where
    "if path = '''' then c0 = DefaultConfig else \<exists>data. rf path = Some data \<and> applyFileConfig um pd DefaultConfig data = Inr c0"
    "applyEnv env pd c0 = Inr c1"
    "cfg = (if RangeMapReplicas c1 = [] then c1\<lparr>RangeMapReplicas := [NodeID c1]\<rparr> else c1)"
    "Config_Validate cfg = Inr ()"
proof -
  obtain c0 where c0: "(if path \<noteq> '''' then (case rf path of None \<Rightarrow> Inl CannotReadFile
      | Some data \<Rightarrow> applyFileConfig um pd DefaultConfig data) else Inr DefaultConfig) = Inr c0"
    using assms by (auto simp: Load_def split: sum.splits)
  then obtain c1 where c1: "applyEnv env pd c0 = Inr c1"
    using assms by (auto simp: Load_def split: sum.splits)
  define c2 where "c2 = (if length (RangeMapReplicas c1) = 0 then c1\<lparr>RangeMapReplicas := [NodeID c1]\<rparr> else c1)"
  have "Config_Validate c2 = Inr () \<and> cfg = c2"
    using assms c0 c1 unfolding Load_def by (auto simp: c2_def Let_def split: sum.splits)
  then show thesis
    using c0 c1 by (intro that [of c0 c1]) (auto simp: c2_def split: if_splits option.splits)
qed

text \<open>
  C27: A configuration that \<open>Load\<close> returns satisfies every rule of \<open>Validate\<close>, and has an initial replica
  list: the four names are not blank, both quorums are within the replication factor and their sum
  exceeds it (without overflow, so a read quorum and a write quorum of one key always share a
  replica), the time-outs are ordered, the thresholds are positive, and a node with no configured
  replica list is its own first replica.
\<close>

theorem Load_valid:
  assumes "Load ReadFile Unmarshal ParseDuration env path = Inr cfg"
  shows "Config_Validate cfg = Inr ()
    \<and> 1 \<le> ReadQuorum cfg \<and> ReadQuorum cfg \<le> ReplicationFactor cfg
    \<and> 1 \<le> WriteQuorum cfg \<and> WriteQuorum cfg \<le> ReplicationFactor cfg
    \<and> ReplicationFactor cfg < ReadQuorum cfg + WriteQuorum cfg
    \<and> 0 < PingTimeout cfg \<and> PingTimeout cfg < SuspectTimeout cfg \<and> SuspectTimeout cfg < DeadTimeout cfg
    \<and> 0 < TabletMergeBytes cfg \<and> TabletMergeBytes cfg < TabletSplitBytes cfg
    \<and> 2 \<le> AntiEntropyFanout cfg \<and> RangeMapGeneration cfg \<noteq> 0
    \<and> RangeMapReplicas cfg \<noteq> []"
proof -
  obtain c1 where *: "Config_Validate cfg = Inr ()"
      "cfg = (if RangeMapReplicas c1 = [] then c1\<lparr>RangeMapReplicas := [NodeID c1]\<rparr> else c1)"
    using assms by (rule Load_cases)
  then have "RangeMapReplicas cfg \<noteq> []" by (auto split: if_splits)
  then show ?thesis using * by (simp add: Validate_Inr_iff)
qed

theorem Load_valid_witness:
  "RangeMapReplicas (DefaultConfig\<lparr>RangeMapReplicas := [''node-1'']\<rparr>) \<noteq> []
   \<and> Load (\<lambda>_. None) (\<lambda>_. None) (\<lambda>_. None) (\<lambda>_. None) '''' = Inr (DefaultConfig\<lparr>RangeMapReplicas := [''node-1'']\<rparr>)"
proof -
  have *: "Load (\<lambda>_. None) (\<lambda>_. None) (\<lambda>_. None) (\<lambda>_. None) '''' = Inr (DefaultConfig\<lparr>RangeMapReplicas := [''node-1'']\<rparr>)"
    by code_simp
  show ?thesis using Load_valid [OF *] * by blast
qed

text \<open>
  The environment takes precedence over the configuration file, and the file over the defaults,
  field by field: the node id and the read quorum of a loaded configuration are those of the
  environment if it sets them, else those of the file if it sets them, else the defaults; a number
  in the environment is the decimal number written there.
\<close>

theorem Load_precedence:
  assumes "Load ReadFile Unmarshal ParseDuration env path = Inr cfg"
    and "path \<noteq> ''''" and "ReadFile path = Some data" and "Unmarshal data = Some fc"
  shows "NodeID cfg =
           (case getenv env ''NODE_ID'' of Some v \<Rightarrow> v
            | None \<Rightarrow> (case fc_NodeID fc of Some v \<Rightarrow> v | None \<Rightarrow> NodeID DefaultConfig))
     \<and> (case getenv env ''READ_QUORUM'' of Some s \<Rightarrow> ParseInt10 s = Some (ReadQuorum cfg)
            | None \<Rightarrow> ReadQuorum cfg = (case fc_ReadQuorum fc of Some v \<Rightarrow> v | None \<Rightarrow> ReadQuorum DefaultConfig))"
proof -
  obtain c0 c1 where c: "applyFileConfig Unmarshal ParseDuration DefaultConfig data = Inr c0"
      "applyEnv env ParseDuration c0 = Inr c1" "NodeID cfg = NodeID c1" "ReadQuorum cfg = ReadQuorum c1"
    using assms by (elim Load_cases) (auto split: if_splits)
  show ?thesis
    using env_NodeID [OF c(2)] file_NodeID [OF c(1) assms(4)] c(3)
      env_ReadQuorum [OF c(2)] file_ReadQuorum [OF c(1) assms(4)] c(4) by (simp split: option.splits)
qed

definition ex_file :: fileConfig where
  "ex_file = \<lparr>fc_NodeID = Some ''file'', fc_ClusterID = None, fc_DataDir = None, fc_ListenAddr = None,
     fc_AdvertiseAddr = None, fc_Seeds = None, fc_ReplicationFactor = None, fc_ReadQuorum = Some 3, fc_WriteQuorum = None,
     fc_TabletSplitBytes = None, fc_TabletMergeBytes = None, fc_TabletCheckInterval = None, fc_TabletSettlingTicks = None,
     fc_AntiEntropyInterval = None, fc_AntiEntropyTimeout = None, fc_AntiEntropyFanout = None,
     fc_AntiEntropyLeafItemThreshold = None, fc_AntiEntropyMaxDepth = None, fc_GossipInterval = None,
     fc_PingTimeout = None, fc_SuspectTimeout = None, fc_DeadTimeout = None, fc_ReplicationTimeout = None,
     fc_IndirectPingFanout = None, fc_RangeMapGeneration = None, fc_RangeMapReplicas = None\<rparr>"

definition ex_env :: "string \<Rightarrow> string option" where
  "ex_env = (\<lambda>v. if v = ''NOSQL_CLUSTER_NODE_ID'' then Some ''env'' else None)"

theorem Load_precedence_witness:
  "Load (\<lambda>_. Some '''') (\<lambda>_. Some ex_file) (\<lambda>_. None) ex_env ''f''
     = Inr (DefaultConfig\<lparr>NodeID := ''env'', ReadQuorum := 3, RangeMapReplicas := [''env'']\<rparr>)
   \<and> ''env'' = (case getenv ex_env ''NODE_ID'' of Some v \<Rightarrow> v
            | None \<Rightarrow> (case fc_NodeID ex_file of Some v \<Rightarrow> v | None \<Rightarrow> NodeID DefaultConfig))"
proof -
  have *: "Load (\<lambda>_. Some '''') (\<lambda>_. Some ex_file) (\<lambda>_. None) ex_env ''f''
     = Inr (DefaultConfig\<lparr>NodeID := ''env'', ReadQuorum := 3, RangeMapReplicas := [''env'']\<rparr>)"
    by code_simp
  show ?thesis using Load_precedence [OF *] * by simp
qed

end
