(* ===== verification/NodeStore.thy ===== *)
theory NodeStore
  imports Versioning RingTable ClusterConfig
begin

text \<open>
  The storage of one node and the service in front of it: \<open>src/cluster/node/store.go\<close> and
  \<open>src/cluster/node/server.go\<close>.

  The storage engine is the interface \<open>LocalEngine\<close>: a record of operations on an engine state of
  any type, each returning the next state (a read may touch caches and rate limits). The JSON codec
  of envelopes is given by the two arguments \<open>marshal\<close> and \<open>unmarshal\<close>, as in \<open>Versioning\<close>.
\<close>

section \<open>store.go\<close>

record 'e LocalEngine =
  eng_Write :: "'e \<Rightarrow> string \<Rightarrow> string \<Rightarrow> string \<Rightarrow> bool \<Rightarrow> 'e \<times> (string + unit)"
  eng_WriteAsync :: "'e \<Rightarrow> string \<Rightarrow> string \<Rightarrow> string \<Rightarrow> 'e \<times> (string + unit)"
  eng_Read :: "'e \<Rightarrow> string \<Rightarrow> string \<Rightarrow> 'e \<times> (string + string option)"
  eng_RangeScan :: "'e \<Rightarrow> string \<Rightarrow> string \<Rightarrow> string \<Rightarrow> int \<Rightarrow> int \<Rightarrow> 'e \<times> (string + string list list)"

definition DefaultStoreUser :: string where
  "DefaultStoreUser = ''cluster''"

record 'e NodeStore =
  ns_engine :: "'e LocalEngine"
  ns_user :: string

datatype store_error =
    PutDeletedEnvelope string
  | DeleteLiveEnvelope string
  | EncodeFailed string env_error
  | DecodeFailed string env_error
  | MalformedRow
  | EngineError string

definition NewNodeStore :: "'e LocalEngine \<Rightarrow> string \<Rightarrow> 'e NodeStore" where
  "NewNodeStore engine user =
     (let user = (if user = '''' then DefaultStoreUser else user)
      in \<lparr>ns_engine = engine, ns_user = user\<rparr>)"

definition engine_result :: "'e \<times> (string + 'a) \<Rightarrow> 'e \<times> (store_error + 'a)" where
  "engine_result r = (case r of (e, Inl msg) \<Rightarrow> (e, Inl (EngineError msg)) | (e, Inr x) \<Rightarrow> (e, Inr x))"

definition NodeStore_writeEnvelope ::
  "(Envelope \<Rightarrow> string option) \<Rightarrow> 'e NodeStore \<Rightarrow> 'e \<Rightarrow> string \<Rightarrow> Envelope \<Rightarrow> bool \<Rightarrow> 'e \<times> (store_error + unit)" where
  "NodeStore_writeEnvelope marshal s e key envelope sync =
     (case Encode marshal envelope of
        Inl err \<Rightarrow> (e, Inl (EncodeFailed key err))
      | Inr raw \<Rightarrow>
          if sync then engine_result (eng_Write (ns_engine s) e (ns_user s) key raw False)
          else engine_result (eng_WriteAsync (ns_engine s) e (ns_user s) key raw))"

definition NodeStore_Put ::
  "(Envelope \<Rightarrow> string option) \<Rightarrow> 'e NodeStore \<Rightarrow> 'e \<Rightarrow> string \<Rightarrow> Envelope \<Rightarrow> bool \<Rightarrow> 'e \<times> (store_error + unit)" where
  "NodeStore_Put marshal s e key envelope sync =
     (if Deleted envelope then (e, Inl (PutDeletedEnvelope key))
      else NodeStore_writeEnvelope marshal s e key envelope sync)"

definition NodeStore_Delete ::
  "(Envelope \<Rightarrow> string option) \<Rightarrow> 'e NodeStore \<Rightarrow> 'e \<Rightarrow> string \<Rightarrow> Envelope \<Rightarrow> bool \<Rightarrow> 'e \<times> (store_error + unit)" where
  "NodeStore_Delete marshal s e key envelope sync =
     (if \<not> Deleted envelope then (e, Inl (DeleteLiveEnvelope key))
      else NodeStore_writeEnvelope marshal s e key envelope sync)"

definition NodeStore_Get ::
  "(string \<Rightarrow> Envelope option) \<Rightarrow> 'e NodeStore \<Rightarrow> 'e \<Rightarrow> string \<Rightarrow> 'e \<times> (store_error + Envelope option)" where
  "NodeStore_Get unmarshal s e key =
     (case eng_Read (ns_engine s) e (ns_user s) key of
        (e, Inl msg) \<Rightarrow> (e, Inl (EngineError msg))
      | (e, Inr None) \<Rightarrow> (e, Inr None)
      | (e, Inr (Some raw)) \<Rightarrow>
          (case Decode unmarshal raw of
             Inl err \<Rightarrow> (e, Inl (DecodeFailed key err))
           | Inr envelope \<Rightarrow> (e, Inr (Some envelope))))"

text \<open>The loop of \<open>ScanRange\<close> over the rows of the page.\<close>

fun ScanRange_rows ::
  "(string \<Rightarrow> Envelope option) \<Rightarrow> string list list \<Rightarrow> KeyEnvelope list \<Rightarrow> store_error + KeyEnvelope list" where
  "ScanRange_rows unmarshal [] results = Inr results"
| "ScanRange_rows unmarshal (row # rows) results =
     (if length row < 2 then Inl MalformedRow
      else case Decode unmarshal (row ! 1) of
             Inl err \<Rightarrow> Inl (DecodeFailed (row ! 0) err)
           | Inr envelope \<Rightarrow> ScanRange_rows unmarshal rows (results @ [\<lparr>ke_Key = row ! 0, ke_Envelope = envelope\<rparr>]))"

definition NodeStore_ScanRange ::
  "(string \<Rightarrow> Envelope option) \<Rightarrow> 'e NodeStore \<Rightarrow> 'e \<Rightarrow> string \<Rightarrow> string \<Rightarrow> int \<Rightarrow> int
     \<Rightarrow> 'e \<times> (store_error + KeyEnvelope list)" where
  "NodeStore_ScanRange unmarshal s e start stop pageNum pageSize =
     (case eng_RangeScan (ns_engine s) e (ns_user s) start stop pageNum pageSize of
        (e, Inl msg) \<Rightarrow> (e, Inl (EngineError msg))
      | (e, Inr rows) \<Rightarrow> (e, ScanRange_rows unmarshal rows []))"

definition rawScanPageSize :: int where
  "rawScanPageSize = 1000"

definition unboundedRangeEnd :: string where
  "unboundedRangeEnd = replicate 64 (CHR 0xFF)"

record RawKV =
  rkv_Key :: string
  rkv_Value :: string

text \<open>The loop over one batch of \<open>ScanRawRange\<close>.\<close>

fun ScanRawRange_batch :: "string \<Rightarrow> string list list \<Rightarrow> RawKV list \<Rightarrow> store_error + RawKV list" where
  "ScanRawRange_batch stop [] rows = Inr rows"
| "ScanRawRange_batch stop (row # batch) rows =
     (if length row < 2 then Inl MalformedRow
      else if stop \<noteq> '''' \<and> row ! 0 = stop then ScanRawRange_batch stop batch rows
      else ScanRawRange_batch stop batch (rows @ [\<lparr>rkv_Key = row ! 0, rkv_Value = row ! 1\<rparr>]))"

text \<open>The loop over the pages has no bound of its own: \<open>None\<close> stands for a scan that never returns.\<close>

partial_function (option) ScanRawRange_loop ::
  "'e NodeStore \<Rightarrow> string \<Rightarrow> string \<Rightarrow> string \<Rightarrow> 'e \<Rightarrow> int \<Rightarrow> RawKV list \<Rightarrow> ('e \<times> (store_error + RawKV list)) option" where
  "ScanRawRange_loop s start stop scanEnd e page rows =
     (case eng_RangeScan (ns_engine s) e (ns_user s) start scanEnd page rawScanPageSize of
        (e, Inl msg) \<Rightarrow> Some (e, Inl (EngineError msg))
      | (e, Inr batch) \<Rightarrow>
          (case ScanRawRange_batch stop batch rows of
             Inl err \<Rightarrow> Some (e, Inl err)
           | Inr rows \<Rightarrow>
               if int (length batch) < rawScanPageSize then Some (e, Inr rows)
               else ScanRawRange_loop s start stop scanEnd e (wrap64 (page + 1)) rows))"

declare ScanRawRange_loop.simps [code]

definition NodeStore_ScanRawRange ::
  "'e NodeStore \<Rightarrow> 'e \<Rightarrow> string \<Rightarrow> string \<Rightarrow> ('e \<times> (store_error + RawKV list)) option" where
  "NodeStore_ScanRawRange s e start stop =
     (let scanEnd = (if stop = '''' then unboundedRangeEnd else stop)
      in ScanRawRange_loop s start stop scanEnd e 1 [])"

section \<open>server.go\<close>

text \<open>The state of a request's context, and the gRPC status codes the services answer with.\<close>

datatype ContextErr = Context_Canceled | Context_DeadlineExceeded

datatype Code = Canceled | DeadlineExceeded | InvalidArgument | NotFound | FailedPrecondition | Internal | Unavailable

definition FromContextError :: "ContextErr \<Rightarrow> Code" where
  "FromContextError err = (case err of Context_Canceled \<Rightarrow> Canceled | Context_DeadlineExceeded \<Rightarrow> DeadlineExceeded)"

record RangeOwnership =
  ro_IsOwner :: "string \<Rightarrow> bool"
  ro_OwnsKeyRange :: "string \<Rightarrow> string \<Rightarrow> bool"

record 'e NodeServer =
  srv_cfg :: Config
  srv_store :: "'e NodeStore"
  srv_ownership :: RangeOwnership
  srv_ready :: bool

definition NewNodeServer :: "Config \<Rightarrow> 'e NodeStore \<Rightarrow> RangeOwnership \<Rightarrow> 'e NodeServer" where
  "NewNodeServer cfg store ownership =
     \<lparr>srv_cfg = cfg, srv_store = store, srv_ownership = ownership, srv_ready = True\<rparr>"

record PutRequest =
  preq_Key :: string
  preq_Envelope :: "pb_Envelope option"
  preq_Sync :: bool

definition NodeServer_Put ::
  "(Envelope \<Rightarrow> string option) \<Rightarrow> (string \<Rightarrow> Envelope option) \<Rightarrow> 'e NodeServer \<Rightarrow> 'e \<Rightarrow> ContextErr option \<Rightarrow> PutRequest
     \<Rightarrow> 'e \<times> (Code + unit)" where
  "NodeServer_Put marshal unmarshal s e ctx req =
     (case ctx of
        Some err \<Rightarrow> (e, Inl (FromContextError err))
      | None \<Rightarrow>
          if preq_Key req = '''' then (e, Inl InvalidArgument)
          else if \<not> ro_IsOwner (srv_ownership s) (preq_Key req) then (e, Inl FailedPrecondition)
          else case EnvelopeFromProto marshal unmarshal (preq_Envelope req) of
                 Inl err \<Rightarrow> (e, Inl InvalidArgument)
               | Inr envelope \<Rightarrow>
                   (case NodeStore_Put marshal (srv_store s) e (preq_Key req) envelope (preq_Sync req) of
                      (e, Inl err) \<Rightarrow> (e, Inl Internal)
                    | (e, Inr _) \<Rightarrow> (e, Inr ())))"

definition NodeServer_Delete ::
  "(Envelope \<Rightarrow> string option) \<Rightarrow> (string \<Rightarrow> Envelope option) \<Rightarrow> 'e NodeServer \<Rightarrow> 'e \<Rightarrow> ContextErr option \<Rightarrow> PutRequest
     \<Rightarrow> 'e \<times> (Code + unit)" where
  "NodeServer_Delete marshal unmarshal s e ctx req =
     (case ctx of
        Some err \<Rightarrow> (e, Inl (FromContextError err))
      | None \<Rightarrow>
          if preq_Key req = '''' then (e, Inl InvalidArgument)
          else if \<not> ro_IsOwner (srv_ownership s) (preq_Key req) then (e, Inl FailedPrecondition)
          else case EnvelopeFromProto marshal unmarshal (preq_Envelope req) of
                 Inl err \<Rightarrow> (e, Inl InvalidArgument)
               | Inr envelope \<Rightarrow>
                   (case NodeStore_Delete marshal (srv_store s) e (preq_Key req) envelope (preq_Sync req) of
                      (e, Inl err) \<Rightarrow> (e, Inl Internal)
                    | (e, Inr _) \<Rightarrow> (e, Inr ())))"

record GetResponse =
  gresp_Found :: bool
  gresp_Envelope :: "pb_Envelope option"

definition NodeServer_Get ::
  "(string \<Rightarrow> Envelope option) \<Rightarrow> 'e NodeServer \<Rightarrow> 'e \<Rightarrow> ContextErr option \<Rightarrow> string \<Rightarrow> 'e \<times> (Code + GetResponse)" where
  "NodeServer_Get unmarshal s e ctx key =
     (case ctx of
        Some err \<Rightarrow> (e, Inl (FromContextError err))
      | None \<Rightarrow>
          if key = '''' then (e, Inl InvalidArgument)
          else if \<not> ro_IsOwner (srv_ownership s) key then (e, Inl FailedPrecondition)
          else case NodeStore_Get unmarshal (srv_store s) e key of
                 (e, Inl err) \<Rightarrow> (e, Inl Internal)
               | (e, Inr None) \<Rightarrow> (e, Inr \<lparr>gresp_Found = False, gresp_Envelope = None\<rparr>)
               | (e, Inr (Some envelope)) \<Rightarrow>
                   (e, Inr \<lparr>gresp_Found = True, gresp_Envelope = Some (EnvelopeToProto envelope)\<rparr>))"

record RangeScanRequest =
  rreq_Start :: string
  rreq_End :: string
  rreq_PageNum :: int
  rreq_PageSize :: int

definition NodeServer_RangeScan ::
  "(string \<Rightarrow> Envelope option) \<Rightarrow> 'e NodeServer \<Rightarrow> 'e \<Rightarrow> ContextErr option \<Rightarrow> RangeScanRequest
     \<Rightarrow> 'e \<times> (Code + pb_KeyEnvelope list)" where
  "NodeServer_RangeScan unmarshal s e ctx req =
     (case ctx of
        Some err \<Rightarrow> (e, Inl (FromContextError err))
      | None \<Rightarrow>
          if rreq_PageNum req < 1 then (e, Inl InvalidArgument)
          else if rreq_PageSize req < 1 then (e, Inl InvalidArgument)
          else if \<not> ro_OwnsKeyRange (srv_ownership s) (rreq_Start req) (rreq_End req) then (e, Inl FailedPrecondition)
          else case NodeStore_ScanRange unmarshal (srv_store s) e (rreq_Start req) (rreq_End req)
                      (rreq_PageNum req) (rreq_PageSize req) of
                 (e, Inl err) \<Rightarrow> (e, Inl Internal)
               | (e, Inr rows) \<Rightarrow> (e, Inr (map KeyEnvelopeToProto rows)))"

record NodeInfo =
  ni_NodeId :: string
  ni_ClusterId :: string
  ni_AdvertiseAddr :: string

definition NodeServer_Health :: "'e NodeServer \<Rightarrow> ContextErr option \<Rightarrow> Code + (NodeInfo \<times> bool)" where
  "NodeServer_Health s ctx =
     (case ctx of
        Some err \<Rightarrow> Inl (FromContextError err)
      | None \<Rightarrow>
          if NodeID (srv_cfg s) = '''' then Inl FailedPrecondition
          else Inr (\<lparr>ni_NodeId = NodeID (srv_cfg s), ni_ClusterId = ClusterID (srv_cfg s),
                     ni_AdvertiseAddr = AdvertiseAddr (srv_cfg s)\<rparr>, srv_ready s))"

section \<open>What the store relies on\<close>

text \<open>
  The JSON codec: an envelope survives a round trip when its strings are valid UTF-8. The decoded
  clock is the same map, whatever its iteration order.
\<close>

definition env_sim :: "Envelope \<Rightarrow> Envelope \<Rightarrow> bool" where
  "env_sim e e' \<longleftrightarrow> Version e' = Version e \<and> UpdatedAtUnixNano e' = UpdatedAtUnixNano e \<and> Deleted e' = Deleted e
     \<and> Value e' = Value e \<and> gmap_ok (Clock e') \<and> map_of (Clock e') = map_of (Clock e)"

definition json_ok :: "(Envelope \<Rightarrow> string option) \<Rightarrow> (string \<Rightarrow> Envelope option) \<Rightarrow> Envelope \<Rightarrow> bool" where
  "json_ok marshal unmarshal e \<longleftrightarrow>
     (\<exists>data e'. marshal e = Some data \<and> unmarshal data = Some e' \<and> env_sim e e')"

text \<open>
  The engine as a key-value store: for one user, a state that satisfies the engine's invariant holds
  rows sorted by key. A write that succeeds is visible, one that fails may or may not have been
  applied, and neither touches another key; a read answers from the rows; a range scan returns one
  page of the rows between two keys, both included.
\<close>

definition write_effect :: "('e \<Rightarrow> (string \<times> string) list) \<Rightarrow> 'e \<Rightarrow> string \<Rightarrow> string \<Rightarrow> 'e \<Rightarrow> bool \<Rightarrow> bool" where
  "write_effect rows e k v e' ok \<longleftrightarrow>
     (\<forall>k'. k' \<noteq> k \<longrightarrow> map_of (rows e') k' = map_of (rows e) k')
     \<and> (map_of (rows e') k = Some v \<or> \<not> ok \<and> map_of (rows e') k = map_of (rows e) k)"

definition page_rows :: "(string \<times> string) list \<Rightarrow> string \<Rightarrow> string \<Rightarrow> int \<Rightarrow> int \<Rightarrow> string list list" where
  "page_rows rs start stop p n =
     map (\<lambda>(k, v). [k, v]) (take (nat n) (drop (nat ((p - 1) * n)) (filter (\<lambda>(k, v). start \<le> k \<and> k \<le> stop) rs)))"

definition scan_law :: "'e LocalEngine \<Rightarrow> string \<Rightarrow> ('e \<Rightarrow> bool) \<Rightarrow> ('e \<Rightarrow> (string \<times> string) list) \<Rightarrow> bool" where
  "scan_law eng user einv rows \<longleftrightarrow>
     (\<forall>e start stop p n e' r. einv e \<and> 1 \<le> p \<and> 1 \<le> n \<and> eng_RangeScan eng e user start stop p n = (e', r) \<longrightarrow>
        einv e' \<and> rows e' = rows e \<and> (\<forall>x. r = Inr x \<longrightarrow> x = page_rows (rows e) start stop p n))"

definition kv_engine :: "'e LocalEngine \<Rightarrow> string \<Rightarrow> ('e \<Rightarrow> bool) \<Rightarrow> ('e \<Rightarrow> (string \<times> string) list) \<Rightarrow> bool" where
  "kv_engine eng user einv rows \<longleftrightarrow>
     (\<forall>e. einv e \<longrightarrow> sorted (map fst (rows e)) \<and> distinct (map fst (rows e)))
     \<and> (\<forall>e k v e' r. einv e \<longrightarrow> IsEncoded v \<longrightarrow> eng_Write eng e user k v False = (e', r) \<longrightarrow>
           einv e' \<and> write_effect rows e k v e' (r = Inr ()))
     \<and> (\<forall>e k v e' r. einv e \<longrightarrow> IsEncoded v \<longrightarrow> eng_WriteAsync eng e user k v = (e', r) \<longrightarrow>
           einv e' \<and> write_effect rows e k v e' (r = Inr ()))
     \<and> (\<forall>e k e' r. einv e \<longrightarrow> eng_Read eng e user k = (e', r) \<longrightarrow>
           einv e' \<and> rows e' = rows e \<and> (\<forall>x. r = Inr x \<longrightarrow> x = map_of (rows e) k))
     \<and> scan_law eng user einv rows"

lemma kv_engine_rows: "kv_engine eng user einv rows \<Longrightarrow> einv e \<Longrightarrow> sorted (map fst (rows e)) \<and> distinct (map fst (rows e))"
  unfolding kv_engine_def by (elim conjE) blast

lemma kv_engine_Write:
  "kv_engine eng user einv rows \<Longrightarrow> einv e \<Longrightarrow> IsEncoded v \<Longrightarrow> eng_Write eng e user k v False = (e', r)
     \<Longrightarrow> einv e' \<and> write_effect rows e k v e' (r = Inr ())"
  unfolding kv_engine_def by (elim conjE) blast

lemma kv_engine_WriteAsync:
  "kv_engine eng user einv rows \<Longrightarrow> einv e \<Longrightarrow> IsEncoded v \<Longrightarrow> eng_WriteAsync eng e user k v = (e', r)
     \<Longrightarrow> einv e' \<and> write_effect rows e k v e' (r = Inr ())"
  unfolding kv_engine_def by (elim conjE) blast

lemma kv_engine_Read:
  "kv_engine eng user einv rows \<Longrightarrow> einv e \<Longrightarrow> eng_Read eng e user k = (e', r)
     \<Longrightarrow> einv e' \<and> rows e' = rows e \<and> (\<forall>x. r = Inr x \<longrightarrow> x = map_of (rows e) k)"
  unfolding kv_engine_def by (elim conjE) blast

lemma kv_engine_RangeScan:
  "kv_engine eng user einv rows \<Longrightarrow> einv e \<Longrightarrow> 1 \<le> p \<Longrightarrow> 1 \<le> n \<Longrightarrow> eng_RangeScan eng e user start stop p n = (e', r)
     \<Longrightarrow> einv e' \<and> rows e' = rows e \<and> (\<forall>x. r = Inr x \<longrightarrow> x = page_rows (rows e) start stop p n)"
proof -
  assume kv: "kv_engine eng user einv rows"
    and prem: "einv e" "1 \<le> p" "1 \<le> n" "eng_RangeScan eng e user start stop p n = (e', r)"
  have "scan_law eng user einv rows" using kv unfolding kv_engine_def by (elim conjE)
  from this [unfolded scan_law_def, rule_format, OF conjI [OF prem(1) conjI [OF prem(2) conjI [OF prem(3,4)]]]]
  show ?thesis by blast
qed

section \<open>The store as a map of envelopes\<close>

lemma Encode_IsEncoded: "Encode marshal e = Inr raw \<Longrightarrow> IsEncoded raw"
  by (auto simp: Encode_def IsEncoded_def Let_def split: sum.splits option.splits)

lemma normalize_sim [simp]: "env_sim (Envelope_normalize e) e' \<Longrightarrow> Envelope_normalize e' = e'"
  by (cases e') (auto simp: env_sim_def Envelope_normalize_def Let_def)

lemma validate_sim: "env_sim e e' \<Longrightarrow> Envelope_validate e' = Envelope_validate e"
  by (simp add: env_sim_def Envelope_validate_def)

lemma Decode_Encode:
  assumes "Encode marshal e = Inr raw" and "json_ok marshal unmarshal (Envelope_normalize e)"
  obtains e' where "Decode unmarshal raw = Inr e'" and "env_sim (Envelope_normalize e) e'"
proof -
  obtain data e' where d: "marshal (Envelope_normalize e) = Some data" "unmarshal data = Some e'"
      "env_sim (Envelope_normalize e) e'"
    using assms(2) by (auto simp: json_ok_def)
  have "raw = MagicPrefix @ data" "Envelope_validate (Envelope_normalize e) = Inr ()"
    using assms(1) d(1) by (auto simp: Encode_def Let_def split: sum.splits)
  then have "Decode unmarshal raw = Inr e'"
    using d validate_sim [OF d(3)] by (simp add: Decode_def IsEncoded_def)
  with d(3) show thesis by (rule that [rotated])
qed

text \<open>The envelope a node holds for a key.\<close>

definition held :: "(string \<Rightarrow> Envelope option) \<Rightarrow> (string \<times> string) list \<Rightarrow> string \<Rightarrow> Envelope option" where
  "held unmarshal rs k =
     (case map_of rs k of None \<Rightarrow> None
      | Some raw \<Rightarrow> (case Decode unmarshal raw of Inl _ \<Rightarrow> None | Inr e \<Rightarrow> Some e))"

lemma held_cong: "map_of rs k = map_of rs' k \<Longrightarrow> held u rs k = held u rs' k"
  by (simp add: held_def)

definition stored :: "(string \<Rightarrow> Envelope option) \<Rightarrow> (string \<times> string) list \<Rightarrow> string \<Rightarrow> Envelope \<Rightarrow> bool" where
  "stored unmarshal rs k e \<longleftrightarrow> (\<exists>e'. held unmarshal rs k = Some e' \<and> env_sim (Envelope_normalize e) e')"

lemma writeEnvelope_effect:
  assumes kv: "kv_engine (ns_engine s) (ns_user s) einv rows" and einv: "einv e"
    and js: "json_ok marshal unmarshal (Envelope_normalize env)"
    and w: "NodeStore_writeEnvelope marshal s e key env sync = (e', r)"
  shows "einv e' \<and> (\<forall>k. k \<noteq> key \<longrightarrow> held unmarshal (rows e') k = held unmarshal (rows e) k)
    \<and> (stored unmarshal (rows e') key env \<or> r \<noteq> Inr () \<and> held unmarshal (rows e') key = held unmarshal (rows e) key)"
proof (cases "Encode marshal env")
  case (Inl err)
  then show ?thesis using w einv by (auto simp: NodeStore_writeEnvelope_def)
next
  case (Inr raw)
  have enc: "IsEncoded raw" by (rule Encode_IsEncoded [OF Inr])
  obtain v where v: "Decode unmarshal raw = Inr v" "env_sim (Envelope_normalize env) v"
    by (rule Decode_Encode [OF Inr js])
  obtain q where q: "(if sync then eng_Write (ns_engine s) e (ns_user s) key raw False
      else eng_WriteAsync (ns_engine s) e (ns_user s) key raw) = (e', q)" "r = Inr () \<longleftrightarrow> q = Inr ()"
    using w Inr by (auto simp: NodeStore_writeEnvelope_def engine_result_def split: if_splits sum.splits prod.splits)
  then have eff: "einv e' \<and> write_effect rows e key raw e' (q = Inr ())"
    using kv_engine_Write [OF kv einv enc] kv_engine_WriteAsync [OF kv einv enc] by (cases sync) auto
  then have "held unmarshal (rows e') k = held unmarshal (rows e) k" if "k \<noteq> key" for k
    using that by (intro held_cong) (simp add: write_effect_def)
  moreover have "stored unmarshal (rows e') key env" if "map_of (rows e') key = Some raw"
    using that v by (simp add: stored_def held_def)
  moreover have "held unmarshal (rows e') key = held unmarshal (rows e) key" if "map_of (rows e') key = map_of (rows e) key"
    using that by (rule held_cong)
  ultimately show ?thesis using eff q(2) by (auto simp: write_effect_def)
qed

lemma Get_result:
  assumes kv: "kv_engine (ns_engine s) (ns_user s) einv rows" and einv: "einv e"
    and g: "NodeStore_Get unmarshal s e key = (e', r)"
  shows "einv e' \<and> rows e' = rows e \<and> (\<forall>x. r = Inr x \<longrightarrow> x = held unmarshal (rows e) key)"
proof -
  obtain e1 q where q: "eng_Read (ns_engine s) e (ns_user s) key = (e1, q)" by fastforce
  note law = kv_engine_Read [OF kv einv q]
  show ?thesis
    using g q law
    by (auto simp: NodeStore_Get_def held_def split: sum.splits option.splits)
qed

section \<open>The raw scan\<close>

definition mk_raw :: "string \<times> string \<Rightarrow> RawKV" where
  "mk_raw = (\<lambda>(k, v). \<lparr>rkv_Key = k, rkv_Value = v\<rparr>)"

lemma ScanRawRange_batch_rows:
  "ScanRawRange_batch stop (map (\<lambda>(k, v). [k, v]) b) acc =
     Inr (acc @ map mk_raw (filter (\<lambda>(k, v). stop = '''' \<or> k \<noteq> stop) b))"
  by (induction b arbitrary: acc) (auto simp: mk_raw_def)

text \<open>
  The pages are read one after the other until one is not full; there are finitely many, so the
  loop returns.
\<close>

lemma ScanRawRange_loop_result:
  assumes kv: "kv_engine (ns_engine s) (ns_user s) einv rows" and inv: "einv e"
    and m: "m = filter (\<lambda>(k, v). start \<le> k \<and> k \<le> scanEnd) (rows e)"
    and q: "1000 * q \<le> length m" and big: "length m < 2 ^ 62"
    and acc: "acc = map mk_raw (filter (\<lambda>(k, v). stop = '''' \<or> k \<noteq> stop) (take (1000 * q) m))"
  shows "\<exists>e' r. ScanRawRange_loop s start stop scanEnd e (int q + 1) acc = Some (e', r) \<and> einv e' \<and> rows e' = rows e
    \<and> (case r of Inl err \<Rightarrow> \<exists>msg. err = EngineError msg
       | Inr out \<Rightarrow> out = map mk_raw (filter (\<lambda>(k, v). stop = '''' \<or> k \<noteq> stop) m))"
  using inv m q acc
proof (induction "length m - 1000 * q" arbitrary: q e acc rule: less_induct)
  case less
  obtain e1 r1 where scan: "eng_RangeScan (ns_engine s) e (ns_user s) start scanEnd (int q + 1) rawScanPageSize = (e1, r1)"
    by fastforce
  have law: "einv e1 \<and> rows e1 = rows e \<and> (\<forall>x. r1 = Inr x \<longrightarrow> x = page_rows (rows e) start scanEnd (int q + 1) rawScanPageSize)"
    by (rule kv_engine_RangeScan [OF kv less.prems(1) _ _ scan]) (simp_all add: rawScanPageSize_def)
  show ?case
  proof (cases r1)
    case (Inl msg)
    then show ?thesis using scan law by (subst ScanRawRange_loop.simps) simp
  next
    case (Inr batch)
    define b where "b = take 1000 (drop (1000 * q) m)"
    have batch: "batch = map (\<lambda>(k, v). [k, v]) b"
      using law Inr less.prems(2) by (simp add: page_rows_def rawScanPageSize_def b_def nat_mult_distrib mult.commute)
    define acc' where "acc' = acc @ map mk_raw (filter (\<lambda>(k, v). stop = '''' \<or> k \<noteq> stop) b)"
    have acc': "acc' = map mk_raw (filter (\<lambda>(k, v). stop = '''' \<or> k \<noteq> stop) (take (1000 * (q + 1)) m))"
      using take_add [of "1000 * q" 1000 m] by (simp add: acc'_def less.prems(4) b_def add.commute)
    show ?thesis
    proof (cases "length b < 1000")
      case True
      then have "take (1000 * (q + 1)) m = m" by (auto simp: b_def)
      then have all: "acc' = map mk_raw (filter (\<lambda>(k, v). stop = '''' \<or> k \<noteq> stop) m)" using acc' by simp
      have "ScanRawRange_loop s start stop scanEnd e (int q + 1) acc = Some (e1, Inr acc')"
        using scan Inr batch True
        by (subst ScanRawRange_loop.simps) (simp add: ScanRawRange_batch_rows rawScanPageSize_def acc'_def [symmetric])
      then show ?thesis using law all by simp
    next
      case False
      then have full: "1000 * (q + 1) \<le> length m" by (simp add: b_def)
      have "q + 2 \<le> 1000 * (q + 1)" by simp
      also have "\<dots> < 2 ^ 62" using full big by (rule le_less_trans)
      finally have "q + 2 < 2 ^ 62" .
      then have "int (q + 2) < int (2 ^ 62)" by (simp only: of_nat_less_iff)
      then have "int (q + 1) + 1 < 2 ^ 63" by simp
      then have w: "wrap64 (int q + 1 + 1) = int (q + 1) + 1" by (subst wrap64_id) simp_all
      have IH: "\<exists>e' r. ScanRawRange_loop s start stop scanEnd e1 (int (q + 1) + 1) acc' = Some (e', r) \<and> einv e' \<and> rows e' = rows e1
        \<and> (case r of Inl err \<Rightarrow> \<exists>msg. err = EngineError msg
           | Inr out \<Rightarrow> out = map mk_raw (filter (\<lambda>(k, v). stop = '''' \<or> k \<noteq> stop) m))"
        using law full acc' less.prems(2) by (intro less.hyps) simp_all
      have "ScanRawRange_loop s start stop scanEnd e (int q + 1) acc
          = ScanRawRange_loop s start stop scanEnd e1 (int (q + 1) + 1) acc'"
        using scan Inr batch False w
        by (subst ScanRawRange_loop.simps)
           (simp add: ScanRawRange_batch_rows rawScanPageSize_def acc'_def [symmetric] b_def [symmetric])
      then show ?thesis using IH law by simp
    qed
  qed
qed

definition in_raw_range :: "string \<Rightarrow> string \<Rightarrow> string \<Rightarrow> bool" where
  "in_raw_range start stop k \<longleftrightarrow> start \<le> k \<and> (if stop = '''' then k \<le> unboundedRangeEnd else k < stop)"

lemma ScanRawRange_result:
  assumes kv: "kv_engine (ns_engine s) (ns_user s) einv rows" and inv: "einv e" and big: "length (rows e) < 2 ^ 62"
  obtains e' r where "NodeStore_ScanRawRange s e start stop = Some (e', r)" "einv e'" "rows e' = rows e"
    "case r of Inl err \<Rightarrow> \<exists>msg. err = EngineError msg
       | Inr out \<Rightarrow> out = map mk_raw (filter (\<lambda>(k, v). in_raw_range start stop k) (rows e))"
proof -
  define scanEnd where "scanEnd = (if stop = '''' then unboundedRangeEnd else stop)"
  define m where "m = filter (\<lambda>(k, v). start \<le> k \<and> k \<le> scanEnd) (rows e)"
  have len: "length m < 2 ^ 62" using big by (metis m_def length_filter_le le_less_trans)
  have eq: "filter (\<lambda>(k, v). stop = '''' \<or> k \<noteq> stop) m = filter (\<lambda>(k, v). in_raw_range start stop k) (rows e)"
    unfolding m_def filter_filter by (rule filter_cong) (auto simp: in_raw_range_def scanEnd_def)
  have "\<exists>e' r. ScanRawRange_loop s start stop scanEnd e (int 0 + 1) [] = Some (e', r) \<and> einv e' \<and> rows e' = rows e
    \<and> (case r of Inl err \<Rightarrow> \<exists>msg. err = EngineError msg
       | Inr out \<Rightarrow> out = map mk_raw (filter (\<lambda>(k, v). stop = '''' \<or> k \<noteq> stop) m))"
    by (rule ScanRawRange_loop_result [OF kv inv m_def _ len]) simp_all
  from this [unfolded eq] obtain e' r where
    "ScanRawRange_loop s start stop scanEnd e 1 [] = Some (e', r)" "einv e'" "rows e' = rows e"
    "case r of Inl err \<Rightarrow> \<exists>msg. err = EngineError msg
       | Inr out \<Rightarrow> out = map mk_raw (filter (\<lambda>(k, v). in_raw_range start stop k) (rows e))" by auto
  then show thesis by (intro that [of e' r]) (simp_all add: NodeStore_ScanRawRange_def scanEnd_def [symmetric])
qed

section \<open>Properties\<close>

lemma store_write_effect:
  assumes kv: "kv_engine (ns_engine s) (ns_user s) einv rows" and inv: "einv e"
    and js: "json_ok marshal unmarshal (Envelope_normalize env)"
    and w: "(if Deleted env then NodeStore_Delete marshal s e key env sync else NodeStore_Put marshal s e key env sync) = (e', r)"
  shows "einv e' \<and> (\<forall>k. k \<noteq> key \<longrightarrow> held unmarshal (rows e') k = held unmarshal (rows e) k)
    \<and> (stored unmarshal (rows e') key env \<or> r \<noteq> Inr () \<and> held unmarshal (rows e') key = held unmarshal (rows e) key)"
  using w by (intro writeEnvelope_effect [OF kv inv js, where sync = sync])
             (simp add: NodeStore_Put_def NodeStore_Delete_def split: if_splits)


text \<open>
  C15: \<open>ScanRawRange\<close> always returns, whatever the number of pages, and what it returns is an engine
  error or every stored row of the half-open interval in key order, each once; an open end stops at
  \<open>unboundedRangeEnd\<close>. It changes no row.
\<close>

theorem ScanRawRange_complete:
  assumes "kv_engine (ns_engine s) (ns_user s) einv rows" and "einv e" and "length (rows e) < 2 ^ 62"
  shows "\<exists>e' r. NodeStore_ScanRawRange s e start stop = Some (e', r) \<and> rows e' = rows e
    \<and> (case r of Inl err \<Rightarrow> \<exists>msg. err = EngineError msg
       | Inr out \<Rightarrow> map rkv_Key out = filter (in_raw_range start stop) (map fst (rows e))
           \<and> (\<forall>kv\<in>set out. map_of (rows e) (rkv_Key kv) = Some (rkv_Value kv)))"
proof -
  obtain e' r where *: "NodeStore_ScanRawRange s e start stop = Some (e', r)" "rows e' = rows e"
    "case r of Inl err \<Rightarrow> \<exists>msg. err = EngineError msg
       | Inr out \<Rightarrow> out = map mk_raw (filter (\<lambda>(k, v). in_raw_range start stop k) (rows e))"
    using ScanRawRange_result [OF assms] by metis
  have keys: "map (rkv_Key \<circ> mk_raw) (filter (\<lambda>(k, v). in_raw_range start stop k) rs) = filter (in_raw_range start stop) (map fst rs)" for rs
    by (induction rs) (auto simp: mk_raw_def)
  have "map_of (rows e) (rkv_Key (mk_raw kv)) = Some (rkv_Value (mk_raw kv))" if "kv \<in> set (rows e)" for kv
    using that kv_engine_rows [OF assms(1,2)] by (simp add: mk_raw_def split_beta)
  then show ?thesis using * keys by (intro exI [of _ e'] exI [of _ r]) (auto split: sum.splits)
qed

text \<open>The range table as the ownership interface of the server.\<close>

definition table_ownership :: "Table \<Rightarrow> RangeOwnership" where
  "table_ownership t = \<lparr>ro_IsOwner = Table_IsOwner t, ro_OwnsKeyRange = Table_OwnsKeyRange t\<rparr>"

lemma IsOwner_iff: "Table_IsOwner t k \<longleftrightarrow> localNodeID t \<in> set (Table_Owners t k)"
  by (auto simp: Table_IsOwner_def list_ex_iff)


section \<open>Concrete runs\<close>

text \<open>An engine that keeps its rows in a sorted list, and a codec for one envelope.\<close>

fun put_row :: "string \<Rightarrow> string \<Rightarrow> (string \<times> string) list \<Rightarrow> (string \<times> string) list" where
  "put_row k v [] = [(k, v)]"
| "put_row k v ((k', v') # rs) =
     (if k < k' then (k, v) # (k', v') # rs else if k = k' then (k, v) # rs else (k', v') # put_row k v rs)"

definition list_engine :: "(string \<times> string) list LocalEngine" where
  "list_engine =
     \<lparr>eng_Write = \<lambda>e _ k v _. (put_row k v e, Inr ()),
      eng_WriteAsync = \<lambda>e _ k v. (put_row k v e, Inr ()),
      eng_Read = \<lambda>e _ k. (e, Inr (map_of e k)),
      eng_RangeScan = \<lambda>e _ start stop p n. (e, Inr (page_rows e start stop p n))\<rparr>"

definition ex_store :: "(string \<times> string) list NodeStore" where
  "ex_store = NewNodeStore list_engine ''''"

definition rows_ok :: "(string \<times> string) list \<Rightarrow> bool" where
  "rows_ok rs \<longleftrightarrow> sorted (map fst rs) \<and> distinct (map fst rs)"

lemma put_row_map [simp]: "map_of (put_row k v rs) = (map_of rs)(k \<mapsto> v)"
  by (induction k v rs rule: put_row.induct) (auto simp: fun_upd_twist)

lemma put_row_keys: "fst ` set (put_row k v rs) = insert k (fst ` set rs)"
  by (induction k v rs rule: put_row.induct) auto

lemma put_row_ok: "rows_ok rs \<Longrightarrow> rows_ok (put_row k v rs)"
proof (induction k v rs rule: put_row.induct)
  case (2 k v k' v' rs)
  have "\<forall>x\<in>fst ` set (put_row k v rs). k' \<le> x \<and> x \<noteq> k'" if "\<not> k < k'" "k \<noteq> k'"
    using that "2.prems" unfolding put_row_keys by (auto simp: rows_ok_def)
  then show ?case using 2 by (fastforce simp: rows_ok_def)
qed (simp add: rows_ok_def)

lemma ex_store_kv: "kv_engine (ns_engine ex_store) (ns_user ex_store) rows_ok (\<lambda>e. e)"
  unfolding kv_engine_def scan_law_def
  by (auto simp: ex_store_def NewNodeStore_def list_engine_def put_row_ok write_effect_def rows_ok_def [symmetric])

definition ex_put :: Envelope where
  "ex_put = NewPut [(''n1'', 1)] ''v'' 7"

definition ex_marshal :: "Envelope \<Rightarrow> string option" where
  "ex_marshal e = (if e = ex_put then Some ''P'' else None)"

definition ex_unmarshal :: "string \<Rightarrow> Envelope option" where
  "ex_unmarshal s = (if s = ''P'' then Some ex_put else None)"

lemma ex_put_simps [simp]: "Envelope_normalize ex_put = ex_put" "Envelope_validate ex_put = Inr ()" "Deleted ex_put = False"
  by (simp_all add: ex_put_def NewPut_def Envelope_normalize_def Envelope_validate_def EnvelopeVersion_def)

lemma ex_json: "json_ok ex_marshal ex_unmarshal ex_put"
  by (simp add: json_ok_def ex_marshal_def ex_unmarshal_def env_sim_def) (simp add: ex_put_def NewPut_def)

lemma ex_Encode: "Encode ex_marshal ex_put = Inr (MagicPrefix @ ''P'')"
  by (simp add: Encode_def ex_marshal_def)

lemma ex_Decode: "Decode ex_unmarshal (MagicPrefix @ ''P'') = Inr ex_put"
  by (simp add: Decode_def IsEncoded_def ex_unmarshal_def)


theorem ScanRawRange_complete_witness:
  "\<exists>e' r. NodeStore_ScanRawRange ex_store [(''a'', ''1''), (''b'', ''2''), (''c'', ''3'')] ''b'' ''c'' = Some (e', r)
    \<and> e' = [(''a'', ''1''), (''b'', ''2''), (''c'', ''3'')]"
  using ScanRawRange_complete [OF ex_store_kv, of "[(''a'', ''1''), (''b'', ''2''), (''c'', ''3'')]" "''b''" "''c''"]
  by (fastforce simp: rows_ok_def)


end
