(* ===== verification/Coordination.thy ===== *)
theory Coordination
  imports NodeStore
begin

text \<open>
  The leaderless quorum path: \<open>src/cluster/coordination/coordinator.go\<close> and
  \<open>src/cluster/coordination/server.go\<close>.

  The coordinator's collaborators (range table, address book, replica client, local store) are
  interfaces; here they are records of operations on a world of any type. The goroutines of a
  fan-out take effect one after the other in an order that the argument \<open>sched\<close> chooses: it returns
  a permutation of the owners. \<open>time.Now()\<close> is an argument; a request context that ends early shows
  as an error of the replica client.
\<close>

section \<open>coordinator.go\<close>

record 'w ReplicaClient =
  rc_Put :: "'w \<Rightarrow> string \<Rightarrow> string \<Rightarrow> Envelope \<Rightarrow> bool \<Rightarrow> 'w \<times> (string + unit)"
  rc_Delete :: "'w \<Rightarrow> string \<Rightarrow> string \<Rightarrow> Envelope \<Rightarrow> bool \<Rightarrow> 'w \<times> (string + unit)"
  rc_Get :: "'w \<Rightarrow> string \<Rightarrow> string \<Rightarrow> 'w \<times> (string + Envelope option)"

record 'w LocalStore =
  ls_Put :: "'w \<Rightarrow> string \<Rightarrow> Envelope \<Rightarrow> bool \<Rightarrow> 'w \<times> (string + unit)"
  ls_Delete :: "'w \<Rightarrow> string \<Rightarrow> Envelope \<Rightarrow> bool \<Rightarrow> 'w \<times> (string + unit)"
  ls_Get :: "'w \<Rightarrow> string \<Rightarrow> 'w \<times> (string + Envelope option)"

record CoordConfig =
  cc_ReplicationTimeout :: int
  cc_ReadQuorum :: int
  cc_WriteQuorum :: int

text \<open>\<open>InvalidRequestError\<close> is told apart from the other errors of the coordinator.\<close>

datatype coord_error =
    InvalidRequestError string
  | NoOwners string
  | QuorumNotMet string string int int

record WriteResult =
  wr_VectorClock :: VectorClock
  wr_Acks :: int
  wr_Required :: int

record ReadResult =
  rr_Versions :: "Envelope list"
  rr_VectorClock :: VectorClock

definition zero_WriteResult :: WriteResult where
  "zero_WriteResult = \<lparr>wr_VectorClock = [], wr_Acks = 0, wr_Required = 0\<rparr>"

definition zero_ReadResult :: ReadResult where
  "zero_ReadResult = \<lparr>rr_Versions = [], rr_VectorClock = []\<rparr>"

record 'w Coordinator =
  co_nodeID :: string
  co_owners :: "'w \<Rightarrow> string \<Rightarrow> string list"
  co_addresses :: "'w \<Rightarrow> string \<Rightarrow> string option"
  co_replicas :: "'w ReplicaClient"
  co_local :: "'w LocalStore"
  co_cfg :: CoordConfig

definition NewCoordinator ::
  "string \<Rightarrow> ('w \<Rightarrow> string \<Rightarrow> string list) \<Rightarrow> ('w \<Rightarrow> string \<Rightarrow> string option) \<Rightarrow> 'w ReplicaClient \<Rightarrow> 'w LocalStore
     \<Rightarrow> CoordConfig \<Rightarrow> 'w Coordinator" where
  "NewCoordinator nodeID owners addresses replicas local cfg =
     \<lparr>co_nodeID = nodeID, co_owners = owners, co_addresses = addresses, co_replicas = replicas,
      co_local = local, co_cfg = cfg\<rparr>"

definition resolveWriteQuorum :: "'w Coordinator \<Rightarrow> 'w \<Rightarrow> string \<Rightarrow> int \<Rightarrow> coord_error + (string list \<times> int)" where
  "resolveWriteQuorum c w key requestedQuorum =
     (let owners = co_owners c w key
      in if length owners = 0 then Inl (NoOwners key)
         else let quorum = (if requestedQuorum \<le> 0 then cc_WriteQuorum (co_cfg c) else requestedQuorum)
              in if quorum > int (length owners) then Inl (InvalidRequestError ''requested write quorum exceeds owner count'')
                 else Inr (owners, quorum))"

definition writeResult :: "VectorClock \<Rightarrow> int \<Rightarrow> int \<Rightarrow> string \<Rightarrow> string \<Rightarrow> WriteResult \<times> coord_error option" where
  "writeResult clock acks quorum key op =
     (let result = \<lparr>wr_VectorClock = clock, wr_Acks = acks, wr_Required = quorum\<rparr>
      in if acks < quorum then (result, Some (QuorumNotMet op key acks quorum)) else (result, None))"

definition writeToOwner :: "'w Coordinator \<Rightarrow> string \<Rightarrow> Envelope \<Rightarrow> 'w \<Rightarrow> string \<Rightarrow> 'w \<times> (string + unit)" where
  "writeToOwner c key envelope w ownerID =
     (if ownerID = co_nodeID c
      then (if Deleted envelope then ls_Delete (co_local c) w key envelope True
            else ls_Put (co_local c) w key envelope True)
      else case co_addresses c w ownerID of
             None \<Rightarrow> (w, Inl ''no address known'')
           | Some addr \<Rightarrow>
               if Deleted envelope then rc_Delete (co_replicas c) w addr key envelope True
               else rc_Put (co_replicas c) w addr key envelope True)"

definition readFromOwner :: "'w Coordinator \<Rightarrow> string \<Rightarrow> 'w \<Rightarrow> string \<Rightarrow> 'w \<times> (string + Envelope option)" where
  "readFromOwner c key w ownerID =
     (if ownerID = co_nodeID c then ls_Get (co_local c) w key
      else case co_addresses c w ownerID of
             None \<Rightarrow> (w, Inl ''no address known'')
           | Some addr \<Rightarrow> rc_Get (co_replicas c) w addr key)"

text \<open>The goroutines of a write run in the order given; the result counts the replies without error.\<close>

fun fanOutWrite :: "('w \<Rightarrow> string \<Rightarrow> 'w \<times> (string + unit)) \<Rightarrow> string list \<Rightarrow> 'w \<Rightarrow> 'w \<times> int" where
  "fanOutWrite app [] w = (w, 0)"
| "fanOutWrite app (ownerID # order) w =
     (case app w ownerID of
        (w, r) \<Rightarrow>
          (case fanOutWrite app order w of
             (w, acks) \<Rightarrow> (w, if isl r then acks else acks + 1)))"

fun fanOutRead :: "('w \<Rightarrow> string \<Rightarrow> 'w \<times> (string + Envelope option)) \<Rightarrow> string list \<Rightarrow> 'w
    \<Rightarrow> 'w \<times> (string + Envelope option) list" where
  "fanOutRead read [] w = (w, [])"
| "fanOutRead read (ownerID # order) w =
     (case read w ownerID of
        (w, outcome) \<Rightarrow>
          (case fanOutRead read order w of
             (w, outcomes) \<Rightarrow> (w, outcome # outcomes)))"

definition Coordinator_Put ::
  "(string list \<Rightarrow> string list) \<Rightarrow> int \<Rightarrow> 'w Coordinator \<Rightarrow> 'w \<Rightarrow> string \<Rightarrow> string \<Rightarrow> VectorClock \<Rightarrow> int
     \<Rightarrow> 'w \<times> WriteResult \<times> coord_error option" where
  "Coordinator_Put sched now c w key value clockContext requestedQuorum =
     (if key = '''' then (w, zero_WriteResult, Some (InvalidRequestError ''key must not be empty''))
      else case resolveWriteQuorum c w key requestedQuorum of
             Inl err \<Rightarrow> (w, zero_WriteResult, Some err)
           | Inr (owners, quorum) \<Rightarrow>
               (let newClock = VectorClock_Increment clockContext (co_nodeID c);
                    envelope = NewPut newClock value now
                in case fanOutWrite (writeToOwner c key envelope) (sched owners) w of
                     (w, acks) \<Rightarrow> (w, writeResult newClock acks quorum key ''put'')))"

definition Coordinator_Delete ::
  "(string list \<Rightarrow> string list) \<Rightarrow> int \<Rightarrow> 'w Coordinator \<Rightarrow> 'w \<Rightarrow> string \<Rightarrow> VectorClock \<Rightarrow> int
     \<Rightarrow> 'w \<times> WriteResult \<times> coord_error option" where
  "Coordinator_Delete sched now c w key clockContext requestedQuorum =
     (if key = '''' then (w, zero_WriteResult, Some (InvalidRequestError ''key must not be empty''))
      else case resolveWriteQuorum c w key requestedQuorum of
             Inl err \<Rightarrow> (w, zero_WriteResult, Some err)
           | Inr (owners, quorum) \<Rightarrow>
               (let newClock = VectorClock_Increment clockContext (co_nodeID c);
                    envelope = NewDelete newClock now
                in case fanOutWrite (writeToOwner c key envelope) (sched owners) w of
                     (w, acks) \<Rightarrow> (w, writeResult newClock acks quorum key ''delete'')))"

text \<open>The loop of \<open>Get\<close> over the outcomes: the number of acknowledgements and the versions found.\<close>

fun Get_collect :: "(string + Envelope option) list \<Rightarrow> int \<times> Envelope list \<Rightarrow> int \<times> Envelope list" where
  "Get_collect [] acc = acc"
| "Get_collect (outcome # outcomes) (acks, found) =
     (case outcome of
        Inl err \<Rightarrow> Get_collect outcomes (acks, found)
      | Inr None \<Rightarrow> Get_collect outcomes (acks + 1, found)
      | Inr (Some envelope) \<Rightarrow> Get_collect outcomes (acks + 1, found @ [envelope]))"

definition Coordinator_Get ::
  "(string list \<Rightarrow> string list) \<Rightarrow> 'w Coordinator \<Rightarrow> 'w \<Rightarrow> string \<Rightarrow> int \<Rightarrow> 'w \<times> (coord_error + ReadResult)" where
  "Coordinator_Get sched c w key requestedQuorum =
     (if key = '''' then (w, Inl (InvalidRequestError ''key must not be empty''))
      else let owners = co_owners c w key
           in if length owners = 0 then (w, Inl (NoOwners key))
              else let quorum = (if requestedQuorum \<le> 0 then cc_ReadQuorum (co_cfg c) else requestedQuorum)
                   in if quorum > int (length owners)
                      then (w, Inl (InvalidRequestError ''requested read quorum exceeds owner count''))
                      else case fanOutRead (readFromOwner c key) (sched owners) w of
                             (w, outcomes) \<Rightarrow>
                               (let (acks, found) = Get_collect outcomes (0, [])
                                in if acks < quorum then (w, Inl (QuorumNotMet ''read'' key acks quorum))
                                   else if length found = 0 then (w, Inr zero_ReadResult)
                                   else let reconciled = Reconcile found
                                        in case Winner reconciled of
                                             Some winner \<Rightarrow> (w, Inr \<lparr>rr_Versions = [winner], rr_VectorClock = Context reconciled\<rparr>)
                                           | None \<Rightarrow> (w, Inr \<lparr>rr_Versions = Siblings reconciled, rr_VectorClock = Context reconciled\<rparr>)))"

section \<open>server.go\<close>

definition statusError :: "coord_error \<Rightarrow> Code" where
  "statusError err = (case err of InvalidRequestError msg \<Rightarrow> InvalidArgument | _ \<Rightarrow> Unavailable)"

record CoordinatedPutRequest =
  cpr_Key :: string
  cpr_Value :: string
  cpr_Context :: "(string \<times> u64) list option"
  cpr_WriteQuorum :: int

record CoordinatedWriteResponse =
  cwr_VectorClock :: "(string \<times> u64) list option"
  cwr_Acks :: int
  cwr_Required :: int

definition write_response :: "WriteResult \<Rightarrow> CoordinatedWriteResponse" where
  "write_response result =
     \<lparr>cwr_VectorClock = VectorClockToProto (wr_VectorClock result), cwr_Acks = go_int32 (wr_Acks result),
      cwr_Required = go_int32 (wr_Required result)\<rparr>"

definition CoordServer_Put ::
  "(string list \<Rightarrow> string list) \<Rightarrow> int \<Rightarrow> 'w Coordinator \<Rightarrow> 'w \<Rightarrow> ContextErr option \<Rightarrow> CoordinatedPutRequest
     \<Rightarrow> 'w \<times> (Code + CoordinatedWriteResponse)" where
  "CoordServer_Put sched now c w ctx req =
     (case ctx of
        Some err \<Rightarrow> (w, Inl (FromContextError err))
      | None \<Rightarrow>
          (case Coordinator_Put sched now c w (cpr_Key req) (cpr_Value req)
                  (VectorClockFromProto (cpr_Context req)) (cpr_WriteQuorum req) of
             (w, result, Some err) \<Rightarrow> (w, Inl (statusError err))
           | (w, result, None) \<Rightarrow> (w, Inr (write_response result))))"

definition CoordServer_Delete ::
  "(string list \<Rightarrow> string list) \<Rightarrow> int \<Rightarrow> 'w Coordinator \<Rightarrow> 'w \<Rightarrow> ContextErr option \<Rightarrow> CoordinatedPutRequest
     \<Rightarrow> 'w \<times> (Code + CoordinatedWriteResponse)" where
  "CoordServer_Delete sched now c w ctx req =
     (case ctx of
        Some err \<Rightarrow> (w, Inl (FromContextError err))
      | None \<Rightarrow>
          (case Coordinator_Delete sched now c w (cpr_Key req)
                  (VectorClockFromProto (cpr_Context req)) (cpr_WriteQuorum req) of
             (w, result, Some err) \<Rightarrow> (w, Inl (statusError err))
           | (w, result, None) \<Rightarrow> (w, Inr (write_response result))))"

definition CoordServer_Get ::
  "(string list \<Rightarrow> string list) \<Rightarrow> 'w Coordinator \<Rightarrow> 'w \<Rightarrow> ContextErr option \<Rightarrow> string \<Rightarrow> int
     \<Rightarrow> 'w \<times> (Code + (pb_Envelope list \<times> (string \<times> u64) list option))" where
  "CoordServer_Get sched c w ctx key readQuorum =
     (case ctx of
        Some err \<Rightarrow> (w, Inl (FromContextError err))
      | None \<Rightarrow>
          (case Coordinator_Get sched c w key readQuorum of
             (w, Inl err) \<Rightarrow> (w, Inl (statusError err))
           | (w, Inr result) \<Rightarrow>
               (w, Inr (map EnvelopeToProto (rr_Versions result), VectorClockToProto (rr_VectorClock result)))))"

section \<open>A coordinator over a group of replicas\<close>

lemma env_sim_refl: "gmap_ok (Clock e) \<Longrightarrow> env_sim e e"
  by (simp add: env_sim_def)

lemma env_sim_trans: "env_sim a b \<Longrightarrow> env_sim b c \<Longrightarrow> env_sim a c"
  by (simp add: env_sim_def)

lemma env_sim_vget: "env_sim a b \<Longrightarrow> vget (Clock b) n = vget (Clock a) n"
  by (simp add: env_sim_def vget_def)

lemma env_sim_clock_le: "env_sim a b \<Longrightarrow> clock_le vc (Clock b) \<longleftrightarrow> clock_le vc (Clock a)"
  by (simp add: clock_le_def env_sim_vget)

lemma normalize_NewPut [simp]: "Envelope_normalize (NewPut vc v t) = NewPut vc v t"
  by (simp add: Envelope_normalize_def NewPut_def)

lemma normalize_NewDelete [simp]: "Envelope_normalize (NewDelete vc t) = NewDelete vc t"
  by (simp add: Envelope_normalize_def NewDelete_def)

lemma Clock_New [simp]: "Clock (NewPut vc v t) = VectorClock_Clone vc" "Clock (NewDelete vc t) = VectorClock_Clone vc"
    "Deleted (NewPut vc v t) = False" "Deleted (NewDelete vc t) = True"
  by (simp_all add: NewPut_def NewDelete_def)

text \<open>An envelope that causally covers a clock.\<close>

definition covers :: "VectorClock \<Rightarrow> Envelope option \<Rightarrow> bool" where
  "covers vc h \<longleftrightarrow> (\<exists>v. h = Some v \<and> clock_le vc (Clock v))"

definition same_outcome :: "Envelope option \<Rightarrow> Envelope option \<Rightarrow> bool" where
  "same_outcome h x \<longleftrightarrow> (case h of None \<Rightarrow> x = None | Some v \<Rightarrow> \<exists>v'. x = Some v' \<and> env_sim v v')"

lemma Get_collect_eq:
  "Get_collect outs (a, f) =
     (a + int (length (filter (\<lambda>x. \<not> isl x) outs)),
      f @ List.map_filter (\<lambda>x. case x of Inl _ \<Rightarrow> None | Inr h \<Rightarrow> h) outs)"
  by (induction outs arbitrary: a f) (auto simp: map_filter_simps split: sum.splits option.splits)

lemma set_found: "set (List.map_filter (\<lambda>x. case x of Inl _ \<Rightarrow> None | Inr h \<Rightarrow> h) outs) = {v. Inr (Some v) \<in> set outs}"
  by (force simp: List.map_filter_def split: sum.splits)

lemma Reconcile_covers:
  assumes "\<forall>v\<in>set vs. env_ok v" and "v \<in> set vs"
  shows "\<exists>s\<in>set (result_versions (Reconcile vs)). clock_le (Clock v) (Clock s)"
  using survives_above [OF assms(1)] assms(2) by (force simp: Reconcile_versions [OF assms(1)] in_set_conv_nth survives_def)

text \<open>Two sets of replicas that together outnumber the owners share an owner.\<close>

lemma quorums_meet:
  assumes "finite S" "A \<subseteq> S" "B \<subseteq> S" "int (card S) < int (card A) + int (card B)"
  shows "A \<inter> B \<noteq> {}"
proof
  assume "A \<inter> B = {}"
  then have "card A + card B = card (A \<union> B)"
    using assms(1-3) by (intro card_Un_disjoint [symmetric]) (auto intro: finite_subset)
  also have "\<dots> \<le> card S" using assms(1-3) by (intro card_mono) auto
  finally show False using assms(4) by linarith
qed

text \<open>
  What the coordinator relies on: a replica that acknowledges a write holds the written envelope, one
  that reports an error holds the old envelope or the new one, no other replica and no other key is
  touched; a replica that answers a read answers with what it holds and changes nothing.
\<close>

text \<open>A write either stops before the fan-out or its world is that of the fan-out.\<close>

lemma Put_fanOut:
  "Coordinator_Put sched now c w key value ctx rq = (w', res) \<Longrightarrow>
     w' = w \<or> key \<noteq> '''' \<and> (\<exists>acks. fanOutWrite
       (writeToOwner c key (NewPut (VectorClock_Increment ctx (co_nodeID c)) value now)) (sched (co_owners c w key)) w = (w', acks))"
  by (auto simp: Coordinator_Put_def resolveWriteQuorum_def Let_def split: if_splits prod.splits)

lemma Delete_fanOut:
  "Coordinator_Delete sched now c w key ctx rq = (w', res) \<Longrightarrow>
     w' = w \<or> key \<noteq> '''' \<and> (\<exists>acks. fanOutWrite
       (writeToOwner c key (NewDelete (VectorClock_Increment ctx (co_nodeID c)) now)) (sched (co_owners c w key)) w = (w', acks))"
  by (auto simp: Coordinator_Delete_def resolveWriteQuorum_def Let_def split: if_splits prod.splits)

locale replica_group =
  fixes c :: "'w Coordinator"
    and holds :: "'w \<Rightarrow> string \<Rightarrow> string \<Rightarrow> Envelope option"
    and winv :: "'w \<Rightarrow> bool"
    and storable :: "'w \<Rightarrow> Envelope \<Rightarrow> bool"
  assumes write_law: "winv w \<Longrightarrow> storable w env \<Longrightarrow> key \<noteq> '''' \<Longrightarrow> writeToOwner c key env w ow = (w', r) \<Longrightarrow>
      winv w' \<and> (\<forall>e. storable w' e = storable w e)
      \<and> (\<forall>o' k. (o', k) \<noteq> (ow, key) \<longrightarrow> holds w' o' k = holds w o' k)
      \<and> ((\<exists>v. holds w' ow key = Some v \<and> env_sim env v) \<or> isl r \<and> holds w' ow key = holds w ow key)"
    and read_law: "winv w \<Longrightarrow> readFromOwner c key w ow = (w', outcome) \<Longrightarrow>
      winv w' \<and> holds w' = holds w \<and> (\<forall>x. outcome = Inr x \<longrightarrow> same_outcome (holds w ow key) x)"
begin

definition coverage :: "'w \<Rightarrow> string \<Rightarrow> VectorClock \<Rightarrow> string set" where
  "coverage w key vc = {o'. covers vc (holds w o' key)}"

lemma fanOutWrite_effect:
  assumes "winv w" "storable w env" "key \<noteq> ''''" "distinct order"
    and "fanOutWrite (writeToOwner c key env) order w = (w', acks)"
  shows "winv w' \<and> (\<forall>e. storable w' e = storable w e)
    \<and> (\<forall>o' k. o' \<notin> set order \<or> k \<noteq> key \<longrightarrow> holds w' o' k = holds w o' k)
    \<and> (\<forall>o'\<in>set order. (\<exists>v. holds w' o' key = Some v \<and> env_sim env v) \<or> holds w' o' key = holds w o' key)
    \<and> acks \<le> int (card {o'\<in>set order. \<exists>v. holds w' o' key = Some v \<and> env_sim env v})"
  using assms
proof (induction order arbitrary: w w' acks)
  case (Cons ow order)
  obtain w1 r where 1: "writeToOwner c key env w ow = (w1, r)" by fastforce
  obtain acks1 where 2: "fanOutWrite (writeToOwner c key env) order w1 = (w', acks1)" "acks = (if isl r then acks1 else acks1 + 1)"
    using Cons.prems(5) 1 by (auto split: prod.splits)
  note law = write_law [OF Cons.prems(1-3) 1]
  have IH: "winv w' \<and> (\<forall>e. storable w' e = storable w1 e)
    \<and> (\<forall>o' k. o' \<notin> set order \<or> k \<noteq> key \<longrightarrow> holds w' o' k = holds w1 o' k)
    \<and> (\<forall>o'\<in>set order. (\<exists>v. holds w' o' key = Some v \<and> env_sim env v) \<or> holds w' o' key = holds w1 o' key)
    \<and> acks1 \<le> int (card {o'\<in>set order. \<exists>v. holds w' o' key = Some v \<and> env_sim env v})"
    using law Cons.prems 2(1) by (intro Cons.IH) auto
  let ?A = "{o'\<in>set order. \<exists>v. holds w' o' key = Some v \<and> env_sim env v}"
  let ?B = "{o'\<in>set (ow # order). \<exists>v. holds w' o' key = Some v \<and> env_sim env v}"
  have ow: "holds w' ow key = holds w1 ow key" "ow \<notin> set order" using IH Cons.prems(4) by auto
  have "acks \<le> int (card ?B)"
  proof (cases "isl r")
    case True
    have "card ?A \<le> card ?B" by (rule card_mono) auto
    then show ?thesis using IH 2(2) True by simp
  next
    case False
    then have "?B = insert ow ?A" using law ow by auto
    moreover have "ow \<notin> ?A" using ow(2) by simp
    ultimately have "card ?B = Suc (card ?A)" by simp
    then show ?thesis using IH 2(2) False by simp
  qed
  moreover have "\<forall>o'\<in>set (ow # order). (\<exists>v. holds w' o' key = Some v \<and> env_sim env v) \<or> holds w' o' key = holds w o' key"
    using IH law ow by (metis Pair_inject set_ConsD)
  moreover have "\<forall>o' k. o' \<notin> set (ow # order) \<or> k \<noteq> key \<longrightarrow> holds w' o' k = holds w o' k"
    using IH law by auto
  moreover have "winv w'" "\<forall>e. storable w' e = storable w e" using IH law by auto
  ultimately show ?case by blast
qed simp

lemma coverage_after_write:
  assumes eff: "\<forall>o'\<in>set order. (\<exists>v. holds w' o' key = Some v \<and> env_sim env v) \<or> holds w' o' key = holds w o' key"
      "\<forall>o' k. o' \<notin> set order \<or> k \<noteq> key \<longrightarrow> holds w' o' k = holds w o' k"
    and le: "k = key \<Longrightarrow> clock_le vc (Clock env)"
  shows "coverage w k vc \<subseteq> coverage w' k vc"
proof
  fix o' assume "o' \<in> coverage w k vc"
  then have c: "covers vc (holds w o' k)" by (simp add: coverage_def)
  have "covers vc (holds w' o' k)"
  proof (cases "k = key \<and> o' \<in> set order")
    case True
    then consider v where "holds w' o' key = Some v" "env_sim env v" | "holds w' o' key = holds w o' key" using eff(1) by blast
    then show ?thesis
    proof cases
      case 1
      then show ?thesis using le True by (simp add: covers_def env_sim_clock_le)
    next
      case 2
      then show ?thesis using c True by simp
    qed
  next
    case False
    then have "holds w' o' k = holds w o' k" using eff(2) by blast
    then show ?thesis using c by simp
  qed
  then show "o' \<in> coverage w' k vc" by (simp add: coverage_def)
qed

lemma fanOutRead_effect:
  assumes "winv w" and "fanOutRead (readFromOwner c key) order w = (w', outcomes)"
  shows "winv w' \<and> holds w' = holds w \<and> length outcomes = length order
    \<and> (\<forall>i<length order. \<forall>x. outcomes ! i = Inr x \<longrightarrow> same_outcome (holds w (order ! i) key) x)"
  using assms
proof (induction order arbitrary: w w' outcomes)
  case (Cons ow order)
  obtain w1 r where 1: "readFromOwner c key w ow = (w1, r)" by fastforce
  obtain outs where 2: "fanOutRead (readFromOwner c key) order w1 = (w', outs)" "outcomes = r # outs"
    using Cons.prems(2) 1 by (auto split: prod.splits)
  note law = read_law [OF Cons.prems(1) 1]
  have IH: "winv w' \<and> holds w' = holds w1 \<and> length outs = length order
    \<and> (\<forall>i<length order. \<forall>x. outs ! i = Inr x \<longrightarrow> same_outcome (holds w1 (order ! i) key) x)"
    using law 2(1) by (intro Cons.IH) auto
  then show ?case using law 2(2) by (auto simp: less_Suc_eq_0_disj)
qed simp

text \<open>A write, whatever its kind, through the quorum.\<close>

lemma quorum_write:
  assumes w: "winv w" "storable w env" "key \<noteq> ''''" and own: "distinct owners" and perm: "mset order = mset owners"
    and f: "fanOutWrite (writeToOwner c key env) order w = (w', acks)"
  shows "winv w'" and "\<forall>e. storable w' e = storable w e"
    and "acks \<le> int (card (set owners \<inter> coverage w' key (Clock env)))"
    and "(k = key \<Longrightarrow> clock_le vc (Clock env)) \<Longrightarrow> coverage w k vc \<subseteq> coverage w' k vc"
proof -
  have set: "set order = set owners" and d: "distinct order"
    using perm own by (metis set_mset_mset, metis mset_eq_imp_distinct_iff)
  note eff = fanOutWrite_effect [OF w d f]
  show "winv w'" "\<forall>e. storable w' e = storable w e" using eff by auto
  have "{o'\<in>set order. \<exists>v. holds w' o' key = Some v \<and> env_sim env v} \<subseteq> set owners \<inter> coverage w' key (Clock env)"
    using set by (auto simp: coverage_def covers_def env_sim_clock_le)
  then have "card {o'\<in>set order. \<exists>v. holds w' o' key = Some v \<and> env_sim env v} \<le> card (set owners \<inter> coverage w' key (Clock env))"
    by (intro card_mono) auto
  then show "acks \<le> int (card (set owners \<inter> coverage w' key (Clock env)))" using eff by linarith
  show "(k = key \<Longrightarrow> clock_le vc (Clock env)) \<Longrightarrow> coverage w k vc \<subseteq> coverage w' k vc"
    using coverage_after_write eff by blast
qed

lemma Put_covers:
  assumes "winv w" "distinct (co_owners c w key)" "mset (sched (co_owners c w key)) = mset (co_owners c w key)"
    and "storable w (NewPut (VectorClock_Increment ctx (co_nodeID c)) value now)"
    and "Coordinator_Put sched now c w key value ctx rq = (w', res, None)"
  shows "winv w' \<and> wr_VectorClock res = VectorClock_Increment ctx (co_nodeID c)
    \<and> wr_Required res = (if rq \<le> 0 then cc_WriteQuorum (co_cfg c) else rq)
    \<and> wr_Required res \<le> int (card (set (co_owners c w key) \<inter> coverage w' key (wr_VectorClock res)))"
  using assms quorum_write(1,3) [OF assms(1,4) _ assms(2,3)]
  by (fastforce simp: Coordinator_Put_def resolveWriteQuorum_def writeResult_def Let_def
      split: if_splits prod.splits)

lemma Put_keeps:
  assumes "winv w" "distinct (co_owners c w key)" "mset (sched (co_owners c w key)) = mset (co_owners c w key)"
    and "storable w (NewPut (VectorClock_Increment ctx (co_nodeID c)) value now)"
    and "Coordinator_Put sched now c w key value ctx rq = (w', res)"
    and "k = key \<Longrightarrow> clock_le vc (VectorClock_Increment ctx (co_nodeID c))"
  shows "winv w' \<and> (\<forall>e. storable w' e = storable w e) \<and> coverage w k vc \<subseteq> coverage w' k vc"
  using Put_fanOut [OF assms(5)]
proof (elim disjE conjE exE)
  fix acks
  assume k: "key \<noteq> ''''" and f: "fanOutWrite (writeToOwner c key (NewPut (VectorClock_Increment ctx (co_nodeID c)) value now))
    (sched (co_owners c w key)) w = (w', acks)"
  show ?thesis using quorum_write(1,2,4) [OF assms(1,4) k assms(2,3) f] assms(6) by simp
qed (use assms(1) in simp)

lemma Delete_covers:
  assumes "winv w" "distinct (co_owners c w key)" "mset (sched (co_owners c w key)) = mset (co_owners c w key)"
    and "storable w (NewDelete (VectorClock_Increment ctx (co_nodeID c)) now)"
    and "Coordinator_Delete sched now c w key ctx rq = (w', res, None)"
  shows "winv w' \<and> wr_VectorClock res = VectorClock_Increment ctx (co_nodeID c)
    \<and> wr_Required res = (if rq \<le> 0 then cc_WriteQuorum (co_cfg c) else rq)
    \<and> wr_Required res \<le> int (card (set (co_owners c w key) \<inter> coverage w' key (wr_VectorClock res)))"
  using assms quorum_write(1,3) [OF assms(1,4) _ assms(2,3)]
  by (fastforce simp: Coordinator_Delete_def resolveWriteQuorum_def writeResult_def Let_def
      split: if_splits prod.splits)

lemma Delete_keeps:
  assumes "winv w" "distinct (co_owners c w key)" "mset (sched (co_owners c w key)) = mset (co_owners c w key)"
    and "storable w (NewDelete (VectorClock_Increment ctx (co_nodeID c)) now)"
    and "Coordinator_Delete sched now c w key ctx rq = (w', res)"
    and "k = key \<Longrightarrow> clock_le vc (VectorClock_Increment ctx (co_nodeID c))"
  shows "winv w' \<and> (\<forall>e. storable w' e = storable w e) \<and> coverage w k vc \<subseteq> coverage w' k vc"
  using Delete_fanOut [OF assms(5)]
proof (elim disjE conjE exE)
  fix acks
  assume k: "key \<noteq> ''''" and f: "fanOutWrite (writeToOwner c key (NewDelete (VectorClock_Increment ctx (co_nodeID c)) now))
    (sched (co_owners c w key)) w = (w', acks)"
  show ?thesis using quorum_write(1,2,4) [OF assms(1,4) k assms(2,3) f] assms(6) by simp
qed (use assms(1) in simp)

text \<open>A read that meets its quorum asks a replica of every set large enough.\<close>

lemma Get_keeps:
  assumes "winv w" "Coordinator_Get sched c w key rq = (w', res)"
  shows "winv w' \<and> holds w' = holds w"
  using assms fanOutRead_effect [OF assms(1)]
  by (auto simp: Coordinator_Get_def Let_def split: if_splits prod.splits option.splits)

lemma Get_sees:
  assumes w: "winv w" and own: "distinct owners" "owners = co_owners c w key" and perm: "mset (sched owners) = mset owners"
    and get: "Coordinator_Get sched c w key rq = (w', Inr res)"
    and cov: "W \<le> int (card (set owners \<inter> coverage w key vc))"
    and q: "int (length owners) < (if rq \<le> 0 then cc_ReadQuorum (co_cfg c) else rq) + W"
  shows "(\<exists>v\<in>set (rr_Versions res). clock_le vc (Clock v)) \<and> clock_le vc (rr_VectorClock res)"
proof -
  define R where "R = (if rq \<le> 0 then cc_ReadQuorum (co_cfg c) else rq)"
  obtain outcomes where f: "fanOutRead (readFromOwner c key) (sched owners) w = (w', outcomes)"
    using get own(2) by (auto simp: Coordinator_Get_def Let_def split: if_splits prod.splits option.splits)
  note eff = fanOutRead_effect [OF w f]
  define found where "found = snd (Get_collect outcomes (0, []))"
  have acks: "R \<le> int (length (filter (\<lambda>x. \<not> isl x) outcomes))"
    and res: "if found = [] then res = zero_ReadResult
      else rr_Versions res = result_versions (Reconcile found) \<and> rr_VectorClock res = Context (Reconcile found)"
    using get own(2) f
    by (auto simp: Coordinator_Get_def Let_def R_def found_def Get_collect_eq result_versions_def
        split: if_splits prod.splits option.splits)
  have set: "set (sched owners) = set owners" and d: "distinct (sched owners)"
    and len: "length (sched owners) = length owners"
    using perm own(1) by (metis set_mset_mset, metis mset_eq_imp_distinct_iff, metis size_mset)
  define A where "A = {i. i < length outcomes \<and> \<not> isl (outcomes ! i)}"
  have cardA: "R \<le> int (card ((\<lambda>i. sched owners ! i) ` A))"
  proof -
    have "inj_on (\<lambda>i. sched owners ! i) A"
      using d eff len by (auto simp: A_def inj_on_def nth_eq_iff_index_eq)
    then have "card ((\<lambda>i. sched owners ! i) ` A) = card A" by (rule card_image)
    then show ?thesis using acks by (simp add: A_def length_filter_conv_card)
  qed
  have sub: "(\<lambda>i. sched owners ! i) ` A \<subseteq> set owners" using eff set by (auto simp: A_def)
  have "((\<lambda>i. sched owners ! i) ` A) \<inter> (set owners \<inter> coverage w key vc) \<noteq> {}"
    by (rule quorums_meet [OF finite_set sub]) (use cardA cov q own(1) in \<open>auto simp: R_def distinct_card\<close>)
  then obtain i where i: "i < length outcomes" "\<not> isl (outcomes ! i)" "covers vc (holds w (sched owners ! i) key)"
    by (auto simp: A_def coverage_def)
  then obtain x where x: "outcomes ! i = Inr x" by (cases "outcomes ! i") auto
  then have "same_outcome (holds w (sched owners ! i) key) x" using eff i(1) by simp
  then obtain v where v: "x = Some v" "clock_le vc (Clock v)"
    using i(3) by (auto simp: covers_def same_outcome_def env_sim_clock_le)
  then have vf: "v \<in> set found" using x i(1) by (auto simp: found_def Get_collect_eq set_found intro: nth_mem)
       (metis nth_mem)
  have ok: "\<forall>v\<in>set found. env_ok v"
  proof
    fix v assume "v \<in> set found"
    then obtain j where "j < length outcomes" "outcomes ! j = Inr (Some v)"
      by (auto simp: found_def Get_collect_eq set_found in_set_conv_nth)
    then show "env_ok v" using eff by (force simp: same_outcome_def env_ok_def env_sim_def split: option.splits)
  qed
  obtain s where s: "s \<in> set (result_versions (Reconcile found))" "clock_le (Clock v) (Clock s)"
    using Reconcile_covers [OF ok vf] by blast
  have "clock_le vc (Clock s)" using v(2) s(2) by (rule clock_le_trans)
  moreover have "clock_le (Clock s) (Context (Reconcile found))" using Reconcile_context_lub(1) [OF ok] s(1) by blast
  ultimately show ?thesis using res vf s(1) by (auto intro: clock_le_trans split: if_splits)
qed

end


definition ex_coord :: "unit Coordinator" where
  "ex_coord = NewCoordinator ''n1'' (\<lambda>_ _. [''n1'', ''n2'']) (\<lambda>_ _. None)
     \<lparr>rc_Put = \<lambda>_ _ _ _ _. ((), Inl ''down''), rc_Delete = \<lambda>_ _ _ _ _. ((), Inl ''down''), rc_Get = \<lambda>_ _ _. ((), Inl ''down'')\<rparr>
     \<lparr>ls_Put = \<lambda>_ _ _ _. ((), Inr ()), ls_Delete = \<lambda>_ _ _ _. ((), Inr ()), ls_Get = \<lambda>_ _. ((), Inr None)\<rparr>
     \<lparr>cc_ReplicationTimeout = 1, cc_ReadQuorum = 2, cc_WriteQuorum = 2\<rparr>"


end
