(* ===== verification/Cluster.thy ===== *)
theory Cluster
  imports Coordination
begin

text \<open>
  The nodes of a cluster wired together: the replica client of
  \<open>src/cluster/coordination/client.go\<close> calls the node service of a peer over the network, and a
  coordinator runs on every node. The theory discharges what the coordinator relies on
  (\<open>replica_group\<close>) for this wiring and states the consistency of quorum reads and writes.

  The network is given by what happens to the call to an address: it is delivered, the request is
  lost, or the request is applied and the response is lost. The connection cache of the client is
  gRPC's and is not part of the model.
\<close>

section \<open>client.go\<close>

datatype delivery = Delivered | RequestLost | ResponseLost

record 'e ClusterNode =
  cn_engine :: 'e
  cn_table :: Table

type_synonym 'e cluster = "string \<Rightarrow> 'e ClusterNode"

text \<open>
  What is common to all nodes of a deployment: the store's engine and user, the JSON codec, the
  address book and the node that answers at an address.
\<close>

record 'e deployment =
  dp_store :: "'e NodeStore"
  dp_marshal :: "Envelope \<Rightarrow> string option"
  dp_unmarshal :: "string \<Rightarrow> Envelope option"
  dp_address :: "string \<Rightarrow> string option"
  dp_host :: "string \<Rightarrow> string option"
  dp_cfg :: Config

definition node_server :: "'e deployment \<Rightarrow> 'e ClusterNode \<Rightarrow> 'e NodeServer" where
  "node_server dp n = NewNodeServer (dp_cfg dp) (dp_store dp) (table_ownership (cn_table n))"

definition set_engine :: "'e cluster \<Rightarrow> string \<Rightarrow> 'e \<Rightarrow> 'e cluster" where
  "set_engine w nid e = w(nid := (w nid)\<lparr>cn_engine := e\<rparr>)"

text \<open>One unary call: the handler runs on the node that answers at the address.\<close>

definition rpc ::
  "'e deployment \<Rightarrow> (string \<Rightarrow> delivery) \<Rightarrow> 'e cluster \<Rightarrow> string \<Rightarrow> ('e NodeServer \<Rightarrow> 'e \<Rightarrow> 'e \<times> (Code + 'r))
     \<Rightarrow> 'e cluster \<times> (string + 'r)" where
  "rpc dp net w addr handler =
     (case dp_host dp addr of
        None \<Rightarrow> (w, Inl ''unavailable'')
      | Some nid \<Rightarrow>
          if net addr = RequestLost then (w, Inl ''deadline exceeded'')
          else case handler (node_server dp (w nid)) (cn_engine (w nid)) of
                 (e, r) \<Rightarrow>
                   (set_engine w nid e,
                    if net addr = ResponseLost then Inl ''deadline exceeded''
                    else case r of Inl code \<Rightarrow> Inl ''status'' | Inr x \<Rightarrow> Inr x))"

definition Client_Put ::
  "'e deployment \<Rightarrow> (string \<Rightarrow> delivery) \<Rightarrow> 'e cluster \<Rightarrow> string \<Rightarrow> string \<Rightarrow> Envelope \<Rightarrow> bool \<Rightarrow> 'e cluster \<times> (string + unit)" where
  "Client_Put dp net w addr key envelope sync =
     rpc dp net w addr (\<lambda>s e. NodeServer_Put (dp_marshal dp) (dp_unmarshal dp) s e None
       \<lparr>preq_Key = key, preq_Envelope = Some (EnvelopeToProto envelope), preq_Sync = sync\<rparr>)"

definition Client_Delete ::
  "'e deployment \<Rightarrow> (string \<Rightarrow> delivery) \<Rightarrow> 'e cluster \<Rightarrow> string \<Rightarrow> string \<Rightarrow> Envelope \<Rightarrow> bool \<Rightarrow> 'e cluster \<times> (string + unit)" where
  "Client_Delete dp net w addr key envelope sync =
     rpc dp net w addr (\<lambda>s e. NodeServer_Delete (dp_marshal dp) (dp_unmarshal dp) s e None
       \<lparr>preq_Key = key, preq_Envelope = Some (EnvelopeToProto envelope), preq_Sync = sync\<rparr>)"

definition Client_Get ::
  "'e deployment \<Rightarrow> (string \<Rightarrow> delivery) \<Rightarrow> 'e cluster \<Rightarrow> string \<Rightarrow> string \<Rightarrow> 'e cluster \<times> (string + Envelope option)" where
  "Client_Get dp net w addr key =
     (case rpc dp net w addr (\<lambda>s e. NodeServer_Get (dp_unmarshal dp) s e None key) of
        (w, Inl err) \<Rightarrow> (w, Inl err)
      | (w, Inr resp) \<Rightarrow>
          if \<not> gresp_Found resp then (w, Inr None)
          else case EnvelopeFromProto (dp_marshal dp) (dp_unmarshal dp) (gresp_Envelope resp) of
                 Inl err \<Rightarrow> (w, Inl ''envelope'')
               | Inr envelope \<Rightarrow> (w, Inr (Some envelope)))"

section \<open>A coordinator on a node\<close>

definition local_result :: "'e cluster \<Rightarrow> string \<Rightarrow> 'e \<times> (store_error + 'a) \<Rightarrow> 'e cluster \<times> (string + 'a)" where
  "local_result w nid x =
     (case x of (e, Inl err) \<Rightarrow> (set_engine w nid e, Inl ''store'') | (e, Inr r) \<Rightarrow> (set_engine w nid e, Inr r))"

definition cluster_coordinator :: "'e deployment \<Rightarrow> (string \<Rightarrow> delivery) \<Rightarrow> string \<Rightarrow> CoordConfig \<Rightarrow> 'e cluster Coordinator" where
  "cluster_coordinator dp net nid cfg =
     NewCoordinator nid
       (\<lambda>w. Table_Owners (cn_table (w nid)))
       (\<lambda>w. dp_address dp)
       \<lparr>rc_Put = Client_Put dp net, rc_Delete = Client_Delete dp net, rc_Get = Client_Get dp net\<rparr>
       \<lparr>ls_Put = (\<lambda>w key env sync. local_result w nid (NodeStore_Put (dp_marshal dp) (dp_store dp) (cn_engine (w nid)) key env sync)),
        ls_Delete = (\<lambda>w key env sync. local_result w nid (NodeStore_Delete (dp_marshal dp) (dp_store dp) (cn_engine (w nid)) key env sync)),
        ls_Get = (\<lambda>w key. local_result w nid (NodeStore_Get (dp_unmarshal dp) (dp_store dp) (cn_engine (w nid)) key))\<rparr>
       cfg"

section \<open>Envelopes on the wire\<close>

text \<open>
  An envelope that the wire format and the codec carry faithfully: a well-formed clock without an
  empty node id, this version of the format, and strings that JSON carries (whatever the order in
  which the clock is written).
\<close>

definition portable :: "'e deployment \<Rightarrow> Envelope \<Rightarrow> bool" where
  "portable dp env \<longleftrightarrow> gmap_ok (Clock env) \<and> '''' \<notin> fst ` set (Clock env) \<and> Version env = EnvelopeVersion
     \<and> (Deleted env \<longrightarrow> Value env = '''')
     \<and> (\<forall>env'. env_sim env env' \<longrightarrow> json_ok (dp_marshal dp) (dp_unmarshal dp) env')"

lemma env_sim_sym: "gmap_ok (Clock a) \<Longrightarrow> env_sim a b \<Longrightarrow> env_sim b a"
  by (simp add: env_sim_def)

lemma portable_sim:
  assumes "portable dp a" "env_sim a b"
  shows "portable dp b"
proof -
  have "dom (map_of (Clock b)) = dom (map_of (Clock a))" using assms(2) by (simp add: env_sim_def)
  then have "fst ` set (Clock b) = fst ` set (Clock a)" by (simp add: dom_map_of_conv_image_fst)
  moreover have "json_ok (dp_marshal dp) (dp_unmarshal dp) e" if "env_sim b e" for e
    using assms env_sim_trans [OF assms(2) that] by (simp add: portable_def)
  ultimately show ?thesis using assms by (simp add: portable_def env_sim_def)
qed

lemma portable_normalize: "portable dp env \<Longrightarrow> Envelope_normalize env = env"
  by (auto simp: portable_def Envelope_normalize_def Let_def)

lemma FromProto_ToProto_clock:
  assumes "gmap_ok vc" "'''' \<notin> fst ` set vc"
  shows "gmap_ok (VectorClockFromProto (VectorClockToProto vc)) \<and> map_of (VectorClockFromProto (VectorClockToProto vc)) = map_of vc"
proof -
  have loop: "gmap_ok acc \<Longrightarrow> gmap_ok (fold (\<lambda>(n, x) out. if n = '''' then out else AList.update n x out) es acc)
      \<and> map_of (fold (\<lambda>(n, x) out. if n = '''' then out else AList.update n x out) es acc)
        = fold (\<lambda>(n, x) m. m(n \<mapsto> x)) es (map_of acc)" if "'''' \<notin> fst ` set es" for acc es
    using that by (induction es arbitrary: acc) (auto simp: update_conv')
  have fold: "fold (\<lambda>(n, x) m. m(n \<mapsto> x)) (map (\<lambda>n. (n, f n)) ks) m0 = (\<lambda>n. if n \<in> set ks then Some (f n) else m0 n)" for f ks m0
    by (induction ks arbitrary: m0) auto
  let ?es = "map (\<lambda>n. (n, vget vc n)) (sort (map fst vc))"
  have "map_of vc n = (if n \<in> fst ` set vc then Some (vget vc n) else None)" for n
    by (auto simp: vget_def map_of_eq_None_iff split: option.splits)
  then have "fold (\<lambda>(n, x) m. m(n \<mapsto> x)) ?es Map.empty = map_of vc" by (subst fold) (auto simp: fun_eq_iff)
  moreover have "'''' \<notin> fst ` set ?es" using assms(2) by (auto simp: image_image)
  ultimately show ?thesis
    using loop [of ?es "[]"] by (simp add: VectorClockFromProto_def VectorClockToProto_def)
qed

lemma FromProto_ToProto:
  assumes "portable dp env" "EnvelopeFromProto (dp_marshal dp) (dp_unmarshal dp) (Some (EnvelopeToProto env)) = Inr env'"
  shows "env_sim env env'"
proof -
  let ?out = "env\<lparr>Clock := VectorClockFromProto (VectorClockToProto (Clock env))\<rparr>"
  have v: "go_int32 (Version env) = Version env" using assms(1) by (simp add: portable_def go_int32_def EnvelopeVersion_def)
  have sim: "env_sim env ?out"
    using assms(1) FromProto_ToProto_clock [of "Clock env"] by (simp add: portable_def env_sim_def)
  have p: "portable dp ?out" by (rule portable_sim [OF assms(1) sim])
  obtain raw where raw: "Encode (dp_marshal dp) ?out = Inr raw" "Decode (dp_unmarshal dp) raw = Inr env'"
    using assms(2) v by (cases env) (auto simp: EnvelopeFromProto_def EnvelopeToProto_def split: sum.splits)
  have "json_ok (dp_marshal dp) (dp_unmarshal dp) (Envelope_normalize ?out)"
    using p portable_normalize [OF p] env_sim_refl by (metis portable_def)
  then obtain e2 where "Decode (dp_unmarshal dp) raw = Inr e2" "env_sim (Envelope_normalize ?out) e2"
    by (rule Decode_Encode [OF raw(1)])
  then have "env_sim ?out env'" using raw(2) portable_normalize [OF p] by simp
  with sim show ?thesis by (rule env_sim_trans)
qed

section \<open>The cluster as a group of replicas\<close>

definition deployment_ok :: "'e deployment \<Rightarrow> ('e \<Rightarrow> bool) \<Rightarrow> ('e \<Rightarrow> (string \<times> string) list) \<Rightarrow> bool" where
  "deployment_ok dp einv rows \<longleftrightarrow>
     kv_engine (ns_engine (dp_store dp)) (ns_user (dp_store dp)) einv rows
     \<and> (\<forall>n a. dp_address dp n = Some a \<longrightarrow> dp_host dp a = Some n)"

definition node_holds :: "'e deployment \<Rightarrow> ('e \<Rightarrow> (string \<times> string) list) \<Rightarrow> 'e cluster \<Rightarrow> string \<Rightarrow> string \<Rightarrow> Envelope option" where
  "node_holds dp rows w nid k = held (dp_unmarshal dp) (rows (cn_engine (w nid))) k"

definition world_ok :: "'e deployment \<Rightarrow> ('e \<Rightarrow> bool) \<Rightarrow> ('e \<Rightarrow> (string \<times> string) list) \<Rightarrow> 'e cluster \<Rightarrow> bool" where
  "world_ok dp einv rows w \<longleftrightarrow> deployment_ok dp einv rows \<and> (\<forall>n. einv (cn_engine (w n)))
     \<and> (\<forall>n k v. node_holds dp rows w n k = Some v \<longrightarrow> portable dp v)"

definition write_ok :: "'e deployment \<Rightarrow> ('e \<Rightarrow> (string \<times> string) list) \<Rightarrow> 'e \<Rightarrow> string \<Rightarrow> Envelope \<Rightarrow> 'e \<Rightarrow> bool \<Rightarrow> bool" where
  "write_ok dp rows e key env e' ok \<longleftrightarrow>
     (\<forall>k. k \<noteq> key \<longrightarrow> held (dp_unmarshal dp) (rows e') k = held (dp_unmarshal dp) (rows e) k)
     \<and> ((\<exists>v. held (dp_unmarshal dp) (rows e') key = Some v \<and> env_sim env v)
        \<or> \<not> ok \<and> held (dp_unmarshal dp) (rows e') key = held (dp_unmarshal dp) (rows e) key)"

lemma write_ok_refl: "write_ok dp rows e key env e False"
  by (simp add: write_ok_def)

lemma store_write_ok:
  assumes dp: "deployment_ok dp einv rows" and inv: "einv e" and p: "portable dp env"
    and w: "(if Deleted env then NodeStore_Delete (dp_marshal dp) (dp_store dp) e key env sync
             else NodeStore_Put (dp_marshal dp) (dp_store dp) e key env sync) = (e', r)"
  shows "einv e' \<and> write_ok dp rows e key env e' (r = Inr ())"
proof -
  have n: "Envelope_normalize env = env" by (rule portable_normalize [OF p])
  have kv: "kv_engine (ns_engine (dp_store dp)) (ns_user (dp_store dp)) einv rows" using dp by (simp add: deployment_ok_def)
  have "env_sim env env" using p by (simp add: portable_def env_sim_refl)
  then have js: "json_ok (dp_marshal dp) (dp_unmarshal dp) (Envelope_normalize env)" using p n by (simp add: portable_def)
  show ?thesis using store_write_effect [OF kv inv js w] by (auto simp: write_ok_def stored_def n)
qed

lemma server_write_ok:
  assumes dp: "deployment_ok dp einv rows" and inv: "einv e" and p: "portable dp env"
    and w: "(if Deleted env then NodeServer_Delete (dp_marshal dp) (dp_unmarshal dp) (node_server dp n) e None req
             else NodeServer_Put (dp_marshal dp) (dp_unmarshal dp) (node_server dp n) e None req) = (e', r)"
    and req: "req = \<lparr>preq_Key = key, preq_Envelope = Some (EnvelopeToProto env), preq_Sync = sync\<rparr>"
  shows "einv e' \<and> write_ok dp rows e key env e' (r = Inr ())"
proof (cases "e' = e \<and> r \<noteq> Inr ()")
  case True
  then show ?thesis using inv write_ok_refl by simp
next
  case False
  then obtain env' r' where env': "EnvelopeFromProto (dp_marshal dp) (dp_unmarshal dp) (Some (EnvelopeToProto env)) = Inr env'"
      and st: "(if Deleted env then NodeStore_Delete (dp_marshal dp) (dp_store dp) e key env' sync
        else NodeStore_Put (dp_marshal dp) (dp_store dp) e key env' sync) = (e', r')" and r': "r' = Inr () \<longleftrightarrow> r = Inr ()"
    using w unfolding req
    by (auto simp: NodeServer_Put_def NodeServer_Delete_def node_server_def NewNodeServer_def
        split: if_splits sum.splits prod.splits)
  have sim: "env_sim env env'" by (rule FromProto_ToProto [OF p env'])
  then have "Deleted env' = Deleted env" by (simp add: env_sim_def)
  then have "einv e' \<and> write_ok dp rows e key env' e' (r' = Inr ())"
    using st by (intro store_write_ok [OF dp inv portable_sim [OF p sim]]) auto
  then show ?thesis using r' env_sim_trans [OF sim] by (auto simp: write_ok_def)
qed

lemma set_engine_write:
  assumes w: "world_ok dp einv rows w" and p: "portable dp env"
    and e: "einv e" "write_ok dp rows (cn_engine (w nid)) key env e ok"
  shows "world_ok dp einv rows (set_engine w nid e)
    \<and> (\<forall>n k. (n, k) \<noteq> (nid, key) \<longrightarrow> node_holds dp rows (set_engine w nid e) n k = node_holds dp rows w n k)
    \<and> ((\<exists>v. node_holds dp rows (set_engine w nid e) nid key = Some v \<and> env_sim env v)
       \<or> \<not> ok \<and> node_holds dp rows (set_engine w nid e) nid key = node_holds dp rows w nid key)"
proof -
  have other: "node_holds dp rows (set_engine w nid e) n k = node_holds dp rows w n k" if "(n, k) \<noteq> (nid, key)" for n k
    using that e(2) by (auto simp: node_holds_def set_engine_def write_ok_def)
  have new: "(\<exists>v. node_holds dp rows (set_engine w nid e) nid key = Some v \<and> env_sim env v)
       \<or> \<not> ok \<and> node_holds dp rows (set_engine w nid e) nid key = node_holds dp rows w nid key"
    using e(2) by (auto simp: node_holds_def set_engine_def write_ok_def)
  have "portable dp v" if "node_holds dp rows (set_engine w nid e) n k = Some v" for n k v
    using that other [of n k] new w portable_sim [OF p] unfolding world_ok_def
    by (cases "(n, k) = (nid, key)") auto
  then show ?thesis using other new w e(1) by (auto simp: world_ok_def set_engine_def)
qed

lemma set_engine_read:
  assumes "world_ok dp einv rows w" "einv e" "rows e = rows (cn_engine (w nid))"
  shows "world_ok dp einv rows (set_engine w nid e) \<and> node_holds dp rows (set_engine w nid e) = node_holds dp rows w"
proof -
  have "node_holds dp rows (set_engine w nid e) = node_holds dp rows w"
    using assms by (auto simp: node_holds_def set_engine_def fun_eq_iff)
  then show ?thesis using assms by (auto simp: world_ok_def set_engine_def)
qed

lemma rpc_cases:
  assumes "rpc dp net w a h = (w', r)" "dp_host dp a = Some n"
  obtains (lost) "w' = w" "isl r"
    | (ran) e q where "h (node_server dp (w n)) (cn_engine (w n)) = (e, q)" "w' = set_engine w n e"
        "isl r \<or> (\<exists>x. q = Inr x \<and> r = Inr x)"
proof (cases "net a = RequestLost")
  case True
  then show thesis using assms lost by (auto simp: rpc_def)
next
  case False
  obtain e q where h: "h (node_server dp (w n)) (cn_engine (w n)) = (e, q)" by fastforce
  then have "w' = set_engine w n e" "r = (if net a = ResponseLost then Inl ''deadline exceeded'' else case q of Inl code \<Rightarrow> Inl ''status'' | Inr x \<Rightarrow> Inr x)"
    using assms False by (auto simp: rpc_def)
  then show thesis using ran [OF h] by (cases q) (auto split: if_splits)
qed

lemma writeToOwner_cases:
  assumes "writeToOwner (cluster_coordinator dp net nid cfg) key env w ow = (w', r)" "deployment_ok dp einv rows"
  obtains (same) "w' = w" "isl r"
    | (local) e q where "(if Deleted env then NodeStore_Delete (dp_marshal dp) (dp_store dp) (cn_engine (w ow)) key env True
        else NodeStore_Put (dp_marshal dp) (dp_store dp) (cn_engine (w ow)) key env True) = (e, q)"
        "w' = set_engine w ow e" "isl q \<longrightarrow> isl r"
    | (remote) e q where "(if Deleted env
        then NodeServer_Delete (dp_marshal dp) (dp_unmarshal dp) (node_server dp (w ow)) (cn_engine (w ow)) None
          \<lparr>preq_Key = key, preq_Envelope = Some (EnvelopeToProto env), preq_Sync = True\<rparr>
        else NodeServer_Put (dp_marshal dp) (dp_unmarshal dp) (node_server dp (w ow)) (cn_engine (w ow)) None
          \<lparr>preq_Key = key, preq_Envelope = Some (EnvelopeToProto env), preq_Sync = True\<rparr>) = (e, q)"
        "w' = set_engine w ow e" "isl q \<longrightarrow> isl r"
proof (cases "ow = nid")
  case True
  obtain e q where st: "(if Deleted env then NodeStore_Delete (dp_marshal dp) (dp_store dp) (cn_engine (w ow)) key env True
        else NodeStore_Put (dp_marshal dp) (dp_store dp) (cn_engine (w ow)) key env True) = (e, q)" by fastforce
  then have "local_result w ow (e, q) = (w', r)"
    using assms(1) True by (simp add: writeToOwner_def cluster_coordinator_def NewCoordinator_def split: if_splits)
  then show thesis using local [OF st] by (cases q) (auto simp: local_result_def)
next
  case False
  show thesis
  proof (cases "dp_address dp ow")
    case None
    then have "w' = w" "isl r" using assms(1) False
      by (auto simp: writeToOwner_def cluster_coordinator_def NewCoordinator_def)
    then show thesis by (rule same)
  next
    case (Some a)
    then have host: "dp_host dp a = Some ow" using assms(2) by (simp add: deployment_ok_def)
    have "rpc dp net w a (\<lambda>s e. if Deleted env
        then NodeServer_Delete (dp_marshal dp) (dp_unmarshal dp) s e None
          \<lparr>preq_Key = key, preq_Envelope = Some (EnvelopeToProto env), preq_Sync = True\<rparr>
        else NodeServer_Put (dp_marshal dp) (dp_unmarshal dp) s e None
          \<lparr>preq_Key = key, preq_Envelope = Some (EnvelopeToProto env), preq_Sync = True\<rparr>) = (w', r)"
      using assms(1) False Some
      by (simp add: writeToOwner_def cluster_coordinator_def NewCoordinator_def Client_Put_def Client_Delete_def split: if_splits)
    then show thesis using host by (cases rule: rpc_cases) (auto intro: same remote)
  qed
qed

lemma cluster_write_law:
  assumes w: "world_ok dp einv rows w" and p: "portable dp env"
    and wr: "writeToOwner (cluster_coordinator dp net nid cfg) key env w ow = (w', r)"
  shows "world_ok dp einv rows w'
      \<and> (\<forall>n k. (n, k) \<noteq> (ow, key) \<longrightarrow> node_holds dp rows w' n k = node_holds dp rows w n k)
      \<and> ((\<exists>v. node_holds dp rows w' ow key = Some v \<and> env_sim env v)
         \<or> isl r \<and> node_holds dp rows w' ow key = node_holds dp rows w ow key)"
proof -
  have dp: "deployment_ok dp einv rows" and inv: "einv (cn_engine (w ow))" using w by (auto simp: world_ok_def)
  show ?thesis
    using wr dp
  proof (cases rule: writeToOwner_cases)
    case same
    then show ?thesis using w by simp
  next
    case (local e q)
    then show ?thesis
      using set_engine_write [OF w p, of e ow key "q = Inr ()"] store_write_ok [OF dp inv p local(1)] by (cases q) auto
  next
    case (remote e q)
    then show ?thesis
      using set_engine_write [OF w p, of e ow key "q = Inr ()"] server_write_ok [OF dp inv p remote(1) refl] by (cases q) auto
  qed
qed

lemma same_outcome_refl: "(\<And>v. h = Some v \<Longrightarrow> gmap_ok (Clock v)) \<Longrightarrow> same_outcome h h"
  by (cases h) (auto simp: same_outcome_def env_sim_refl)

lemma server_get:
  assumes "NodeServer_Get u (node_server dp n) e None key = (e', r)"
  shows "(e' = e \<and> isl r) \<or> (\<exists>q. NodeStore_Get u (dp_store dp) e key = (e', q) \<and> (isl q \<longrightarrow> isl r)
     \<and> (\<forall>h. q = Inr h \<longrightarrow> r = Inr \<lparr>gresp_Found = (h \<noteq> None), gresp_Envelope = map_option EnvelopeToProto h\<rparr>))"
  using assms
  by (auto simp: NodeServer_Get_def node_server_def NewNodeServer_def split: if_splits prod.splits sum.splits option.splits)

lemma client_get:
  assumes "Client_Get dp net w a key = (w', r)" "dp_host dp a = Some n"
  obtains (lost) "w' = w \<or> w' = set_engine w n (cn_engine (w n))" "isl r"
    | (ran) e q where "NodeStore_Get (dp_unmarshal dp) (dp_store dp) (cn_engine (w n)) key = (e, q)" "w' = set_engine w n e"
        "isl r \<or> q = Inr None \<and> r = Inr None
         \<or> (\<exists>v v'. q = Inr (Some v) \<and> r = Inr (Some v')
            \<and> EnvelopeFromProto (dp_marshal dp) (dp_unmarshal dp) (Some (EnvelopeToProto v)) = Inr v')"
proof -
  obtain w1 r1 where rpc: "rpc dp net w a (\<lambda>s e. NodeServer_Get (dp_unmarshal dp) s e None key) = (w1, r1)" by fastforce
  have w': "w' = w1" "isl r1 \<longrightarrow> isl r"
    using assms(1) rpc by (auto simp: Client_Get_def split: sum.splits if_splits)
  show thesis
    using rpc assms(2)
  proof (cases rule: rpc_cases)
    case lost
    then show thesis using that(1) w' by simp
  next
    case (ran e q)
    from server_get [OF ran(1)] show thesis
    proof (elim disjE exE conjE)
      assume "e = cn_engine (w n)" "isl q"
      then have "isl r1" using ran(3) by auto
      then show thesis using that(1) w' ran(2) \<open>e = _\<close> by simp
    next
      fix g assume g: "NodeStore_Get (dp_unmarshal dp) (dp_store dp) (cn_engine (w n)) key = (e, g)" "isl g \<longrightarrow> isl q"
        "\<forall>h. g = Inr h \<longrightarrow> q = Inr \<lparr>gresp_Found = (h \<noteq> None), gresp_Envelope = map_option EnvelopeToProto h\<rparr>"
      have "isl r \<or> g = Inr None \<and> r = Inr None
         \<or> (\<exists>v v'. g = Inr (Some v) \<and> r = Inr (Some v')
            \<and> EnvelopeFromProto (dp_marshal dp) (dp_unmarshal dp) (Some (EnvelopeToProto v)) = Inr v')"
      proof (cases "isl r1")
        case False
        then obtain x where x: "q = Inr x" "r1 = Inr x" using ran(3) by auto
        then obtain h where h: "g = Inr h" using g(2) by (cases g) auto
        then have "x = \<lparr>gresp_Found = (h \<noteq> None), gresp_Envelope = map_option EnvelopeToProto h\<rparr>" using g(3) x by simp
        then show ?thesis using assms(1) rpc x h
          by (cases h) (auto simp: Client_Get_def split: sum.splits)
      qed (use w' in simp)
      then show thesis using that(2) [OF g(1)] w'(1) ran(2) by simp
    qed
  qed
qed

lemma cluster_read_law:
  assumes w: "world_ok dp einv rows w" and rd: "readFromOwner (cluster_coordinator dp net nid cfg) key w ow = (w', r)"
  shows "world_ok dp einv rows w' \<and> node_holds dp rows w' = node_holds dp rows w
    \<and> (\<forall>x. r = Inr x \<longrightarrow> same_outcome (node_holds dp rows w ow key) x)"
proof -
  have dp: "deployment_ok dp einv rows" and inv: "einv (cn_engine (w ow))"
    and port: "\<And>v. node_holds dp rows w ow key = Some v \<Longrightarrow> portable dp v" using w by (auto simp: world_ok_def)
  have kv: "kv_engine (ns_engine (dp_store dp)) (ns_user (dp_store dp)) einv rows" using dp by (simp add: deployment_ok_def)
  obtain e q where get: "NodeStore_Get (dp_unmarshal dp) (dp_store dp) (cn_engine (w ow)) key = (e, q)" by fastforce
  have law: "einv e \<and> rows e = rows (cn_engine (w ow)) \<and> (\<forall>x. q = Inr x \<longrightarrow> x = node_holds dp rows w ow key)"
    using Get_result [OF kv inv get] by (simp add: node_holds_def)
  have keep: "world_ok dp einv rows (set_engine w ow e) \<and> node_holds dp rows (set_engine w ow e) = node_holds dp rows w"
    using law by (intro set_engine_read [OF w]) auto
  have keep': "world_ok dp einv rows (set_engine w ow (cn_engine (w ow)))
      \<and> node_holds dp rows (set_engine w ow (cn_engine (w ow))) = node_holds dp rows w"
    using inv by (intro set_engine_read [OF w]) auto
  have refl: "same_outcome (node_holds dp rows w ow key) (node_holds dp rows w ow key)"
    using port by (intro same_outcome_refl) (auto simp: portable_def)
  show ?thesis
  proof (cases "ow = nid")
    case True
    then have "local_result w ow (e, q) = (w', r)"
      using rd get by (simp add: readFromOwner_def cluster_coordinator_def NewCoordinator_def)
    then show ?thesis using keep law refl by (cases q) (auto simp: local_result_def)
  next
    case False
    show ?thesis
    proof (cases "dp_address dp ow")
      case None
      then show ?thesis using rd False w by (auto simp: readFromOwner_def cluster_coordinator_def NewCoordinator_def)
    next
      case (Some a)
      then have host: "dp_host dp a = Some ow" using dp by (simp add: deployment_ok_def)
      have "Client_Get dp net w a key = (w', r)"
        using rd False Some by (simp add: readFromOwner_def cluster_coordinator_def NewCoordinator_def)
      then show ?thesis
        using host
      proof (cases rule: client_get)
        case lost
        then show ?thesis using w keep' by auto
      next
        case (ran e' q')
        then have eq: "e' = e" "q' = q" using get by auto
        have "same_outcome (node_holds dp rows w ow key) x" if "r = Inr x" for x
          using ran(3) that law refl FromProto_ToProto [OF port] unfolding eq by (auto simp: same_outcome_def split: option.splits)
        then show ?thesis using keep ran(2) unfolding eq by simp
      qed
    qed
  qed
qed

text \<open>The coordinator of any node of the cluster, whatever the network does to its calls.\<close>

interpretation cl: replica_group "cluster_coordinator dp net nid cfg" "node_holds dp rows" "world_ok dp einv rows" "\<lambda>w. portable dp"
  for dp :: "'e deployment" and net nid cfg einv rows
proof unfold_locales
  fix w w' :: "'e cluster" and env key ow r
  assume "world_ok dp einv rows w" "portable dp env" "writeToOwner (cluster_coordinator dp net nid cfg) key env w ow = (w', r)"
  from cluster_write_law [OF this]
  show "world_ok dp einv rows w' \<and> (\<forall>e. portable dp e = portable dp e)
      \<and> (\<forall>o' k. (o', k) \<noteq> (ow, key) \<longrightarrow> node_holds dp rows w' o' k = node_holds dp rows w o' k)
      \<and> ((\<exists>v. node_holds dp rows w' ow key = Some v \<and> env_sim env v)
         \<or> isl r \<and> node_holds dp rows w' ow key = node_holds dp rows w ow key)" by simp
next
  fix w w' :: "'e cluster" and key ow r
  assume "world_ok dp einv rows w" "readFromOwner (cluster_coordinator dp net nid cfg) key w ow = (w', r)"
  from cluster_read_law [OF this]
  show "world_ok dp einv rows w' \<and> node_holds dp rows w' = node_holds dp rows w
    \<and> (\<forall>x. r = Inr x \<longrightarrow> same_outcome (node_holds dp rows w ow key) x)" .
qed

section \<open>Consistency of the quorums\<close>

text \<open>A coordinated write of either kind, and the envelope it sends.\<close>

definition coord_write ::
  "(string list \<Rightarrow> string list) \<Rightarrow> int \<Rightarrow> 'w Coordinator \<Rightarrow> 'w \<Rightarrow> string \<Rightarrow> string option \<Rightarrow> VectorClock \<Rightarrow> int
     \<Rightarrow> 'w \<times> WriteResult \<times> coord_error option" where
  "coord_write sched now c w key val ctx rq =
     (case val of Some v \<Rightarrow> Coordinator_Put sched now c w key v ctx rq | None \<Rightarrow> Coordinator_Delete sched now c w key ctx rq)"

definition write_envelope :: "VectorClock \<Rightarrow> string option \<Rightarrow> int \<Rightarrow> Envelope" where
  "write_envelope clock val now = (case val of Some v \<Rightarrow> NewPut clock v now | None \<Rightarrow> NewDelete clock now)"

lemma co_sel [simp]:
  "co_nodeID (cluster_coordinator dp net nid cfg) = nid"
  "co_owners (cluster_coordinator dp net nid cfg) w = Table_Owners (cn_table (w nid))"
  "co_cfg (cluster_coordinator dp net nid cfg) = cfg"
  by (simp_all add: cluster_coordinator_def NewCoordinator_def)

text \<open>
  Any further operations of any coordinators of the cluster, in any order and over any network:
  writes (successful or not), reads, and changes of the range tables. Writes of the observed key
  are made by clients that know the observed clock.
\<close>

inductive later_ops :: "'e deployment \<Rightarrow> string \<Rightarrow> VectorClock \<Rightarrow> 'e cluster \<Rightarrow> 'e cluster \<Rightarrow> bool"
  for dp k vc w where
  none: "later_ops dp k vc w w"
| wr: "later_ops dp k vc w w1 \<Longrightarrow> distinct (Table_Owners (cn_table (w1 nid)) key)
    \<Longrightarrow> mset (sched (Table_Owners (cn_table (w1 nid)) key)) = mset (Table_Owners (cn_table (w1 nid)) key)
    \<Longrightarrow> portable dp (write_envelope (VectorClock_Increment ctx nid) val now)
    \<Longrightarrow> (key = k \<Longrightarrow> clock_le vc (VectorClock_Increment ctx nid))
    \<Longrightarrow> coord_write sched now (cluster_coordinator dp net nid cfg) w1 key val ctx rq = (w2, res)
    \<Longrightarrow> later_ops dp k vc w w2"
| rd: "later_ops dp k vc w w1 \<Longrightarrow> Coordinator_Get sched (cluster_coordinator dp net nid cfg) w1 key rq = (w2, rr)
    \<Longrightarrow> later_ops dp k vc w w2"
| ring: "later_ops dp k vc w w1 \<Longrightarrow> (\<And>n. cn_engine (w2 n) = cn_engine (w1 n)) \<Longrightarrow> later_ops dp k vc w w2"

lemma coord_write_covers:
  assumes "world_ok dp einv rows w" "distinct (Table_Owners (cn_table (w nid)) key)"
    "mset (sched (Table_Owners (cn_table (w nid)) key)) = mset (Table_Owners (cn_table (w nid)) key)"
    and "portable dp (write_envelope (VectorClock_Increment ctx nid) val now)"
    and "coord_write sched now (cluster_coordinator dp net nid cfg) w key val ctx rq = (w', res, None)"
  shows "world_ok dp einv rows w' \<and> wr_VectorClock res = VectorClock_Increment ctx nid
    \<and> wr_Required res = (if rq \<le> 0 then cc_WriteQuorum cfg else rq)
    \<and> wr_Required res \<le> int (card (set (Table_Owners (cn_table (w nid)) key) \<inter> cl.coverage dp rows w' key (wr_VectorClock res)))"
proof (cases val)
  case None
  then have "Coordinator_Delete sched now (cluster_coordinator dp net nid cfg) w key ctx rq = (w', res, None)"
    using assms(5) by (simp add: coord_write_def)
  from cl.Delete_covers [OF assms(1) _ _ _ this, unfolded co_sel] show ?thesis
    using assms(1-4) None by (auto simp: write_envelope_def)
next
  case (Some v)
  then have "Coordinator_Put sched now (cluster_coordinator dp net nid cfg) w key v ctx rq = (w', res, None)"
    using assms(5) by (simp add: coord_write_def)
  from cl.Put_covers [OF assms(1) _ _ _ this, unfolded co_sel] show ?thesis
    using assms(1-4) Some by (auto simp: write_envelope_def)
qed

lemma coord_write_keeps:
  assumes "world_ok dp einv rows w" "distinct (Table_Owners (cn_table (w nid)) key)"
    "mset (sched (Table_Owners (cn_table (w nid)) key)) = mset (Table_Owners (cn_table (w nid)) key)"
    and "portable dp (write_envelope (VectorClock_Increment ctx nid) val now)"
    and "coord_write sched now (cluster_coordinator dp net nid cfg) w key val ctx rq = (w', res)"
    and "key = k \<Longrightarrow> clock_le vc (VectorClock_Increment ctx nid)"
  shows "world_ok dp einv rows w' \<and> cl.coverage dp rows w k vc \<subseteq> cl.coverage dp rows w' k vc"
proof (cases val)
  case None
  then have "Coordinator_Delete sched now (cluster_coordinator dp net nid cfg) w key ctx rq = (w', res)"
    using assms(5) by (simp add: coord_write_def)
  from cl.Delete_keeps [OF assms(1) _ _ _ this, unfolded co_sel, where k = k and vc = vc] show ?thesis
    using assms None by (simp add: write_envelope_def)
next
  case (Some v)
  then have "Coordinator_Put sched now (cluster_coordinator dp net nid cfg) w key v ctx rq = (w', res)"
    using assms(5) by (simp add: coord_write_def)
  from cl.Put_keeps [OF assms(1) _ _ _ this, unfolded co_sel, where k = k and vc = vc] show ?thesis
    using assms Some by (simp add: write_envelope_def)
qed

lemma coverage_cong: "node_holds dp rows w' = node_holds dp rows w \<Longrightarrow> cl.coverage dp rows w' k vc = cl.coverage dp rows w k vc"
  by (simp add: cl.coverage_def)

lemma later_ops_keep:
  assumes "later_ops dp k vc w w'" "world_ok dp einv rows w"
  shows "world_ok dp einv rows w' \<and> cl.coverage dp rows w k vc \<subseteq> cl.coverage dp rows w' k vc"
  using assms(1)
proof induction
  case (wr w1 nid key sched ctx val now net cfg rq w2 res)
  then show ?case using coord_write_keeps [OF _ wr.hyps(2-4) wr.hyps(6), where k = k and vc = vc] wr.hyps(5) by blast
next
  case (rd w1 sched net nid cfg key rq w2 rr)
  then show ?case using cl.Get_keeps [OF _ rd.hyps(2), of einv rows] coverage_cong by (metis subset_trans order_refl)
next
  case (ring w1 w2)
  then have "node_holds dp rows w2 = node_holds dp rows w1" by (simp add: node_holds_def fun_eq_iff)
  moreover from this have "world_ok dp einv rows w2" using ring by (simp add: world_ok_def)
  ultimately show ?case using ring.IH coverage_cong by metis
qed (use assms(2) in simp)


section \<open>A concrete cluster\<close>

text \<open>
  Two nodes that own the key together. The write reaches one of them only; a read that asks both
  sees it.
\<close>

definition ex_dp :: "(string \<times> string) list deployment" where
  "ex_dp = \<lparr>dp_store = ex_store, dp_marshal = ex_marshal, dp_unmarshal = ex_unmarshal, dp_address = Some, dp_host = Some,
     dp_cfg = DefaultConfig\<rparr>"

definition ex_world :: "(string \<times> string) list cluster" where
  "ex_world n = \<lparr>cn_engine = [], cn_table = \<lparr>localNodeID = n, rangeMap = ex_map1\<rparr>\<rparr>"

definition ex_cc :: CoordConfig where
  "ex_cc = \<lparr>cc_ReplicationTimeout = 1, cc_ReadQuorum = 2, cc_WriteQuorum = 1\<rparr>"

definition ex_net :: "string \<Rightarrow> delivery" where
  "ex_net a = (if a = ''n2'' then RequestLost else Delivered)"

lemma env_sim_ex_put: "env_sim ex_put e \<Longrightarrow> e = ex_put"
proof -
  assume s: "env_sim ex_put e"
  then have m: "map_of (Clock e) = map_of [(''n1'', 1)]" and d: "gmap_ok (Clock e)"
    by (auto simp: env_sim_def ex_put_def NewPut_def VectorClock_Clone_def)
  have "dom (map_of (Clock e)) = {''n1''}" unfolding m by simp
  then have f: "fst ` set (Clock e) = {''n1''}" by (simp add: dom_map_of_conv_image_fst)
  moreover have "card (fst ` set (Clock e)) = length (Clock e)" using d by (metis distinct_card length_map list.set_map)
  ultimately have "length (Clock e) = 1" by simp
  then obtain x where "Clock e = [(''n1'', x)]" using f by (cases "Clock e") auto
  then have "Clock e = [(''n1'', 1)]" using m by (auto dest: fun_cong [where x = "''n1''"])
  then show ?thesis using s by (cases e) (simp add: env_sim_def ex_put_def NewPut_def VectorClock_Clone_def)
qed

lemma ex_put_eq: "ex_put = \<lparr>Version = 1, Clock = [(''n1'', 1)], UpdatedAtUnixNano = 7, Deleted = False, Value = ''v''\<rparr>"
  by (simp add: ex_put_def NewPut_def VectorClock_Clone_def EnvelopeVersion_def)

lemma ex_portable: "portable ex_dp ex_put"
  using env_sim_ex_put ex_json
  by (auto simp: portable_def ex_dp_def) (auto simp: ex_put_def NewPut_def VectorClock_Clone_def EnvelopeVersion_def)

lemma ex_envelope: "NewPut (VectorClock_Increment [] ''n1'') ''v'' 7 = ex_put"
  by (simp add: ex_put_def NewPut_def VectorClock_Increment_def VectorClock_Clone_def vget_def)

lemma ex_world_ok: "world_ok ex_dp rows_ok (\<lambda>e. e) ex_world"
  using ex_store_kv by (simp add: world_ok_def deployment_ok_def ex_dp_def ex_world_def rows_ok_def node_holds_def held_def)

lemma ex_owners: "Table_Owners \<lparr>localNodeID = n, rangeMap = ex_map1\<rparr> ''k'' = [''n1'', ''n2'']"
  by code_simp

lemma ex_store_put: "NodeStore_Put ex_marshal ex_store e ''k'' ex_put True = (put_row ''k'' (MagicPrefix @ ''P'') e, Inr ())"
  by (simp add: NodeStore_Put_def NodeStore_writeEnvelope_def ex_Encode engine_result_def ex_store_def NewNodeStore_def list_engine_def)

lemma ex_store_get:
  "NodeStore_Get ex_unmarshal ex_store [(''k'', MagicPrefix @ ''P'')] ''k'' = ([(''k'', MagicPrefix @ ''P'')], Inr (Some ex_put))"
  "NodeStore_Get ex_unmarshal ex_store [] ''k'' = ([], Inr None)"
  by (simp_all add: NodeStore_Get_def ex_Decode ex_store_def NewNodeStore_def list_engine_def)

lemma ex_wire: "EnvelopeFromProto ex_marshal ex_unmarshal (Some (EnvelopeToProto ex_put)) = Inr ex_put"
proof -
  have "\<lparr>Version = go_int32 1, Clock = VectorClockFromProto (VectorClockToProto [(''n1'', 1)]), UpdatedAtUnixNano = 7, Deleted = False,
      Value = ''v''\<rparr> = ex_put"
    by (simp add: ex_put_eq go_int32_def VectorClockFromProto_def VectorClockToProto_def vget_def)
  then show ?thesis
    using ex_Encode ex_Decode by (simp add: EnvelopeFromProto_def EnvelopeToProto_def ex_put_eq)
qed

lemma ex_write:
  "coord_write id 7 (cluster_coordinator ex_dp ex_net ''n1'' ex_cc) ex_world ''k'' (Some ''v'') [] 1 =
     (set_engine ex_world ''n1'' [(''k'', MagicPrefix @ ''P'')], \<lparr>wr_VectorClock = [(''n1'', 1)], wr_Acks = 1, wr_Required = 1\<rparr>, None)"
  by (simp add: coord_write_def Coordinator_Put_def resolveWriteQuorum_def ex_owners ex_world_def ex_envelope Let_def
      writeToOwner_def cluster_coordinator_def NewCoordinator_def ex_put_eq [symmetric] ex_dp_def ex_store_put local_result_def
      Client_Put_def rpc_def ex_net_def writeResult_def)
    (simp add: VectorClock_Increment_def VectorClock_Clone_def vget_def)

definition ex_world1 :: "(string \<times> string) list cluster" where
  "ex_world1 = set_engine ex_world ''n1'' [(''k'', MagicPrefix @ ''P'')]"

lemma ex_world1_sel [simp]:
  "cn_engine (ex_world1 ''n1'') = [(''k'', MagicPrefix @ ''P'')]" "cn_engine (ex_world1 ''n2'') = []"
  "cn_table (ex_world1 n) = \<lparr>localNodeID = n, rangeMap = ex_map1\<rparr>"
  "set_engine ex_world1 ''n1'' [(''k'', MagicPrefix @ ''P'')] = ex_world1" "set_engine ex_world1 ''n2'' [] = ex_world1"
  by (auto simp: ex_world1_def set_engine_def ex_world_def fun_eq_iff)

lemma ex_reads:
  "readFromOwner (cluster_coordinator ex_dp (\<lambda>_. Delivered) ''n2'' ex_cc) ''k'' ex_world1 ''n1'' = (ex_world1, Inr (Some ex_put))"
  "readFromOwner (cluster_coordinator ex_dp (\<lambda>_. Delivered) ''n2'' ex_cc) ''k'' ex_world1 ''n2'' = (ex_world1, Inr None)"
  by (simp_all add: readFromOwner_def cluster_coordinator_def NewCoordinator_def ex_dp_def local_result_def ex_store_get ex_wire
      Client_Get_def rpc_def NodeServer_Get_def node_server_def NewNodeServer_def table_ownership_def IsOwner_iff ex_owners)

lemma ex_reconcile: "Reconcile [ex_put] = \<lparr>Winner = Some ex_put, Siblings = [], Context = [(''n1'', 1)]\<rparr>"
  by (simp add: Reconcile_def cloneEnvelope_def VectorClock_Clone_def Compare_def vget_def VectorClock_Merge_def Let_def ex_put_eq)

lemma ex_read:
  "Coordinator_Get id (cluster_coordinator ex_dp (\<lambda>_. Delivered) ''n2'' ex_cc) ex_world1 ''k'' 2
     = (ex_world1, Inr \<lparr>rr_Versions = [ex_put], rr_VectorClock = [(''n1'', 1)]\<rparr>)"
  by (simp add: Coordinator_Get_def ex_owners ex_reads ex_reconcile Let_def)


end
