(* ===== verification/Membership.thy ===== *)
theory Membership
  imports NodeStore "HOL-Library.Product_Lexorder"
begin

text \<open>
  SWIM membership: \<open>src/cluster/membership\<close> (\<open>member.go\<close>, \<open>table.go\<close>, \<open>gossiper.go\<close>, \<open>server.go\<close>,
  \<open>convert.go\<close> and the calls of \<open>client.go\<close>).

  A time is a number of nanoseconds; the zero \<open>time.Time\<close> is \<open>None\<close>. The clock \<open>t.now()\<close> is an
  argument of the operations that stamp a record. Incarnations and epochs are \<open>uint64\<close>. Calls to
  peers and random choices are arguments of the gossiper's steps; each operation on the table is
  atomic, as its mutex makes it.
\<close>

section \<open>member.go\<close>

datatype Status = StatusUnknown | StatusAlive | StatusSuspect | StatusDead

definition Status_rank :: "Status \<Rightarrow> int" where
  "Status_rank s = (case s of StatusDead \<Rightarrow> 2 | StatusSuspect \<Rightarrow> 1 | StatusAlive \<Rightarrow> 0 | StatusUnknown \<Rightarrow> -1)"

record Member =
  mb_NodeID :: string
  mb_ClusterID :: string
  mb_AdvertiseAddr :: string
  mb_Status :: Status
  mb_Incarnation :: u64
  mb_LastSeen :: "int option"
  mb_MembershipEpoch :: u64
  mb_RangeMapEpoch :: u64

definition zero_Member :: Member where
  "zero_Member = \<lparr>mb_NodeID = '''', mb_ClusterID = '''', mb_AdvertiseAddr = '''', mb_Status = StatusUnknown, mb_Incarnation = 0,
     mb_LastSeen = None, mb_MembershipEpoch = 0, mb_RangeMapEpoch = 0\<rparr>"

definition supersedes :: "Member \<Rightarrow> Member \<Rightarrow> bool" where
  "supersedes incoming current =
     (if mb_Incarnation incoming \<noteq> mb_Incarnation current then mb_Incarnation incoming > mb_Incarnation current
      else Status_rank (mb_Status incoming) > Status_rank (mb_Status current))"

section \<open>table.go\<close>

record MTable =
  mt_clusterID :: string
  mt_localID :: string
  mt_members :: "(string \<times> Member) list"
  mt_epoch :: u64

definition lookup_member :: "MTable \<Rightarrow> string \<Rightarrow> Member" where
  "lookup_member t nodeID = (case map_of (mt_members t) nodeID of None \<Rightarrow> zero_Member | Some m \<Rightarrow> m)"

definition setLocked :: "int \<Rightarrow> MTable \<Rightarrow> Member \<Rightarrow> MTable" where
  "setLocked now t m =
     (let m = (if mb_LastSeen m = None then m\<lparr>mb_LastSeen := Some now\<rparr> else m);
          t = t\<lparr>mt_epoch := mt_epoch t + 1\<rparr>;
          m = m\<lparr>mb_MembershipEpoch := mt_epoch t\<rparr>
      in t\<lparr>mt_members := AList.update (mb_NodeID m) m (mt_members t)\<rparr>)"

definition NewMTable :: "int \<Rightarrow> string \<Rightarrow> Member \<Rightarrow> MTable" where
  "NewMTable now clusterID local =
     (let local = (if mb_Status local = StatusUnknown then local\<lparr>mb_Status := StatusAlive\<rparr> else local);
          local = local\<lparr>mb_ClusterID := clusterID\<rparr>;
          t = \<lparr>mt_clusterID = clusterID, mt_localID = mb_NodeID local, mt_members = [], mt_epoch = 0\<rparr>
      in setLocked now t local)"

definition MTable_Local :: "MTable \<Rightarrow> Member" where
  "MTable_Local t = lookup_member t (mt_localID t)"

definition MTable_Get :: "MTable \<Rightarrow> string \<Rightarrow> Member \<times> bool" where
  "MTable_Get t nodeID = (lookup_member t nodeID, map_of (mt_members t) nodeID \<noteq> None)"

definition MTable_Snapshot :: "MTable \<Rightarrow> Member list" where
  "MTable_Snapshot t = sort_key mb_NodeID (map snd (mt_members t))"

definition MTable_Upsert :: "int \<Rightarrow> MTable \<Rightarrow> Member \<Rightarrow> MTable \<times> bool" where
  "MTable_Upsert now t m =
     (if mb_ClusterID m \<noteq> '''' \<and> mb_ClusterID m \<noteq> mt_clusterID t then (t, False)
      else (setLocked now t (m\<lparr>mb_ClusterID := mt_clusterID t\<rparr>), True))"

definition refuteLocked :: "int \<Rightarrow> MTable \<Rightarrow> Member \<Rightarrow> MTable \<times> bool" where
  "refuteLocked now t accusation =
     (if mb_Status accusation \<noteq> StatusSuspect \<and> mb_Status accusation \<noteq> StatusDead then (t, False)
      else let local = lookup_member t (mt_localID t)
           in if mb_Incarnation accusation < mb_Incarnation local then (t, False)
              else let local = local\<lparr>mb_Incarnation := mb_Incarnation accusation + 1, mb_Status := StatusAlive\<rparr>
                   in (setLocked now t local, True))"

definition MTable_Merge :: "int \<Rightarrow> MTable \<Rightarrow> Member \<Rightarrow> MTable \<times> bool" where
  "MTable_Merge now t incoming =
     (if mb_ClusterID incoming \<noteq> '''' \<and> mb_ClusterID incoming \<noteq> mt_clusterID t then (t, False)
      else let incoming = incoming\<lparr>mb_ClusterID := mt_clusterID t\<rparr>
           in if mb_NodeID incoming = mt_localID t then refuteLocked now t incoming
              else case map_of (mt_members t) (mb_NodeID incoming) of
                     None \<Rightarrow> (setLocked now t incoming, True)
                   | Some current \<Rightarrow>
                       if supersedes incoming current
                       then (let incoming = (if mb_RangeMapEpoch current > mb_RangeMapEpoch incoming
                                             then incoming\<lparr>mb_RangeMapEpoch := mb_RangeMapEpoch current\<rparr> else incoming)
                             in (setLocked now t incoming, True))
                       else if mb_RangeMapEpoch incoming > mb_RangeMapEpoch current
                       then (setLocked now t (current\<lparr>mb_RangeMapEpoch := mb_RangeMapEpoch incoming\<rparr>), True)
                       else (t, False))"

definition MarkSuspect :: "int \<Rightarrow> MTable \<Rightarrow> string \<Rightarrow> u64 \<Rightarrow> MTable \<times> bool" where
  "MarkSuspect now t nodeID incarnation =
     (if nodeID = mt_localID t then (t, False)
      else case map_of (mt_members t) nodeID of
             None \<Rightarrow> (t, False)
           | Some current \<Rightarrow>
               if mb_Incarnation current \<noteq> incarnation \<or> mb_Status current \<noteq> StatusAlive then (t, False)
               else (setLocked now t (current\<lparr>mb_Status := StatusSuspect\<rparr>), True))"

definition MarkDead :: "int \<Rightarrow> MTable \<Rightarrow> string \<Rightarrow> u64 \<Rightarrow> MTable \<times> bool" where
  "MarkDead now t nodeID incarnation =
     (if nodeID = mt_localID t then (t, False)
      else case map_of (mt_members t) nodeID of
             None \<Rightarrow> (t, False)
           | Some current \<Rightarrow>
               if mb_Incarnation current \<noteq> incarnation \<or> mb_Status current \<noteq> StatusSuspect then (t, False)
               else (setLocked now t (current\<lparr>mb_Status := StatusDead\<rparr>), True))"

definition RefuteLocalSuspect :: "int \<Rightarrow> MTable \<Rightarrow> MTable \<times> Member" where
  "RefuteLocalSuspect now t =
     (let local = lookup_member t (mt_localID t);
          local = local\<lparr>mb_Incarnation := mb_Incarnation local + 1, mb_Status := StatusAlive\<rparr>;
          t = setLocked now t local
      in (t, lookup_member t (mt_localID t)))"

definition SetLocalRangeMapEpoch :: "int \<Rightarrow> MTable \<Rightarrow> u64 \<Rightarrow> MTable \<times> Member" where
  "SetLocalRangeMapEpoch now t epoch =
     (let local = (lookup_member t (mt_localID t))\<lparr>mb_RangeMapEpoch := epoch\<rparr>;
          t = setLocked now t local
      in (t, lookup_member t (mt_localID t)))"

section \<open>convert.go\<close>

datatype MemberStatus =
    MEMBER_STATUS_UNKNOWN | MEMBER_STATUS_ALIVE | MEMBER_STATUS_SUSPECT | MEMBER_STATUS_DEAD | MEMBER_STATUS_OTHER int

record MemberState =
  ms_Node :: "NodeInfo option"
  ms_Status :: MemberStatus
  ms_Incarnation :: u64
  ms_LastSeenUnixNano :: int
  ms_MembershipEpoch :: u64
  ms_RangeMapEpoch :: u64

definition NodeInfoToProto :: "Member \<Rightarrow> NodeInfo" where
  "NodeInfoToProto m = \<lparr>ni_NodeId = mb_NodeID m, ni_ClusterId = mb_ClusterID m, ni_AdvertiseAddr = mb_AdvertiseAddr m\<rparr>"

definition NodeIdentityFromProto :: "NodeInfo option \<Rightarrow> string \<times> string \<times> string" where
  "NodeIdentityFromProto info =
     (case info of None \<Rightarrow> ('''', '''', '''') | Some i \<Rightarrow> (ni_NodeId i, ni_ClusterId i, ni_AdvertiseAddr i))"

definition statusToProto :: "Status \<Rightarrow> MemberStatus" where
  "statusToProto s = (case s of StatusAlive \<Rightarrow> MEMBER_STATUS_ALIVE | StatusSuspect \<Rightarrow> MEMBER_STATUS_SUSPECT
     | StatusDead \<Rightarrow> MEMBER_STATUS_DEAD | StatusUnknown \<Rightarrow> MEMBER_STATUS_UNKNOWN)"

definition statusFromProto :: "MemberStatus \<Rightarrow> Status" where
  "statusFromProto v = (case v of MEMBER_STATUS_ALIVE \<Rightarrow> StatusAlive | MEMBER_STATUS_SUSPECT \<Rightarrow> StatusSuspect
     | MEMBER_STATUS_DEAD \<Rightarrow> StatusDead | _ \<Rightarrow> StatusUnknown)"

definition MemberToProto :: "Member \<Rightarrow> MemberState" where
  "MemberToProto m =
     (let lastSeen = (case mb_LastSeen m of None \<Rightarrow> 0 | Some t \<Rightarrow> t)
      in \<lparr>ms_Node = Some (NodeInfoToProto m), ms_Status = statusToProto (mb_Status m), ms_Incarnation = mb_Incarnation m,
          ms_LastSeenUnixNano = lastSeen, ms_MembershipEpoch = mb_MembershipEpoch m, ms_RangeMapEpoch = mb_RangeMapEpoch m\<rparr>)"

definition MemberFromProto :: "MemberState option \<Rightarrow> Member" where
  "MemberFromProto ms =
     (case ms of
        None \<Rightarrow> zero_Member
      | Some s \<Rightarrow>
          (let (nodeID, clusterID, advertiseAddr) = NodeIdentityFromProto (ms_Node s);
               m = \<lparr>mb_NodeID = nodeID, mb_ClusterID = clusterID, mb_AdvertiseAddr = advertiseAddr,
                    mb_Status = statusFromProto (ms_Status s), mb_Incarnation = ms_Incarnation s, mb_LastSeen = None,
                    mb_MembershipEpoch = ms_MembershipEpoch s, mb_RangeMapEpoch = ms_RangeMapEpoch s\<rparr>
           in if ms_LastSeenUnixNano s \<noteq> 0 then m\<lparr>mb_LastSeen := Some (ms_LastSeenUnixNano s)\<rparr> else m))"

definition MembersToProto :: "Member list \<Rightarrow> MemberState list" where
  "MembersToProto members = map MemberToProto members"

definition MembersFromProto :: "MemberState option list \<Rightarrow> Member list" where
  "MembersFromProto states = map MemberFromProto states"

section \<open>server.go\<close>

definition merge_sender :: "int \<Rightarrow> MTable \<Rightarrow> MemberState option \<Rightarrow> MTable" where
  "merge_sender now t sender =
     (let sender = MemberFromProto sender in if mb_NodeID sender \<noteq> '''' then fst (MTable_Merge now t sender) else t)"

definition GossipServer_Ping ::
  "int \<Rightarrow> MTable \<Rightarrow> ContextErr option \<Rightarrow> string \<Rightarrow> MemberState option \<Rightarrow> MTable \<times> (Code + MemberState)" where
  "GossipServer_Ping now t ctx targetID sender =
     (case ctx of
        Some err \<Rightarrow> (t, Inl (FromContextError err))
      | None \<Rightarrow>
          if targetID \<noteq> '''' \<and> targetID \<noteq> mt_localID t then (t, Inl NotFound)
          else let t = merge_sender now t sender in (t, Inr (MemberToProto (MTable_Local t))))"

definition GossipServer_Gossip ::
  "int \<Rightarrow> MTable \<Rightarrow> ContextErr option \<Rightarrow> MemberState option \<Rightarrow> MemberState option list \<Rightarrow> MTable \<times> (Code + MemberState list)" where
  "GossipServer_Gossip now t ctx sender membership =
     (case ctx of
        Some err \<Rightarrow> (t, Inl (FromContextError err))
      | None \<Rightarrow>
          (let t = merge_sender now t sender;
               t = fold (\<lambda>ms t. fst (MTable_Merge now t (MemberFromProto ms))) membership t
           in (t, Inr (MembersToProto (MTable_Snapshot t)))))"

text \<open>The ping client of the server is optional; its call is an argument.\<close>

type_synonym ping_client = "string \<Rightarrow> string \<Rightarrow> Member \<Rightarrow> unit + Member"

definition GossipServer_IndirectPing ::
  "int \<Rightarrow> ping_client option \<Rightarrow> MTable \<Rightarrow> ContextErr option \<Rightarrow> MemberState option \<Rightarrow> NodeInfo option
     \<Rightarrow> MTable \<times> (Code + bool \<times> MemberState option)" where
  "GossipServer_IndirectPing now client t ctx sender target =
     (case ctx of
        Some err \<Rightarrow> (t, Inl (FromContextError err))
      | None \<Rightarrow>
          (let t = merge_sender now t sender;
               (targetNodeID, _, targetAddr) = NodeIdentityFromProto target
           in if targetNodeID = '''' \<or> targetAddr = '''' then (t, Inl InvalidArgument)
              else case client of
                     None \<Rightarrow> (t, Inl FailedPrecondition)
                   | Some ping \<Rightarrow>
                       (case ping targetAddr targetNodeID (MTable_Local t) of
                          Inl err \<Rightarrow> (t, Inr (False, None))
                        | Inr responder \<Rightarrow> (fst (MTable_Merge now t responder), Inr (True, Some (MemberToProto responder))))))"

section \<open>gossiper.go\<close>

record GossiperConfig =
  gc_GossipInterval :: int
  gc_PingTimeout :: int
  gc_SuspectTimeout :: int
  gc_DeadTimeout :: int
  gc_IndirectPingFanout :: int
  gc_Seeds :: "string list"

record Gossiper =
  g_table :: MTable
  g_cfg :: GossiperConfig
  g_suspectedSince :: "(string \<times> int) list"

text \<open>
  The calls of a tick: the answers of the client to pings, indirect pings and gossip, the order in
  which the answers of indirect pings arrive, and the random numbers (\<open>random(n)\<close> is one of them
  modulo \<open>n\<close>).
\<close>

record GossipClient =
  cl_Ping :: ping_client
  cl_IndirectPing :: "string \<Rightarrow> Member \<Rightarrow> Member \<Rightarrow> unit + bool \<times> Member"
  cl_Gossip :: "string \<Rightarrow> Member \<Rightarrow> Member list \<Rightarrow> unit + Member list"

definition NewGossiper :: "MTable \<Rightarrow> GossiperConfig \<Rightarrow> Gossiper" where
  "NewGossiper table cfg = \<lparr>g_table = table, g_cfg = cfg, g_suspectedSince = []\<rparr>"

definition pendingSeeds :: "Gossiper \<Rightarrow> string list" where
  "pendingSeeds g =
     (if length (gc_Seeds (g_cfg g)) = 0 then []
      else let known = map mb_AdvertiseAddr (MTable_Snapshot (g_table g))
           in filter (\<lambda>addr. addr \<notin> set known) (gc_Seeds (g_cfg g)))"

definition probeSeeds :: "int \<Rightarrow> GossipClient \<Rightarrow> Gossiper \<Rightarrow> Gossiper" where
  "probeSeeds now client g =
     (let pending = pendingSeeds g
      in if length pending = 0 then g
         else let local = MTable_Local (g_table g)
              in fold (\<lambda>addr g.
                   case cl_Ping client addr '''' local of
                     Inl err \<Rightarrow> g
                   | Inr responder \<Rightarrow> g\<lparr>g_table := fst (MTable_Upsert now (g_table g) responder)\<rparr>) pending g)"

definition peers :: "Gossiper \<Rightarrow> Member list" where
  "peers g =
     filter (\<lambda>m. \<not> (mb_NodeID m = mt_localID (g_table g) \<or> mb_Status m = StatusDead)) (MTable_Snapshot (g_table g))"

text \<open>The shuffle of \<open>randomPeersExcluding\<close>: position \<open>i\<close> is swapped with a random position up to it.\<close>

fun shuffle_loop :: "nat list \<Rightarrow> nat \<Rightarrow> 'a list \<Rightarrow> 'a list" where
  "shuffle_loop rnd 0 xs = xs"
| "shuffle_loop rnd (Suc i) xs =
     (let j = (case rnd of [] \<Rightarrow> 0 | r # _ \<Rightarrow> r) mod (Suc i + 1)
      in shuffle_loop (tl rnd) i (xs[Suc i := xs ! j, j := xs ! Suc i]))"

definition randomPeersExcluding :: "nat list \<Rightarrow> Gossiper \<Rightarrow> string \<Rightarrow> int \<Rightarrow> Member list" where
  "randomPeersExcluding rnd g excludeNodeID n =
     (if n \<le> 0 then []
      else let candidates = filter (\<lambda>m. mb_NodeID m \<noteq> excludeNodeID) (peers g)
           in if length candidates = 0 then []
              else let candidates = shuffle_loop rnd (length candidates - 1) candidates
                   in if int (length candidates) > n then take (nat n) candidates else candidates)"

definition directPing :: "int \<Rightarrow> GossipClient \<Rightarrow> Gossiper \<Rightarrow> Member \<Rightarrow> Gossiper \<times> bool" where
  "directPing now client g target =
     (case cl_Ping client (mb_AdvertiseAddr target) (mb_NodeID target) (MTable_Local (g_table g)) of
        Inl err \<Rightarrow> (g, False)
      | Inr responder \<Rightarrow> (g\<lparr>g_table := fst (MTable_Upsert now (g_table g) responder)\<rparr>, True))"

fun first_acked :: "(unit + bool \<times> Member) list \<Rightarrow> Member option" where
  "first_acked [] = None"
| "first_acked (Inr (True, m) # rs) = Some m"
| "first_acked (_ # rs) = first_acked rs"

definition indirectPing ::
  "int \<Rightarrow> nat list \<Rightarrow> (Member list \<Rightarrow> Member list) \<Rightarrow> GossipClient \<Rightarrow> Gossiper \<Rightarrow> Member \<Rightarrow> Gossiper \<times> bool" where
  "indirectPing now rnd arrival client g target =
     (let helpers = randomPeersExcluding rnd g (mb_NodeID target) (gc_IndirectPingFanout (g_cfg g))
      in if length helpers = 0 then (g, False)
         else let local = MTable_Local (g_table g);
                  results = map (\<lambda>helper. cl_IndirectPing client (mb_AdvertiseAddr helper) local target) (arrival helpers)
              in case first_acked results of
                   None \<Rightarrow> (g, False)
                 | Some confirmed \<Rightarrow> (g\<lparr>g_table := fst (MTable_Upsert now (g_table g) confirmed)\<rparr>, True))"

definition clearSuspicion :: "Gossiper \<Rightarrow> string \<Rightarrow> Gossiper" where
  "clearSuspicion g nodeID = g\<lparr>g_suspectedSince := AList.delete nodeID (g_suspectedSince g)\<rparr>"

definition escalateFailure :: "int \<Rightarrow> Gossiper \<Rightarrow> Member \<Rightarrow> Gossiper" where
  "escalateFailure now g target =
     (case mb_Status target of
        StatusAlive \<Rightarrow>
          (case MarkSuspect now (g_table g) (mb_NodeID target) (mb_Incarnation target) of
             (t, ok) \<Rightarrow>
               if ok then g\<lparr>g_table := t, g_suspectedSince := AList.update (mb_NodeID target) now (g_suspectedSince g)\<rparr>
               else g\<lparr>g_table := t\<rparr>)
      | StatusSuspect \<Rightarrow>
          (let since = (case map_of (g_suspectedSince g) (mb_NodeID target) of None \<Rightarrow> now | Some s \<Rightarrow> s);
               g = g\<lparr>g_suspectedSince :=
                      (if map_of (g_suspectedSince g) (mb_NodeID target) = None
                       then AList.update (mb_NodeID target) since (g_suspectedSince g) else g_suspectedSince g)\<rparr>
           in if now - since \<ge> gc_SuspectTimeout (g_cfg g)
              then (case MarkDead now (g_table g) (mb_NodeID target) (mb_Incarnation target) of
                      (t, ok) \<Rightarrow>
                        let g = g\<lparr>g_table := t\<rparr> in if ok then clearSuspicion g (mb_NodeID target) else g)
              else g)
      | _ \<Rightarrow> g)"

definition probeRandomPeer ::
  "int \<Rightarrow> nat \<Rightarrow> nat list \<Rightarrow> (Member list \<Rightarrow> Member list) \<Rightarrow> GossipClient \<Rightarrow> Gossiper \<Rightarrow> Gossiper" where
  "probeRandomPeer now r rnd arrival client g =
     (if length (peers g) = 0 then g
      else let target = peers g ! (r mod length (peers g))
           in case directPing now client g target of
                (g, True) \<Rightarrow> clearSuspicion g (mb_NodeID target)
              | (g, False) \<Rightarrow>
                  (case indirectPing now rnd arrival client g target of
                     (g, True) \<Rightarrow> clearSuspicion g (mb_NodeID target)
                   | (g, False) \<Rightarrow> escalateFailure now g target))"

definition gossipRandomPeer :: "int \<Rightarrow> nat \<Rightarrow> GossipClient \<Rightarrow> Gossiper \<Rightarrow> Gossiper" where
  "gossipRandomPeer now r client g =
     (if length (peers g) = 0 then g
      else let peer = peers g ! (r mod length (peers g))
           in case cl_Gossip client (mb_AdvertiseAddr peer) (MTable_Local (g_table g)) (MTable_Snapshot (g_table g)) of
                Inl err \<Rightarrow> g
              | Inr membership \<Rightarrow> fold (\<lambda>m g. g\<lparr>g_table := fst (MTable_Merge now (g_table g) m)\<rparr>) membership g)"

definition Gossiper_tick ::
  "int \<Rightarrow> nat \<Rightarrow> nat list \<Rightarrow> (Member list \<Rightarrow> Member list) \<Rightarrow> nat \<Rightarrow> GossipClient \<Rightarrow> Gossiper \<Rightarrow> Gossiper" where
  "Gossiper_tick now r1 rnd arrival r2 client g =
     gossipRandomPeer now r2 client (probeRandomPeer now r1 rnd arrival client (probeSeeds now client g))"

section \<open>Records about a peer only move forward\<close>

text \<open>The precedence of records as a lexicographic order on incarnation and rank.\<close>

definition mkey :: "Member \<Rightarrow> nat \<times> int" where
  "mkey m = (unat (mb_Incarnation m), Status_rank (mb_Status m))"

lemma supersedes_iff: "supersedes a b \<longleftrightarrow> mkey b < mkey a"
  by (auto simp: supersedes_def mkey_def less_prod_def less_prod_simp word_less_nat_alt word_unat_eq_iff)

lemma rank_inj: "Status_rank a = Status_rank b \<Longrightarrow> a = b"
  by (cases a; cases b) (auto simp: Status_rank_def)

lemma mkey_eq_iff: "mkey a = mkey b \<longleftrightarrow> mb_Incarnation a = mb_Incarnation b \<and> mb_Status a = mb_Status b"
  by (auto simp: mkey_def word_unat_eq_iff dest: rank_inj)

lemma setLocked_sel [simp]:
  "mt_clusterID (setLocked now t m) = mt_clusterID t" "mt_localID (setLocked now t m) = mt_localID t"
  "mt_epoch (setLocked now t m) = mt_epoch t + 1"
  by (simp_all add: setLocked_def Let_def)

definition stamped :: "int \<Rightarrow> MTable \<Rightarrow> Member \<Rightarrow> Member" where
  "stamped now t m =
     (if mb_LastSeen m = None then m\<lparr>mb_LastSeen := Some now, mb_MembershipEpoch := mt_epoch t + 1\<rparr>
      else m\<lparr>mb_MembershipEpoch := mt_epoch t + 1\<rparr>)"

lemma setLocked_members: "mt_members (setLocked now t m) = AList.update (mb_NodeID m) (stamped now t m) (mt_members t)"
  by (simp add: setLocked_def stamped_def Let_def)

lemma map_of_setLocked [simp]:
  "map_of (mt_members (setLocked now t m)) = (map_of (mt_members t))(mb_NodeID m \<mapsto> stamped now t m)"
  by (simp add: setLocked_members update_conv')

lemma stamped_sel [simp]:
  "mb_NodeID (stamped now t m) = mb_NodeID m" "mb_ClusterID (stamped now t m) = mb_ClusterID m"
  "mb_AdvertiseAddr (stamped now t m) = mb_AdvertiseAddr m" "mb_Status (stamped now t m) = mb_Status m"
  "mb_Incarnation (stamped now t m) = mb_Incarnation m" "mb_RangeMapEpoch (stamped now t m) = mb_RangeMapEpoch m"
  "mb_MembershipEpoch (stamped now t m) = mt_epoch t + 1"
  by (simp_all add: stamped_def)

lemma mkey_stamped [simp]: "mkey (stamped now t m) = mkey m"
  by (simp add: mkey_def)

section \<open>The invariant of the table\<close>

text \<open>
  Every record is filed under its own node id and carries the table's cluster id; the local node
  has a record and is alive in its own eyes.
\<close>

definition mtable_ok :: "MTable \<Rightarrow> bool" where
  "mtable_ok t \<longleftrightarrow> gmap_ok (mt_members t)
     \<and> (\<forall>n m. map_of (mt_members t) n = Some m \<longrightarrow> mb_NodeID m = n \<and> mb_ClusterID m = mt_clusterID t)
     \<and> (\<exists>m. map_of (mt_members t) (mt_localID t) = Some m \<and> mb_Status m = StatusAlive)"

lemma mtable_okD:
  assumes "mtable_ok t" "map_of (mt_members t) n = Some m"
  shows "mb_NodeID m = n" "mb_ClusterID m = mt_clusterID t"
  using assms by (auto simp: mtable_ok_def)

lemma mtable_ok_Local:
  assumes "mtable_ok t"
  shows "map_of (mt_members t) (mt_localID t) = Some (MTable_Local t)" "mb_Status (MTable_Local t) = StatusAlive"
    "mb_NodeID (MTable_Local t) = mt_localID t" "mb_ClusterID (MTable_Local t) = mt_clusterID t"
  using assms by (auto simp: mtable_ok_def MTable_Local_def lookup_member_def)

lemma setLocked_ok:
  assumes "mtable_ok t" "mb_ClusterID x = mt_clusterID t" "mb_NodeID x = mt_localID t \<longrightarrow> mb_Status x = StatusAlive"
  shows "mtable_ok (setLocked now t x)"
  using assms unfolding mtable_ok_def by (auto simp: setLocked_members update_conv' distinct_update)

lemma NewMTable_ok: "mb_Status local \<in> {StatusUnknown, StatusAlive} \<Longrightarrow> mtable_ok (NewMTable now c local)"
  by (auto simp: mtable_ok_def NewMTable_def Let_def setLocked_members update_conv' distinct_update)

definition accepted :: "string \<Rightarrow> Member \<Rightarrow> bool" where
  "accepted c m \<longleftrightarrow> mb_ClusterID m = '''' \<or> mb_ClusterID m = c"

lemma mkey_upd [simp]: "mkey (m\<lparr>mb_ClusterID := c\<rparr>) = mkey m" "mkey (m\<lparr>mb_RangeMapEpoch := e\<rparr>) = mkey m"
  by (simp_all add: mkey_def)

lemma Merge_rejected: "\<not> accepted (mt_clusterID t) m \<Longrightarrow> MTable_Merge now t m = (t, False)"
  by (simp add: MTable_Merge_def accepted_def)

lemma Merge_peer:
  assumes "accepted (mt_clusterID t) m" "mb_NodeID m \<noteq> mt_localID t"
  shows "fst (MTable_Merge now t m) =
    (case map_of (mt_members t) (mb_NodeID m) of
       None \<Rightarrow> setLocked now t (m\<lparr>mb_ClusterID := mt_clusterID t\<rparr>)
     | Some cur \<Rightarrow>
         if mkey cur < mkey m
         then setLocked now t (m\<lparr>mb_ClusterID := mt_clusterID t, mb_RangeMapEpoch := max (mb_RangeMapEpoch cur) (mb_RangeMapEpoch m)\<rparr>)
         else if mb_RangeMapEpoch cur < mb_RangeMapEpoch m then setLocked now t (cur\<lparr>mb_RangeMapEpoch := mb_RangeMapEpoch m\<rparr>)
         else t)"
  using assms
  by (cases "map_of (mt_members t) (mb_NodeID m)")
     (auto simp: MTable_Merge_def Let_def accepted_def supersedes_iff max_def not_less not_le)

lemma Merge_self:
  assumes "accepted (mt_clusterID t) m" "mb_NodeID m = mt_localID t"
  shows "fst (MTable_Merge now t m) =
    (if mb_Status m \<in> {StatusSuspect, StatusDead} \<and> mb_Incarnation (MTable_Local t) \<le> mb_Incarnation m
     then setLocked now t ((MTable_Local t)\<lparr>mb_Incarnation := mb_Incarnation m + 1, mb_Status := StatusAlive\<rparr>) else t)"
  using assms by (auto simp: MTable_Merge_def refuteLocked_def accepted_def MTable_Local_def Let_def not_less)

lemma Merge_ids [simp]:
  "mt_clusterID (fst (MTable_Merge now t m)) = mt_clusterID t" "mt_localID (fst (MTable_Merge now t m)) = mt_localID t"
proof -
  have "mt_clusterID (fst (MTable_Merge now t m)) = mt_clusterID t \<and> mt_localID (fst (MTable_Merge now t m)) = mt_localID t"
  proof (cases "accepted (mt_clusterID t) m")
    case True
    then show ?thesis
      by (cases "mb_NodeID m = mt_localID t") (auto simp: Merge_self Merge_peer split: option.splits)
  qed (simp add: Merge_rejected)
  then show "mt_clusterID (fst (MTable_Merge now t m)) = mt_clusterID t" "mt_localID (fst (MTable_Merge now t m)) = mt_localID t"
    by auto
qed

lemma Merge_ok:
  assumes "mtable_ok t"
  shows "mtable_ok (fst (MTable_Merge now t m))"
proof (cases "accepted (mt_clusterID t) m")
  case True
  show ?thesis
  proof (cases "mb_NodeID m = mt_localID t")
    case self: True
    show ?thesis
      unfolding Merge_self [OF True self] using assms mtable_ok_Local [OF assms] by (auto intro: setLocked_ok)
  next
    case False
    show ?thesis
    proof (cases "map_of (mt_members t) (mb_NodeID m)")
      case None
      then show ?thesis unfolding Merge_peer [OF True False] using False by (simp add: setLocked_ok assms)
    next
      case (Some cur)
      note cur = mtable_okD [OF assms Some]
      show ?thesis unfolding Merge_peer [OF True False] Some using False cur by (simp add: setLocked_ok assms)
    qed
  qed
qed (simp add: Merge_rejected assms)

lemma Upsert_ok:
  assumes "mtable_ok t" "mb_NodeID m = mt_localID t \<longrightarrow> mb_Status m = StatusAlive"
  shows "mtable_ok (fst (MTable_Upsert now t m))"
  using assms by (auto simp: MTable_Upsert_def intro!: setLocked_ok)

lemma Upsert_ids [simp]:
  "mt_clusterID (fst (MTable_Upsert now t m)) = mt_clusterID t" "mt_localID (fst (MTable_Upsert now t m)) = mt_localID t"
  by (simp_all add: MTable_Upsert_def)

lemma MarkSuspect_ok: "mtable_ok t \<Longrightarrow> mtable_ok (fst (MarkSuspect now t n i))"
  by (auto simp: MarkSuspect_def mtable_okD intro!: setLocked_ok split: option.splits)

lemma MarkDead_ok: "mtable_ok t \<Longrightarrow> mtable_ok (fst (MarkDead now t n i))"
  by (auto simp: MarkDead_def mtable_okD intro!: setLocked_ok split: option.splits)

lemma RefuteLocalSuspect_ok: "mtable_ok t \<Longrightarrow> mtable_ok (fst (RefuteLocalSuspect now t))"
  using mtable_ok_Local [of t]
  by (auto simp: RefuteLocalSuspect_def Let_def MTable_Local_def intro!: setLocked_ok)

lemma SetLocalRangeMapEpoch_ok: "mtable_ok t \<Longrightarrow> mtable_ok (fst (SetLocalRangeMapEpoch now t e))"
  using mtable_ok_Local [of t]
  by (auto simp: SetLocalRangeMapEpoch_def Let_def MTable_Local_def intro!: setLocked_ok)

section \<open>Gossip converges\<close>

text \<open>
  A store in which a merged record can only raise what is observed: after any sequence of merges the
  observation is the maximum of the first one and the merged ones.
\<close>

locale join_store =
  fixes invar :: "'t \<Rightarrow> bool"
    and merge :: "'t \<Rightarrow> 'm \<Rightarrow> 't"
    and obs :: "'t \<Rightarrow> 'a::linorder option"
    and rec :: "'m \<Rightarrow> 'a option"
  assumes invar_merge: "invar t \<Longrightarrow> invar (merge t m)"
    and obs_merge: "invar t \<Longrightarrow> obs (merge t m) =
      (case rec m of None \<Rightarrow> obs t | Some x \<Rightarrow> Some (case obs t of None \<Rightarrow> x | Some y \<Rightarrow> max y x))"
begin

definition seen :: "'t \<Rightarrow> 'm list \<Rightarrow> 'a set" where
  "seen t ms = set_option (obs t) \<union> {x. \<exists>m\<in>set ms. rec m = Some x}"

lemma invar_fold: "invar t \<Longrightarrow> invar (fold (\<lambda>m t. merge t m) ms t)"
  by (induction ms arbitrary: t) (auto simp: invar_merge)

lemma finite_seen: "finite (seen t ms)"
proof -
  have "{x. \<exists>m\<in>set ms. rec m = Some x} \<subseteq> (the \<circ> rec) ` set ms" by force
  then show ?thesis by (simp add: seen_def finite_subset [OF _ finite_imageI])
qed

lemma obs_fold:
  "invar t \<Longrightarrow> obs (fold (\<lambda>m t. merge t m) ms t) = (if seen t ms = {} then None else Some (Max (seen t ms)))"
proof (induction ms arbitrary: t)
  case Nil
  then show ?case by (cases "obs t") (auto simp: seen_def)
next
  case (Cons m ms)
  have step: "obs (merge t m) = (case rec m of None \<Rightarrow> obs t | Some x \<Rightarrow> Some (case obs t of None \<Rightarrow> x | Some y \<Rightarrow> max y x))"
    using Cons.prems by (rule obs_merge)
  define R where "R = {x. \<exists>m\<in>set ms. rec m = Some x}"
  have finR: "finite R" using finite_seen [of t ms] by (simp add: seen_def R_def)
  have s1: "seen (merge t m) ms = set_option (obs (merge t m)) \<union> R" by (simp add: seen_def R_def)
  have s2: "seen t (m # ms) = set_option (obs t) \<union> set_option (rec m) \<union> R" by (auto simp: seen_def R_def)
  have "(if seen (merge t m) ms = {} then None else Some (Max (seen (merge t m) ms)))
      = (if seen t (m # ms) = {} then None else Some (Max (seen t (m # ms))))"
    unfolding s1 s2 step using finR
    by (cases "rec m"; cases "obs t"; cases "R = {}") (auto simp: max.assoc max.commute max.left_commute)
  then show ?case using Cons.IH [of "merge t m"] invar_merge Cons.prems by simp
qed

lemma obs_determined:
  "invar t \<Longrightarrow> invar t' \<Longrightarrow> seen t ms = seen t' ms' \<Longrightarrow>
     obs (fold (\<lambda>m t. merge t m) ms t) = obs (fold (\<lambda>m t. merge t m) ms' t')"
  by (simp add: obs_fold)

end

text \<open>What a table of cluster \<open>c\<close> observes about another node \<open>n\<close>.\<close>

definition observes :: "string \<Rightarrow> string \<Rightarrow> MTable \<Rightarrow> bool" where
  "observes c n t \<longleftrightarrow> mtable_ok t \<and> mt_clusterID t = c \<and> mt_localID t \<noteq> n"

definition record_of :: "string \<Rightarrow> string \<Rightarrow> (Member \<Rightarrow> 'a) \<Rightarrow> Member \<Rightarrow> 'a option" where
  "record_of c n f m = (if accepted c m \<and> mb_NodeID m = n then Some (f m) else None)"

lemma Merge_observed:
  fixes f :: "Member \<Rightarrow> 'a::linorder"
  assumes "observes c n t" and f: "\<And>m x. f (m\<lparr>mb_ClusterID := x\<rparr>) = f m" "\<And>now t m. f (stamped now t m) = f m"
    and up: "\<And>m x. f (m\<lparr>mb_RangeMapEpoch := x\<rparr>) = g x (f m)"
    and max: "\<And>cur m. (if mkey cur < mkey m then g (max (mb_RangeMapEpoch cur) (mb_RangeMapEpoch m)) (f m)
        else if mb_RangeMapEpoch cur < mb_RangeMapEpoch m then g (mb_RangeMapEpoch m) (f cur) else f cur) = max (f cur) (f m)"
  shows "map_option f (map_of (mt_members (fst (MTable_Merge now t m))) n) =
    (case record_of c n f m of None \<Rightarrow> map_option f (map_of (mt_members t) n)
     | Some x \<Rightarrow> Some (case map_option f (map_of (mt_members t) n) of None \<Rightarrow> x | Some y \<Rightarrow> max y x))"
proof (cases "accepted c m")
  case True
  have t: "mtable_ok t" "mt_clusterID t = c" "mt_localID t \<noteq> n" using assms(1) by (auto simp: observes_def)
  have acc: "accepted (mt_clusterID t) m" using True t(2) by simp
  show ?thesis
  proof (cases "mb_NodeID m = mt_localID t")
    case self: True
    have "map_of (mt_members (fst (MTable_Merge now t m))) n = map_of (mt_members t) n"
      using t mtable_ok_Local(3) [OF t(1)] by (simp add: Merge_self [OF acc self])
    then show ?thesis using self t(3) by (simp add: record_of_def)
  next
    case False
    show ?thesis
    proof (cases "map_of (mt_members t) (mb_NodeID m)")
      case None
      then show ?thesis using True by (auto simp: Merge_peer [OF acc False] record_of_def f)
    next
      case (Some cur)
      then have cur: "mb_NodeID cur = mb_NodeID m" using mtable_okD [OF t(1)] by simp
      have "map_option f (map_of (mt_members (fst (MTable_Merge now t m))) n)
          = (if n = mb_NodeID m then Some (max (f cur) (f m)) else map_option f (map_of (mt_members t) n))"
        unfolding Merge_peer [OF acc False] Some max [symmetric] using Some cur by (simp add: f up)
      then show ?thesis using True Some by (auto simp: record_of_def)
    qed
  qed
next
  case False
  then show ?thesis using assms(1) by (simp add: Merge_rejected observes_def record_of_def)
qed

interpretation prec: join_store "observes c n" "\<lambda>t m. fst (MTable_Merge now t m)"
    "\<lambda>t. map_option mkey (map_of (mt_members t) n)" "record_of c n mkey" for c n now
proof unfold_locales
  show "map_option mkey (map_of (mt_members (fst (MTable_Merge now t m))) n) =
    (case record_of c n mkey m of None \<Rightarrow> map_option mkey (map_of (mt_members t) n)
     | Some x \<Rightarrow> Some (case map_option mkey (map_of (mt_members t) n) of None \<Rightarrow> x | Some y \<Rightarrow> max y x))"
    if "observes c n t" for t m
    by (rule Merge_observed [OF that, where g = "\<lambda>x y. y"]) (auto simp: max_def)
qed (simp add: observes_def Merge_ok)

interpretation rme: join_store "observes c n" "\<lambda>t m. fst (MTable_Merge now t m)"
    "\<lambda>t. map_option mb_RangeMapEpoch (map_of (mt_members t) n)" "record_of c n mb_RangeMapEpoch" for c n now
proof unfold_locales
  show "map_option mb_RangeMapEpoch (map_of (mt_members (fst (MTable_Merge now t m))) n) =
    (case record_of c n mb_RangeMapEpoch m of None \<Rightarrow> map_option mb_RangeMapEpoch (map_of (mt_members t) n)
     | Some x \<Rightarrow> Some (case map_option mb_RangeMapEpoch (map_of (mt_members t) n) of None \<Rightarrow> x | Some y \<Rightarrow> max y x))"
    if "observes c n t" for t m
    by (rule Merge_observed [OF that, where g = "\<lambda>x y. x"]) (auto simp: max_def)
qed (simp add: observes_def Merge_ok)

section \<open>The runs of a node\<close>

text \<open>
  The answers of the client are honest about the local node: whoever reports about it reports it
  alive, as its own table does.
\<close>

definition honest :: "string \<Rightarrow> GossipClient \<Rightarrow> bool" where
  "honest l client \<longleftrightarrow>
     (\<forall>a n s m. cl_Ping client a n s = Inr m \<longrightarrow> mb_NodeID m = l \<longrightarrow> mb_Status m = StatusAlive)
     \<and> (\<forall>a s x m. cl_IndirectPing client a s x = Inr (True, m) \<longrightarrow> mb_NodeID m = l \<longrightarrow> mb_Status m = StatusAlive)"

definition gossiper_ok :: "string \<Rightarrow> string \<Rightarrow> Gossiper \<Rightarrow> bool" where
  "gossiper_ok c l g \<longleftrightarrow> mtable_ok (g_table g) \<and> mt_clusterID (g_table g) = c \<and> mt_localID (g_table g) = l"

lemma gossiper_ok_upsert:
  assumes "gossiper_ok c l g" "mb_NodeID m = l \<longrightarrow> mb_Status m = StatusAlive"
  shows "gossiper_ok c l (g\<lparr>g_table := fst (MTable_Upsert now (g_table g) m)\<rparr>)"
  using assms by (simp add: gossiper_ok_def Upsert_ok)

lemma gossiper_ok_merge: "gossiper_ok c l g \<Longrightarrow> gossiper_ok c l (g\<lparr>g_table := fst (MTable_Merge now (g_table g) m)\<rparr>)"
  by (simp add: gossiper_ok_def Merge_ok)

lemma gossiper_ok_suspicion [simp]: "gossiper_ok c l (g\<lparr>g_suspectedSince := x\<rparr>) = gossiper_ok c l g"
  by (simp add: gossiper_ok_def)

lemma gossiper_ok_clear [simp]: "gossiper_ok c l (clearSuspicion g n) = gossiper_ok c l g"
  by (simp add: clearSuspicion_def)

lemma Mark_ids [simp]:
  "mt_clusterID (fst (MarkSuspect now t n i)) = mt_clusterID t" "mt_localID (fst (MarkSuspect now t n i)) = mt_localID t"
  "mt_clusterID (fst (MarkDead now t n i)) = mt_clusterID t" "mt_localID (fst (MarkDead now t n i)) = mt_localID t"
  by (simp_all add: MarkSuspect_def MarkDead_def split: option.splits)

lemma gossiper_ok_marks:
  assumes "gossiper_ok c l g"
  shows "gossiper_ok c l (g\<lparr>g_table := fst (MarkSuspect now (g_table g) n i)\<rparr>)"
    "gossiper_ok c l (g\<lparr>g_table := fst (MarkDead now (g_table g) n i)\<rparr>)"
  using assms by (simp_all add: gossiper_ok_def MarkSuspect_ok MarkDead_ok)

lemma escalateFailure_ok:
  assumes "gossiper_ok c l g"
  shows "gossiper_ok c l (escalateFailure now g target)"
proof (cases "mb_Status target")
  case StatusAlive
  obtain t ok where m: "MarkSuspect now (g_table g) (mb_NodeID target) (mb_Incarnation target) = (t, ok)" by fastforce
  have "gossiper_ok c l (g\<lparr>g_table := t\<rparr>)"
    using gossiper_ok_marks(1) [OF assms, of now "mb_NodeID target" "mb_Incarnation target"] m by simp
  then show ?thesis using StatusAlive m by (simp add: escalateFailure_def gossiper_ok_def)
next
  case StatusSuspect
  obtain t ok where m: "MarkDead now (g_table g) (mb_NodeID target) (mb_Incarnation target) = (t, ok)" by fastforce
  have "gossiper_ok c l (g\<lparr>g_table := t\<rparr>)"
    using gossiper_ok_marks(2) [OF assms, of now "mb_NodeID target" "mb_Incarnation target"] m by simp
  then show ?thesis
    using assms StatusSuspect m by (simp add: escalateFailure_def gossiper_ok_def clearSuspicion_def Let_def)
qed (use assms in \<open>simp_all add: escalateFailure_def\<close>)

lemma first_acked_in: "first_acked rs = Some m \<Longrightarrow> Inr (True, m) \<in> set rs"
  by (induction rs rule: first_acked.induct) auto

lemma probeSeeds_ok:
  assumes "gossiper_ok c l g" "honest l client"
  shows "gossiper_ok c l (probeSeeds now client g)"
proof -
  have "gossiper_ok c l (fold (\<lambda>addr g. case cl_Ping client addr '''' local of Inl err \<Rightarrow> g
      | Inr responder \<Rightarrow> g\<lparr>g_table := fst (MTable_Upsert now (g_table g) responder)\<rparr>) ps g)"
    if "gossiper_ok c l g" for ps g local
    using that
  proof (induction ps arbitrary: g)
    case (Cons p ps)
    have "gossiper_ok c l (case cl_Ping client p '''' local of Inl err \<Rightarrow> g
      | Inr responder \<Rightarrow> g\<lparr>g_table := fst (MTable_Upsert now (g_table g) responder)\<rparr>)"
      using Cons.prems assms(2) by (auto simp: honest_def intro!: gossiper_ok_upsert split: sum.splits)
    then show ?case using Cons.IH by simp
  qed simp
  then show ?thesis using assms(1) by (simp add: probeSeeds_def Let_def)
qed

lemma directPing_ok: "gossiper_ok c l g \<Longrightarrow> honest l client \<Longrightarrow> gossiper_ok c l (fst (directPing now client g target))"
  by (auto simp: directPing_def honest_def intro!: gossiper_ok_upsert split: sum.splits)

lemma indirectPing_ok:
  "gossiper_ok c l g \<Longrightarrow> honest l client \<Longrightarrow> gossiper_ok c l (fst (indirectPing now rnd arrival client g target))"
  by (auto simp: indirectPing_def honest_def Let_def intro!: gossiper_ok_upsert split: option.splits dest!: first_acked_in)

lemma probeRandomPeer_ok:
  assumes "gossiper_ok c l g" "honest l client"
  shows "gossiper_ok c l (probeRandomPeer now r rnd arrival client g)"
proof (cases "peers g = []")
  case False
  define target where "target = peers g ! (r mod length (peers g))"
  obtain g1 b1 where 1: "directPing now client g target = (g1, b1)" by fastforce
  then have ok1: "gossiper_ok c l g1" using directPing_ok [OF assms, of now target] by simp
  obtain g2 b2 where 2: "indirectPing now rnd arrival client g1 target = (g2, b2)" by fastforce
  then have ok2: "gossiper_ok c l g2" using indirectPing_ok [OF ok1 assms(2), of now rnd arrival target] by simp
  show ?thesis
    using False 1 2 ok1 ok2 escalateFailure_ok [OF ok2]
    by (cases b1; cases b2) (simp_all add: probeRandomPeer_def target_def [symmetric] Let_def)
qed (use assms in \<open>simp add: probeRandomPeer_def\<close>)

lemma gossipRandomPeer_ok:
  assumes "gossiper_ok c l g"
  shows "gossiper_ok c l (gossipRandomPeer now r client g)"
proof -
  have "gossiper_ok c l g \<Longrightarrow> gossiper_ok c l (fold (\<lambda>m g. g\<lparr>g_table := fst (MTable_Merge now (g_table g) m)\<rparr>) ms g)" for ms g
    by (induction ms arbitrary: g) (auto simp: gossiper_ok_merge)
  then show ?thesis using assms by (simp add: gossipRandomPeer_def Let_def split: sum.splits)
qed

lemma merge_sender_ok: "mtable_ok t \<Longrightarrow> mtable_ok (merge_sender now t s)"
  by (simp add: merge_sender_def Let_def Merge_ok)

lemma merge_sender_ids [simp]:
  "mt_clusterID (merge_sender now t s) = mt_clusterID t" "mt_localID (merge_sender now t s) = mt_localID t"
  by (simp_all add: merge_sender_def Let_def)

lemma merge_list_ok:
  assumes "mtable_ok t"
  shows "mtable_ok (fold (\<lambda>x t. fst (MTable_Merge now t (f x))) xs t)
    \<and> mt_clusterID (fold (\<lambda>x t. fst (MTable_Merge now t (f x))) xs t) = mt_clusterID t
    \<and> mt_localID (fold (\<lambda>x t. fst (MTable_Merge now t (f x))) xs t) = mt_localID t"
  using assms by (induction xs arbitrary: t) (auto simp: Merge_ok)

text \<open>
  One step of a node: a tick of its gossiper, a request handled by its server, or a new range-map
  epoch published by the ring.
\<close>

inductive member_step :: "Gossiper \<Rightarrow> Gossiper \<Rightarrow> bool" where
  tick: "honest (mt_localID (g_table g)) client \<Longrightarrow> member_step g (Gossiper_tick now r1 rnd arrival r2 client g)"
| ping: "GossipServer_Ping now (g_table g) ctx target sender = (t, resp) \<Longrightarrow> member_step g (g\<lparr>g_table := t\<rparr>)"
| gossip: "GossipServer_Gossip now (g_table g) ctx sender ms = (t, resp) \<Longrightarrow> member_step g (g\<lparr>g_table := t\<rparr>)"
| indirect: "GossipServer_IndirectPing now client (g_table g) ctx sender target = (t, resp) \<Longrightarrow> member_step g (g\<lparr>g_table := t\<rparr>)"
| epoch: "member_step g (g\<lparr>g_table := fst (SetLocalRangeMapEpoch now (g_table g) e)\<rparr>)"
| refute: "member_step g (g\<lparr>g_table := fst (RefuteLocalSuspect now (g_table g))\<rparr>)"

inductive_cases member_stepE: "member_step g g'"

lemma member_step_ok:
  assumes "member_step g g'" "gossiper_ok c l g"
  shows "gossiper_ok c l g'"
  using assms
proof cases
  case (tick client now r1 rnd arrival r2)
  then show ?thesis
    using assms(2)
    by (simp add: Gossiper_tick_def gossipRandomPeer_ok probeRandomPeer_ok probeSeeds_ok gossiper_ok_def [THEN iffD1])
next
  case (ping now ctx target sender t resp)
  then show ?thesis using assms(2)
    by (auto simp: GossipServer_Ping_def gossiper_ok_def Let_def merge_sender_ok split: option.splits if_splits)
next
  case (gossip now ctx sender ms t resp)
  then show ?thesis using assms(2) merge_list_ok [OF merge_sender_ok, of "g_table g" now MemberFromProto ms now sender]
    by (auto simp: GossipServer_Gossip_def gossiper_ok_def Let_def split: option.splits if_splits)
next
  case (indirect now client ctx sender target t resp)
  then show ?thesis using assms(2)
    by (auto simp: GossipServer_IndirectPing_def gossiper_ok_def Let_def merge_sender_ok Merge_ok
        split: option.splits if_splits sum.splits prod.splits)
next
  case (epoch now e)
  then show ?thesis using assms(2) SetLocalRangeMapEpoch_ok
    by (simp add: gossiper_ok_def) (simp add: SetLocalRangeMapEpoch_def Let_def)
next
  case (refute now)
  then show ?thesis using assms(2) RefuteLocalSuspect_ok
    by (simp add: gossiper_ok_def) (simp add: RefuteLocalSuspect_def Let_def)
qed

section \<open>Properties\<close>


text \<open>
  C7: Gossip converges. Two nodes of a cluster that know nothing about a third node and have merged
  the same records about it, in whatever order, with whatever repetitions and whatever records about
  other nodes in between, agree on its incarnation, status and range-map epoch: the record of the
  highest incarnation with the gravest status, and the highest epoch.
\<close>

theorem gossip_converges:
  assumes "mtable_ok t1" "mtable_ok t2" "mt_clusterID t1 = c" "mt_clusterID t2 = c"
    and "mt_localID t1 \<noteq> n" "mt_localID t2 \<noteq> n"
    and "map_of (mt_members t1) n = None" "map_of (mt_members t2) n = None"
    and "{m\<in>set ms1. accepted c m \<and> mb_NodeID m = n} = {m\<in>set ms2. accepted c m \<and> mb_NodeID m = n}"
  shows "map_option (\<lambda>m. (mb_Incarnation m, mb_Status m, mb_RangeMapEpoch m))
      (map_of (mt_members (fold (\<lambda>m t. fst (MTable_Merge now1 t m)) ms1 t1)) n)
    = map_option (\<lambda>m. (mb_Incarnation m, mb_Status m, mb_RangeMapEpoch m))
      (map_of (mt_members (fold (\<lambda>m t. fst (MTable_Merge now2 t m)) ms2 t2)) n)"
proof -
  have ob: "observes c n t1" "observes c n t2" using assms by (auto simp: observes_def)
  have rec: "{x. \<exists>m\<in>set ms1. record_of c n f m = Some x} = {x. \<exists>m\<in>set ms2. record_of c n f m = Some x}" for f :: "Member \<Rightarrow> 'a"
  proof -
    have "{x. \<exists>m\<in>set ms. record_of c n f m = Some x} = f ` {m\<in>set ms. accepted c m \<and> mb_NodeID m = n}" for ms
      by (auto simp: record_of_def)
    then show ?thesis using assms(9) by simp
  qed
  let ?m1 = "map_of (mt_members (fold (\<lambda>m t. fst (MTable_Merge now1 t m)) ms1 t1)) n"
  let ?m2 = "map_of (mt_members (fold (\<lambda>m t. fst (MTable_Merge now2 t m)) ms2 t2)) n"
  have "map_option mkey ?m1 = map_option mkey ?m2"
    using prec.obs_fold [OF ob(1), of now1 ms1] prec.obs_fold [OF ob(2), of now2 ms2] assms(7,8) rec [of mkey]
    by (simp add: prec.seen_def)
  moreover have "map_option mb_RangeMapEpoch ?m1 = map_option mb_RangeMapEpoch ?m2"
    using rme.obs_fold [OF ob(1), of now1 ms1] rme.obs_fold [OF ob(2), of now2 ms2] assms(7,8) rec [of mb_RangeMapEpoch]
    by (simp add: rme.seen_def)
  ultimately show ?thesis by (cases ?m1; cases ?m2) (auto simp: mkey_eq_iff)
qed

text \<open>
  C12: Refutation. When the local node hears itself called suspect or dead at an incarnation not
  below its own (and below the largest \<open>uint64\<close>), it answers with a strictly higher incarnation and
  stays alive; and merging its new record into the table of any other node of the cluster that
  holds the accusation makes it alive there.
\<close>

theorem refutation_wins:
  assumes "mtable_ok t" "accepted (mt_clusterID t) m" "mb_NodeID m = mt_localID t"
    and "mb_Status m \<in> {StatusSuspect, StatusDead}" "mb_Incarnation (MTable_Local t) \<le> mb_Incarnation m" "mb_Incarnation m \<noteq> -1"
    and "t' = fst (MTable_Merge now t m)"
    and "mtable_ok u" "mt_clusterID u = mt_clusterID t" "mt_localID u \<noteq> mt_localID t"
    and "map_of (mt_members u) (mt_localID t) = Some known" "mb_Incarnation known = mb_Incarnation m"
  shows "mb_Status (MTable_Local t') = StatusAlive
    \<and> mb_Incarnation m < mb_Incarnation (MTable_Local t')
    \<and> (\<exists>m'. map_of (mt_members (fst (MTable_Merge now' u (MTable_Local t')))) (mt_localID t) = Some m'
         \<and> mb_Status m' = StatusAlive \<and> mb_Incarnation m' = mb_Incarnation (MTable_Local t'))"
proof -
  have t': "t' = setLocked now t ((MTable_Local t)\<lparr>mb_Incarnation := mb_Incarnation m + 1, mb_Status := StatusAlive\<rparr>)"
    using assms(4,5,7) Merge_self [OF assms(2,3)] by simp
  have ok': "mtable_ok t'" using Merge_ok [OF assms(1)] assms(7) by simp
  have ids: "mt_localID t' = mt_localID t" "mt_clusterID t' = mt_clusterID t" by (simp_all add: t')
  have "MTable_Local t' = stamped now t ((MTable_Local t)\<lparr>mb_Incarnation := mb_Incarnation m + 1, mb_Status := StatusAlive\<rparr>)"
    using mtable_ok_Local(3) [OF assms(1)] unfolding t' by (simp add: MTable_Local_def lookup_member_def)
  then have loc: "mb_Incarnation (MTable_Local t') = mb_Incarnation m + 1" by simp
  have lt: "mb_Incarnation m < mb_Incarnation m + 1" using assms(6) by (rule u64_less_inc)
  note L = mtable_ok_Local [OF ok', unfolded ids]
  have acc: "accepted (mt_clusterID u) (MTable_Local t')" using L(4) assms(9) by (simp add: accepted_def)
  have ne: "mb_NodeID (MTable_Local t') \<noteq> mt_localID u" using L(3) assms(10) by simp
  have "mkey known < mkey (MTable_Local t')"
    using lt loc assms(12) by (simp add: mkey_def less_prod_def word_less_nat_alt)
  then have "fst (MTable_Merge now' u (MTable_Local t')) =
      setLocked now' u ((MTable_Local t')\<lparr>mb_ClusterID := mt_clusterID u,
        mb_RangeMapEpoch := max (mb_RangeMapEpoch known) (mb_RangeMapEpoch (MTable_Local t'))\<rparr>)"
    using assms(11) L(3) by (simp add: Merge_peer [OF acc ne])
  then show ?thesis using L loc lt by simp
qed

text \<open>
  C30: The failure detector. A known peer that failed its probes becomes suspect if it was alive, and
  the time is noted; a suspect peer becomes dead only once it has been suspect for at least the
  suspect timeout since the noted time; otherwise its record stays. No other record changes.
\<close>

theorem escalateFailure_spec:
  assumes "mtable_ok (g_table g)" "map_of (mt_members (g_table g)) (mb_NodeID target) = Some target"
    and "mb_NodeID target \<noteq> mt_localID (g_table g)"
    and "g' = escalateFailure now g target"
  shows "\<exists>m'. map_of (mt_members (g_table g')) (mb_NodeID target) = Some m'
    \<and> mb_Incarnation m' = mb_Incarnation target
    \<and> (mb_Status target = StatusAlive \<longrightarrow>
         mb_Status m' = StatusSuspect \<and> map_of (g_suspectedSince g') (mb_NodeID target) = Some now)
    \<and> (mb_Status target = StatusSuspect \<longrightarrow>
         mb_Status m' = (if gc_SuspectTimeout (g_cfg g)
             \<le> now - (case map_of (g_suspectedSince g) (mb_NodeID target) of None \<Rightarrow> now | Some s \<Rightarrow> s)
           then StatusDead else StatusSuspect)
         \<and> (mb_Status m' = StatusSuspect \<longrightarrow> map_of (g_suspectedSince g') (mb_NodeID target)
              = Some (case map_of (g_suspectedSince g) (mb_NodeID target) of None \<Rightarrow> now | Some s \<Rightarrow> s)))
    \<and> (mb_Status target \<notin> {StatusAlive, StatusSuspect} \<longrightarrow> g' = g)
    \<and> (\<forall>n. n \<noteq> mb_NodeID target \<longrightarrow> map_of (mt_members (g_table g')) n = map_of (mt_members (g_table g)) n)"
proof (cases "mb_Status target")
  case StatusAlive
  then show ?thesis
    using assms by (simp add: escalateFailure_def MarkSuspect_def update_conv')
next
  case StatusSuspect
  then show ?thesis
    using assms
    by (auto simp: escalateFailure_def MarkDead_def clearSuspicion_def Let_def update_conv' split: option.splits)
qed (use assms in \<open>auto simp: escalateFailure_def\<close>)

section \<open>Concrete runs\<close>

definition ex_member :: "string \<Rightarrow> Status \<Rightarrow> u64 \<Rightarrow> Member" where
  "ex_member n s i = \<lparr>mb_NodeID = n, mb_ClusterID = ''c'', mb_AdvertiseAddr = n, mb_Status = s, mb_Incarnation = i,
     mb_LastSeen = Some 1, mb_MembershipEpoch = 0, mb_RangeMapEpoch = i\<rparr>"

definition ex_mtable :: "string \<Rightarrow> MTable" where
  "ex_mtable n = NewMTable 1 ''c'' (ex_member n StatusAlive 3)"

lemma ex_mtable_eq:
  "ex_mtable n = \<lparr>mt_clusterID = ''c'', mt_localID = n, mt_members = [(n, (ex_member n StatusAlive 3)\<lparr>mb_MembershipEpoch := 1\<rparr>)], mt_epoch = 1\<rparr>"
  by (simp add: ex_mtable_def NewMTable_def setLocked_def ex_member_def Let_def)

lemma ex_mtable_ok: "mtable_ok (ex_mtable n)"
  unfolding ex_mtable_def by (rule NewMTable_ok) (simp add: ex_member_def)

definition ex_gcfg :: GossiperConfig where
  "ex_gcfg = \<lparr>gc_GossipInterval = 1, gc_PingTimeout = 1, gc_SuspectTimeout = 5, gc_DeadTimeout = 9, gc_IndirectPingFanout = 1, gc_Seeds = []\<rparr>"

text \<open>Node \<open>a\<close> hears from \<open>b\<close> that it is dead.\<close>

definition ex_accuse :: Gossiper where
  "ex_accuse = (NewGossiper (NewMTable 1 ''c'' (ex_member ''a'' StatusAlive 3)) ex_gcfg)\<lparr>g_table :=
     fst (GossipServer_Gossip 2 (ex_mtable ''a'') None (Some (MemberToProto (ex_member ''b'' StatusAlive 1)))
       [Some (MemberToProto (ex_member ''a'' StatusDead 7))])\<rparr>"


theorem gossip_converges_witness:
  "map_option (\<lambda>m. (mb_Incarnation m, mb_Status m, mb_RangeMapEpoch m))
      (map_of (mt_members (fold (\<lambda>m t. fst (MTable_Merge 5 t m))
         [ex_member ''x'' StatusDead 4, ex_member ''x'' StatusAlive 6, ex_member ''y'' StatusAlive 1] (ex_mtable ''a''))) ''x'')
   = map_option (\<lambda>m. (mb_Incarnation m, mb_Status m, mb_RangeMapEpoch m))
      (map_of (mt_members (fold (\<lambda>m t. fst (MTable_Merge 9 t m))
         [ex_member ''x'' StatusAlive 6, ex_member ''x'' StatusDead 4, ex_member ''x'' StatusAlive 6] (ex_mtable ''b''))) ''x'')"
  by (rule gossip_converges [OF ex_mtable_ok ex_mtable_ok, where c = "''c''"])
     (auto simp: ex_mtable_eq ex_member_def accepted_def)

theorem refutation_wins_witness:
  "mb_Status (MTable_Local (fst (MTable_Merge 5 (ex_mtable ''a'') (ex_member ''a'' StatusDead 7)))) = StatusAlive
   \<and> (7::u64) < mb_Incarnation (MTable_Local (fst (MTable_Merge 5 (ex_mtable ''a'') (ex_member ''a'' StatusDead 7))))"
proof -
  let ?u = "fst (MTable_Merge 4 (ex_mtable ''b'') (ex_member ''a'' StatusDead 7))"
  have u: "map_of (mt_members ?u) (mt_localID (ex_mtable ''a'')) = Some ((ex_member ''a'' StatusDead 7)\<lparr>mb_MembershipEpoch := 2\<rparr>)"
      "mt_clusterID ?u = mt_clusterID (ex_mtable ''a'')" "mt_localID ?u \<noteq> mt_localID (ex_mtable ''a'')"
    by code_simp+
  have m: "accepted (mt_clusterID (ex_mtable ''a'')) (ex_member ''a'' StatusDead 7)"
      "mb_NodeID (ex_member ''a'' StatusDead 7) = mt_localID (ex_mtable ''a'')"
      "mb_Status (ex_member ''a'' StatusDead 7) \<in> {StatusSuspect, StatusDead}"
      "mb_Incarnation (MTable_Local (ex_mtable ''a'')) \<le> mb_Incarnation (ex_member ''a'' StatusDead 7)"
      "mb_Incarnation (ex_member ''a'' StatusDead 7) \<noteq> -1"
    by code_simp+
  show ?thesis
    using refutation_wins [OF ex_mtable_ok m refl Merge_ok [OF ex_mtable_ok] u(2,3,1)] by (simp add: ex_member_def)
qed

theorem escalateFailure_spec_witness:
  "let t = fst (MTable_Merge 4 (ex_mtable ''a'') (ex_member ''b'' StatusSuspect 7));
       target = (ex_member ''b'' StatusSuspect 7)\<lparr>mb_MembershipEpoch := 2\<rparr>;
       g = \<lparr>g_table = t, g_cfg = ex_gcfg, g_suspectedSince = [(''b'', 10)]\<rparr>
   in map_option mb_Status (map_of (mt_members (g_table (escalateFailure 14 g target))) ''b'') = Some StatusSuspect
      \<and> map_option mb_Status (map_of (mt_members (g_table (escalateFailure 15 g target))) ''b'') = Some StatusDead"
proof -
  let ?t = "fst (MTable_Merge 4 (ex_mtable ''a'') (ex_member ''b'' StatusSuspect 7))"
  let ?target = "(ex_member ''b'' StatusSuspect 7)\<lparr>mb_MembershipEpoch := 2\<rparr>"
  let ?g = "\<lparr>g_table = ?t, g_cfg = ex_gcfg, g_suspectedSince = [(''b'', 10)]\<rparr>"
  have ok: "mtable_ok (g_table ?g)" using Merge_ok [OF ex_mtable_ok] by simp
  have t: "map_of (mt_members (g_table ?g)) (mb_NodeID ?target) = Some ?target" "mb_NodeID ?target \<noteq> mt_localID (g_table ?g)"
    by code_simp+
  show ?thesis
    using escalateFailure_spec [OF ok t refl, of 14] escalateFailure_spec [OF ok t refl, of 15]
    by (auto simp: ex_member_def ex_gcfg_def Let_def)
qed

text \<open>
  At the largest incarnation the refutation wraps around: an accusation at \<open>2^64 - 1\<close> leaves the
  local node at incarnation 0, below the accusation, which every other table then prefers.
\<close>

lemma refutation_overflow:
  "mb_Incarnation (MTable_Local (fst (MTable_Merge 5 (ex_mtable ''a'') (ex_member ''a'' StatusDead (-1))))) = 0
   \<and> \<not> supersedes (MTable_Local (fst (MTable_Merge 5 (ex_mtable ''a'') (ex_member ''a'' StatusDead (-1))))) (ex_member ''a'' StatusDead (-1))"
  by code_simp

end
