(* ===== verification/AntiEntropy.thy ===== *)
theory AntiEntropy
  imports NodeStore
begin

text \<open>
  Anti-entropy repair: \<open>src/cluster/antientropy\<close> (\<open>splitrange.go\<close>, \<open>roothash.go\<close>, \<open>scheduler.go\<close>,
  \<open>server.go\<close> and the calls of \<open>client.go\<close>).

  The xxhash digest is an argument: a function of the bytes written to it. The store and the replica
  client are records of operations on a world of any type. A random choice is an argument of the
  tick. \<open>sort.Slice\<close> by key is \<open>sort_key\<close>: the keys of one scan are distinct.
\<close>

section \<open>splitrange.go\<close>

definition boundaryPrefixBytes :: nat where
  "boundaryPrefixBytes = 8"

record Bucket =
  bk_Start :: string
  bk_End :: string

definition prefixToUint64 :: "string \<Rightarrow> byte \<Rightarrow> u64" where
  "prefixToUint64 s pad =
     (let buf = take boundaryPrefixBytes (bytes_of s @ replicate boundaryPrefixBytes pad) in of_nat (be_val buf))"

definition uint64ToBytes :: "u64 \<Rightarrow> string" where
  "uint64ToBytes v = string_of (be_enc boundaryPrefixBytes (unat v))"

text \<open>The loop over the internal boundaries, for \<open>k\<close> remaining values of \<open>i\<close>.\<close>

fun SplitRange_loop :: "nat \<Rightarrow> u64 \<Rightarrow> u64 \<Rightarrow> u64 \<Rightarrow> nat \<Rightarrow> string \<Rightarrow> string \<Rightarrow> Bucket list" where
  "SplitRange_loop 0 lo hi step i prev stop = [\<lparr>bk_Start = prev, bk_End = stop\<rparr>]"
| "SplitRange_loop (Suc k) lo hi step i prev stop =
     (let boundaryValue = lo + step * of_nat i
      in if boundaryValue \<ge> hi then [\<lparr>bk_Start = prev, bk_End = stop\<rparr>]
         else let boundary = uint64ToBytes boundaryValue
              in \<lparr>bk_Start = prev, bk_End = boundary\<rparr> # SplitRange_loop k lo hi step (i + 1) boundary stop)"

definition SplitRange :: "string \<Rightarrow> string \<Rightarrow> int \<Rightarrow> string + Bucket list" where
  "SplitRange start stop n =
     (if n \<le> 0 then Inl ''bucket count must be positive''
      else if n = 1 then Inr [\<lparr>bk_Start = start, bk_End = stop\<rparr>]
      else let lo = prefixToUint64 start 0;
               hi = (if stop \<noteq> '''' then prefixToUint64 stop 0xFF else - 1)
           in if hi \<le> lo then Inr [\<lparr>bk_Start = start, bk_End = stop\<rparr>]
              else let step = (hi - lo) div of_int n;
                       step = (if step = 0 then 1 else step)
                   in Inr (SplitRange_loop (nat n - 1) lo hi step 1 start stop))"

section \<open>roothash.go\<close>

record 'w AEStore =
  ae_ScanRawRange :: "'w \<Rightarrow> string \<Rightarrow> string \<Rightarrow> 'w \<times> (string + RawKV list)"
  ae_Put :: "'w \<Rightarrow> string \<Rightarrow> Envelope \<Rightarrow> bool \<Rightarrow> 'w \<times> (string + unit)"
  ae_Delete :: "'w \<Rightarrow> string \<Rightarrow> Envelope \<Rightarrow> bool \<Rightarrow> 'w \<times> (string + unit)"

definition lengthPrefixed :: "string \<Rightarrow> byte list" where
  "lengthPrefixed s = be_enc 8 (length s) @ bytes_of s"

definition digest_bytes :: "RawKV list \<Rightarrow> byte list" where
  "digest_bytes es = concat (map (\<lambda>e. lengthPrefixed (rkv_Key e) @ lengthPrefixed (rkv_Value e)) es)"

definition ComputeMerkleRoot ::
  "(byte list \<Rightarrow> byte list) \<Rightarrow> 'w AEStore \<Rightarrow> 'w \<Rightarrow> string \<Rightarrow> string \<Rightarrow> 'w \<times> (string + byte list \<times> u64)" where
  "ComputeMerkleRoot xxhash scanner w start stop =
     (case ae_ScanRawRange scanner w start stop of
        (w, Inl err) \<Rightarrow> (w, Inl err)
      | (w, Inr entries) \<Rightarrow>
          (let sorted = sort_key rkv_Key entries
           in (w, Inr (xxhash (digest_bytes sorted), of_nat (length sorted)))))"

section \<open>scheduler.go\<close>

record OwnedRange =
  or_Start :: string
  or_End :: string
  or_Replicas :: "string list"

record SchedulerConfig =
  sc_NodeID :: string
  sc_Fanout :: int
  sc_LeafItemThreshold :: int
  sc_MaxDepth :: int

record 'w AEReplicaClient =
  aec_GetMerkleRoot :: "'w \<Rightarrow> string \<Rightarrow> string \<Rightarrow> string \<Rightarrow> 'w \<times> (string + byte list \<times> u64)"
  aec_StreamRange :: "'w \<Rightarrow> string \<Rightarrow> string \<Rightarrow> string \<Rightarrow> 'w \<times> (string + KeyEnvelope list)"
  aec_RepairKeys :: "'w \<Rightarrow> string \<Rightarrow> KeyEnvelope list \<Rightarrow> 'w \<times> (string + unit)"

record 'w Scheduler =
  s_cfg :: SchedulerConfig
  s_local :: "'w AEStore"
  s_addresses :: "'w \<Rightarrow> string \<Rightarrow> string option"
  s_replicas :: "'w AEReplicaClient"
  s_OwnedRanges :: "'w \<Rightarrow> OwnedRange list"
  s_IsOwner :: "'w \<Rightarrow> string \<Rightarrow> bool"

definition pickPeer :: "'w Scheduler \<Rightarrow> nat \<Rightarrow> string list \<Rightarrow> string option" where
  "pickPeer s r replicas =
     (let others = filter (\<lambda>i. i \<noteq> sc_NodeID (s_cfg s)) replicas
      in if length others = 0 then None else Some (others ! (r mod length others)))"

definition shouldStop :: "'w Scheduler \<Rightarrow> int \<Rightarrow> u64 \<Rightarrow> bool" where
  "shouldStop s depth itemCount =
     (if depth \<ge> sc_MaxDepth (s_cfg s) then True else itemCount \<le> of_int (sc_LeafItemThreshold (s_cfg s)))"

definition classifyKey :: "KeyEnvelope \<Rightarrow> KeyEnvelope \<Rightarrow> KeyEnvelope option \<times> KeyEnvelope option" where
  "classifyKey local peer =
     (case Compare (Clock (ke_Envelope local)) (Clock (ke_Envelope peer)) of
        Before \<Rightarrow> (Some peer, None)
      | After \<Rightarrow> (None, Some local)
      | _ \<Rightarrow> (None, None))"

text \<open>The two-pointer merge: the lists from the pointers on, and the rows collected so far.\<close>

fun mergeDiff_loop ::
  "KeyEnvelope list \<Rightarrow> KeyEnvelope list \<Rightarrow> KeyEnvelope list \<Rightarrow> KeyEnvelope list \<Rightarrow> KeyEnvelope list \<times> KeyEnvelope list" where
  "mergeDiff_loop [] ps toPull toPush = (toPull @ ps, toPush)"
| "mergeDiff_loop (l # ls) [] toPull toPush = (toPull, toPush @ (l # ls))"
| "mergeDiff_loop (l # ls) (p # ps) toPull toPush =
     (if ke_Key l < ke_Key p then mergeDiff_loop ls (p # ps) toPull (toPush @ [l])
      else if ke_Key p < ke_Key l then mergeDiff_loop (l # ls) ps (toPull @ [p]) toPush
      else case classifyKey l p of
             (Some pull, _) \<Rightarrow> mergeDiff_loop ls ps (toPull @ [pull]) toPush
           | (None, Some push) \<Rightarrow> mergeDiff_loop ls ps toPull (toPush @ [push])
           | (None, None) \<Rightarrow> mergeDiff_loop ls ps toPull toPush)"

definition mergeDiff :: "KeyEnvelope list \<Rightarrow> KeyEnvelope list \<Rightarrow> KeyEnvelope list \<times> KeyEnvelope list" where
  "mergeDiff localRows peerRows = mergeDiff_loop localRows peerRows [] []"

fun decode_rows :: "(string \<Rightarrow> Envelope option) \<Rightarrow> RawKV list \<Rightarrow> string + KeyEnvelope list" where
  "decode_rows unmarshal [] = Inr []"
| "decode_rows unmarshal (entry # entries) =
     (case Decode unmarshal (rkv_Value entry) of
        Inl err \<Rightarrow> Inl ''decode''
      | Inr envelope \<Rightarrow>
          (case decode_rows unmarshal entries of
             Inl err \<Rightarrow> Inl err
           | Inr rows \<Rightarrow> Inr (\<lparr>ke_Key = rkv_Key entry, ke_Envelope = envelope\<rparr> # rows)))"

definition localRows ::
  "(string \<Rightarrow> Envelope option) \<Rightarrow> 'w Scheduler \<Rightarrow> 'w \<Rightarrow> string \<Rightarrow> string \<Rightarrow> 'w \<times> (string + KeyEnvelope list)" where
  "localRows unmarshal s w start stop =
     (case ae_ScanRawRange (s_local s) w start stop of
        (w, Inl err) \<Rightarrow> (w, Inl err)
      | (w, Inr entries) \<Rightarrow>
          (case decode_rows unmarshal entries of
             Inl err \<Rightarrow> (w, Inl err)
           | Inr rows \<Rightarrow> (w, Inr (sort_key ke_Key rows))))"

definition first_err :: "string option \<Rightarrow> string + unit \<Rightarrow> string option" where
  "first_err firstErr r = (case r of Inl err \<Rightarrow> (if firstErr = None then Some err else firstErr) | Inr _ \<Rightarrow> firstErr)"

fun applyPulls_loop :: "'w Scheduler \<Rightarrow> KeyEnvelope list \<Rightarrow> 'w \<Rightarrow> string option \<Rightarrow> 'w \<times> string option" where
  "applyPulls_loop s [] w firstErr = (w, firstErr)"
| "applyPulls_loop s (row # rows) w firstErr =
     (if \<not> s_IsOwner s w (ke_Key row) then applyPulls_loop s rows w firstErr
      else case (if Deleted (ke_Envelope row) then ae_Delete (s_local s) w (ke_Key row) (ke_Envelope row) True
                 else ae_Put (s_local s) w (ke_Key row) (ke_Envelope row) True) of
             (w, r) \<Rightarrow> applyPulls_loop s rows w (first_err firstErr r))"

definition applyPulls :: "'w Scheduler \<Rightarrow> 'w \<Rightarrow> KeyEnvelope list \<Rightarrow> 'w \<times> string option" where
  "applyPulls s w rows = applyPulls_loop s rows w None"

definition pushRepairs :: "'w Scheduler \<Rightarrow> 'w \<Rightarrow> string \<Rightarrow> KeyEnvelope list \<Rightarrow> 'w \<times> string option" where
  "pushRepairs s w addr rows =
     (if length rows = 0 then (w, None)
      else case aec_RepairKeys (s_replicas s) w addr rows of
             (w, Inl err) \<Rightarrow> (w, Some err)
           | (w, Inr _) \<Rightarrow> (w, None))"

definition diffLeaf ::
  "(string \<Rightarrow> Envelope option) \<Rightarrow> 'w Scheduler \<Rightarrow> 'w \<Rightarrow> string \<Rightarrow> string \<Rightarrow> string \<Rightarrow> 'w \<times> string option" where
  "diffLeaf unmarshal s w addr start stop =
     (case localRows unmarshal s w start stop of
        (w, Inl err) \<Rightarrow> (w, Some err)
      | (w, Inr lrows) \<Rightarrow>
          (case aec_StreamRange (s_replicas s) w addr start stop of
             (w, Inl err) \<Rightarrow> (w, Some err)
           | (w, Inr prows) \<Rightarrow>
               (let (toPull, toPush) = mergeDiff lrows (sort_key ke_Key prows)
                in case applyPulls s w toPull of
                     (w, pullErr) \<Rightarrow>
                       (case pushRepairs s w addr toPush of
                          (w, pushErr) \<Rightarrow> (w, if pullErr \<noteq> None then pullErr else pushErr)))))"

text \<open>
  The tree walk. The depth grows with every level and stops at \<open>MaxDepth\<close>, so the recursion ends
  whatever the peers answer.
\<close>

function diffNode ::
    "(byte list \<Rightarrow> byte list) \<Rightarrow> (string \<Rightarrow> Envelope option) \<Rightarrow> 'w Scheduler \<Rightarrow> 'w \<Rightarrow> string \<Rightarrow> string \<Rightarrow> string \<Rightarrow> int
       \<Rightarrow> 'w \<times> string option"
  and diffBuckets ::
    "(byte list \<Rightarrow> byte list) \<Rightarrow> (string \<Rightarrow> Envelope option) \<Rightarrow> 'w Scheduler \<Rightarrow> 'w \<Rightarrow> string \<Rightarrow> Bucket list \<Rightarrow> int \<Rightarrow> string option
       \<Rightarrow> 'w \<times> string option" where
  "diffNode xxhash unmarshal s w addr start stop depth =
     (case ComputeMerkleRoot xxhash (s_local s) w start stop of
        (w, Inl err) \<Rightarrow> (w, Some err)
      | (w, Inr (localHash, localCount)) \<Rightarrow>
          (case aec_GetMerkleRoot (s_replicas s) w addr start stop of
             (w, Inl err) \<Rightarrow> (w, Some err)
           | (w, Inr (peerHash, peerCount)) \<Rightarrow>
               if localCount = peerCount \<and> localHash = peerHash then (w, None)
               else let mismatchCount = (if peerCount > localCount then peerCount else localCount)
                    in if shouldStop s depth mismatchCount then diffLeaf unmarshal s w addr start stop
                       else case SplitRange start stop (sc_Fanout (s_cfg s)) of
                              Inl err \<Rightarrow> (w, Some err)
                            | Inr buckets \<Rightarrow>
                                if buckets = [\<lparr>bk_Start = start, bk_End = stop\<rparr>] then diffLeaf unmarshal s w addr start stop
                                else diffBuckets xxhash unmarshal s w addr buckets (depth + 1) None))"
| "diffBuckets xxhash unmarshal s w addr [] depth firstErr = (w, firstErr)"
| "diffBuckets xxhash unmarshal s w addr (bucket # buckets) depth firstErr =
     (case diffNode xxhash unmarshal s w addr (bk_Start bucket) (bk_End bucket) depth of
        (w, err) \<Rightarrow> diffBuckets xxhash unmarshal s w addr buckets depth (if err \<noteq> None \<and> firstErr = None then err else firstErr))"
  by pat_completeness auto
termination
  by (relation "inv_image (less_than <*lex*> less_than)
        (\<lambda>x. case x of
           Inl (xxhash, unmarshal, s, w, addr, start, stop, depth) \<Rightarrow> (nat (sc_MaxDepth (s_cfg s) - depth), 0)
         | Inr (xxhash, unmarshal, s, w, addr, buckets, depth, firstErr) \<Rightarrow> (nat (sc_MaxDepth (s_cfg s) - depth), Suc (length buckets)))")
     (auto simp: shouldStop_def split: if_splits)

definition RepairRange ::
  "(byte list \<Rightarrow> byte list) \<Rightarrow> (string \<Rightarrow> Envelope option) \<Rightarrow> 'w Scheduler \<Rightarrow> 'w \<Rightarrow> string \<Rightarrow> string \<Rightarrow> string \<Rightarrow> 'w \<times> string option" where
  "RepairRange xxhash unmarshal s w addr start stop = diffNode xxhash unmarshal s w addr start stop 0"

text \<open>One tick: a repair round per owned range; the random numbers are given one per range.\<close>

fun Scheduler_tick_loop ::
  "(byte list \<Rightarrow> byte list) \<Rightarrow> (string \<Rightarrow> Envelope option) \<Rightarrow> 'w Scheduler \<Rightarrow> nat list \<Rightarrow> OwnedRange list \<Rightarrow> 'w \<Rightarrow> 'w" where
  "Scheduler_tick_loop xxhash unmarshal s rnd [] w = w"
| "Scheduler_tick_loop xxhash unmarshal s rnd (r # rs) w =
     (let rest = Scheduler_tick_loop xxhash unmarshal s (tl rnd) rs
      in case pickPeer s (case rnd of [] \<Rightarrow> 0 | x # _ \<Rightarrow> x) (or_Replicas r) of
           None \<Rightarrow> rest w
         | Some peerID \<Rightarrow>
             (case s_addresses s w peerID of
                None \<Rightarrow> rest w
              | Some addr \<Rightarrow> rest (fst (RepairRange xxhash unmarshal s w addr (or_Start r) (or_End r)))))"

definition Scheduler_tick ::
  "(byte list \<Rightarrow> byte list) \<Rightarrow> (string \<Rightarrow> Envelope option) \<Rightarrow> 'w Scheduler \<Rightarrow> nat list \<Rightarrow> 'w \<Rightarrow> 'w" where
  "Scheduler_tick xxhash unmarshal s rnd w = Scheduler_tick_loop xxhash unmarshal s rnd (s_OwnedRanges s w) w"

section \<open>server.go\<close>

record AEOwnership =
  aeo_IsOwner :: "string \<Rightarrow> bool"
  aeo_OwnsRange :: "string \<Rightarrow> string \<Rightarrow> bool"

definition AEServer_GetMerkleRoot ::
  "(byte list \<Rightarrow> byte list) \<Rightarrow> 'w AEStore \<Rightarrow> AEOwnership \<Rightarrow> 'w \<Rightarrow> ContextErr option \<Rightarrow> string \<Rightarrow> string
     \<Rightarrow> 'w \<times> (Code + byte list \<times> u64)" where
  "AEServer_GetMerkleRoot xxhash store ownership w ctx start stop =
     (case ctx of
        Some err \<Rightarrow> (w, Inl (FromContextError err))
      | None \<Rightarrow>
          if \<not> aeo_OwnsRange ownership start stop then (w, Inl FailedPrecondition)
          else case ComputeMerkleRoot xxhash store w start stop of
                 (w, Inl err) \<Rightarrow> (w, Inl Internal)
               | (w, Inr root) \<Rightarrow> (w, Inr root))"

text \<open>
  The rows sent on the stream before it ends, and the error it ends with. Before each row the
  stream's context may have ended, and sending the row may fail.
\<close>

fun StreamRange_loop ::
  "(string \<Rightarrow> Envelope option) \<Rightarrow> (nat \<Rightarrow> ContextErr option) \<Rightarrow> (nat \<Rightarrow> Code option) \<Rightarrow> nat \<Rightarrow> RawKV list
     \<Rightarrow> pb_KeyEnvelope list \<times> Code option" where
  "StreamRange_loop unmarshal ctx send i [] = ([], None)"
| "StreamRange_loop unmarshal ctx send i (entry # entries) =
     (case ctx i of
        Some err \<Rightarrow> ([], Some (FromContextError err))
      | None \<Rightarrow>
          (case Decode unmarshal (rkv_Value entry) of
             Inl err \<Rightarrow> ([], Some Internal)
           | Inr envelope \<Rightarrow>
               (case send i of
                  Some err \<Rightarrow> ([], Some err)
                | None \<Rightarrow>
                    (case StreamRange_loop unmarshal ctx send (i + 1) entries of
                       (rows, err) \<Rightarrow> (KeyEnvelopeToProto \<lparr>ke_Key = rkv_Key entry, ke_Envelope = envelope\<rparr> # rows, err)))))"

definition AEServer_StreamRange ::
  "(string \<Rightarrow> Envelope option) \<Rightarrow> (nat \<Rightarrow> ContextErr option) \<Rightarrow> (nat \<Rightarrow> Code option) \<Rightarrow> 'w AEStore \<Rightarrow> AEOwnership
     \<Rightarrow> 'w \<Rightarrow> string \<Rightarrow> string \<Rightarrow> 'w \<times> pb_KeyEnvelope list \<times> Code option" where
  "AEServer_StreamRange unmarshal ctx send store ownership w start stop =
     (if \<not> aeo_OwnsRange ownership start stop then (w, [], Some FailedPrecondition)
      else case ae_ScanRawRange store w start stop of
             (w, Inl err) \<Rightarrow> (w, [], Some Internal)
           | (w, Inr entries) \<Rightarrow> (w, StreamRange_loop unmarshal ctx send 0 entries))"

fun RepairKeys_loop ::
  "(Envelope \<Rightarrow> string option) \<Rightarrow> (string \<Rightarrow> Envelope option) \<Rightarrow> 'w AEStore \<Rightarrow> 'w \<Rightarrow> pb_KeyEnvelope list \<Rightarrow> 'w \<times> (Code + unit)" where
  "RepairKeys_loop marshal unmarshal store w [] = (w, Inr ())"
| "RepairKeys_loop marshal unmarshal store w (row # rows) =
     (case EnvelopeFromProto marshal unmarshal (pb_ke_Envelope row) of
        Inl err \<Rightarrow> (w, Inl InvalidArgument)
      | Inr envelope \<Rightarrow>
          (case (if Deleted envelope then ae_Delete store w (pb_ke_Key row) envelope True
                 else ae_Put store w (pb_ke_Key row) envelope True) of
             (w, Inl err) \<Rightarrow> (w, Inl Internal)
           | (w, Inr _) \<Rightarrow> RepairKeys_loop marshal unmarshal store w rows))"

definition AEServer_RepairKeys ::
  "(Envelope \<Rightarrow> string option) \<Rightarrow> (string \<Rightarrow> Envelope option) \<Rightarrow> 'w AEStore \<Rightarrow> AEOwnership \<Rightarrow> 'w \<Rightarrow> ContextErr option
     \<Rightarrow> pb_KeyEnvelope list \<Rightarrow> 'w \<times> (Code + unit)" where
  "AEServer_RepairKeys marshal unmarshal store ownership w ctx rows =
     (case ctx of
        Some err \<Rightarrow> (w, Inl (FromContextError err))
      | None \<Rightarrow>
          if list_ex (\<lambda>row. \<not> aeo_IsOwner ownership (pb_ke_Key row)) rows then (w, Inl FailedPrecondition)
          else RepairKeys_loop marshal unmarshal store w rows)"

section \<open>client.go\<close>

text \<open>The loop of \<open>StreamRange\<close> on the client: the rows received, then the end of the stream.\<close>

fun Client_collect ::
  "(Envelope \<Rightarrow> string option) \<Rightarrow> (string \<Rightarrow> Envelope option) \<Rightarrow> pb_KeyEnvelope list \<Rightarrow> Code option \<Rightarrow> string + KeyEnvelope list" where
  "Client_collect marshal unmarshal [] ended = (case ended of None \<Rightarrow> Inr [] | Some err \<Rightarrow> Inl ''stream'')"
| "Client_collect marshal unmarshal (protoRow # protoRows) ended =
     (case KeyEnvelopeFromProto marshal unmarshal (Some protoRow) of
        Inl err \<Rightarrow> Inl ''decode streamed row''
      | Inr row \<Rightarrow>
          (case Client_collect marshal unmarshal protoRows ended of
             Inl err \<Rightarrow> Inl err
           | Inr rows \<Rightarrow> Inr (row # rows)))"

section \<open>The buckets of a split\<close>

lemma append_less:
  fixes a b :: "'a::linorder list"
  shows "length a = length b \<Longrightarrow> a < b \<Longrightarrow> a @ x < b @ y"
  by (induction a b rule: list_induct2) auto

lemma prefix_le: "(a :: 'a::linorder list) \<le> a @ x"
  by (induction a) auto

lemma be_val_Cons: "be_val (b # bs) = unat b * 256 ^ length bs + be_val bs"
proof -
  have "le_val (xs @ [b]) = le_val xs + unat b * 256 ^ length xs" for xs
    by (induction xs) (auto simp: algebra_simps)
  then show ?thesis by (simp add: be_val_def)
qed

lemma digit_less:
  assumes "x < m" "y < (m :: nat)"
  shows "a * m + x < b * m + y \<longleftrightarrow> a < b \<or> a = b \<and> x < y"
proof -
  have "a * m + x < b * m + y" if "a < b"
  proof -
    have "a * m + x < Suc a * m" using assms by simp
    also have "\<dots> \<le> b * m" using that by (intro mult_le_mono1) simp
    finally show ?thesis by simp
  qed
  moreover have "\<not> a * m + x < b * m + y" if "b < a"
  proof -
    have "b * m + y < Suc b * m" using assms by simp
    also have "\<dots> \<le> a * m" using that by (intro mult_le_mono1) simp
    finally show ?thesis by simp
  qed
  ultimately show ?thesis by (metis add_less_cancel_left linorder_neqE_nat)
qed

text \<open>Strings of one length are ordered as the numbers they write.\<close>

lemma less_be_val:
  fixes s t :: string
  shows "length s = length t \<Longrightarrow> s < t \<longleftrightarrow> be_val (bytes_of s) < be_val (bytes_of t)"
proof (induction s t rule: list_induct2)
  case (Cons c s d t)
  have u: "unat (of_nat (of_char x) :: byte) = of_char x" for x :: char
    using nat_of_char_less_256 [of x] by (simp add: unat_of_nat)
  have bs: "be_val (bytes_of s) < 256 ^ length t" "be_val (bytes_of t) < 256 ^ length t"
    using be_val_bound [of "bytes_of s"] be_val_bound [of "bytes_of t"] Cons.hyps by simp_all
  have "be_val (bytes_of (c # s)) < be_val (bytes_of (d # t)) \<longleftrightarrow>
      of_char c * 256 ^ length t + be_val (bytes_of s) < of_char d * 256 ^ length t + be_val (bytes_of t)"
    using Cons.hyps u by (simp add: bytes_of_def be_val_Cons)
  also have "\<dots> \<longleftrightarrow> (of_char c :: nat) < of_char d \<or> (of_char c :: nat) = of_char d \<and> be_val (bytes_of s) < be_val (bytes_of t)"
    using bs by (rule digit_less)
  also have "\<dots> \<longleftrightarrow> c # s < d # t"
    using Cons.IH by (auto simp: less_char_def)
  finally show ?case by simp
qed simp

definition in_range :: "string \<Rightarrow> string \<Rightarrow> string \<Rightarrow> bool" where
  "in_range start stop x \<longleftrightarrow> start \<le> x \<and> (stop = '''' \<or> x < stop)"

abbreviation in_bucket :: "Bucket \<Rightarrow> string \<Rightarrow> bool" where
  "in_bucket b \<equiv> in_range (bk_Start b) (bk_End b)"

fun contiguous :: "string \<Rightarrow> Bucket list \<Rightarrow> string \<Rightarrow> bool" where
  "contiguous start [] stop = False"
| "contiguous start [b] stop = (bk_Start b = start \<and> bk_End b = stop)"
| "contiguous start (b # bs) stop = (bk_Start b = start \<and> contiguous (bk_End b) bs stop)"

lemma uint64ToBytes_length [simp]: "length (uint64ToBytes v) = 8"
  by (simp add: uint64ToBytes_def boundaryPrefixBytes_def)

lemma uint64ToBytes_nonempty [simp]: "uint64ToBytes v \<noteq> ''''"
  using uint64ToBytes_length [of v] by (metis list.size(3) zero_neq_numeral)

lemma bytes_of_string_of [simp]: "bytes_of (string_of bs) = bs"
proof -
  have "of_nat (of_char (char_of (unat b) :: char)) = b" for b :: byte
  proof -
    have "unat b < 256" using unsigned_less [of b] by simp
    then show ?thesis by simp
  qed
  then show ?thesis by (induction bs) (auto simp: bytes_of_def string_of_def)
qed

lemma contiguous_Cons:
  "contiguous start (b # bs) stop \<longleftrightarrow> bk_Start b = start \<and> (if bs = [] then bk_End b = stop else contiguous (bk_End b) bs stop)"
  by (cases bs) auto

lemma contiguous_nonempty: "contiguous start bs stop \<Longrightarrow> bs \<noteq> []"
  by auto

lemma be_val_uint64ToBytes [simp]: "be_val (bytes_of (uint64ToBytes v)) = unat v"
  using unat_u64_bound [of v] by (simp add: uint64ToBytes_def boundaryPrefixBytes_def be_val_be_enc)

lemma uint64ToBytes_less: "uint64ToBytes v < uint64ToBytes u \<longleftrightarrow> v < u"
  by (simp add: less_be_val word_less_nat_alt)

lemma loop_contiguous: "contiguous prev (SplitRange_loop k lo hi step i prev stop) stop"
proof (induction k arbitrary: i prev)
  case (Suc k)
  let ?b = "uint64ToBytes (lo + step * of_nat i)"
  have IH: "contiguous ?b (SplitRange_loop k lo hi step (i + 1) ?b stop) stop" by (rule Suc.IH)
  then show ?case using contiguous_nonempty [OF IH] by (simp add: Let_def contiguous_Cons)
qed simp

lemma loop_length: "length (SplitRange_loop k lo hi step i prev stop) \<le> Suc k"
  by (induction k arbitrary: i prev) (auto simp: Let_def)

lemma loop_covers:
  "in_range prev stop x \<Longrightarrow> \<exists>b\<in>set (SplitRange_loop k lo hi step i prev stop). in_bucket b x"
proof (induction k arbitrary: i prev)
  case (Suc k)
  let ?b = "uint64ToBytes (lo + step * of_nat i)"
  show ?case
  proof (cases "x < ?b")
    case True
    then show ?thesis using Suc.prems by (auto simp: Let_def in_range_def)
  next
    case False
    then have "in_range ?b stop x" using Suc.prems by (simp add: in_range_def)
    then show ?thesis using Suc.IH [of ?b "i + 1"] Suc.prems by (auto simp: Let_def)
  qed
qed simp

text \<open>
  Exactness needs that the boundaries increase and stay below the end. The first holds for every
  start; the second holds when the end is open or has at least eight bytes.
\<close>

definition below_stop :: "u64 \<Rightarrow> string \<Rightarrow> bool" where
  "below_stop hi stop \<longleftrightarrow> (\<forall>v<hi. stop = '''' \<or> uint64ToBytes v < stop)"

lemma loop_exact:
  assumes "unat lo + unat step * (i - 1) < unat hi" "1 \<le> i" "1 \<le> unat step"
    and "unat step = 1 \<or> unat lo + unat step * (i + k - 1) \<le> unat hi"
    and "\<forall>v. unat lo + unat step * (i - 1) < unat v \<longrightarrow> prev < uint64ToBytes v" and "below_stop hi stop"
  shows "length (filter (\<lambda>b. in_bucket b x) (SplitRange_loop k lo hi step i prev stop)) = (if in_range prev stop x then 1 else 0)"
  using assms(1,2,4,5)
proof (induction k arbitrary: i prev)
  case (Suc k)
  let ?v = "lo + step * of_nat i"
  let ?b = "uint64ToBytes ?v"
  have le: "unat lo + unat step * i \<le> unat hi"
  proof (cases "unat step = 1")
    case True
    then show ?thesis using Suc.prems(1,2) by simp
  next
    case False
    have "unat step * i \<le> unat step * (i + Suc k - 1)" by (rule mult_le_mono2) simp
    then show ?thesis using Suc.prems(3) False by linarith
  qed
  have v: "unat ?v = unat lo + unat step * i"
  proof -
    have lt: "unat lo + unat step * i < 2 ^ 64" using le unat_u64_bound [of hi] by linarith
    have "i \<le> unat step * i" using assms(3) by simp
    then have "i < 2 ^ 64" using lt by linarith
    then have i: "unat (of_nat i :: u64) = i" by (simp add: unat_of_nat)
    have "unat (step * of_nat i) = unat step * i" using lt i by (subst unat_mult_lem [THEN iffD1]) auto
    then show ?thesis using lt by (subst unat_add_lem [THEN iffD1]) auto
  qed
  have pb: "prev < ?b"
  proof -
    have "unat lo + unat step * (i - 1) < unat ?v"
      using v assms(3) Suc.prems(2) by (cases i) auto
    then show ?thesis using Suc.prems(4) by blast
  qed
  show ?case
  proof (cases "hi \<le> ?v")
    case True
    then show ?thesis by (simp add: Let_def)
  next
    case False
    then have bs: "stop = '''' \<or> ?b < stop" using assms(6) by (simp add: below_stop_def)
    have IH: "length (filter (\<lambda>b. in_bucket b x) (SplitRange_loop k lo hi step (i + 1) ?b stop)) = (if in_range ?b stop x then 1 else 0)"
    proof (rule Suc.IH)
      show "unat lo + unat step * (i + 1 - 1) < unat hi" using False v by (simp add: word_le_nat_alt)
      show "unat step = 1 \<or> unat lo + unat step * (i + 1 + k - 1) \<le> unat hi" using Suc.prems(3) by simp
      show "\<forall>u. unat lo + unat step * (i + 1 - 1) < unat u \<longrightarrow> ?b < uint64ToBytes u"
        using v by (simp add: uint64ToBytes_less word_less_nat_alt)
    qed simp
    show ?thesis
      using False IH pb bs by (auto simp: Let_def in_range_def)
  qed
qed simp

lemma unat_prefix: "unat (prefixToUint64 s pad) = be_val (take 8 (bytes_of s @ replicate 8 pad))"
proof -
  have len: "length (take 8 (bytes_of s @ replicate 8 pad)) = 8" by simp
  have "be_val (take 8 (bytes_of s @ replicate 8 pad)) < 256 ^ 8"
    using be_val_bound [of "take 8 (bytes_of s @ replicate 8 pad)"] unfolding len .
  then show ?thesis by (simp add: prefixToUint64_def boundaryPrefixBytes_def unat_of_nat)
qed

lemma bytes_of_take: "bytes_of (take k s) = take k (bytes_of s)"
  by (simp add: bytes_of_def take_map)

lemma start_less:
  assumes "unat (prefixToUint64 start 0) < unat v"
  shows "start < uint64ToBytes v"
proof -
  let ?t = "take 8 (start @ replicate 8 (CHR 0x00))"
  have "bytes_of ?t = take 8 (bytes_of start @ replicate 8 0)" by (simp add: bytes_of_take bytes_of_def take_map)
  then have lt: "?t < uint64ToBytes v" using assms by (simp add: less_be_val unat_prefix)
  show ?thesis
  proof (cases "length start \<le> 8")
    case True
    then have "?t = start @ replicate (8 - length start) (CHR 0x00)" by (simp add: take_replicate)
    then have "start \<le> ?t" using prefix_le by metis
    then show ?thesis using lt by (rule le_less_trans)
  next
    case False
    then have "?t = take 8 start" by simp
    then have "take 8 start @ drop 8 start < uint64ToBytes v @ []" using lt False by (intro append_less) auto
    then show ?thesis by simp
  qed
qed

lemma below_stop_long:
  assumes "8 \<le> length stop"
  shows "below_stop (prefixToUint64 stop pad) stop"
  unfolding below_stop_def
proof (intro allI impI disjI2)
  fix v assume "v < prefixToUint64 stop pad"
  then have "uint64ToBytes v < take 8 stop"
    using assms by (simp add: less_be_val unat_prefix word_less_nat_alt bytes_of_take)
  then have "uint64ToBytes v @ [] < take 8 stop @ drop 8 stop" using assms by (intro append_less) auto
  then show "uint64ToBytes v < stop" by simp
qed

lemma SplitRange_cases:
  assumes "SplitRange start stop n = Inr bs"
  obtains (one) "bs = [\<lparr>bk_Start = start, bk_End = stop\<rparr>]" "1 \<le> n"
    | (many) lo hi step where "2 \<le> n" "lo < hi" "lo = prefixToUint64 start 0"
        "hi = (if stop \<noteq> '''' then prefixToUint64 stop 0xFF else - 1)"
        "step = (if (hi - lo) div of_int n = 0 then 1 else (hi - lo) div of_int n)"
        "bs = SplitRange_loop (nat n - 1) lo hi step 1 start stop"
proof (cases "n = 1 \<or> (if stop \<noteq> '''' then prefixToUint64 stop 0xFF else - 1) \<le> prefixToUint64 start 0")
  case True
  then show thesis using assms by (intro one) (auto simp: SplitRange_def Let_def split: if_splits)
next
  case False
  then show thesis using assms
    by (intro many [OF _ _ refl refl refl]) (auto simp: SplitRange_def Let_def not_le split: if_splits)
qed

lemma SplitRange_contiguous:
  assumes "SplitRange start stop n = Inr bs"
  shows "contiguous start bs stop \<and> int (length bs) \<le> n \<and> (\<forall>x. in_range start stop x \<longrightarrow> (\<exists>b\<in>set bs. in_bucket b x))"
  using assms
proof (cases rule: SplitRange_cases)
  case (many lo hi step)
  then show ?thesis
    using loop_contiguous loop_length [of "nat n - 1" lo hi step 1 start stop] loop_covers by simp
qed simp

lemma SplitRange_exact:
  assumes "SplitRange start stop n = Inr bs" "n < 2 ^ 63" "stop = '''' \<or> 8 \<le> length stop"
  shows "length (filter (\<lambda>b. in_bucket b x) bs) = (if in_range start stop x then 1 else 0)"
  using assms(1)
proof (cases rule: SplitRange_cases)
  case (many lo hi step)
  have diff: "unat (hi - lo) = unat hi - unat lo" using many(2) by (simp add: unat_sub less_imp_le)
  have n: "unat (of_int n :: u64) = nat n"
  proof -
    have "of_int n = (of_nat (nat n) :: u64)" using many(1) by simp
    moreover have "nat n < 2 ^ 64" using assms(2) by simp
    ultimately show ?thesis by (simp add: unat_of_nat)
  qed
  have stop: "below_stop hi stop"
    using assms(3) many(4) below_stop_long by (cases "stop = ''''") (auto simp: below_stop_def)
  have st: "unat ((hi - lo) div of_int n) = (unat hi - unat lo) div nat n"
    using diff n by (simp add: unat_div)
  have step1: "1 \<le> unat step"
    using many(5) by (simp add: unat_gt_0 Suc_le_eq split: if_splits)
  have "unat step = 1 \<or> unat lo + unat step * (1 + (nat n - 1) - 1) \<le> unat hi"
  proof (cases "(hi - lo) div of_int n = 0")
    case True
    then show ?thesis using many(5) by simp
  next
    case False
    then have s: "unat step = (unat hi - unat lo) div nat n" using many(5) st by simp
    have "unat step * (nat n - 1) \<le> unat step * nat n" by (rule mult_le_mono2) simp
    also have "\<dots> \<le> unat hi - unat lo" unfolding s by (rule div_times_less_eq_dividend)
    finally have "unat step * (nat n - 1) \<le> unat hi - unat lo" .
    moreover have "unat lo < unat hi" using many(2) by (simp add: word_less_nat_alt)
    ultimately have "unat lo + unat step * (nat n - 1) \<le> unat hi" by linarith
    then show ?thesis by simp
  qed
  then show ?thesis
    unfolding many(6)
    using many(2,3) step1 stop start_less by (intro loop_exact) (auto simp: word_less_nat_alt)
qed simp

section \<open>The root hash\<close>

lemma be_enc_inj:
  assumes "be_enc 8 a = be_enc 8 b" "a < 2 ^ 64" "b < 2 ^ 64"
  shows "a = b"
proof -
  have "a mod 256 ^ 8 = b mod 256 ^ 8"
    using arg_cong [OF assms(1), of be_val] unfolding be_val_be_enc .
  then have "a mod 2 ^ 64 = b mod 2 ^ 64" by simp
  then show ?thesis unfolding mod_less [OF assms(2)] mod_less [OF assms(3)] .
qed

lemma bytes_of_inj: "bytes_of s = bytes_of t \<Longrightarrow> s = t"
  by (metis string_of_bytes_of)

lemma lengthPrefixed_inj:
  assumes "lengthPrefixed s @ x = lengthPrefixed t @ y" "length s < 2 ^ 64" "length t < 2 ^ 64"
  shows "s = t \<and> x = y"
proof -
  have len: "length (be_enc 8 (length s)) = length (be_enc 8 (length t))" by simp
  have "be_enc 8 (length s) @ (bytes_of s @ x) = be_enc 8 (length t) @ (bytes_of t @ y)"
    using assms(1) unfolding lengthPrefixed_def append_assoc .
  then have h: "be_enc 8 (length s) = be_enc 8 (length t) \<and> bytes_of s @ x = bytes_of t @ y"
    unfolding append_eq_append_conv [OF disjI1 [OF len]] .
  have "length s = length t" by (rule be_enc_inj [OF conjunct1 [OF h] assms(2,3)])
  then have lb: "length (bytes_of s) = length (bytes_of t)" by simp
  have b: "bytes_of s = bytes_of t \<and> x = y"
    using conjunct2 [OF h] unfolding append_eq_append_conv [OF disjI1 [OF lb]] .
  show ?thesis using bytes_of_inj [OF conjunct1 [OF b]] conjunct2 [OF b] by (rule conjI)
qed

lemma lengthPrefixed_nonempty [simp]: "lengthPrefixed s \<noteq> []"
proof -
  have "length (lengthPrefixed s) = 8 + length s" by (simp add: lengthPrefixed_def)
  then show ?thesis by (metis add_is_0 list.size(3) zero_neq_numeral)
qed

definition sized :: "RawKV \<Rightarrow> bool" where
  "sized e \<longleftrightarrow> length (rkv_Key e) < 2 ^ 64 \<and> length (rkv_Value e) < 2 ^ 64"

lemma digest_bytes_inj:
  "digest_bytes xs = digest_bytes ys \<Longrightarrow> list_all sized xs \<Longrightarrow> list_all sized ys \<Longrightarrow> xs = ys"
proof (induction xs arbitrary: ys)
  case Nil
  then show ?case by (cases ys) (auto simp: digest_bytes_def)
next
  case (Cons x xs)
  then obtain y ys' where ys: "ys = y # ys'"
    by (cases ys) (auto simp: digest_bytes_def)
  have eq: "lengthPrefixed (rkv_Key x) @ (lengthPrefixed (rkv_Value x) @ digest_bytes xs)
      = lengthPrefixed (rkv_Key y) @ (lengthPrefixed (rkv_Value y) @ digest_bytes ys')"
    using Cons.prems(1) by (simp add: digest_bytes_def ys)
  have s: "sized x" "sized y" "list_all sized xs" "list_all sized ys'" using Cons.prems ys by auto
  have 1: "rkv_Key x = rkv_Key y" "lengthPrefixed (rkv_Value x) @ digest_bytes xs = lengthPrefixed (rkv_Value y) @ digest_bytes ys'"
    using lengthPrefixed_inj [OF eq] s by (auto simp: sized_def)
  have 2: "rkv_Value x = rkv_Value y" "digest_bytes xs = digest_bytes ys'"
    using lengthPrefixed_inj [OF 1(2)] s by (auto simp: sized_def)
  show ?case using 1(1) 2 Cons.IH s ys by simp
qed

section \<open>The merge of two leaves\<close>

lemma classifyKey_eq:
  "classifyKey l p =
     (if Compare (Clock (ke_Envelope l)) (Clock (ke_Envelope p)) = Before then Some p else None,
      if Compare (Clock (ke_Envelope l)) (Clock (ke_Envelope p)) = After then Some l else None)"
  by (simp add: classifyKey_def split: Relation.split)

definition rows_sorted :: "KeyEnvelope list \<Rightarrow> bool" where
  "rows_sorted rs \<longleftrightarrow> sorted_wrt (<) (map ke_Key rs)"

definition row_of :: "KeyEnvelope list \<Rightarrow> string \<Rightarrow> KeyEnvelope option" where
  "row_of rs k = find (\<lambda>r. ke_Key r = k) rs"

text \<open>Which rows a side lacks: those it has not, and those of which it has an older version.\<close>

definition lacks :: "KeyEnvelope list \<Rightarrow> KeyEnvelope \<Rightarrow> bool" where
  "lacks rs r \<longleftrightarrow> (case row_of rs (ke_Key r) of None \<Rightarrow> True
     | Some l \<Rightarrow> Compare (Clock (ke_Envelope l)) (Clock (ke_Envelope r)) = Before)"

definition lacks_rev :: "KeyEnvelope list \<Rightarrow> KeyEnvelope \<Rightarrow> bool" where
  "lacks_rev rs l \<longleftrightarrow> (case row_of rs (ke_Key l) of None \<Rightarrow> True
     | Some p \<Rightarrow> Compare (Clock (ke_Envelope l)) (Clock (ke_Envelope p)) = After)"

lemma row_of_none: "\<forall>r\<in>set rs. ke_Key r \<noteq> k \<Longrightarrow> row_of rs k = None"
  by (simp add: row_of_def find_None_iff)

lemma row_of_Cons: "row_of (r # rs) k = (if ke_Key r = k then Some r else row_of rs k)"
  by (simp add: row_of_def)

lemma filter_cong_lacks:
  assumes "\<forall>r\<in>set rs. ke_Key r \<noteq> ke_Key x"
  shows "filter (lacks (x # ys)) rs = filter (lacks ys) rs" "filter (lacks_rev (x # ys)) rs = filter (lacks_rev ys) rs"
  using assms by (auto simp: lacks_def lacks_rev_def row_of_Cons intro!: filter_cong)

lemma mergeDiff_loop_eq:
  assumes "rows_sorted ls" "rows_sorted ps"
  shows "mergeDiff_loop ls ps pull push = (pull @ filter (lacks ls) ps, push @ filter (lacks_rev ps) ls)"
  using assms
proof (induction ls ps pull push rule: mergeDiff_loop.induct)
  case (1 ps toPull toPush)
  have "filter (lacks []) ps = ps" by (simp add: lacks_def row_of_def)
  then show ?case by simp
next
  case (2 l ls toPull toPush)
  have "filter (lacks_rev []) (l # ls) = l # ls" by (simp add: lacks_rev_def row_of_def)
  then show ?case by simp
next
  case (3 l ls p ps toPull toPush)
  have sl: "rows_sorted ls" "\<forall>r\<in>set ls. ke_Key l < ke_Key r" and sp: "rows_sorted ps" "\<forall>r\<in>set ps. ke_Key p < ke_Key r"
    using "3.prems" by (auto simp: rows_sorted_def)
  consider "ke_Key l < ke_Key p" | "ke_Key p < ke_Key l" | "ke_Key l = ke_Key p" by fastforce
  then show ?case
  proof cases
    case 1
    have "row_of (p # ps) (ke_Key l) = None" using 1 sp by (intro row_of_none) auto
    then have lr: "lacks_rev (p # ps) l" by (simp add: lacks_rev_def)
    have "filter (lacks (l # ls)) (p # ps) = filter (lacks ls) (p # ps)"
      using 1 sp by (intro filter_cong_lacks) auto
    then show ?thesis using 1 "3.IH"(1) [OF 1 sl(1) "3.prems"(2)] lr by simp
  next
    case 2
    have "row_of (l # ls) (ke_Key p) = None" using 2 sl by (intro row_of_none) auto
    then have lr: "lacks (l # ls) p" by (simp add: lacks_def)
    have "filter (lacks_rev (p # ps)) (l # ls) = filter (lacks_rev ps) (l # ls)"
      using 2 sl by (intro filter_cong_lacks) auto
    moreover have n: "\<not> ke_Key l < ke_Key p" using 2 by (rule less_not_sym)
    ultimately show ?thesis using 2 "3.IH"(2) [OF n 2 "3.prems"(1) sp(1)] lr by simp
  next
    case 3
    have f: "filter (lacks (l # ls)) ps = filter (lacks ls) ps" "filter (lacks_rev (p # ps)) ls = filter (lacks_rev ps) ls"
      using 3 sl sp by (auto intro!: filter_cong_lacks)
    have h: "lacks (l # ls) p \<longleftrightarrow> Compare (Clock (ke_Envelope l)) (Clock (ke_Envelope p)) = Before"
        "lacks_rev (p # ps) l \<longleftrightarrow> Compare (Clock (ke_Envelope l)) (Clock (ke_Envelope p)) = After"
      using 3 by (simp_all add: lacks_def lacks_rev_def row_of_Cons)
    have n: "\<not> ke_Key l < ke_Key p" "\<not> ke_Key p < ke_Key l" using 3 by auto
    note IH = "3.IH"(3-5) [OF n classifyKey_eq [symmetric]]
    show ?thesis
      using 3 f h IH sl(1) sp(1)
      by (cases "Compare (Clock (ke_Envelope l)) (Clock (ke_Envelope p))") (simp_all add: classifyKey_eq)
  qed
qed

lemma mergeDiff_eq:
  assumes "rows_sorted ls" "rows_sorted ps"
  shows "mergeDiff ls ps = (filter (lacks ls) ps, filter (lacks_rev ps) ls)"
  using mergeDiff_loop_eq [OF assms, of "[]" "[]"] by (simp add: mergeDiff_def)

section \<open>Properties of the tree\<close>

text \<open>
  C31: Splitting a range. A positive bucket count always gives buckets, at most that many, each
  starting where the one before ends, the first at the start and the last ending at the end, and
  every key of the range is in one of them. When the end is open or has at least eight bytes, every
  key of the range is in exactly one bucket and no other key is in any.
\<close>

theorem SplitRange_partition:
  assumes "0 < n"
  shows "\<exists>bs. SplitRange start stop n = Inr bs \<and> contiguous start bs stop \<and> int (length bs) \<le> n
    \<and> (\<forall>x. in_range start stop x \<longrightarrow> (\<exists>b\<in>set bs. in_bucket b x))
    \<and> (n < 2 ^ 63 \<and> (stop = '''' \<or> 8 \<le> length stop) \<longrightarrow>
         (\<forall>x. length (filter (\<lambda>b. in_bucket b x) bs) = (if in_range start stop x then 1 else 0)))"
proof -
  have "isl (SplitRange start stop n) = False" using assms by (simp add: SplitRange_def Let_def)
  then obtain bs where bs: "SplitRange start stop n = Inr bs" by (cases "SplitRange start stop n") simp_all
  show ?thesis
    by (intro exI [of _ bs] conjI impI allI bs SplitRange_exact [OF bs]) (use SplitRange_contiguous [OF bs] in simp_all)
qed

theorem SplitRange_partition_witness:
  "\<exists>bs. SplitRange ''a'' '''' 4 = Inr bs \<and> contiguous ''a'' bs '''' \<and> length (filter (\<lambda>b. in_bucket b ''q'') bs) = 1"
proof -
  from SplitRange_partition [of 4 "''a''" "''''"] obtain bs where bs: "SplitRange ''a'' '''' 4 = Inr bs" "contiguous ''a'' bs ''''"
    "\<And>x. length (filter (\<lambda>b. in_bucket b x) bs) = (if in_range ''a'' '''' x then 1 else 0)" by auto
  have "in_range ''a'' '''' ''q''" by code_simp
  then show ?thesis using bs by auto
qed

text \<open>
  With a shorter end the last boundaries may lie past it: the bytes missing from the end are taken
  to be \<open>0xFF\<close>. Then a bucket holds keys outside the range.
\<close>

lemma SplitRange_spills:
  "\<not> in_range ''a'' ''b'' ''b'' \<and> (\<exists>bs. SplitRange ''a'' ''b'' 4 = Inr bs \<and> list_ex (\<lambda>b. in_bucket b ''b'') bs)"
proof -
  have r: "replicate 8 x = [x, x, x, x, x, x, x, x]" for x :: byte by (simp add: eval_nat_numeral)
  have n3: "(3 :: nat) = Suc (Suc (Suc 0))" by simp
  have chr_b: "char_of (98 :: nat) = CHR ''b''" by code_simp
  have le8: "le_enc 8 m = le_enc (Suc (Suc (Suc (Suc (Suc (Suc (Suc (Suc 0)))))))) m" for m
    by (rule arg_cong [where f = "\<lambda>k. le_enc k m"]) simp
  have lo: "prefixToUint64 ''a'' 0 = 0x6100000000000000" "prefixToUint64 ''b'' 0xFF = 0x62FFFFFFFFFFFFFF"
    by (simp_all add: prefixToUint64_def boundaryPrefixBytes_def bytes_of_def be_val_def r)
  have st: "((0x62FFFFFFFFFFFFFF :: u64) - 0x6100000000000000) div 4 = 0x7FFFFFFFFFFFFF" by simp
  have "SplitRange ''a'' ''b'' 4 = Inr
     [\<lparr>bk_Start = ''a'', bk_End = uint64ToBytes 0x617FFFFFFFFFFFFF\<rparr>,
      \<lparr>bk_Start = uint64ToBytes 0x617FFFFFFFFFFFFF, bk_End = uint64ToBytes 0x61FFFFFFFFFFFFFE\<rparr>,
      \<lparr>bk_Start = uint64ToBytes 0x61FFFFFFFFFFFFFE, bk_End = uint64ToBytes 0x627FFFFFFFFFFFFD\<rparr>,
      \<lparr>bk_Start = uint64ToBytes 0x627FFFFFFFFFFFFD, bk_End = ''b''\<rparr>]"
    using lo by (simp add: SplitRange_def n3 Let_def)
  moreover have "in_range (uint64ToBytes 0x61FFFFFFFFFFFFFE) (uint64ToBytes 0x627FFFFFFFFFFFFD) ''b''"
    by (simp add: in_range_def uint64ToBytes_def boundaryPrefixBytes_def be_enc_def le8 string_of_def less_char_def less_eq_char_def
        chr_b)
  ultimately show ?thesis by (auto simp: in_range_def)
qed

text \<open>
  The boundaries are raw bytes. Already the first boundary of the whole key space holds the byte
  \<open>0xFF\<close>, which no UTF-8 string holds, while the boundaries are sent to the peer in \<open>string\<close>
  fields.
\<close>

lemma SplitRange_not_utf8:
  "\<exists>bs. SplitRange '''' '''' 4 = Inr bs \<and> CHR 0xFF \<in> set (bk_End (hd bs))"
proof -
  have r: "replicate 8 x = [x, x, x, x, x, x, x, x]" for x :: byte by (simp add: eval_nat_numeral)
  have n: "(3 :: nat) = Suc (Suc (Suc 0))" by simp
  have le8: "le_enc 8 m = le_enc (Suc (Suc (Suc (Suc (Suc (Suc (Suc (Suc 0)))))))) m" for m
    by (rule arg_cong [where f = "\<lambda>k. le_enc k m"]) simp
  have chr: "char_of (255 :: nat) = CHR 0xFF" by code_simp
  have lo: "prefixToUint64 '''' 0 = 0"
    by (simp add: prefixToUint64_def boundaryPrefixBytes_def bytes_of_def be_val_def r)
  have st: "((- 1) :: u64) div 4 = 0x3FFFFFFFFFFFFFFF" "\<not> (- 1 :: u64) \<le> 0x3FFFFFFFFFFFFFFF"
    by (simp_all add: word_order.extremum_unique)
  have "\<exists>rest. SplitRange '''' '''' 4 = Inr (\<lparr>bk_Start = '''', bk_End = uint64ToBytes 0x3FFFFFFFFFFFFFFF\<rparr> # rest)"
    using lo st by (simp add: SplitRange_def n Let_def)
  moreover have "CHR 0xFF \<in> set (uint64ToBytes 0x3FFFFFFFFFFFFFFF)"
    by (simp add: uint64ToBytes_def boundaryPrefixBytes_def be_enc_def le8 string_of_def chr)
  ultimately show ?thesis by auto
qed

declare diffNode.simps [simp del]

end
