(* ===== verification/Repair.thy ===== *)
theory Repair
  imports Cluster AntiEntropy
begin

text \<open>
  Anti-entropy between two nodes of a cluster: the store adapter and the owned ranges of
  \<open>cmd/node/main.go\<close>, the calls of \<open>src/cluster/antientropy/client.go\<close> over the network of
  \<open>Cluster\<close>, and what a repair round achieves.

  The locale \<open>replica_pair\<close> states what the scheduler relies on, for a local replica and the peer
  it repairs against; the convergence of the tree walk is proved in it once. It is interpreted on
  the cluster of nodes.
\<close>

section \<open>Anti-entropy on a node\<close>

text \<open>
  The adapter of \<open>cmd/node/main.go\<close> from the node's store. A scan that never returns is an error of
  the adapter here; \<open>ScanRawRange_result\<close> shows that there is none.
\<close>

definition nodeAntiEntropyStore_ScanRawRange :: "'e NodeStore \<Rightarrow> 'e \<Rightarrow> string \<Rightarrow> string \<Rightarrow> 'e \<times> (string + RawKV list)" where
  "nodeAntiEntropyStore_ScanRawRange st e start stop =
     (case NodeStore_ScanRawRange st e start stop of
        None \<Rightarrow> (e, Inl ''scan'')
      | Some (e, Inl err) \<Rightarrow> (e, Inl ''scan'')
      | Some (e, Inr rows) \<Rightarrow> (e, Inr (map (\<lambda>row. \<lparr>rkv_Key = rkv_Key row, rkv_Value = rkv_Value row\<rparr>) rows)))"

definition store_result :: "'e \<times> (store_error + unit) \<Rightarrow> 'e \<times> (string + unit)" where
  "store_result x = (case x of (e, Inl err) \<Rightarrow> (e, Inl ''store'') | (e, Inr u) \<Rightarrow> (e, Inr u))"

definition nodeAntiEntropyStore :: "'e deployment \<Rightarrow> 'e AEStore" where
  "nodeAntiEntropyStore dp =
     \<lparr>ae_ScanRawRange = nodeAntiEntropyStore_ScanRawRange (dp_store dp),
      ae_Put = (\<lambda>e key env sync. store_result (NodeStore_Put (dp_marshal dp) (dp_store dp) e key env sync)),
      ae_Delete = (\<lambda>e key env sync. store_result (NodeStore_Delete (dp_marshal dp) (dp_store dp) e key env sync))\<rparr>"

definition table_ae_ownership :: "Table \<Rightarrow> AEOwnership" where
  "table_ae_ownership t = \<lparr>aeo_IsOwner = Table_IsOwner t, aeo_OwnsRange = Table_OwnsRange t\<rparr>"

definition ringOwnedRanges :: "Table \<Rightarrow> string \<Rightarrow> OwnedRange list" where
  "ringOwnedRanges t localID =
     map (\<lambda>rng. \<lparr>or_Start = Start rng, or_End = End rng, or_Replicas = Replicas rng\<rparr>)
       (filter (\<lambda>rng. list_ex (\<lambda>i. i = localID) (Replicas rng)) (Ranges (Table_Snapshot t)))"

text \<open>The calls of the client; what the network does may differ from call to call.\<close>

datatype ae_call = GetRoot string string string | Stream string string string | Repair string "KeyEnvelope list"

definition ae_rpc ::
  "'e deployment \<Rightarrow> delivery \<Rightarrow> 'e cluster \<Rightarrow> string \<Rightarrow> ('e ClusterNode \<Rightarrow> 'e \<times> (string + 'r)) \<Rightarrow> 'e cluster \<times> (string + 'r)" where
  "ae_rpc dp d w addr handler =
     (case dp_host dp addr of
        None \<Rightarrow> (w, Inl ''unavailable'')
      | Some nid \<Rightarrow>
          if d = RequestLost then (w, Inl ''deadline exceeded'')
          else case handler (w nid) of
                 (e, r) \<Rightarrow> (set_engine w nid e, if d = ResponseLost then Inl ''deadline exceeded'' else r))"

definition status_error :: "'e \<times> (Code + 'r) \<Rightarrow> 'e \<times> (string + 'r)" where
  "status_error x = (case x of (e, Inl code) \<Rightarrow> (e, Inl ''status'') | (e, Inr r) \<Rightarrow> (e, Inr r))"

definition AEClient_GetMerkleRoot ::
  "(byte list \<Rightarrow> byte list) \<Rightarrow> 'e deployment \<Rightarrow> (ae_call \<Rightarrow> delivery) \<Rightarrow> 'e cluster \<Rightarrow> string \<Rightarrow> string \<Rightarrow> string
     \<Rightarrow> 'e cluster \<times> (string + byte list \<times> u64)" where
  "AEClient_GetMerkleRoot xxhash dp net w addr start stop =
     ae_rpc dp (net (GetRoot addr start stop)) w addr
       (\<lambda>n. status_error (AEServer_GetMerkleRoot xxhash (nodeAntiEntropyStore dp) (table_ae_ownership (cn_table n)) (cn_engine n) None start stop))"

definition AEClient_StreamRange ::
  "'e deployment \<Rightarrow> (ae_call \<Rightarrow> delivery) \<Rightarrow> 'e cluster \<Rightarrow> string \<Rightarrow> string \<Rightarrow> string \<Rightarrow> 'e cluster \<times> (string + KeyEnvelope list)" where
  "AEClient_StreamRange dp net w addr start stop =
     ae_rpc dp (net (Stream addr start stop)) w addr
       (\<lambda>n. case AEServer_StreamRange (dp_unmarshal dp) (\<lambda>_. None) (\<lambda>_. None) (nodeAntiEntropyStore dp)
                   (table_ae_ownership (cn_table n)) (cn_engine n) start stop of
              (e, protoRows, ended) \<Rightarrow> (e, Client_collect (dp_marshal dp) (dp_unmarshal dp) protoRows ended))"

definition AEClient_RepairKeys ::
  "'e deployment \<Rightarrow> (ae_call \<Rightarrow> delivery) \<Rightarrow> 'e cluster \<Rightarrow> string \<Rightarrow> KeyEnvelope list \<Rightarrow> 'e cluster \<times> (string + unit)" where
  "AEClient_RepairKeys dp net w addr rows =
     ae_rpc dp (net (Repair addr rows)) w addr
       (\<lambda>n. status_error (AEServer_RepairKeys (dp_marshal dp) (dp_unmarshal dp) (nodeAntiEntropyStore dp)
              (table_ae_ownership (cn_table n)) (cn_engine n) None (map KeyEnvelopeToProto rows)))"

definition at_node :: "'e cluster \<Rightarrow> string \<Rightarrow> ('e \<Rightarrow> 'e \<times> 'r) \<Rightarrow> 'e cluster \<times> 'r" where
  "at_node w nid f = (case f (cn_engine (w nid)) of (e, r) \<Rightarrow> (set_engine w nid e, r))"

definition cluster_scheduler ::
  "(byte list \<Rightarrow> byte list) \<Rightarrow> 'e deployment \<Rightarrow> (ae_call \<Rightarrow> delivery) \<Rightarrow> string \<Rightarrow> SchedulerConfig \<Rightarrow> 'e cluster Scheduler" where
  "cluster_scheduler xxhash dp net nid cfg =
     \<lparr>s_cfg = cfg,
      s_local = \<lparr>ae_ScanRawRange = (\<lambda>w start stop. at_node w nid (\<lambda>e. ae_ScanRawRange (nodeAntiEntropyStore dp) e start stop)),
                 ae_Put = (\<lambda>w key env sync. at_node w nid (\<lambda>e. ae_Put (nodeAntiEntropyStore dp) e key env sync)),
                 ae_Delete = (\<lambda>w key env sync. at_node w nid (\<lambda>e. ae_Delete (nodeAntiEntropyStore dp) e key env sync))\<rparr>,
      s_addresses = (\<lambda>w. dp_address dp),
      s_replicas = \<lparr>aec_GetMerkleRoot = AEClient_GetMerkleRoot xxhash dp net, aec_StreamRange = AEClient_StreamRange dp net,
                    aec_RepairKeys = AEClient_RepairKeys dp net\<rparr>,
      s_OwnedRanges = (\<lambda>w. ringOwnedRanges (cn_table (w nid)) nid),
      s_IsOwner = (\<lambda>w. Table_IsOwner (cn_table (w nid)))\<rparr>"

section \<open>The comparisons of a walk\<close>

text \<open>The world, start and end of every node that a walk compares, in the order of the walk.\<close>

function visited ::
    "(byte list \<Rightarrow> byte list) \<Rightarrow> (string \<Rightarrow> Envelope option) \<Rightarrow> 'w Scheduler \<Rightarrow> 'w \<Rightarrow> string \<Rightarrow> string \<Rightarrow> string \<Rightarrow> int
       \<Rightarrow> ('w \<times> string \<times> string) list"
  and visited_buckets ::
    "(byte list \<Rightarrow> byte list) \<Rightarrow> (string \<Rightarrow> Envelope option) \<Rightarrow> 'w Scheduler \<Rightarrow> 'w \<Rightarrow> string \<Rightarrow> Bucket list \<Rightarrow> int
       \<Rightarrow> ('w \<times> string \<times> string) list" where
  "visited xxhash unmarshal s w addr start stop depth =
     (w, start, stop) #
     (case ComputeMerkleRoot xxhash (s_local s) w start stop of
        (w, Inl err) \<Rightarrow> []
      | (w, Inr (localHash, localCount)) \<Rightarrow>
          (case aec_GetMerkleRoot (s_replicas s) w addr start stop of
             (w, Inl err) \<Rightarrow> []
           | (w, Inr (peerHash, peerCount)) \<Rightarrow>
               if localCount = peerCount \<and> localHash = peerHash then []
               else if shouldStop s depth (if peerCount > localCount then peerCount else localCount) then []
               else case SplitRange start stop (sc_Fanout (s_cfg s)) of
                      Inl err \<Rightarrow> []
                    | Inr buckets \<Rightarrow>
                        if buckets = [\<lparr>bk_Start = start, bk_End = stop\<rparr>] then []
                        else visited_buckets xxhash unmarshal s w addr buckets (depth + 1)))"
| "visited_buckets xxhash unmarshal s w addr [] depth = []"
| "visited_buckets xxhash unmarshal s w addr (bucket # buckets) depth =
     visited xxhash unmarshal s w addr (bk_Start bucket) (bk_End bucket) depth @
     visited_buckets xxhash unmarshal s (fst (diffNode xxhash unmarshal s w addr (bk_Start bucket) (bk_End bucket) depth)) addr buckets depth"
  by pat_completeness auto
termination
  by (relation "inv_image (less_than <*lex*> less_than)
        (\<lambda>x. case x of
           Inl (xxhash, unmarshal, s, w, addr, start, stop, depth) \<Rightarrow> (nat (sc_MaxDepth (s_cfg s) - depth), 0)
         | Inr (xxhash, unmarshal, s, w, addr, buckets, depth) \<Rightarrow> (nat (sc_MaxDepth (s_cfg s) - depth), Suc (length buckets)))")
     (auto simp: shouldStop_def split: if_splits)

declare visited.simps [simp del]

lemma bucket_raw_range:
  assumes "SplitRange start stop n = Inr bs" "in_raw_range start stop k"
  obtains b where "b \<in> set bs" "in_raw_range (bk_Start b) (bk_End b) k"
proof -
  have loop: "bk_End b = stop \<or> bk_End b \<noteq> ''''" if "b \<in> set (SplitRange_loop m lo hi step i prev stop)" for b m lo hi step i prev
    using that by (induction m arbitrary: i prev) (auto simp: Let_def split: if_splits)
  from assms(1) have ends: "bk_End b = stop \<or> bk_End b \<noteq> ''''" if "b \<in> set bs" for b
    by (cases rule: SplitRange_cases) (use that loop in auto)
  have "in_range start stop k" using assms(2) by (simp add: in_raw_range_def in_range_def split: if_splits)
  then obtain b where b: "b \<in> set bs" "in_bucket b k" using SplitRange_contiguous [OF assms(1)] by blast
  have "in_raw_range (bk_Start b) (bk_End b) k"
    using b(2) ends [OF b(1)] assms(2) by (auto simp: in_raw_range_def in_range_def split: if_splits)
  then show thesis using b(1) that by blast
qed

section \<open>What a repair round relies on\<close>

definition rows_in :: "string \<Rightarrow> string \<Rightarrow> (string \<times> string) list \<Rightarrow> (string \<times> string) list" where
  "rows_in a b rs = filter (\<lambda>(k, v). in_raw_range a b k) rs"

text \<open>Decoded rows that stand for stored ones, in the same order.\<close>

definition row_rep :: "(string \<Rightarrow> Envelope option) \<Rightarrow> string \<times> string \<Rightarrow> KeyEnvelope \<Rightarrow> bool" where
  "row_rep u = (\<lambda>(k, v) row. ke_Key row = k \<and> (\<exists>e. Decode u v = Inr e \<and> env_sim e (ke_Envelope row)))"

definition rows_ordered :: "(string \<times> string) list \<Rightarrow> bool" where
  "rows_ordered rs \<longleftrightarrow> sorted (map fst rs) \<and> distinct (map fst rs)"

definition fits :: "string \<times> string \<Rightarrow> bool" where
  "fits = (\<lambda>(k, v). length k < 2 ^ 64 \<and> length v < 2 ^ 64)"

definition put_row_law :: "(string \<Rightarrow> Envelope option) \<Rightarrow> KeyEnvelope \<Rightarrow> bool \<Rightarrow> (string \<Rightarrow> Envelope option) \<Rightarrow> bool" where
  "put_row_law before row ok after \<longleftrightarrow>
     (\<exists>v. after (ke_Key row) = Some v \<and> env_sim (ke_Envelope row) v) \<or> \<not> ok \<and> after (ke_Key row) = before (ke_Key row)"

text \<open>Two replicas agree on a key when neither has it, or neither version is older than the other.\<close>

definition agree :: "Envelope option \<Rightarrow> Envelope option \<Rightarrow> bool" where
  "agree x y = (case (x, y) of (None, None) \<Rightarrow> True
     | (Some a, Some b) \<Rightarrow> Compare (Clock a) (Clock b) \<in> {Equal, Concurrent} | _ \<Rightarrow> False)"

definition outdated :: "Envelope option \<Rightarrow> Envelope \<Rightarrow> bool" where
  "outdated x e = (case x of None \<Rightarrow> True | Some a \<Rightarrow> Compare (Clock a) (Clock e) = Before)"

lemma sim_vget: "env_sim a b \<Longrightarrow> vget (Clock b) = vget (Clock a)"
  by (rule ext) (simp add: env_sim_def vget_def)

lemma sim_clock_le: "env_sim a a' \<Longrightarrow> env_sim b b' \<Longrightarrow> clock_le (Clock a') (Clock b') = clock_le (Clock a) (Clock b)"
  by (simp add: clock_le_def sim_vget)

lemma sim_gmap: "env_sim a b \<Longrightarrow> gmap_ok (Clock b)"
  by (simp add: env_sim_def)

lemma Compare_sim:
  assumes "env_sim a a'" "env_sim b b'" "gmap_ok (Clock a)" "gmap_ok (Clock b)"
  shows "Compare (Clock a') (Clock b') = Compare (Clock a) (Clock b)"
  using assms sim_gmap [OF assms(1)] sim_gmap [OF assms(2)] sim_clock_le [OF assms(1,2)] sim_clock_le [OF assms(2,1)]
  by (simp add: Compare_eq)

lemma Compare_flip:
  assumes "gmap_ok a" "gmap_ok b"
  shows "Compare a b = Before \<longleftrightarrow> Compare b a = After" "Compare a b = Equal \<longleftrightarrow> Compare b a = Equal"
    "Compare a b = Concurrent \<longleftrightarrow> Compare b a = Concurrent"
  using assms by (simp_all add: Compare_eq)

text \<open>What may happen to one key: nothing, or the replica that lacks the newer version is given it.\<close>

definition key_given :: "Envelope option \<Rightarrow> Envelope option \<Rightarrow> Envelope option \<Rightarrow> bool \<Rightarrow> bool" where
  "key_given x y x' ok \<longleftrightarrow> (\<exists>e. y = Some e \<and> outdated x e \<and> ((\<exists>v. x' = Some v \<and> env_sim e v) \<or> \<not> ok \<and> x' = x))"

definition key_round :: "Envelope option \<Rightarrow> Envelope option \<Rightarrow> Envelope option \<Rightarrow> Envelope option \<Rightarrow> bool \<Rightarrow> bool" where
  "key_round x y x' y' ok \<longleftrightarrow> x' = x \<and> y' = y \<and> (ok \<longrightarrow> agree x y)
     \<or> y' = y \<and> key_given x y x' ok \<or> x' = x \<and> key_given y x y' ok"

text \<open>A later version of a key, which is one that either replica had.\<close>

definition key_grows :: "Envelope option \<Rightarrow> Envelope option \<Rightarrow> Envelope option \<Rightarrow> bool" where
  "key_grows x y x' \<longleftrightarrow> (\<forall>e. x = Some e \<longrightarrow> (\<exists>e'. x' = Some e' \<and> clock_le (Clock e) (Clock e')))
     \<and> (\<forall>e'. x' = Some e' \<longrightarrow> (\<exists>e. (x = Some e \<or> y = Some e) \<and> env_sim e e'))"

definition opt_ok :: "Envelope option \<Rightarrow> bool" where
  "opt_ok x \<longleftrightarrow> (\<forall>e. x = Some e \<longrightarrow> gmap_ok (Clock e))"

lemma agree_sym: "opt_ok x \<Longrightarrow> opt_ok y \<Longrightarrow> agree x y = agree y x"
  using Compare_flip by (auto simp: agree_def opt_ok_def split: option.splits)

lemma outdated_not_agree: "outdated x e \<Longrightarrow> \<not> agree x (Some e)"
  by (auto simp: outdated_def agree_def split: option.splits)

lemma sim_agree: "opt_ok (Some e) \<Longrightarrow> env_sim e v \<Longrightarrow> agree (Some v) (Some e)"
  using sim_gmap [of e v] by (simp add: agree_def opt_ok_def Compare_eq clock_le_def sim_vget)

lemma key_given_grows:
  assumes "key_given x y x' ok" "opt_ok x" "opt_ok y"
  shows "key_grows x y x'" "key_grows y x y" "\<not> agree x y" "ok \<Longrightarrow> agree x' y"
proof -
  from assms(1) obtain e where e: "y = Some e" "outdated x e" "(\<exists>v. x' = Some v \<and> env_sim e v) \<or> \<not> ok \<and> x' = x"
    by (auto simp: key_given_def)
  have ok: "gmap_ok (Clock e)" using assms(3) e(1) by (simp add: opt_ok_def)
  have le: "clock_le (Clock a) (Clock e)" if "x = Some a" for a
    using e(2) that assms(2) ok by (auto simp: outdated_def opt_ok_def Compare_eq split: if_splits)
  show "key_grows y x y" using e(1) ok env_sim_refl by (auto simp: key_grows_def)
  show "\<not> agree x y" using outdated_not_agree e(1,2) by simp
  show "ok \<Longrightarrow> agree x' y" using e sim_agree assms(3) by auto
  have same: "key_grows x y x" using assms(2) env_sim_refl by (auto simp: key_grows_def opt_ok_def)
  show "key_grows x y x'"
  proof (cases "x' = x")
    case False
    then obtain v where v: "x' = Some v" "env_sim e v" using e(3) by auto
    have "clock_le (Clock a) (Clock v)" if "x = Some a" for a
      using le [OF that] v(2) by (simp add: clock_le_def sim_vget)
    then show ?thesis using v e(1) by (auto simp: key_grows_def)
  qed (use same in simp)
qed

lemma key_round_grows:
  assumes "key_round x y x' y' ok" "opt_ok x" "opt_ok y"
  shows "key_grows x y x' \<and> key_grows y x y' \<and> (agree x y \<or> ok \<longrightarrow> agree x' y')"
proof -
  consider (same) "x' = x" "y' = y" "ok \<longrightarrow> agree x y" | (l) "y' = y" "key_given x y x' ok" | (p) "x' = x" "key_given y x y' ok"
    using assms(1) by (auto simp: key_round_def)
  then show ?thesis
  proof cases
    case same
    have "key_grows x y x" "key_grows y x y" using assms(2,3) env_sim_refl by (auto simp: key_grows_def opt_ok_def)
    then show ?thesis using same by simp
  next
    case l
    then show ?thesis using key_given_grows [OF l(2) assms(2,3)] by simp
  next
    case p
    from p(2) have y': "opt_ok y'" using assms(3) sim_gmap by (auto simp: key_given_def opt_ok_def)
    then show ?thesis
      using p(1) key_given_grows [OF p(2) assms(3,2)] agree_sym [OF assms(2,3)] agree_sym [OF assms(2) y'] by simp
  qed
qed

lemma key_growsD1:
  assumes "key_grows x y x'" "x = Some e"
  obtains e' where "x' = Some e'" "clock_le (Clock e) (Clock e')"
  using assms by (auto simp: key_grows_def)

lemma key_growsD2:
  assumes "key_grows x y x'" "x' = Some e'"
  obtains e where "x = Some e \<or> y = Some e" "env_sim e e'"
  using assms by (auto simp: key_grows_def)

lemma key_growsI:
  assumes "\<And>e. x = Some e \<Longrightarrow> \<exists>e'. x' = Some e' \<and> clock_le (Clock e) (Clock e')"
    and "\<And>e'. x' = Some e' \<Longrightarrow> \<exists>e. (x = Some e \<or> y = Some e) \<and> env_sim e e'"
  shows "key_grows x y x'"
  using assms by (simp add: key_grows_def)

lemma key_grows_trans:
  assumes "key_grows x y x'" "key_grows y x y'" "key_grows x' y' x''"
  shows "key_grows x y x''"
proof (rule key_growsI)
  fix e assume "x = Some e"
  then obtain e' where 1: "x' = Some e'" "clock_le (Clock e) (Clock e')" by (rule key_growsD1 [OF assms(1)])
  obtain e'' where "x'' = Some e''" "clock_le (Clock e') (Clock e'')" by (rule key_growsD1 [OF assms(3) 1(1)])
  with 1(2) show "\<exists>e''. x'' = Some e'' \<and> clock_le (Clock e) (Clock e'')" using clock_le_trans by blast
next
  fix e'' assume "x'' = Some e''"
  then obtain e' where 1: "x' = Some e' \<or> y' = Some e'" "env_sim e' e''" by (rule key_growsD2 [OF assms(3)])
  then obtain e where "x = Some e \<or> y = Some e" "env_sim e e'"
    by (metis key_growsD2 [OF assms(1)] key_growsD2 [OF assms(2)])
  with 1(2) show "\<exists>e. (x = Some e \<or> y = Some e) \<and> env_sim e e''" using env_sim_trans by blast
qed

lemma map_of_rows_in: "map_of (rows_in a b rs) k = (if in_raw_range a b k then map_of rs k else None)"
  by (induction rs) (auto simp: rows_in_def)

lemma rows_in_ordered: "rows_ordered rs \<Longrightarrow> rows_ordered (rows_in a b rs)"
  by (auto simp: rows_ordered_def rows_in_def sorted_map distinct_map inj_on_def intro: sorted_wrt_filter)

lemma rep_keys: "list_all2 (row_rep u) rs rows \<Longrightarrow> map ke_Key rows = map fst rs"
  by (induction rule: list_all2_induct) (auto simp: row_rep_def)

lemma rep_sorted: "rows_ordered rs \<Longrightarrow> list_all2 (row_rep u) rs rows \<Longrightarrow> rows_sorted rows"
  by (simp add: rows_sorted_def rows_ordered_def rep_keys strict_sorted_iff)

lemma rep_row_of:
  "list_all2 (row_rep u) rs rows \<Longrightarrow> rel_option (\<lambda>v row. row_rep u (k, v) row) (map_of rs k) (row_of rows k)"
  by (induction rule: list_all2_induct) (auto simp: row_rep_def row_of_def)

lemma row_of_Some:
  assumes "list_all2 (row_rep u) (rows_in a b rs) rows" "row_of rows k = Some row"
  obtains e where "ke_Key row = k" "in_raw_range a b k" "held u rs k = Some e" "env_sim e (ke_Envelope row)"
  using rep_row_of [OF assms(1), of k] assms(2)
  by (auto simp: map_of_rows_in row_rep_def held_def option_rel_Some2 split: if_splits)

lemma row_of_None:
  assumes "list_all2 (row_rep u) (rows_in a b rs) rows" "row_of rows k = None" "in_raw_range a b k"
  shows "held u rs k = None"
  using rep_row_of [OF assms(1), of k] assms(2,3) by (simp add: map_of_rows_in held_def)

lemma row_of_mem: "rows_sorted rows \<Longrightarrow> row \<in> set rows \<longleftrightarrow> row_of rows (ke_Key row) = Some row"
proof (induction rows)
  case (Cons r rows)
  then have "rows_sorted rows" "\<forall>x\<in>set rows. ke_Key r < ke_Key x" by (auto simp: rows_sorted_def)
  then show ?case using Cons.IH by (auto simp: row_of_Cons)
qed (simp add: row_of_def)

lemma sorted_rows_id: "rows_sorted rows \<Longrightarrow> sort_key ke_Key rows = rows"
  by (simp add: rows_sorted_def strict_sorted_iff sorted_sort_id sort_key_id_if_sorted)

lemma sorted_raw_id: "rows_ordered rs \<Longrightarrow> sort_key rkv_Key (map mk_raw rs) = map mk_raw rs"
proof -
  assume "rows_ordered rs"
  moreover have eq: "map rkv_Key (map mk_raw rs) = map fst rs" by (auto simp: mk_raw_def)
  ultimately show ?thesis by (intro sort_key_id_if_sorted) (simp add: rows_ordered_def eq del: map_map)
qed

lemma decode_rows_rep:
  assumes "decode_rows u (map mk_raw rs) = Inr rows" "\<And>k v e. (k, v) \<in> set rs \<Longrightarrow> Decode u v = Inr e \<Longrightarrow> gmap_ok (Clock e)"
  shows "list_all2 (row_rep u) rs rows"
  using assms
proof (induction rs arbitrary: rows)
  case (Cons x rs)
  obtain k v where x: "x = (k, v)" by fastforce
  obtain e rows' where e: "Decode u v = Inr e" "decode_rows u (map mk_raw rs) = Inr rows'"
      "rows = \<lparr>ke_Key = k, ke_Envelope = e\<rparr> # rows'"
    using Cons.prems(1) x by (auto simp: mk_raw_def split: sum.splits)
  have "gmap_ok (Clock e)" using Cons.prems(2) e(1) x by auto
  moreover have "list_all2 (row_rep u) rs rows'"
    using Cons.prems(2) by (intro Cons.IH [OF e(2)]) auto
  ultimately show ?case using e x by (auto simp: row_rep_def env_sim_refl)
qed simp

text \<open>What the merge of two leaves decides for one key of the range.\<close>

lemma merge_key:
  assumes ls: "list_all2 (row_rep u) (rows_in a b lrs) ls" and ps: "list_all2 (row_rep u) (rows_in a b prs) ps"
    and k: "in_raw_range a b k" and ok: "opt_ok (held u lrs k)" "opt_ok (held u prs k)"
  obtains (pull) prow e where "row_of ps k = Some prow" "lacks ls prow" "\<And>lrow. row_of ls k = Some lrow \<Longrightarrow> \<not> lacks_rev ps lrow"
        "held u prs k = Some e" "env_sim e (ke_Envelope prow)" "outdated (held u lrs k) e"
    | (push) lrow e where "row_of ls k = Some lrow" "lacks_rev ps lrow" "\<And>prow. row_of ps k = Some prow \<Longrightarrow> \<not> lacks ls prow"
        "held u lrs k = Some e" "env_sim e (ke_Envelope lrow)" "outdated (held u prs k) e"
    | (none) "\<And>lrow. row_of ls k = Some lrow \<Longrightarrow> \<not> lacks_rev ps lrow" "\<And>prow. row_of ps k = Some prow \<Longrightarrow> \<not> lacks ls prow"
        "agree (held u lrs k) (held u prs k)"
proof -
  have key: "ke_Key row = k" if "row_of ls k = Some row \<or> row_of ps k = Some row" for row
    using that row_of_Some [OF ls] row_of_Some [OF ps] by metis
  show thesis
  proof (cases "row_of ls k")
    case None
    note l = row_of_None [OF ls None k]
    show thesis
    proof (cases "row_of ps k")
      case None
      show thesis by (rule none) (use None \<open>row_of ls k = None\<close> l row_of_None [OF ps None k] in \<open>simp_all add: agree_def\<close>)
    next
      case (Some prow)
      obtain e where e: "held u prs k = Some e" "env_sim e (ke_Envelope prow)" by (rule row_of_Some [OF ps Some])
      have "ke_Key prow = k" using key Some by blast
      then show thesis
        by (intro pull [OF Some _ _ e]) (use \<open>row_of ls k = None\<close> l in \<open>simp_all add: lacks_def outdated_def\<close>)
    qed
  next
    case l: (Some lrow)
    obtain e where e: "held u lrs k = Some e" "env_sim e (ke_Envelope lrow)" by (rule row_of_Some [OF ls l])
    show thesis
    proof (cases "row_of ps k")
      case None
      have "ke_Key lrow = k" using key l by blast
      then show thesis
        by (intro push [OF l _ _ e]) (use None row_of_None [OF ps None k] in \<open>simp_all add: lacks_rev_def outdated_def\<close>)
    next
      case p: (Some prow)
      obtain f where f: "held u prs k = Some f" "env_sim f (ke_Envelope prow)" by (rule row_of_Some [OF ps p])
      have g: "gmap_ok (Clock e)" "gmap_ok (Clock f)" using ok e(1) f(1) by (simp_all add: opt_ok_def)
      have kk: "ke_Key lrow = k" "ke_Key prow = k" using key l p by blast+
      have lr: "lacks ls prow \<longleftrightarrow> Compare (Clock e) (Clock f) = Before" "lacks_rev ps lrow \<longleftrightarrow> Compare (Clock e) (Clock f) = After"
        using kk l p Compare_sim [OF e(2) f(2) g] by (simp_all add: lacks_def lacks_rev_def)
      show thesis
      proof (cases "Compare (Clock e) (Clock f)")
        case Before
        then show thesis by (intro pull [OF p _ _ f]) (use lr l e(1) in \<open>simp_all add: outdated_def\<close>)
      next
        case After
        then have "Compare (Clock f) (Clock e) = Before" using Compare_flip(1) [OF g(2,1)] by simp
        then show thesis by (intro push [OF l _ _ e]) (use lr p f(1) After in \<open>simp_all add: outdated_def\<close>)
      next
        case Equal
        then show thesis by (intro none) (use lr l p e(1) f(1) in \<open>simp_all add: agree_def\<close>)
      next
        case Concurrent
        then show thesis by (intro none) (use lr l p e(1) f(1) in \<open>simp_all add: agree_def\<close>)
      qed
    qed
  qed
qed

lemma key_mem_filter:
  assumes "rows_sorted rows"
  shows "k \<in> ke_Key ` set (filter P rows) \<longleftrightarrow> (\<exists>row. row_of rows k = Some row \<and> P row)"
proof -
  have "ke_Key row = k" if "row_of rows k = Some row" for row using that by (auto simp: row_of_def find_Some_iff)
  then show ?thesis using row_of_mem [OF assms] by (auto simp: image_iff)
qed

lemma key_givenI:
  assumes "put_row_law h row ok h'" "ke_Key row = k" "y = Some e" "env_sim e (ke_Envelope row)" "outdated (h k) e"
  shows "key_given (h k) y (h' k) ok"
  using assms env_sim_trans by (auto simp: put_row_law_def key_given_def)

lemma leaf_key:
  assumes ls: "list_all2 (row_rep u) (rows_in a b lrs) ls" and ps: "list_all2 (row_rep u) (rows_in a b prs) ps"
    and sorted: "rows_sorted ls" "rows_sorted ps"
    and k: "in_raw_range a b k" and ok: "opt_ok (held u lrs k)" "opt_ok (held u prs k)"
    and pull: "\<forall>row\<in>set (filter (lacks ls) ps). put_row_law (held u lrs) row (okl \<and> own (ke_Key row)) lh"
      "k \<notin> ke_Key ` set (filter (lacks ls) ps) \<longrightarrow> lh k = held u lrs k"
    and push: "\<forall>row\<in>set (filter (lacks_rev ps) ls). put_row_law (held u prs) row okp ph"
      "k \<notin> ke_Key ` set (filter (lacks_rev ps) ls) \<longrightarrow> ph k = held u prs k"
  shows "key_round (held u lrs k) (held u prs k) (lh k) (ph k) (okl \<and> okp \<and> own k)"
  using ls ps k ok
proof (cases rule: merge_key)
  case (pull prow e)
  have key: "ke_Key prow = k" by (rule row_of_Some [OF ps pull(1)])
  have "prow \<in> set ps" using row_of_mem [OF sorted(2)] key pull(1) by simp
  then have "put_row_law (held u lrs) prow (okl \<and> own k) lh" using assms(8) pull(2) key by auto
  then have "key_given (held u lrs k) (held u prs k) (lh k) (okl \<and> own k)"
    using key pull(4-6) by (rule key_givenI)
  moreover have "ph k = held u prs k" using assms(11) pull(3) unfolding key_mem_filter [OF sorted(1)] by blast
  ultimately show ?thesis by (auto simp: key_round_def key_given_def)
next
  case (push lrow e)
  have key: "ke_Key lrow = k" by (rule row_of_Some [OF ls push(1)])
  have "lrow \<in> set ls" using row_of_mem [OF sorted(1)] key push(1) by simp
  then have "put_row_law (held u prs) lrow okp ph" using assms(10) push(2) by auto
  then have "key_given (held u prs k) (held u lrs k) (ph k) okp" using key push(4-6) by (rule key_givenI)
  moreover have "lh k = held u lrs k" using assms(9) push(3) unfolding key_mem_filter [OF sorted(2)] by blast
  ultimately show ?thesis by (auto simp: key_round_def key_given_def)
next
  case none
  have "lh k = held u lrs k" using assms(9) none(2) unfolding key_mem_filter [OF sorted(2)] by blast
  moreover have "ph k = held u prs k" using assms(11) none(1) unfolding key_mem_filter [OF sorted(1)] by blast
  ultimately show ?thesis using none(3) by (simp add: key_round_def)
qed

lemma other_key:
  assumes "list_all2 (row_rep u) (rows_in a b rs) rows" "rows_sorted rows" "\<not> in_raw_range a b k"
  shows "k \<notin> ke_Key ` set (filter P rows)"
  using row_of_Some [OF assms(1)] assms(3) unfolding key_mem_filter [OF assms(2)] by blast

text \<open>The digest does not collide on the two streams of rows of a range.\<close>

definition distinguishes ::
  "(byte list \<Rightarrow> byte list) \<Rightarrow> (string \<times> string) list \<Rightarrow> (string \<times> string) list \<Rightarrow> string \<Rightarrow> string \<Rightarrow> bool" where
  "distinguishes xxhash ls ps a b \<longleftrightarrow>
     (let x = digest_bytes (map mk_raw (rows_in a b ls)); y = digest_bytes (map mk_raw (rows_in a b ps))
      in xxhash x = xxhash y \<longrightarrow> x = y)"

locale replica_pair =
  fixes xxhash :: "byte list \<Rightarrow> byte list" and unmarshal :: "string \<Rightarrow> Envelope option"
    and s :: "'w Scheduler" and addr :: string
    and lrows prows :: "'w \<Rightarrow> (string \<times> string) list"
    and winv :: "'w \<Rightarrow> bool" and own :: "string \<Rightarrow> bool" and port :: "Envelope \<Rightarrow> bool"
  assumes order_law: "winv w \<Longrightarrow> rows_ordered (lrows w) \<and> rows_ordered (prows w)"
    and size_law: "winv w \<Longrightarrow> list_all fits (lrows w) \<and> list_all fits (prows w)"
    and port_law: "winv w \<Longrightarrow> held unmarshal (lrows w) k = Some e \<or> held unmarshal (prows w) k = Some e \<Longrightarrow> port e"
    and port_sim: "port e \<Longrightarrow> env_sim e e' \<Longrightarrow> port e'"
    and port_clock: "port e \<Longrightarrow> gmap_ok (Clock e)"
    and own_law: "winv w \<Longrightarrow> s_IsOwner s w k = own k"
    and scan_law: "winv w \<Longrightarrow> ae_ScanRawRange (s_local s) w a b = (w', r) \<Longrightarrow>
      winv w' \<and> lrows w' = lrows w \<and> prows w' = prows w \<and> (\<forall>es. r = Inr es \<longrightarrow> es = map mk_raw (rows_in a b (lrows w)))"
    and root_law: "winv w \<Longrightarrow> aec_GetMerkleRoot (s_replicas s) w addr a b = (w', q) \<Longrightarrow>
      winv w' \<and> lrows w' = lrows w \<and> prows w' = prows w
      \<and> (\<forall>h c. q = Inr (h, c) \<longrightarrow> h = xxhash (digest_bytes (map mk_raw (rows_in a b (prows w)))))"
    and stream_law: "winv w \<Longrightarrow> aec_StreamRange (s_replicas s) w addr a b = (w', t) \<Longrightarrow>
      winv w' \<and> lrows w' = lrows w \<and> prows w' = prows w
      \<and> (\<forall>rows. t = Inr rows \<longrightarrow> list_all2 (row_rep unmarshal) (rows_in a b (prows w)) rows)"
    and pull_law: "winv w \<Longrightarrow> port (ke_Envelope row) \<Longrightarrow>
      (if Deleted (ke_Envelope row) then ae_Delete (s_local s) w (ke_Key row) (ke_Envelope row) True
       else ae_Put (s_local s) w (ke_Key row) (ke_Envelope row) True) = (w', x) \<Longrightarrow>
      winv w' \<and> prows w' = prows w \<and> put_row_law (held unmarshal (lrows w)) row (x = Inr ()) (held unmarshal (lrows w'))
      \<and> (\<forall>k. k \<noteq> ke_Key row \<longrightarrow> held unmarshal (lrows w') k = held unmarshal (lrows w) k)"
    and push_law: "winv w \<Longrightarrow> list_all (\<lambda>row. port (ke_Envelope row)) rows \<Longrightarrow> distinct (map ke_Key rows) \<Longrightarrow>
      aec_RepairKeys (s_replicas s) w addr rows = (w', x) \<Longrightarrow>
      winv w' \<and> lrows w' = lrows w
      \<and> list_all (\<lambda>row. put_row_law (held unmarshal (prows w)) row (x = Inr ()) (held unmarshal (prows w'))) rows
      \<and> (\<forall>k. k \<notin> ke_Key ` set rows \<longrightarrow> held unmarshal (prows w') k = held unmarshal (prows w) k)"
begin

abbreviation lheld :: "'w \<Rightarrow> string \<Rightarrow> Envelope option" where
  "lheld w \<equiv> held unmarshal (lrows w)"

abbreviation pheld :: "'w \<Rightarrow> string \<Rightarrow> Envelope option" where
  "pheld w \<equiv> held unmarshal (prows w)"

lemma opt_ok: "winv w \<Longrightarrow> opt_ok (lheld w k) \<and> opt_ok (pheld w k)"
  using port_law port_clock by (auto simp: opt_ok_def)

lemma localRows_law:
  assumes "winv w" "localRows unmarshal s w a b = (w', r)"
  shows "winv w' \<and> lrows w' = lrows w \<and> prows w' = prows w
    \<and> (\<forall>rows. r = Inr rows \<longrightarrow> list_all2 (row_rep unmarshal) (rows_in a b (lrows w)) rows)"
proof -
  obtain w1 q where q: "ae_ScanRawRange (s_local s) w a b = (w1, q)" by fastforce
  note law = scan_law [OF assms(1) q]
  have ord: "rows_ordered (rows_in a b (lrows w))" using order_law [OF assms(1)] by (simp add: rows_in_ordered)
  have "list_all2 (row_rep unmarshal) (rows_in a b (lrows w)) rows" if r: "r = Inr rows" for rows
  proof -
    obtain es rows' where es: "q = Inr es" "decode_rows unmarshal es = Inr rows'" "rows = sort_key ke_Key rows'"
      using assms(2) q r by (auto simp: localRows_def split: sum.splits)
    have "gmap_ok (Clock e)" if "(k, v) \<in> set (rows_in a b (lrows w))" "Decode unmarshal v = Inr e" for k v e
    proof -
      have "map_of (lrows w) k = Some v"
        using that(1) order_law [OF assms(1)] by (auto simp: rows_in_def rows_ordered_def)
      then have "lheld w k = Some e" using that(2) by (simp add: held_def)
      then show ?thesis using opt_ok [OF assms(1)] by (simp add: opt_ok_def)
    qed
    then have rep: "list_all2 (row_rep unmarshal) (rows_in a b (lrows w)) rows'"
      using law es by (intro decode_rows_rep) auto
    then show ?thesis using es(3) sorted_rows_id [OF rep_sorted [OF ord rep]] by simp
  qed
  moreover have "w' = w1" using assms(2) q by (auto simp: localRows_def split: sum.splits)
  ultimately show ?thesis using law by auto
qed

lemma applyPulls_law:
  assumes "winv w" "applyPulls_loop s rows w e0 = (w', e1)" "list_all (\<lambda>row. port (ke_Envelope row)) rows" "distinct (map ke_Key rows)"
  shows "winv w' \<and> prows w' = prows w \<and> (e1 = None \<longrightarrow> e0 = None)
    \<and> (\<forall>row\<in>set rows. put_row_law (lheld w) row (e1 = None \<and> own (ke_Key row)) (lheld w'))
    \<and> (\<forall>k. k \<notin> ke_Key ` set rows \<longrightarrow> lheld w' k = lheld w k)"
  using assms
proof (induction rows arbitrary: w e0)
  case (Cons row rows)
  have rest: "list_all (\<lambda>row. port (ke_Envelope row)) rows" "distinct (map ke_Key rows)" "ke_Key row \<notin> ke_Key ` set rows"
    using Cons.prems(3,4) by auto
  show ?case
  proof (cases "own (ke_Key row)")
    case False
    then have "applyPulls_loop s rows w e0 = (w', e1)" using Cons.prems(2) own_law [OF Cons.prems(1)] by simp
    note IH = Cons.IH [OF Cons.prems(1) this rest(1,2)]
    then show ?thesis using False rest(3) by (auto simp: put_row_law_def)
  next
    case True
    obtain w1 x where x: "(if Deleted (ke_Envelope row) then ae_Delete (s_local s) w (ke_Key row) (ke_Envelope row) True
       else ae_Put (s_local s) w (ke_Key row) (ke_Envelope row) True) = (w1, x)" by fastforce
    have "port (ke_Envelope row)" using Cons.prems(3) by simp
    note law = pull_law [OF Cons.prems(1) this x]
    have "applyPulls_loop s rows w1 (first_err e0 x) = (w', e1)"
      using Cons.prems(2) own_law [OF Cons.prems(1)] True x by simp
    note IH = Cons.IH [OF _ this rest(1,2)]
    have fe: "first_err e0 x = None \<longrightarrow> e0 = None \<and> x = Inr ()" by (cases x) (auto simp: first_err_def split: if_splits)
    have "put_row_law (lheld w) row (e1 = None \<and> own (ke_Key row)) (lheld w')"
      using law IH rest(3) fe by (auto simp: put_row_law_def)
    moreover have "put_row_law (lheld w) r (e1 = None \<and> own (ke_Key r)) (lheld w')" if "r \<in> set rows" for r
    proof -
      have "ke_Key r \<noteq> ke_Key row" using that rest(3) by (metis imageI)
      then have "lheld w1 (ke_Key r) = lheld w (ke_Key r)" using law by blast
      moreover have "put_row_law (lheld w1) r (e1 = None \<and> own (ke_Key r)) (lheld w')" using IH law that by blast
      ultimately show ?thesis by (simp add: put_row_law_def)
    qed
    ultimately show ?thesis using IH law fe by auto
  qed
qed simp

lemma pushRepairs_law:
  assumes "winv w" "pushRepairs s w addr rows = (w', err)" "list_all (\<lambda>row. port (ke_Envelope row)) rows" "distinct (map ke_Key rows)"
  shows "winv w' \<and> lrows w' = lrows w \<and> (\<forall>row\<in>set rows. put_row_law (pheld w) row (err = None) (pheld w'))
    \<and> (\<forall>k. k \<notin> ke_Key ` set rows \<longrightarrow> pheld w' k = pheld w k)"
proof (cases "rows = []")
  case False
  obtain x where x: "aec_RepairKeys (s_replicas s) w addr rows = (w', x)" "err = None \<longleftrightarrow> x = Inr ()"
    using assms(2) False by (auto simp: pushRepairs_def split: prod.splits sum.splits)
  show ?thesis using push_law [OF assms(1,3,4) x(1)] x(2) by (simp add: list_all_iff)
qed (use assms in \<open>simp add: pushRepairs_def\<close>)

lemma row_port:
  assumes "winv w" "list_all2 (row_rep unmarshal) (rows_in a b (lrows w)) rows \<or> list_all2 (row_rep unmarshal) (rows_in a b (prows w)) rows"
    and "rows_sorted rows"
  shows "list_all (\<lambda>row. port (ke_Envelope row)) (filter P rows) \<and> distinct (map ke_Key (filter P rows))"
proof -
  have "port (ke_Envelope row)" if "row \<in> set rows" for row
  proof -
    have "row_of rows (ke_Key row) = Some row" using row_of_mem [OF assms(3)] that by blast
    then obtain e where "lheld w (ke_Key row) = Some e \<or> pheld w (ke_Key row) = Some e" "env_sim e (ke_Envelope row)"
      using assms(2) row_of_Some by metis
    then show ?thesis using port_law [OF assms(1)] port_sim by blast
  qed
  then show ?thesis using assms(3) by (auto simp: list_all_iff rows_sorted_def strict_sorted_iff intro: distinct_map_filter)
qed

text \<open>A leaf: every key of its range goes through one round, and no other key changes.\<close>

lemma diffLeaf_law:
  assumes w: "winv w" and d: "diffLeaf unmarshal s w addr a b = (w', err)"
  shows "winv w' \<and> (\<forall>k. (if in_raw_range a b k
      then key_round (lheld w k) (pheld w k) (lheld w' k) (pheld w' k) (err = None \<and> own k)
      else lheld w' k = lheld w k \<and> pheld w' k = pheld w k))"
proof -
  obtain w1 r1 where 1: "localRows unmarshal s w a b = (w1, r1)" by fastforce
  note law1 = localRows_law [OF w 1]
  have same: ?thesis if "winv w'" "lrows w' = lrows w" "prows w' = prows w" "err \<noteq> None"
    using that by (auto simp: key_round_def)
  show ?thesis
  proof (cases r1)
    case (Inl e)
    then have "w' = w1" "err = Some e" using d 1 by (simp_all add: diffLeaf_def)
    then show ?thesis using law1 by (intro same) simp_all
  next
    case ls: (Inr ls)
    obtain w2 r2 where 2: "aec_StreamRange (s_replicas s) w1 addr a b = (w2, r2)" by fastforce
    have law2: "winv w2" "lrows w2 = lrows w" "prows w2 = prows w"
      "\<And>rows. r2 = Inr rows \<Longrightarrow> list_all2 (row_rep unmarshal) (rows_in a b (prows w)) rows"
      using stream_law [OF _ 2] law1 by auto
    show ?thesis
    proof (cases r2)
      case (Inl e)
      then have "w' = w2" "err = Some e" using d 1 2 ls by (simp_all add: diffLeaf_def)
      then show ?thesis using law2 by (intro same) simp_all
    next
      case (Inr ps)
      have reps: "list_all2 (row_rep unmarshal) (rows_in a b (lrows w)) ls" "list_all2 (row_rep unmarshal) (rows_in a b (prows w)) ps"
        using law1 law2(4) ls Inr by auto
      have sorted: "rows_sorted ls" "rows_sorted ps"
        using reps order_law [OF w] rows_in_ordered rep_sorted by blast+
      have ports: "list_all (\<lambda>row. port (ke_Envelope row)) (filter P ls) \<and> distinct (map ke_Key (filter P ls))"
        "list_all (\<lambda>row. port (ke_Envelope row)) (filter P ps) \<and> distinct (map ke_Key (filter P ps))" for P
        using row_port [OF w _ sorted(1)] row_port [OF w _ sorted(2)] reps by blast+
      obtain w3 e3 where 3: "applyPulls_loop s (filter (lacks ls) ps) w2 None = (w3, e3)" by fastforce
      obtain e4 where 4: "pushRepairs s w3 addr (filter (lacks_rev ps) ls) = (w', e4)" "err = (if e3 \<noteq> None then e3 else e4)"
        using d 1 2 3 ls Inr sorted by (auto simp: diffLeaf_def mergeDiff_eq sorted_rows_id applyPulls_def split: prod.splits)
      note law3 = applyPulls_law [OF law2(1) 3 conjunct1 [OF ports(2)] conjunct2 [OF ports(2)]]
      then have w3: "winv w3" by blast
      note law4 = pushRepairs_law [OF w3 4(1) conjunct1 [OF ports(1)] conjunct2 [OF ports(1)]]
      have pull: "\<forall>row\<in>set (filter (lacks ls) ps). put_row_law (lheld w) row (e3 = None \<and> own (ke_Key row)) (lheld w')"
        "k \<notin> ke_Key ` set (filter (lacks ls) ps) \<longrightarrow> lheld w' k = lheld w k" for k
        using law2(2) law3 law4 by auto
      have push: "\<forall>row\<in>set (filter (lacks_rev ps) ls). put_row_law (pheld w) row (e4 = None) (pheld w')"
        "k \<notin> ke_Key ` set (filter (lacks_rev ps) ls) \<longrightarrow> pheld w' k = pheld w k" for k
        using law2(3) law3 law4 by auto
      have "key_round (lheld w k) (pheld w k) (lheld w' k) (pheld w' k) (err = None \<and> own k)" if "in_raw_range a b k" for k
        using leaf_key [OF reps sorted that _ _ pull push] opt_ok [OF w] 4(2) by (auto split: if_splits)
      moreover have "lheld w' k = lheld w k \<and> pheld w' k = pheld w k" if "\<not> in_raw_range a b k" for k
        using pull(2) [of k] push(2) [of k] other_key [OF reps(1) sorted(1) that] other_key [OF reps(2) sorted(2) that] by simp
      ultimately show ?thesis using law4 by simp
    qed
  qed
qed

definition forward :: "'w \<Rightarrow> 'w \<Rightarrow> bool" where
  "forward w w' \<longleftrightarrow> (\<forall>k. key_grows (lheld w k) (pheld w k) (lheld w' k) \<and> key_grows (pheld w k) (lheld w k) (pheld w' k)
     \<and> (agree (lheld w k) (pheld w k) \<longrightarrow> agree (lheld w' k) (pheld w' k)))"



abbreviation settled :: "'w \<Rightarrow> string \<Rightarrow> string \<Rightarrow> bool" where
  "settled w a b \<equiv> \<forall>k. in_raw_range a b k \<longrightarrow> own k \<longrightarrow> agree (lheld w k) (pheld w k)"

abbreviation apart :: "('w \<times> string \<times> string) list \<Rightarrow> bool" where
  "apart vs \<equiv> list_all (\<lambda>(w, a, b). distinguishes xxhash (lrows w) (prows w) a b) vs"

lemma forward_refl: "winv w \<Longrightarrow> lrows w' = lrows w \<Longrightarrow> prows w' = prows w \<Longrightarrow> forward w w'"
  using opt_ok [of w] env_sim_refl by (auto simp: forward_def key_grows_def opt_ok_def)

lemma forward_trans: "forward w w1 \<Longrightarrow> forward w1 w2 \<Longrightarrow> forward w w2"
  unfolding forward_def using key_grows_trans by meson

lemma forward_settled: "forward w w' \<Longrightarrow> settled w a b \<Longrightarrow> settled w' a b"
  by (simp add: forward_def)

lemma leaf_forward:
  assumes "winv w" "diffLeaf unmarshal s w addr a b = (w', err)"
  shows "winv w' \<and> forward w w' \<and> (err = None \<longrightarrow> settled w' a b)"
proof -
  note law = diffLeaf_law [OF assms]
  have "key_grows (lheld w k) (pheld w k) (lheld w' k) \<and> key_grows (pheld w k) (lheld w k) (pheld w' k)
     \<and> (agree (lheld w k) (pheld w k) \<or> in_raw_range a b k \<and> err = None \<and> own k \<longrightarrow> agree (lheld w' k) (pheld w' k))" for k
  proof (cases "in_raw_range a b k")
    case True
    then have "key_round (lheld w k) (pheld w k) (lheld w' k) (pheld w' k) (err = None \<and> own k)" using law by simp
    then show ?thesis using key_round_grows opt_ok [OF assms(1)] True by blast
  next
    case False
    then have "lheld w' k = lheld w k" "pheld w' k = pheld w k" using law by simp_all
    then show ?thesis using False forward_refl [OF assms(1) refl refl] by (simp add: forward_def)
  qed
  then show ?thesis using law by (simp add: forward_def)
qed

lemma equal_roots_settled:
  assumes "winv w" "distinguishes xxhash (lrows w) (prows w) a b"
    and "xxhash (digest_bytes (map mk_raw (rows_in a b (lrows w)))) = xxhash (digest_bytes (map mk_raw (rows_in a b (prows w))))"
  shows "settled w a b"
proof (intro allI impI)
  fix k assume k: "in_raw_range a b k"
  have "digest_bytes (map mk_raw (rows_in a b (lrows w))) = digest_bytes (map mk_raw (rows_in a b (prows w)))"
    using assms(2,3) by (simp add: distinguishes_def)
  moreover have "list_all sized (map mk_raw (rows_in a b (lrows w)))" "list_all sized (map mk_raw (rows_in a b (prows w)))"
    using size_law [OF assms(1)] by (auto simp: list_all_iff rows_in_def mk_raw_def sized_def fits_def)
  ultimately have "map mk_raw (rows_in a b (lrows w)) = map mk_raw (rows_in a b (prows w))" by (rule digest_bytes_inj)
  moreover have "inj mk_raw" by (auto simp: inj_def mk_raw_def)
  ultimately have "rows_in a b (lrows w) = rows_in a b (prows w)" by (simp add: inj_map_eq_map)
  then have "lheld w k = pheld w k" using map_of_rows_in [of a b _ k] k by (metis held_cong)
  then show "agree (lheld w k) (pheld w k)"
    using opt_ok [OF assms(1)] by (auto simp: agree_def opt_ok_def Compare_eq split: option.splits)
qed

lemma buckets_forward:
  assumes node: "\<And>w start stop w' err. winv w \<Longrightarrow> diffNode xxhash unmarshal s w addr start stop depth = (w', err) \<Longrightarrow>
      winv w' \<and> forward w w' \<and> (err = None \<longrightarrow> apart (visited xxhash unmarshal s w addr start stop depth) \<longrightarrow> settled w' start stop)"
    and "winv w" "diffBuckets xxhash unmarshal s w addr bs depth e0 = (w', err)"
  shows "winv w' \<and> forward w w' \<and> (err = None \<longrightarrow> e0 = None)
    \<and> (err = None \<longrightarrow> apart (visited_buckets xxhash unmarshal s w addr bs depth) \<longrightarrow> (\<forall>b\<in>set bs. settled w' (bk_Start b) (bk_End b)))"
  using assms(2,3)
proof (induction bs arbitrary: w e0)
  case Nil
  then show ?case using forward_refl by simp
next
  case (Cons b bs)
  obtain w1 e1 where 1: "diffNode xxhash unmarshal s w addr (bk_Start b) (bk_End b) depth = (w1, e1)" by fastforce
  note law = node [OF Cons.prems(1) 1]
  have 2: "diffBuckets xxhash unmarshal s w1 addr bs depth (if e1 \<noteq> None \<and> e0 = None then e1 else e0) = (w', err)"
    using Cons.prems(2) 1 by simp
  have w1: "winv w1" using law by blast
  note IH = Cons.IH [OF w1 2]
  have none: "e0 = None \<and> e1 = None" if "err = None" using IH that by (auto split: if_splits)
  have "settled w' (bk_Start x) (bk_End x)"
    if "err = None" "apart (visited_buckets xxhash unmarshal s w addr (b # bs) depth)" "x \<in> set (b # bs)" for x
  proof (cases "x = b")
    case True
    then have "settled w1 (bk_Start x) (bk_End x)" using law none [OF that(1)] that(2) by simp
    then show ?thesis using IH forward_settled by blast
  next
    case False
    then show ?thesis using IH that 1 by simp
  qed
  moreover have "forward w w'" using law IH forward_trans by blast
  ultimately show ?case using IH none by auto
qed

lemma roots_law:
  assumes "winv w" "ComputeMerkleRoot xxhash (s_local s) w start stop = (w1, Inr (lh, lc))"
    "aec_GetMerkleRoot (s_replicas s) w1 addr start stop = (w2, Inr (ph, pc))"
  shows "winv w2 \<and> lrows w2 = lrows w \<and> prows w2 = prows w
    \<and> lh = xxhash (digest_bytes (map mk_raw (rows_in start stop (lrows w))))
    \<and> ph = xxhash (digest_bytes (map mk_raw (rows_in start stop (prows w))))"
proof -
  obtain r where r: "ae_ScanRawRange (s_local s) w start stop = (w1, Inr r)" "lh = xxhash (digest_bytes (sort_key rkv_Key r))"
    using assms(2) by (auto simp: ComputeMerkleRoot_def Let_def split: prod.splits sum.splits)
  note law = scan_law [OF assms(1) r(1)]
  have "rows_ordered (rows_in start stop (lrows w))" using order_law [OF assms(1)] rows_in_ordered by blast
  then have "lh = xxhash (digest_bytes (map mk_raw (rows_in start stop (lrows w))))" using r(2) law sorted_raw_id by simp
  moreover have "winv w1" using law by blast
  ultimately show ?thesis using root_law [OF _ assms(3)] law by simp
qed

lemma diffNode_error:
  assumes "winv w" "diffNode xxhash unmarshal s w addr start stop depth = (w', err)"
    and "\<not> (\<exists>w1 lh lc w2 ph pc. ComputeMerkleRoot xxhash (s_local s) w start stop = (w1, Inr (lh, lc))
           \<and> aec_GetMerkleRoot (s_replicas s) w1 addr start stop = (w2, Inr (ph, pc)))"
  shows "winv w' \<and> forward w w' \<and> err \<noteq> None"
proof -
  obtain w1 r1 where 1: "ae_ScanRawRange (s_local s) w start stop = (w1, r1)" by fastforce
  note law = scan_law [OF assms(1) 1]
  show ?thesis
  proof (cases r1)
    case (Inl e)
    then have "w' = w1 \<and> err \<noteq> None" using assms(2) 1 by (auto simp: diffNode.simps ComputeMerkleRoot_def)
    then show ?thesis using law forward_refl [OF assms(1)] by simp
  next
    case (Inr es)
    obtain w2 r2 where 2: "aec_GetMerkleRoot (s_replicas s) w1 addr start stop = (w2, r2)" by fastforce
    have c: "ComputeMerkleRoot xxhash (s_local s) w start stop =
        (w1, Inr (xxhash (digest_bytes (sort_key rkv_Key es)), of_nat (length (sort_key rkv_Key es))))"
      using 1 Inr by (simp add: ComputeMerkleRoot_def Let_def)
    then obtain e where e: "r2 = Inl e" using assms(3) 2 by (cases r2) auto
    then have "w' = w2 \<and> err \<noteq> None" using assms(2) 2 c by (auto simp: diffNode.simps)
    then show ?thesis using law root_law [OF _ 2] forward_refl [OF assms(1)] by simp
  qed
qed

lemma diffNode_forward:
  assumes "winv w" "diffNode xxhash unmarshal s w addr start stop depth = (w', err)"
  shows "winv w' \<and> forward w w' \<and> (err = None \<longrightarrow> apart (visited xxhash unmarshal s w addr start stop depth) \<longrightarrow> settled w' start stop)"
  using assms
proof (induction "nat (sc_MaxDepth (s_cfg s) - depth)" arbitrary: depth w start stop w' err rule: less_induct)
  case less
  show ?case
  proof (cases "\<exists>w1 lh lc w2 ph pc. ComputeMerkleRoot xxhash (s_local s) w start stop = (w1, Inr (lh, lc))
           \<and> aec_GetMerkleRoot (s_replicas s) w1 addr start stop = (w2, Inr (ph, pc))")
    case False
    then show ?thesis using diffNode_error [OF less.prems] by blast
  next
    case True
    then obtain w1 lh lc w2 ph pc where 1: "ComputeMerkleRoot xxhash (s_local s) w start stop = (w1, Inr (lh, lc))"
      and 2: "aec_GetMerkleRoot (s_replicas s) w1 addr start stop = (w2, Inr (ph, pc))" by blast
    let ?m = "if pc > lc then pc else lc"
    note roots = roots_law [OF less.prems(1) 1 2]
    then have w2: "winv w2" and f2: "forward w w2" using forward_refl [OF less.prems(1)] by blast+
    have vis: "visited xxhash unmarshal s w addr start stop depth \<noteq> []"
      "apart (visited xxhash unmarshal s w addr start stop depth) \<longrightarrow> distinguishes xxhash (lrows w) (prows w) start stop"
      by (simp_all add: visited.simps)
    consider (eq) "lc = pc \<and> lh = ph" | (leaf) "diffLeaf unmarshal s w2 addr start stop = (w', err)"
      | (bad) "w' = w2" "err \<noteq> None"
      | (split) bs where "depth < sc_MaxDepth (s_cfg s)" "SplitRange start stop (sc_Fanout (s_cfg s)) = Inr bs"
          "diffBuckets xxhash unmarshal s w2 addr bs (depth + 1) None = (w', err)"
          "visited xxhash unmarshal s w addr start stop depth = (w, start, stop) # visited_buckets xxhash unmarshal s w2 addr bs (depth + 1)"
    proof (cases "lc = pc \<and> lh = ph \<or> shouldStop s depth ?m")
      case True
      show thesis
      proof (cases "lc = pc \<and> lh = ph")
        case False
        then have "diffNode xxhash unmarshal s w addr start stop depth = diffLeaf unmarshal s w2 addr start stop"
          unfolding diffNode.simps [of _ _ _ w] using True 1 2 by (auto split: if_splits)
        then show thesis using leaf less.prems(2) by simp
      qed (rule eq)
    next
      case False
      then have d: "depth < sc_MaxDepth (s_cfg s)" by (simp add: shouldStop_def split: if_splits)
      show thesis
      proof (cases "SplitRange start stop (sc_Fanout (s_cfg s))")
        case (Inl e)
        then show thesis using bad less.prems(2) 1 2 False by (auto simp: diffNode.simps Let_def)
      next
        case (Inr bs)
        then show thesis using leaf split [OF d Inr] less.prems(2) 1 2 False
          by (cases "bs = [\<lparr>bk_Start = start, bk_End = stop\<rparr>]") (auto simp: diffNode.simps visited.simps Let_def)
      qed
    qed
    then show ?thesis
    proof cases
      case eq
      then have w': "w' = w2" using less.prems(2) 1 2 by (simp add: diffNode.simps)
      have "settled w2 start stop" if "distinguishes xxhash (lrows w) (prows w) start stop"
      proof -
        have "settled w start stop" by (rule equal_roots_settled [OF less.prems(1) that]) (use roots eq in argo)
        then show ?thesis using roots by simp
      qed
      then show ?thesis using w' w2 f2 vis by blast
    next
      case leaf
      then show ?thesis using leaf_forward [OF w2 leaf] forward_trans [OF f2] by blast
    next
      case bad
      then show ?thesis using w2 f2 by blast
    next
      case (split bs)
      have "nat (sc_MaxDepth (s_cfg s) - (depth + 1)) < nat (sc_MaxDepth (s_cfg s) - depth)" using split(1) by simp
      note law = buckets_forward [OF less.hyps [OF this] w2 split(3)]
      have "settled w' start stop" if "err = None" "apart (visited xxhash unmarshal s w addr start stop depth)"
      proof (intro allI impI)
        fix k assume k: "in_raw_range start stop k" "own k"
        obtain b where b: "b \<in> set bs" "in_raw_range (bk_Start b) (bk_End b) k" by (rule bucket_raw_range [OF split(2) k(1)])
        have "\<forall>b\<in>set bs. settled w' (bk_Start b) (bk_End b)" using law that split(4) by simp
        then show "agree (lheld w' k) (pheld w' k)" using b k(2) by blast
      qed
      then show ?thesis using law forward_trans [OF f2] by blast
    qed
  qed
qed

end

section \<open>Two nodes of the cluster\<close>

text \<open>An engine that refuses writes when it is full: its states hold fewer than \<open>2^62\<close> rows of bounded size.\<close>

definition roomy :: "('e \<Rightarrow> bool) \<Rightarrow> ('e \<Rightarrow> (string \<times> string) list) \<Rightarrow> bool" where
  "roomy einv rows \<longleftrightarrow> (\<forall>e. einv e \<longrightarrow> length (rows e) < 2 ^ 62 \<and> list_all fits (rows e))"

definition pair_ok ::
  "'e deployment \<Rightarrow> ('e \<Rightarrow> bool) \<Rightarrow> ('e \<Rightarrow> (string \<times> string) list) \<Rightarrow> string \<Rightarrow> string \<Rightarrow> string \<Rightarrow> Table \<Rightarrow> 'e cluster \<Rightarrow> bool" where
  "pair_ok dp einv rows nid pid addr tab w \<longleftrightarrow>
     world_ok dp einv rows w \<and> roomy einv rows \<and> nid \<noteq> pid \<and> dp_host dp addr = Some pid \<and> cn_table (w nid) = tab"

lemma ae_scan_law:
  assumes "deployment_ok dp einv rows" "roomy einv rows" "einv e"
    and "ae_ScanRawRange (nodeAntiEntropyStore dp) e a b = (e', r)"
  shows "einv e' \<and> rows e' = rows e \<and> (\<forall>es. r = Inr es \<longrightarrow> es = map mk_raw (rows_in a b (rows e)))"
proof -
  have kv: "kv_engine (ns_engine (dp_store dp)) (ns_user (dp_store dp)) einv rows" using assms(1) by (simp add: deployment_ok_def)
  have big: "length (rows e) < 2 ^ 62" using assms(2,3) unfolding roomy_def by blast
  obtain e1 r1 where 1: "NodeStore_ScanRawRange (dp_store dp) e a b = Some (e1, r1)" "einv e1" "rows e1 = rows e"
    "case r1 of Inl err \<Rightarrow> \<exists>msg. err = EngineError msg
       | Inr out \<Rightarrow> out = map mk_raw (filter (\<lambda>(k, v). in_raw_range a b k) (rows e))"
    by (rule ScanRawRange_result [OF kv assms(3) big])
  show ?thesis
    using assms(4) 1
    by (cases r1) (auto simp: nodeAntiEntropyStore_def nodeAntiEntropyStore_ScanRawRange_def rows_in_def)
qed

lemma ae_write_law:
  assumes "deployment_ok dp einv rows" "einv e" "portable dp env"
    and "(if Deleted env then ae_Delete (nodeAntiEntropyStore dp) e key env sync
          else ae_Put (nodeAntiEntropyStore dp) e key env sync) = (e', r)"
  shows "einv e' \<and> write_ok dp rows e key env e' (r = Inr ())"
proof -
  obtain r1 where r1: "(if Deleted env then NodeStore_Delete (dp_marshal dp) (dp_store dp) e key env sync
             else NodeStore_Put (dp_marshal dp) (dp_store dp) e key env sync) = (e', r1)" "r1 = Inr () \<longleftrightarrow> r = Inr ()"
    using assms(4) by (auto simp: nodeAntiEntropyStore_def store_result_def split: if_splits prod.splits sum.splits)
  show ?thesis using store_write_ok [OF assms(1-3) r1(1)] r1(2) by simp
qed

lemma KeyEnvelopeToProto_sel [simp]:
  "pb_ke_Key (KeyEnvelopeToProto row) = ke_Key row"
  "pb_ke_Envelope (KeyEnvelopeToProto row) = Some (EnvelopeToProto (ke_Envelope row))"
  by (simp_all add: KeyEnvelopeToProto_def)

lemma repair_loop_law:
  assumes "deployment_ok dp einv rows" "einv e" "list_all (\<lambda>row. portable dp (ke_Envelope row)) rs" "distinct (map ke_Key rs)"
    and "RepairKeys_loop (dp_marshal dp) (dp_unmarshal dp) (nodeAntiEntropyStore dp) e (map KeyEnvelopeToProto rs) = (e', r)"
  shows "einv e'
    \<and> list_all (\<lambda>row. put_row_law (held (dp_unmarshal dp) (rows e)) row (r = Inr ()) (held (dp_unmarshal dp) (rows e'))) rs
    \<and> (\<forall>k. k \<notin> ke_Key ` set rs \<longrightarrow> held (dp_unmarshal dp) (rows e') k = held (dp_unmarshal dp) (rows e) k)"
  using assms(2-5)
proof (induction rs arbitrary: e)
  case (Cons row rs)
  let ?h = "\<lambda>e. held (dp_unmarshal dp) (rows e)"
  have p: "portable dp (ke_Envelope row)" and rest: "list_all (\<lambda>row. portable dp (ke_Envelope row)) rs" "distinct (map ke_Key rs)"
    "ke_Key row \<notin> ke_Key ` set rs" using Cons.prems by auto
  have fail: ?case if "e' = e" "r \<noteq> Inr ()" using that Cons.prems(1) by (auto simp: put_row_law_def list_all_iff)
  show ?case
  proof (cases "EnvelopeFromProto (dp_marshal dp) (dp_unmarshal dp) (Some (EnvelopeToProto (ke_Envelope row)))")
    case (Inl err)
    then show ?thesis using Cons.prems(4) by (intro fail) auto
  next
    case (Inr env)
    have sim: "env_sim (ke_Envelope row) env" by (rule FromProto_ToProto [OF p Inr])
    obtain e1 r1 where 1: "(if Deleted env then ae_Delete (nodeAntiEntropyStore dp) e (ke_Key row) env True
          else ae_Put (nodeAntiEntropyStore dp) e (ke_Key row) env True) = (e1, r1)" by fastforce
    have law: "einv e1" "write_ok dp rows e (ke_Key row) env e1 (r1 = Inr ())"
      using ae_write_law [OF assms(1) Cons.prems(1) portable_sim [OF p sim] 1] by auto
    have row: "put_row_law (?h e) row (r1 = Inr ()) (?h e1)" "\<And>k. k \<noteq> ke_Key row \<Longrightarrow> ?h e1 k = ?h e k"
      using law(2) env_sim_trans [OF sim] by (auto simp: write_ok_def put_row_law_def)
    have keep: "?h e1 (ke_Key x) = ?h e (ke_Key x)" if "x \<in> set rs" for x using row(2) rest(3) that by (metis imageI)
    show ?thesis
    proof (cases r1)
      case (Inl err)
      then have "e' = e1" "r \<noteq> Inr ()"
        using Cons.prems(4) 1 \<open>EnvelopeFromProto _ _ _ = Inr env\<close> by (auto split: if_splits)
      moreover have "put_row_law (?h e) x False (?h e1)" if "x \<in> set rs" for x
        using keep [OF that] by (simp add: put_row_law_def)
      moreover have "put_row_law (?h e) row False (?h e1)" using row(1) by (auto simp: put_row_law_def)
      ultimately show ?thesis using law(1) row(2) by (auto simp: list_all_iff)
    next
      case r1: (Inr u)
      then have "RepairKeys_loop (dp_marshal dp) (dp_unmarshal dp) (nodeAntiEntropyStore dp) e1 (map KeyEnvelopeToProto rs) = (e', r)"
        using Cons.prems(4) 1 Inr by (auto split: if_splits)
      note IH = Cons.IH [OF law(1) rest(1,2) this]
      have "put_row_law (?h e) row (r = Inr ()) (?h e')" using row(1) IH rest(3) r1 by (auto simp: put_row_law_def)
      moreover have "put_row_law (?h e) x (r = Inr ()) (?h e')" if "x \<in> set rs" for x
      proof -
        have "put_row_law (?h e1) x (r = Inr ()) (?h e')" using IH that by (simp add: list_all_iff)
        then show ?thesis using keep [OF that] by (simp add: put_row_law_def)
      qed
      ultimately show ?thesis using IH row(2) by (auto simp: list_all_iff)
    qed
  qed
qed simp

lemma stream_rep:
  assumes "StreamRange_loop u (\<lambda>_. None) (\<lambda>_. None) i (map mk_raw rs) = (ps, ended)" "u = dp_unmarshal dp"
    and "Client_collect (dp_marshal dp) u ps ended = Inr rows"
    and "\<And>k v e. (k, v) \<in> set rs \<Longrightarrow> Decode u v = Inr e \<Longrightarrow> portable dp e"
  shows "list_all2 (row_rep u) rs rows"
  using assms(1,3,4)
proof (induction rs arbitrary: i ps rows)
  case Nil
  then show ?case by (auto split: option.splits)
next
  case (Cons x rs)
  obtain k v where x: "x = (k, v)" by fastforce
  show ?case
  proof (cases "Decode u v")
    case (Inl err)
    then show ?thesis using Cons.prems(1,2) x by (auto simp: mk_raw_def)
  next
    case (Inr env)
    obtain ps' where ps': "StreamRange_loop u (\<lambda>_. None) (\<lambda>_. None) (i + 1) (map mk_raw rs) = (ps', ended)"
        "ps = KeyEnvelopeToProto \<lparr>ke_Key = k, ke_Envelope = env\<rparr> # ps'"
      using Cons.prems(1) Inr x by (auto simp: mk_raw_def split: prod.splits)
    obtain row rows' where rows': "KeyEnvelopeFromProto (dp_marshal dp) u (Some (KeyEnvelopeToProto \<lparr>ke_Key = k, ke_Envelope = env\<rparr>)) = Inr row"
        "Client_collect (dp_marshal dp) u ps' ended = Inr rows'" "rows = row # rows'"
      using Cons.prems(2) ps'(2) by (auto split: sum.splits)
    have "portable dp env" using Cons.prems(3) Inr x by auto
    moreover have "EnvelopeFromProto (dp_marshal dp) u (Some (EnvelopeToProto env)) = Inr (ke_Envelope row)" "ke_Key row = k"
      using rows'(1) by (auto simp: KeyEnvelopeFromProto_def KeyEnvelopeToProto_def split: sum.splits)
    ultimately have "row_rep u x row" using FromProto_ToProto assms(2) Inr x by (auto simp: row_rep_def)
    moreover have "list_all2 (row_rep u) rs rows'" using Cons.prems(3) by (intro Cons.IH [OF ps'(1) rows'(2)]) auto
    ultimately show ?thesis using rows'(3) by simp
  qed
qed

lemma ae_rpc_cases:
  assumes "ae_rpc dp d w a h = (w', r)" "dp_host dp a = Some n"
  obtains (lost) "w' = w" "isl r"
    | (ran) e q where "h (w n) = (e, q)" "w' = set_engine w n e" "isl r \<or> r = q"
proof (cases "d = RequestLost")
  case True
  then show thesis using assms lost by (auto simp: ae_rpc_def)
next
  case False
  obtain e q where h: "h (w n) = (e, q)" by fastforce
  then show thesis using ran [OF h] assms False by (auto simp: ae_rpc_def split: if_splits)
qed

lemma set_engine_other [simp]:
  "n \<noteq> m \<Longrightarrow> cn_engine (set_engine w n e m) = cn_engine (w m)" "cn_engine (set_engine w n e n) = e"
  "cn_table (set_engine w n e m) = cn_table (w m)"
  by (simp_all add: set_engine_def)

lemma pair_read:
  assumes "pair_ok dp einv rows nid pid addr tab w" "einv e" "rows e = rows (cn_engine (w n))"
  shows "pair_ok dp einv rows nid pid addr tab (set_engine w n e) \<and> (\<forall>m. rows (cn_engine (set_engine w n e m)) = rows (cn_engine (w m)))"
proof -
  have w: "world_ok dp einv rows w" using assms(1) by (simp add: pair_ok_def)
  have "world_ok dp einv rows (set_engine w n e)" by (rule conjunct1 [OF set_engine_read [OF w assms(2,3)]])
  then show ?thesis using assms by (auto simp: pair_ok_def set_engine_def)
qed

lemma pair_sel:
  assumes "pair_ok dp einv rows nid pid addr tab w"
  shows "world_ok dp einv rows w" "deployment_ok dp einv rows" "roomy einv rows" "nid \<noteq> pid" "dp_host dp addr = Some pid"
    "einv (cn_engine (w n))"
  using assms by (simp_all add: pair_ok_def world_ok_def)

lemma pair_ordered:
  assumes "pair_ok dp einv rows nid pid addr tab w"
  shows "rows_ordered (rows (cn_engine (w n)))"
proof -
  have kv: "kv_engine (ns_engine (dp_store dp)) (ns_user (dp_store dp)) einv rows"
    using pair_sel(2) [OF assms] by (simp add: deployment_ok_def)
  show ?thesis using kv_engine_rows [OF kv pair_sel(6) [OF assms]] by (simp add: rows_ordered_def)
qed

lemma pair_scan:
  assumes "pair_ok dp einv rows nid pid addr tab w"
    and "ae_ScanRawRange (s_local (cluster_scheduler xxhash dp net nid cfg)) w a b = (w', r)"
  shows "pair_ok dp einv rows nid pid addr tab w' \<and> rows (cn_engine (w' nid)) = rows (cn_engine (w nid))
    \<and> rows (cn_engine (w' pid)) = rows (cn_engine (w pid)) \<and> (\<forall>es. r = Inr es \<longrightarrow> es = map mk_raw (rows_in a b (rows (cn_engine (w nid)))))"
proof -
  obtain e where e: "ae_ScanRawRange (nodeAntiEntropyStore dp) (cn_engine (w nid)) a b = (e, r)" "w' = set_engine w nid e"
    using assms(2) by (auto simp: cluster_scheduler_def at_node_def split: prod.splits)
  note law = ae_scan_law [OF pair_sel(2,3,6) [OF assms(1)] e(1)]
  then show ?thesis using pair_read [OF assms(1), of e nid] e(2) by auto
qed

lemma pair_root:
  assumes p: "pair_ok dp einv rows nid pid addr tab w"
    and r: "aec_GetMerkleRoot (s_replicas (cluster_scheduler xxhash dp net nid cfg)) w addr a b = (w', r)"
  shows "pair_ok dp einv rows nid pid addr tab w' \<and> rows (cn_engine (w' nid)) = rows (cn_engine (w nid))
    \<and> rows (cn_engine (w' pid)) = rows (cn_engine (w pid))
    \<and> (\<forall>h c. r = Inr (h, c) \<longrightarrow> h = xxhash (digest_bytes (map mk_raw (rows_in a b (rows (cn_engine (w pid)))))))"
proof -
  let ?n = "w pid"
  have kv: "rows_ordered (rows (cn_engine ?n))" by (rule pair_ordered [OF p])
  have rpc: "ae_rpc dp (net (GetRoot addr a b)) w addr (\<lambda>n. status_error (AEServer_GetMerkleRoot xxhash (nodeAntiEntropyStore dp)
      (table_ae_ownership (cn_table n)) (cn_engine n) None a b)) = (w', r)"
    using r by (simp add: cluster_scheduler_def AEClient_GetMerkleRoot_def)
  from rpc pair_sel(5) [OF p] show ?thesis
  proof (cases rule: ae_rpc_cases)
    case lost
    then show ?thesis using p by auto
  next
    case (ran e q)
    obtain e1 r1 where 1: "ae_ScanRawRange (nodeAntiEntropyStore dp) (cn_engine ?n) a b = (e1, r1)" by fastforce
    note law = ae_scan_law [OF pair_sel(2,3,6) [OF p] 1]
    have e: "einv e" "rows e = rows (cn_engine ?n)"
      using ran(1) 1 law pair_sel(6) [OF p]
      by (auto simp: AEServer_GetMerkleRoot_def ComputeMerkleRoot_def status_error_def split: if_splits sum.splits)
    have "h = xxhash (digest_bytes (map mk_raw (rows_in a b (rows (cn_engine ?n)))))" if "r = Inr (h, c)" for h c
    proof -
      have "q = Inr (h, c)" using ran(3) that by auto
      then obtain es where "r1 = Inr es" "h = xxhash (digest_bytes (sort_key rkv_Key es))"
        using ran(1) 1 by (auto simp: AEServer_GetMerkleRoot_def ComputeMerkleRoot_def status_error_def Let_def split: if_splits sum.splits)
      then show ?thesis using law sorted_raw_id [OF rows_in_ordered [OF kv]] by simp
    qed
    then show ?thesis using pair_read [OF p e] ran(2) e(2) by auto
  qed
qed

lemma pair_port:
  assumes "pair_ok dp einv rows nid pid addr tab w" "(k, v) \<in> set (rows_in a b (rows (cn_engine (w n))))" "Decode (dp_unmarshal dp) v = Inr e"
  shows "portable dp e"
proof -
  have "map_of (rows (cn_engine (w n))) k = Some v"
    using assms(2) pair_ordered [OF assms(1)] by (auto simp: rows_in_def rows_ordered_def)
  then have "node_holds dp rows w n k = Some e" using assms(3) by (simp add: node_holds_def held_def)
  then show ?thesis using pair_sel(1) [OF assms(1)] unfolding world_ok_def by blast
qed

lemma pair_stream:
  assumes p: "pair_ok dp einv rows nid pid addr tab w"
    and r: "aec_StreamRange (s_replicas (cluster_scheduler xxhash dp net nid cfg)) w addr a b = (w', r)"
  shows "pair_ok dp einv rows nid pid addr tab w' \<and> rows (cn_engine (w' nid)) = rows (cn_engine (w nid))
    \<and> rows (cn_engine (w' pid)) = rows (cn_engine (w pid))
    \<and> (\<forall>rs. r = Inr rs \<longrightarrow> list_all2 (row_rep (dp_unmarshal dp)) (rows_in a b (rows (cn_engine (w pid)))) rs)"
proof -
  let ?n = "w pid"
  have rpc: "ae_rpc dp (net (Stream addr a b)) w addr
       (\<lambda>n. case AEServer_StreamRange (dp_unmarshal dp) (\<lambda>_. None) (\<lambda>_. None) (nodeAntiEntropyStore dp)
                   (table_ae_ownership (cn_table n)) (cn_engine n) a b of
              (e, protoRows, ended) \<Rightarrow> (e, Client_collect (dp_marshal dp) (dp_unmarshal dp) protoRows ended)) = (w', r)"
    using r by (simp add: cluster_scheduler_def AEClient_StreamRange_def)
  from rpc pair_sel(5) [OF p] show ?thesis
  proof (cases rule: ae_rpc_cases)
    case lost
    then show ?thesis using p by auto
  next
    case (ran e q)
    obtain e1 r1 where 1: "ae_ScanRawRange (nodeAntiEntropyStore dp) (cn_engine ?n) a b = (e1, r1)" by fastforce
    note law = ae_scan_law [OF pair_sel(2,3,6) [OF p] 1]
    obtain ps ended where sr: "AEServer_StreamRange (dp_unmarshal dp) (\<lambda>_. None) (\<lambda>_. None) (nodeAntiEntropyStore dp)
        (table_ae_ownership (cn_table ?n)) (cn_engine ?n) a b = (e, ps, ended)"
        and q: "q = Client_collect (dp_marshal dp) (dp_unmarshal dp) ps ended"
      using ran(1) by (auto split: prod.splits)
    have e: "einv e" "rows e = rows (cn_engine ?n)"
      using sr 1 law pair_sel(6) [OF p] by (auto simp: AEServer_StreamRange_def split: if_splits sum.splits)
    have "list_all2 (row_rep (dp_unmarshal dp)) (rows_in a b (rows (cn_engine ?n))) rs" if "r = Inr rs" for rs
    proof -
      have c: "Client_collect (dp_marshal dp) (dp_unmarshal dp) ps ended = Inr rs" using ran(3) q that by auto
      then have "\<not> (ps = [] \<and> ended \<noteq> None)" by (auto split: option.splits)
      then obtain es where "r1 = Inr es" "StreamRange_loop (dp_unmarshal dp) (\<lambda>_. None) (\<lambda>_. None) 0 es = (ps, ended)"
        using sr 1 by (auto simp: AEServer_StreamRange_def split: if_splits sum.splits)
      then have "StreamRange_loop (dp_unmarshal dp) (\<lambda>_. None) (\<lambda>_. None) 0 (map mk_raw (rows_in a b (rows (cn_engine ?n)))) = (ps, ended)"
        using law by simp
      then show ?thesis by (rule stream_rep [OF _ refl c]) (rule pair_port [OF p])
    qed
    then show ?thesis using pair_read [OF p e] ran(2) e(2) by auto
  qed
qed

lemma pair_write:
  assumes p: "pair_ok dp einv rows nid pid addr tab w" and "portable dp env" "einv e" "write_ok dp rows (cn_engine (w n)) key env e ok"
  shows "pair_ok dp einv rows nid pid addr tab (set_engine w n e)"
  using set_engine_write [OF pair_sel(1) [OF p] assms(2-4)] p by (simp add: pair_ok_def)

lemma pair_pull:
  assumes p: "pair_ok dp einv rows nid pid addr tab w" and port: "portable dp (ke_Envelope row)"
    and r: "(if Deleted (ke_Envelope row)
       then ae_Delete (s_local (cluster_scheduler xxhash dp net nid cfg)) w (ke_Key row) (ke_Envelope row) True
       else ae_Put (s_local (cluster_scheduler xxhash dp net nid cfg)) w (ke_Key row) (ke_Envelope row) True) = (w', r)"
  shows "pair_ok dp einv rows nid pid addr tab w' \<and> rows (cn_engine (w' pid)) = rows (cn_engine (w pid))
    \<and> put_row_law (held (dp_unmarshal dp) (rows (cn_engine (w nid)))) row (r = Inr ()) (held (dp_unmarshal dp) (rows (cn_engine (w' nid))))
    \<and> (\<forall>k. k \<noteq> ke_Key row \<longrightarrow>
         held (dp_unmarshal dp) (rows (cn_engine (w' nid))) k = held (dp_unmarshal dp) (rows (cn_engine (w nid))) k)"
proof -
  obtain e where e: "(if Deleted (ke_Envelope row) then ae_Delete (nodeAntiEntropyStore dp) (cn_engine (w nid)) (ke_Key row) (ke_Envelope row) True
       else ae_Put (nodeAntiEntropyStore dp) (cn_engine (w nid)) (ke_Key row) (ke_Envelope row) True) = (e, r)" "w' = set_engine w nid e"
    using r by (auto simp: cluster_scheduler_def at_node_def split: prod.splits if_splits)
  have law: "einv e" "write_ok dp rows (cn_engine (w nid)) (ke_Key row) (ke_Envelope row) e (r = Inr ())"
    using ae_write_law [OF pair_sel(2,6) [OF p] port e(1)] by auto
  show ?thesis using pair_write [OF p port law] law(2) e(2) pair_sel(4) [OF p] by (auto simp: write_ok_def put_row_law_def)
qed

lemma pair_push:
  assumes p: "pair_ok dp einv rows nid pid addr tab w" and port: "list_all (\<lambda>row. portable dp (ke_Envelope row)) rs" "distinct (map ke_Key rs)"
    and r: "aec_RepairKeys (s_replicas (cluster_scheduler xxhash dp net nid cfg)) w addr rs = (w', r)"
  shows "pair_ok dp einv rows nid pid addr tab w' \<and> rows (cn_engine (w' nid)) = rows (cn_engine (w nid))
    \<and> list_all (\<lambda>row. put_row_law (held (dp_unmarshal dp) (rows (cn_engine (w pid)))) row (r = Inr ())
         (held (dp_unmarshal dp) (rows (cn_engine (w' pid))))) rs
    \<and> (\<forall>k. k \<notin> ke_Key ` set rs \<longrightarrow>
         held (dp_unmarshal dp) (rows (cn_engine (w' pid))) k = held (dp_unmarshal dp) (rows (cn_engine (w pid))) k)"
proof -
  let ?n = "w pid"
  have same: ?thesis if "w' = w" "r \<noteq> Inr ()" using that p by (auto simp: put_row_law_def list_all_iff)
  have rpc: "ae_rpc dp (net (Repair addr rs)) w addr
       (\<lambda>n. status_error (AEServer_RepairKeys (dp_marshal dp) (dp_unmarshal dp) (nodeAntiEntropyStore dp)
              (table_ae_ownership (cn_table n)) (cn_engine n) None (map KeyEnvelopeToProto rs))) = (w', r)"
    using r by (simp add: cluster_scheduler_def AEClient_RepairKeys_def)
  from rpc pair_sel(5) [OF p] show ?thesis
  proof (cases rule: ae_rpc_cases)
    case lost
    then show ?thesis by (intro same) auto
  next
    case (ran e q)
    then have nok: "r = Inr () \<longrightarrow> q = Inr ()" by auto
    define e' q' where "e' = fst (RepairKeys_loop (dp_marshal dp) (dp_unmarshal dp) (nodeAntiEntropyStore dp) (cn_engine ?n) (map KeyEnvelopeToProto rs))"
      and "q' = snd (RepairKeys_loop (dp_marshal dp) (dp_unmarshal dp) (nodeAntiEntropyStore dp) (cn_engine ?n) (map KeyEnvelopeToProto rs))"
    then have loop: "RepairKeys_loop (dp_marshal dp) (dp_unmarshal dp) (nodeAntiEntropyStore dp) (cn_engine ?n) (map KeyEnvelopeToProto rs) = (e', q')"
      by simp
    consider (refused) "e = cn_engine ?n" "q \<noteq> Inr ()" | (applied) "e = e'" "q = Inr () \<longleftrightarrow> q' = Inr ()"
      using ran(1) loop by (cases q') (auto simp: AEServer_RepairKeys_def status_error_def split: if_splits)
    then show ?thesis
    proof cases
      case refused
      have e: "einv e" "rows e = rows (cn_engine ?n)" using refused pair_sel(6) [OF p] by simp_all
      show ?thesis using pair_read [OF p e] ran(2) nok refused pair_sel(4) [OF p] by (auto simp: put_row_law_def list_all_iff)
    next
      case eq: applied
      note law = repair_loop_law [OF pair_sel(2,6) [OF p] port loop]
      have ports: "portable dp v" if "held (dp_unmarshal dp) (rows e) k = Some v" for k v
      proof -
        have old: "portable dp v" if "held (dp_unmarshal dp) (rows (cn_engine ?n)) k = Some v"
          using pair_sel(1) [OF p] that unfolding world_ok_def node_holds_def by blast
        show ?thesis
        proof (cases "k \<in> ke_Key ` set rs")
          case True
          then obtain row where row: "row \<in> set rs" "k = ke_Key row" by blast
          then have "put_row_law (held (dp_unmarshal dp) (rows (cn_engine ?n))) row (q' = Inr ()) (held (dp_unmarshal dp) (rows e))"
            using law eq by (simp add: list_all_iff)
          then show ?thesis
            using that old port(1) row portable_sim by (auto simp: put_row_law_def list_all_iff)
        next
          case False
          then show ?thesis using law eq that old by simp
        qed
      qed
      have "world_ok dp einv rows (set_engine w pid e)"
        using pair_sel(1) [OF p] law eq ports by (auto simp: world_ok_def node_holds_def set_engine_def)
      then have "pair_ok dp einv rows nid pid addr tab (set_engine w pid e)" using p by (simp add: pair_ok_def)
      moreover have "list_all (\<lambda>row. put_row_law (held (dp_unmarshal dp) (rows (cn_engine ?n))) row (r = Inr ()) (held (dp_unmarshal dp) (rows e))) rs"
        using law eq nok by (auto simp: put_row_law_def list_all_iff)
      ultimately show ?thesis using law eq ran(2) pair_sel(4) [OF p] by auto
    qed
  qed
qed

text \<open>The scheduler of a node against any peer, whatever the network does to its calls.\<close>

interpretation ae: replica_pair xxhash "dp_unmarshal dp" "cluster_scheduler xxhash dp net nid cfg" addr
  "\<lambda>w. rows (cn_engine (w nid))" "\<lambda>w. rows (cn_engine (w pid))" "pair_ok dp einv rows nid pid addr tab" "Table_IsOwner tab" "portable dp"
  for xxhash and dp :: "'e deployment" and net nid cfg addr rows pid einv tab
proof (unfold_locales, goal_cases)
  case (1 w)
  then show ?case using pair_ordered by blast
next
  case (2 w)
  then show ?case using pair_sel(3,6) [OF 2] by (simp add: roomy_def)
next
  case (3 w k e)
  then show ?case using pair_sel(1) [OF 3(1)] unfolding world_ok_def node_holds_def by blast
next
  case (4 e e')
  then show ?case by (rule portable_sim)
next
  case (5 e)
  then show ?case by (simp add: portable_def)
next
  case (6 w k)
  then show ?case by (simp add: cluster_scheduler_def pair_ok_def)
next
  case (7 w a b w' r)
  then show ?case by (rule pair_scan)
next
  case (8 w a b w' q)
  then show ?case by (rule pair_root)
next
  case (9 w a b w' t)
  then show ?case by (rule pair_stream)
next
  case (10 w row w' x)
  then show ?case by (rule pair_pull)
next
  case (11 w rs w' x)
  then show ?case by (rule pair_push)
qed

section \<open>Properties of a round\<close>

text \<open>
  C3: Anti-entropy converges. A repair round between a node and a peer, over any network, takes no
  version away: on both nodes every key keeps a version at least as new, and every version was on
  one of the two nodes before. When the round reports no error, the two nodes agree on every key of
  the range that the node owns: both lack it, or neither version is older than the other, so
  that only concurrent versions and versions with the same clock are left. The second part
  supposes that the digest did not collide in the comparisons of this very round.
\<close>

theorem repair_converges:
  assumes "pair_ok dp einv rows nid pid addr tab w"
    and "RepairRange xxhash (dp_unmarshal dp) (cluster_scheduler xxhash dp net nid cfg) w addr start stop = (w', err)"
  shows "(\<forall>k. key_grows (node_holds dp rows w nid k) (node_holds dp rows w pid k) (node_holds dp rows w' nid k)
            \<and> key_grows (node_holds dp rows w pid k) (node_holds dp rows w nid k) (node_holds dp rows w' pid k))
    \<and> (err = None
       \<and> list_all (\<lambda>(v, a, b). distinguishes xxhash (rows (cn_engine (v nid))) (rows (cn_engine (v pid))) a b)
           (visited xxhash (dp_unmarshal dp) (cluster_scheduler xxhash dp net nid cfg) w addr start stop 0)
       \<longrightarrow> (\<forall>k. in_raw_range start stop k \<and> Table_IsOwner tab k \<longrightarrow> agree (node_holds dp rows w' nid k) (node_holds dp rows w' pid k)))"
  using ae.diffNode_forward [OF assms(1) assms(2) [unfolded RepairRange_def]]
  by (simp add: ae.forward_def node_holds_def)

section \<open>A concrete round\<close>

definition small :: "(string \<times> string) list \<Rightarrow> bool" where
  "small rs \<longleftrightarrow> rows_ok rs \<and> length rs < 10 \<and> list_all fits rs"

definition small_write :: "(string \<times> string) list \<Rightarrow> string \<Rightarrow> string \<Rightarrow> (string \<times> string) list \<times> (string + unit)" where
  "small_write e k v = (if small (put_row k v e) then (put_row k v e, Inr ()) else (e, Inl ''full''))"

definition small_store :: "(string \<times> string) list NodeStore" where
  "small_store = NewNodeStore
     \<lparr>eng_Write = \<lambda>e _ k v _. small_write e k v, eng_WriteAsync = \<lambda>e _ k v. small_write e k v,
      eng_Read = \<lambda>e _ k. (e, Inr (map_of e k)),
      eng_RangeScan = \<lambda>e _ start stop p n. (e, Inr (page_rows e start stop p n))\<rparr> ''''"

definition small_dp :: "(string \<times> string) list deployment" where
  "small_dp = ex_dp\<lparr>dp_store := small_store\<rparr>"

lemma small_store_kv: "kv_engine (ns_engine small_store) (ns_user small_store) small (\<lambda>e. e)"
  unfolding kv_engine_def scan_law_def
  by (auto simp: small_store_def NewNodeStore_def small_write_def write_effect_def small_def rows_ok_def split: if_splits)

lemma small_pair: "pair_ok small_dp small (\<lambda>e. e) ''n2'' ''n1'' ''n1'' \<lparr>localNodeID = ''n2'', rangeMap = ex_map1\<rparr> ex_world1"
proof -
  have eng: "cn_engine (ex_world1 n) = (if n = ''n1'' then [(''k'', MagicPrefix @ ''P'')] else [])" for n
    by (simp add: ex_world1_def set_engine_def ex_world_def)
  have port: "portable small_dp ex_put" using ex_portable by (simp add: portable_def small_dp_def)
  have "node_holds small_dp (\<lambda>e. e) ex_world1 n k = Some v \<Longrightarrow> v = ex_put" for n k v
    using ex_Decode by (auto simp: node_holds_def held_def eng small_dp_def ex_dp_def split: if_splits)
  then have "world_ok small_dp small (\<lambda>e. e) ex_world1"
    using port small_store_kv
    by (auto simp: world_ok_def deployment_ok_def eng small_dp_def ex_dp_def small_def rows_ok_def fits_def MagicPrefix_def)
  moreover have "roomy small (\<lambda>e. e)" by (auto simp: roomy_def small_def)
  ultimately show ?thesis by (simp add: pair_ok_def small_dp_def ex_dp_def)
qed

abbreviation ex_row :: "string \<times> string" where
  "ex_row \<equiv> (''k'', MagicPrefix @ ''P'')"

definition ex_scfg :: SchedulerConfig where
  "ex_scfg = \<lparr>sc_NodeID = ''n2'', sc_Fanout = 4, sc_LeafItemThreshold = 10, sc_MaxDepth = 3\<rparr>"

abbreviation ex_sched :: "(string \<times> string) list cluster Scheduler" where
  "ex_sched \<equiv> cluster_scheduler id small_dp (\<lambda>_. Delivered) ''n2'' ex_scfg"

lemma ex_scan:
  "ae_ScanRawRange (nodeAntiEntropyStore small_dp) [] ''k'' ''l'' = ([], Inr [])"
  "ae_ScanRawRange (nodeAntiEntropyStore small_dp) [ex_row] ''k'' ''l'' = ([ex_row], Inr [\<lparr>rkv_Key = ''k'', rkv_Value = MagicPrefix @ ''P''\<rparr>])"
  by (simp_all add: nodeAntiEntropyStore_def nodeAntiEntropyStore_ScanRawRange_def NodeStore_ScanRawRange_def small_dp_def
      ScanRawRange_loop.simps small_store_def NewNodeStore_def page_rows_def rawScanPageSize_def)

lemma ex_eng:
  "cn_engine (ex_world1 ''n1'') = [ex_row]" "cn_engine (ex_world1 ''n2'') = []"
  "set_engine ex_world1 ''n1'' [ex_row] = ex_world1" "set_engine ex_world1 ''n2'' [] = ex_world1"
  by simp_all

lemma ex_owns: "Table_OwnsRange \<lparr>localNodeID = ''n1'', rangeMap = ex_map1\<rparr> ''k'' ''l''"
  by (simp add: Table_OwnsRange_def RangeMap_OwnersForRange_def ex_map1_def Range_Contains_def)

lemma small_dp_sel: "dp_host small_dp = Some" "dp_marshal small_dp = ex_marshal" "dp_unmarshal small_dp = ex_unmarshal"
  by (simp_all add: small_dp_def ex_dp_def)

lemma ex_roots:
  "ComputeMerkleRoot id (s_local ex_sched) ex_world1 ''k'' ''l'' = (ex_world1, Inr ([], 0))"
  "aec_GetMerkleRoot (s_replicas ex_sched) ex_world1 ''n1'' ''k'' ''l'' =
     (ex_world1, Inr (digest_bytes [\<lparr>rkv_Key = ''k'', rkv_Value = MagicPrefix @ ''P''\<rparr>], 1))"
  using ex_owns
  by (simp_all add: ComputeMerkleRoot_def cluster_scheduler_def at_node_def ex_eng ex_scan digest_bytes_def AEClient_GetMerkleRoot_def
      ae_rpc_def AEServer_GetMerkleRoot_def table_ae_ownership_def status_error_def small_dp_sel)

lemma ex_stream:
  "aec_StreamRange (s_replicas ex_sched) ex_world1 ''n1'' ''k'' ''l'' = (ex_world1, Inr [\<lparr>ke_Key = ''k'', ke_Envelope = ex_put\<rparr>])"
  using ex_owns ex_wire ex_Decode
  by (simp add: cluster_scheduler_def AEClient_StreamRange_def ae_rpc_def AEServer_StreamRange_def table_ae_ownership_def ex_eng ex_scan
      small_dp_sel KeyEnvelopeFromProto_def)

lemma ex_local: "localRows ex_unmarshal ex_sched ex_world1 ''k'' ''l'' = (ex_world1, Inr [])"
  by (simp add: localRows_def cluster_scheduler_def at_node_def ex_eng ex_scan)

lemma ex_pull:
  "applyPulls ex_sched ex_world1 [\<lparr>ke_Key = ''k'', ke_Envelope = ex_put\<rparr>] = (set_engine ex_world1 ''n2'' [ex_row], None)"
  by (simp add: applyPulls_def cluster_scheduler_def at_node_def ex_eng IsOwner_iff ex_owners nodeAntiEntropyStore_def small_dp_def
      ex_dp_def NodeStore_Put_def NodeStore_writeEnvelope_def ex_Encode engine_result_def small_store_def NewNodeStore_def
      small_write_def small_def rows_ok_def fits_def MagicPrefix_def store_result_def first_err_def)

lemma ex_cfg: "sc_MaxDepth (s_cfg ex_sched) = 3" "sc_LeafItemThreshold (s_cfg ex_sched) = 10"
  by (simp_all add: cluster_scheduler_def ex_scfg_def)

lemma ex_round:
  "RepairRange id ex_unmarshal ex_sched ex_world1 ''n1'' ''k'' ''l'' = (set_engine ex_world1 ''n2'' [ex_row], None)"
  using ex_roots ex_local ex_stream ex_pull
  by (simp add: RepairRange_def diffNode.simps shouldStop_def diffLeaf_def mergeDiff_def pushRepairs_def ex_cfg)

theorem repair_converges_witness:
  "RepairRange id ex_unmarshal ex_sched ex_world1 ''n1'' ''k'' ''l'' = (set_engine ex_world1 ''n2'' [ex_row], None)
   \<and> agree (node_holds small_dp (\<lambda>e. e) (set_engine ex_world1 ''n2'' [ex_row]) ''n2'' ''k'')
           (node_holds small_dp (\<lambda>e. e) (set_engine ex_world1 ''n2'' [ex_row]) ''n1'' ''k'')"
proof -
  have "in_raw_range ''k'' ''l'' ''k''" by (simp add: in_raw_range_def)
  moreover have "Table_IsOwner \<lparr>localNodeID = ''n2'', rangeMap = ex_map1\<rparr> ''k''" by (simp add: IsOwner_iff ex_owners)
  moreover have "list_all (\<lambda>(v, a, b). distinguishes id (cn_engine (v ''n2'')) (cn_engine (v ''n1'')) a b) vs" for vs :: "((string \<times> string) list cluster \<times> string \<times> string) list"
    by (simp add: distinguishes_def list_all_iff split_beta)
  ultimately show ?thesis
    using ex_round repair_converges [OF small_pair, of id "\<lambda>_. Delivered" ex_scfg "''k''" "''l''", unfolded small_dp_sel, OF ex_round] by blast
qed

end
