(* ===== verification/Tablet.thy ===== *)
theory Tablet
  imports AntiEntropy
begin

text \<open>
  Splitting and merging of ranges: \<open>src/cluster/tablet\<close> (\<open>assignment.go\<close>, \<open>scanner.go\<close>,
  \<open>scheduler.go\<close>).

  The xxhash digest and the proposal hash are arguments. A scan is an operation on a world of any
  type. A Go map used as a set is the list of its elements; the map of settled ranges is a function
  with Go's default 0. The sizes are 64-bit integers. A tick is one step of the scheduler's state;
  \<open>None\<close> stands for a panic of the range-map merge.
\<close>

section \<open>assignment.go\<close>

datatype assign_error = ReplicaCountTooSmall | TooFewCandidates | ErrUnsafeReplicaAssignment

record scoredCandidate =
  sc_nodeID :: string
  sc_score :: u64

definition replicaScore :: "(byte list \<Rightarrow> u64) \<Rightarrow> string \<Rightarrow> string \<Rightarrow> string \<Rightarrow> u64" where
  "replicaScore xxhash64 start stop nodeID = xxhash64 (concat (map lengthPrefixed [start, stop, nodeID]))"

text \<open>The loop over the candidates: the ids seen so far, and the ranked list.\<close>

fun rankCandidates_loop :: "(byte list \<Rightarrow> u64) \<Rightarrow> string \<Rightarrow> string \<Rightarrow> string list \<Rightarrow> string list \<Rightarrow> scoredCandidate list \<Rightarrow> scoredCandidate list" where
  "rankCandidates_loop xxhash64 start stop unique [] ranked = ranked"
| "rankCandidates_loop xxhash64 start stop unique (nodeID # candidates) ranked =
     (if nodeID = '''' then rankCandidates_loop xxhash64 start stop unique candidates ranked
      else if nodeID \<in> set unique then rankCandidates_loop xxhash64 start stop unique candidates ranked
      else rankCandidates_loop xxhash64 start stop (nodeID # unique) candidates
             (ranked @ [\<lparr>sc_nodeID = nodeID, sc_score = replicaScore xxhash64 start stop nodeID\<rparr>]))"

definition rankCandidates :: "(byte list \<Rightarrow> u64) \<Rightarrow> string \<Rightarrow> string \<Rightarrow> string list \<Rightarrow> scoredCandidate list" where
  "rankCandidates xxhash64 start stop candidates =
     sort_key (\<lambda>c. (- uint (sc_score c), sc_nodeID c)) (rankCandidates_loop xxhash64 start stop [] candidates [])"

text \<open>The loop that retains previous replicas, and the one that fills up with others.\<close>

fun retain_loop :: "string list \<Rightarrow> int \<Rightarrow> scoredCandidate list \<Rightarrow> string list \<Rightarrow> string list" where
  "retain_loop previous needed [] selected = selected"
| "retain_loop previous needed (c # ranked) selected =
     (if sc_nodeID c \<notin> set previous then retain_loop previous needed ranked selected
      else let selected = List.insert (sc_nodeID c) selected
           in if int (length selected) = needed then selected else retain_loop previous needed ranked selected)"

fun fill_loop :: "int \<Rightarrow> scoredCandidate list \<Rightarrow> string list \<Rightarrow> string list" where
  "fill_loop cnt [] selected = selected"
| "fill_loop cnt (c # ranked) selected =
     (if int (length selected) = cnt then selected else fill_loop cnt ranked (List.insert (sc_nodeID c) selected))"

definition AssignReplicas ::
  "(byte list \<Rightarrow> u64) \<Rightarrow> string \<Rightarrow> string \<Rightarrow> string list \<Rightarrow> string list \<Rightarrow> int \<Rightarrow> assign_error + string list" where
  "AssignReplicas xxhash64 start stop candidates previous cnt =
     (let ranked = rankCandidates xxhash64 start stop candidates
      in if cnt < 1 then Inl ReplicaCountTooSmall
         else if int (length ranked) < cnt then Inl TooFewCandidates
         else let retainedNeeded = (if cnt > 1 then cnt - 1 else cnt);
                  selected = retain_loop previous retainedNeeded ranked []
              in if int (length selected) < retainedNeeded then Inl ErrUnsafeReplicaAssignment
                 else let selected = fill_loop cnt ranked selected
                      in Inr (map sc_nodeID (filter (\<lambda>c. sc_nodeID c \<in> set selected) ranked)))"

section \<open>scanner.go\<close>

datatype scan_error = ScanFailed string | ErrCannotSplit

type_synonym 'w scanner = "'w \<Rightarrow> string \<Rightarrow> string \<Rightarrow> 'w \<times> (string + RawKV list)"

definition entrySize :: "RawKV \<Rightarrow> int" where
  "entrySize entry = wrap64 (int (length (rkv_Key entry)) + int (length (rkv_Value entry)))"

definition EstimateSize :: "'w scanner \<Rightarrow> 'w \<Rightarrow> string \<Rightarrow> string \<Rightarrow> 'w \<times> (scan_error + int)" where
  "EstimateSize scanner w start stop =
     (case scanner w start stop of
        (w, Inl err) \<Rightarrow> (w, Inl (ScanFailed err))
      | (w, Inr entries) \<Rightarrow> (w, Inr (fold (\<lambda>entry size. wrap64 (size + entrySize entry)) entries 0)))"

text \<open>The loop over the candidate boundaries: the entry before, the prefix, and the best boundary found with its difference.\<close>

fun PickSplit_loop :: "int \<Rightarrow> RawKV \<Rightarrow> RawKV list \<Rightarrow> int \<Rightarrow> (string \<times> int) option \<Rightarrow> (string \<times> int) option" where
  "PickSplit_loop tot previous [] acc best = best"
| "PickSplit_loop tot previous (entry # entries) acc best =
     (let acc = wrap64 (acc + entrySize previous)
      in if rkv_Key previous = rkv_Key entry then PickSplit_loop tot entry entries acc best
         else let difference = wrap64 (tot - wrap64 (2 * acc));
                  difference = (if difference < 0 then wrap64 (- difference) else difference)
              in PickSplit_loop tot entry entries acc
                   (case best of
                      None \<Rightarrow> Some (rkv_Key entry, difference)
                    | Some (boundary, bestDifference) \<Rightarrow>
                        if difference < bestDifference then Some (rkv_Key entry, difference) else best))"

definition PickSplitBoundary :: "'w scanner \<Rightarrow> 'w \<Rightarrow> string \<Rightarrow> string \<Rightarrow> 'w \<times> (scan_error + string)" where
  "PickSplitBoundary scanner w start stop =
     (case scanner w start stop of
        (w, Inl err) \<Rightarrow> (w, Inl (ScanFailed err))
      | (w, Inr entries) \<Rightarrow>
          if length entries < 2 then (w, Inl ErrCannotSplit)
          else let sorted = sort_key rkv_Key entries;
                   tot = fold (\<lambda>entry tot. wrap64 (tot + entrySize entry)) sorted 0
               in case PickSplit_loop tot (hd sorted) (tl sorted) 0 None of
                    None \<Rightarrow> (w, Inl ErrCannotSplit)
                  | Some (boundary, _) \<Rightarrow> (w, Inr boundary))"

section \<open>scheduler.go\<close>

record TabletConfig =
  tc_NodeID :: string
  tc_SplitBytes :: int
  tc_MergeBytes :: int
  tc_ReplicationFactor :: int
  tc_SettlingTicks :: int

record settledRange =
  sr_start :: string
  sr_end :: string
  sr_generation :: u64
  sr_proposalID :: string

text \<open>What the scheduler is given: its settings, the store's scan, the hashes, and whether there is a publisher.\<close>

record 'w TabletScheduler =
  ts_cfg :: TabletConfig
  ts_scan :: "'w scanner"
  ts_xxhash64 :: "byte list \<Rightarrow> u64"
  ts_sha256_hex :: "byte list \<Rightarrow> string"
  ts_has_publisher :: bool

text \<open>The state it changes: the world, the range table, the settled counters, and the epochs published.\<close>

record 'w tablet_state =
  tb_world :: 'w
  tb_table :: Table
  tb_settled :: "settledRange \<Rightarrow> int"
  tb_published :: "u64 list"

definition containsReplica :: "string list \<Rightarrow> string \<Rightarrow> bool" where
  "containsReplica replicas nodeID = list_ex (\<lambda>replica. replica = nodeID) replicas"

definition intersectReplicas :: "string list \<Rightarrow> string list \<Rightarrow> string list" where
  "intersectReplicas left right = filter (\<lambda>replica. replica \<in> set right) left"

definition settled_key :: "Range \<Rightarrow> settledRange" where
  "settled_key r = \<lparr>sr_start = Start r, sr_end = End r, sr_generation = Generation r, sr_proposalID = ProposalID r\<rparr>"

definition updateSettled :: "TabletConfig \<Rightarrow> (settledRange \<Rightarrow> int) \<Rightarrow> RangeMap \<Rightarrow> settledRange \<Rightarrow> int" where
  "updateSettled cfg settled snapshot =
     fold (\<lambda>r new. if \<not> containsReplica (Replicas r) (tc_NodeID cfg) then new
                    else new(settled_key r := wrap64 (settled (settled_key r) + 1)))
       (Ranges snapshot) (\<lambda>_. 0)"

definition isSettled :: "TabletConfig \<Rightarrow> (settledRange \<Rightarrow> int) \<Rightarrow> Range \<Rightarrow> bool" where
  "isSettled cfg settled r \<longleftrightarrow> settled (settled_key r) \<ge> tc_SettlingTicks cfg"

definition Tablet_apply :: "'w TabletScheduler \<Rightarrow> 'w tablet_state \<Rightarrow> RangeMap \<Rightarrow> ('w tablet_state \<times> bool) option" where
  "Tablet_apply s st proposal =
     (case Table_Merge (tb_table st) proposal of
        None \<Rightarrow> None
      | Some (t, Inl err) \<Rightarrow> Some (st\<lparr>tb_table := t\<rparr>, False)
      | Some (t, Inr changed) \<Rightarrow>
          if \<not> changed then Some (st\<lparr>tb_table := t\<rparr>, False)
          else if ts_has_publisher s
          then Some (st\<lparr>tb_table := t, tb_published := tb_published st @ [Table_Epoch t]\<rparr>, True)
          else Some (st\<lparr>tb_table := t\<rparr>, True))"

definition splitRange :: "'w TabletScheduler \<Rightarrow> 'w tablet_state \<Rightarrow> RangeMap \<Rightarrow> nat \<Rightarrow> string list \<Rightarrow> ('w tablet_state \<times> bool) option" where
  "splitRange s st snapshot index candidates =
     (let current = Ranges snapshot ! index; rf = tc_ReplicationFactor (ts_cfg s)
      in if Generation current = -1 then Some (st, False)
         else case PickSplitBoundary (ts_scan s) (tb_world st) (Start current) (End current) of
                (w, Inl err) \<Rightarrow> Some (st\<lparr>tb_world := w\<rparr>, False)
              | (w, Inr boundary) \<Rightarrow>
                  (let st = st\<lparr>tb_world := w\<rparr>
                   in if boundary = '''' \<or> boundary = Start current \<or> boundary = End current then Some (st, False)
                      else case AssignReplicas (ts_xxhash64 s) (Start current) boundary candidates (Replicas current) rf of
                             Inl err \<Rightarrow> Some (st, False)
                           | Inr leftReplicas \<Rightarrow>
                               (case AssignReplicas (ts_xxhash64 s) boundary (End current) candidates (Replicas current) rf of
                                  Inl err \<Rightarrow> Some (st, False)
                                | Inr rightReplicas \<Rightarrow>
                                    (let generation = Generation current + 1;
                                         children = [\<lparr>Start = Start current, End = boundary, Replicas = leftReplicas, Generation = generation, ProposalID = ''''\<rparr>,
                                                     \<lparr>Start = boundary, End = End current, Replicas = rightReplicas, Generation = generation, ProposalID = ''''\<rparr>];
                                         proposalID = ProposalID_of (ts_sha256_hex s) children;
                                         children = map (\<lambda>c. c\<lparr>ProposalID := proposalID\<rparr>) children
                                     in Tablet_apply s st
                                          \<lparr>Ranges = take index (Ranges snapshot) @ children @ drop (index + 1) (Ranges snapshot)\<rparr>))))"

definition mergeRanges :: "'w TabletScheduler \<Rightarrow> 'w tablet_state \<Rightarrow> RangeMap \<Rightarrow> nat \<Rightarrow> string list \<Rightarrow> ('w tablet_state \<times> bool) option" where
  "mergeRanges s st snapshot leftIndex candidates =
     (let left = Ranges snapshot ! leftIndex; right = Ranges snapshot ! (leftIndex + 1);
          generation = max (Generation left) (Generation right)
      in if generation = -1 then Some (st, False)
         else let retained = intersectReplicas (Replicas left) (Replicas right)
              in case AssignReplicas (ts_xxhash64 s) (Start left) (End right) candidates retained (tc_ReplicationFactor (ts_cfg s)) of
                   Inl err \<Rightarrow> Some (st, False)
                 | Inr replicas \<Rightarrow>
                     (let merged = \<lparr>Start = Start left, End = End right, Replicas = replicas, Generation = generation + 1, ProposalID = ''''\<rparr>;
                          merged = merged\<lparr>ProposalID := ProposalID_of (ts_sha256_hex s) [merged]\<rparr>
                      in Tablet_apply s st
                           \<lparr>Ranges = take leftIndex (Ranges snapshot) @ [merged] @ drop (leftIndex + 2) (Ranges snapshot)\<rparr>))"

text \<open>The loop of a tick over the indices of the snapshot.\<close>

fun Tablet_tick_loop :: "'w TabletScheduler \<Rightarrow> RangeMap \<Rightarrow> string list \<Rightarrow> nat list \<Rightarrow> 'w tablet_state \<Rightarrow> 'w tablet_state option" where
  "Tablet_tick_loop s snapshot candidates [] st = Some st"
| "Tablet_tick_loop s snapshot candidates (i # is) st =
     (let cfg = ts_cfg s; r = Ranges snapshot ! i; continue = Tablet_tick_loop s snapshot candidates is
      in if \<not> containsReplica (Replicas r) (tc_NodeID cfg) \<or> \<not> isSettled cfg (tb_settled st) r then continue st
         else case EstimateSize (ts_scan s) (tb_world st) (Start r) (End r) of
                (w, Inl err) \<Rightarrow> continue (st\<lparr>tb_world := w\<rparr>)
              | (w, Inr sz) \<Rightarrow>
                  (let st = st\<lparr>tb_world := w\<rparr>
                   in if sz \<ge> tc_SplitBytes cfg
                      then (case splitRange s st snapshot i candidates of
                              None \<Rightarrow> None
                            | Some (st, True) \<Rightarrow> Some st
                            | Some (st, False) \<Rightarrow> continue st)
                      else if sz \<le> tc_MergeBytes cfg \<and> i + 1 < length (Ranges snapshot)
                      then (let nxt = Ranges snapshot ! (i + 1)
                            in if \<not> containsReplica (Replicas nxt) (tc_NodeID cfg) \<or> \<not> isSettled cfg (tb_settled st) nxt then continue st
                               else case EstimateSize (ts_scan s) (tb_world st) (Start nxt) (End nxt) of
                                      (w, Inl err) \<Rightarrow> continue (st\<lparr>tb_world := w\<rparr>)
                                    | (w, Inr nextSize) \<Rightarrow>
                                        (let st = st\<lparr>tb_world := w\<rparr>
                                         in if nextSize \<le> tc_MergeBytes cfg
                                            then (case mergeRanges s st snapshot i candidates of
                                                    None \<Rightarrow> None
                                                  | Some (st, True) \<Rightarrow> Some st
                                                  | Some (st, False) \<Rightarrow> continue st)
                                            else continue st))
                      else continue st))"

definition Tablet_tick :: "'w TabletScheduler \<Rightarrow> string list \<Rightarrow> 'w tablet_state \<Rightarrow> 'w tablet_state option" where
  "Tablet_tick s candidates st =
     (let snapshot = Table_Snapshot (tb_table st);
          st = st\<lparr>tb_settled := updateSettled (ts_cfg s) (tb_settled st) snapshot\<rparr>
      in Tablet_tick_loop s snapshot candidates [0..<length (Ranges snapshot)] st)"

section \<open>The assignment of replicas\<close>

lemma rank_loop_props:
  assumes "distinct (map sc_nodeID ranked)" "set unique = sc_nodeID ` set ranked"
    and "\<forall>c\<in>set ranked. sc_score c = replicaScore h a b (sc_nodeID c)"
  shows "distinct (map sc_nodeID (rankCandidates_loop h a b unique cands ranked))
    \<and> sc_nodeID ` set (rankCandidates_loop h a b unique cands ranked) = sc_nodeID ` set ranked \<union> (set cands - {''''})
    \<and> (\<forall>c\<in>set (rankCandidates_loop h a b unique cands ranked). sc_score c = replicaScore h a b (sc_nodeID c))"
  using assms
proof (induction h a b unique cands ranked rule: rankCandidates_loop.induct)
  case (2 h a b unique nodeID cands ranked)
  then show ?case by (auto simp: image_iff)
qed auto



lemma sort_key_unique:
  assumes "distinct (map f xs)" "distinct (map f ys)" "set xs = set ys"
  shows "sort_key f xs = sort_key f (ys :: 'a list)"
proof -
  have d: "distinct (map f (sort_key f zs))" if "distinct (map f zs)" for zs
    using that by (metis distinct_map distinct_sort set_sort)
  have "map f (sort_key f xs) = map f (sort_key f ys)"
    using assms d by (intro sorted_distinct_set_unique) auto
  moreover have "inj_on f (set (sort_key f xs) \<union> set (sort_key f ys))" using assms by (simp add: distinct_map)
  ultimately show ?thesis by (simp add: inj_on_map_eq_map)
qed

lemma rank_loop_set:
  "set (rankCandidates_loop h a b [] cands []) = (\<lambda>n. \<lparr>sc_nodeID = n, sc_score = replicaScore h a b n\<rparr>) ` (set cands - {''''})"
proof -
  have p: "distinct (map sc_nodeID (rankCandidates_loop h a b [] cands []))
    \<and> sc_nodeID ` set (rankCandidates_loop h a b [] cands []) = set cands - {''''}
    \<and> (\<forall>c\<in>set (rankCandidates_loop h a b [] cands []). sc_score c = replicaScore h a b (sc_nodeID c))"
    using rank_loop_props [of "[]" "[]" h a b cands] by simp
  have "c = \<lparr>sc_nodeID = sc_nodeID c, sc_score = replicaScore h a b (sc_nodeID c)\<rparr>" if "c \<in> set (rankCandidates_loop h a b [] cands [])" for c
    using bspec [OF conjunct2 [OF conjunct2 [OF p]] that] by (cases c) simp
  then have "(\<lambda>c. \<lparr>sc_nodeID = sc_nodeID c, sc_score = replicaScore h a b (sc_nodeID c)\<rparr>) ` set (rankCandidates_loop h a b [] cands [])
      = (\<lambda>c. c) ` set (rankCandidates_loop h a b [] cands [])"
    by (intro image_cong refl) (rule sym)
  then show ?thesis using p by (simp add: image_image [symmetric, of "\<lambda>n. \<lparr>sc_nodeID = n, sc_score = replicaScore h a b n\<rparr>" sc_nodeID])
qed

lemma rank_ids:
  "distinct (map sc_nodeID (rankCandidates h a b cands))" "set (map sc_nodeID (rankCandidates h a b cands)) = set cands - {''''}"
proof -
  let ?l = "rankCandidates_loop h a b [] cands []"
  have p: "distinct (map sc_nodeID ?l)" "sc_nodeID ` set ?l = set cands - {''''}" using rank_loop_props [of "[]" "[]" h a b cands] by auto
  have "mset (rankCandidates h a b cands) = mset ?l" by (simp add: rankCandidates_def)
  then have "mset (map sc_nodeID (rankCandidates h a b cands)) = mset (map sc_nodeID ?l)" by simp
  then show "distinct (map sc_nodeID (rankCandidates h a b cands))" "set (map sc_nodeID (rankCandidates h a b cands)) = set cands - {''''}"
    using p mset_eq_imp_distinct_iff mset_eq_setD by (metis set_map)+
qed

lemma rank_cong:
  assumes "set cands = set cands'"
  shows "rankCandidates h a b cands = rankCandidates h a b cands'"
proof -
  have d: "distinct (map (\<lambda>c. (- uint (sc_score c), sc_nodeID c)) (rankCandidates_loop h a b [] cs []))" for cs
    using rank_loop_props [of "[]" "[]" h a b cs] by (auto simp: distinct_map inj_on_def)
  show ?thesis unfolding rankCandidates_def by (rule sort_key_unique [OF d d]) (simp add: rank_loop_set assms)
qed

lemma retain_loop_spec:
  assumes "distinct (map sc_nodeID ranked)" "distinct selected" "set selected \<inter> sc_nodeID ` set ranked = {}"
    "int (length selected) < needed"
  shows "distinct (retain_loop previous needed ranked selected)
    \<and> set (retain_loop previous needed ranked selected) \<subseteq> set selected \<union> (sc_nodeID ` set ranked \<inter> set previous)
    \<and> int (length (retain_loop previous needed ranked selected))
        = min needed (int (length selected) + int (card (sc_nodeID ` set ranked \<inter> set previous)))"
  using assms
proof (induction ranked arbitrary: selected)
  case (Cons c ranked)
  let ?R = "sc_nodeID ` set ranked \<inter> set previous"
  have rest: "distinct (map sc_nodeID ranked)" "sc_nodeID c \<notin> sc_nodeID ` set ranked" using Cons.prems(1) by auto
  show ?case
  proof (cases "sc_nodeID c \<in> set previous")
    case False
    then show ?thesis using Cons.IH [of selected] rest Cons.prems by auto
  next
    case True
    have new: "sc_nodeID c \<notin> set selected" using Cons.prems(3) by auto
    have card: "card (sc_nodeID ` set (c # ranked) \<inter> set previous) = Suc (card ?R)"
      using True rest(2) by (subst card_Suc_eq_finite) auto
    show ?thesis
    proof (cases "int (length selected) + 1 = needed")
      case eq: True
      then show ?thesis using True new card Cons.prems(2) by (auto simp: Let_def)
    next
      case False
      have "set (List.insert (sc_nodeID c) selected) \<inter> sc_nodeID ` set ranked = {}" using rest(2) Cons.prems(3) by auto
      then show ?thesis
        using Cons.IH [of "List.insert (sc_nodeID c) selected"] rest True new card False Cons.prems by (auto simp: Let_def)
    qed
  qed
qed auto

lemma fill_loop_spec:
  assumes "distinct (map sc_nodeID ranked)" "distinct selected" "int (length selected) \<le> n"
    "n \<le> int (card (set selected \<union> sc_nodeID ` set ranked))"
  shows "distinct (fill_loop n ranked selected) \<and> int (length (fill_loop n ranked selected)) = n
    \<and> set selected \<subseteq> set (fill_loop n ranked selected)
    \<and> set (fill_loop n ranked selected) \<subseteq> set selected \<union> sc_nodeID ` set ranked"
  using assms
proof (induction ranked arbitrary: selected)
  case Nil
  then show ?case by (auto simp: distinct_card)
next
  case (Cons c ranked)
  show ?case
  proof (cases "int (length selected) = n")
    case False
    have "set (List.insert (sc_nodeID c) selected) \<union> sc_nodeID ` set ranked = set selected \<union> sc_nodeID ` set (c # ranked)" by auto
    moreover have "int (length (List.insert (sc_nodeID c) selected)) \<le> n" using False Cons.prems(3) by (simp add: List.insert_def)
    ultimately show ?thesis using Cons.IH [of "List.insert (sc_nodeID c) selected"] Cons.prems False by auto
  qed (use Cons.prems in auto)
qed

lemma retain_cong: "set p = set p' \<Longrightarrow> retain_loop p n ranked sel = retain_loop p' n ranked sel"
  by (induction p n ranked sel rule: retain_loop.induct) (simp_all add: Let_def)

text \<open>How many of the previous replicas an assignment keeps.\<close>

definition retained_needed :: "int \<Rightarrow> int" where
  "retained_needed n = (if n > 1 then n - 1 else n)"

lemma AssignReplicas_Inr:
  assumes "AssignReplicas h a b cands prev n = Inr rs"
  shows "1 \<le> n \<and> distinct rs \<and> int (length rs) = n \<and> set rs \<subseteq> set cands - {''''}
    \<and> retained_needed n \<le> int (card (set rs \<inter> set prev))"
proof -
  let ?ranked = "rankCandidates h a b cands"
  let ?ids = "map sc_nodeID ?ranked"
  define sel where "sel = retain_loop prev (retained_needed n) ?ranked []"
  define fin where "fin = fill_loop n ?ranked sel"
  have "(if n < 1 then Inl ReplicaCountTooSmall else if int (length ?ranked) < n then Inl TooFewCandidates
      else if int (length sel) < retained_needed n then Inl ErrUnsafeReplicaAssignment
      else Inr (map sc_nodeID (filter (\<lambda>c. sc_nodeID c \<in> set fin) ?ranked))) = (Inr rs :: assign_error + string list)"
    using assms unfolding AssignReplicas_def Let_def sel_def fin_def retained_needed_def .
  then have n: "1 \<le> n" "n \<le> int (length ?ranked)" "retained_needed n \<le> int (length sel)"
    and rs: "rs = map sc_nodeID (filter (\<lambda>c. sc_nodeID c \<in> set fin) ?ranked)"
    by (simp_all split: if_splits)
  let ?I = "sc_nodeID ` set ?ranked"
  have ids: "distinct ?ids" "?I = set cands - {''''}" using rank_ids [of h a b cands] by simp_all
  have pos: "0 < retained_needed n" "retained_needed n \<le> n" using n(1) by (auto simp: retained_needed_def)
  have sel: "distinct sel" "set sel \<subseteq> ?I \<inter> set prev" "int (length sel) \<le> retained_needed n"
    using retain_loop_spec [OF ids(1), of "[]" "retained_needed n" prev] pos by (auto simp: sel_def)
  have "card ?I = length ?ranked" using ids(1) by (metis distinct_card length_map set_map)
  moreover have "set sel \<union> ?I = ?I" using sel(2) by blast
  ultimately have "n \<le> int (card (set sel \<union> ?I))" using n(2) by simp
  then have fin: "distinct fin" "int (length fin) = n" "set sel \<subseteq> set fin" "set fin \<subseteq> ?I"
    using fill_loop_spec [OF ids(1) sel(1), of n] sel(2,3) pos(2) by (auto simp: fin_def)
  have "set rs = ?I \<inter> set fin" by (auto simp: rs)
  then have set_rs: "set rs = set fin" using fin(4) by blast
  have d: "distinct rs"
    using ids(1) by (simp add: rs distinct_map_filter)
  then have "length rs = length fin" using set_rs fin(1) by (metis distinct_card)
  moreover have "retained_needed n \<le> int (card (set rs \<inter> set prev))"
  proof -
    have "card (set sel) \<le> card (set rs \<inter> set prev)" using sel(2) fin(3) set_rs by (intro card_mono) auto
    then show ?thesis using n(3) sel(1) by (simp add: distinct_card)
  qed
  ultimately show ?thesis using n(1) d fin set_rs ids(2) by auto
qed

lemma AssignReplicas_Inl:
  "AssignReplicas h a b cands prev n = Inl err \<longleftrightarrow>
     (if n < 1 then err = ReplicaCountTooSmall
      else if int (card (set cands - {''''})) < n then err = TooFewCandidates
      else int (card ((set cands - {''''}) \<inter> set prev)) < retained_needed n \<and> err = ErrUnsafeReplicaAssignment)"
proof (cases "n < 1")
  case False
  let ?ranked = "rankCandidates h a b cands"
  have ids: "distinct (map sc_nodeID ?ranked)" "set (map sc_nodeID ?ranked) = set cands - {''''}" by (rule rank_ids)+
  have len: "length ?ranked = card (set cands - {''''})" using ids by (metis distinct_card length_map)
  have "0 < retained_needed n" using False by (simp add: retained_needed_def)
  then have "int (length (retain_loop prev (retained_needed n) ?ranked [])) = min (retained_needed n) (int (card ((set cands - {''''}) \<inter> set prev)))"
    using retain_loop_spec [OF ids(1), of "[]" "retained_needed n" prev] ids(2) by simp
  then show ?thesis using False len by (auto simp: AssignReplicas_def Let_def retained_needed_def [symmetric])
qed (auto simp: AssignReplicas_def Let_def)

lemma AssignReplicas_cong:
  assumes "set cands = set cands'" "set prev = set prev'"
  shows "AssignReplicas h a b cands prev n = AssignReplicas h a b cands' prev' n"
  unfolding AssignReplicas_def rank_cong [OF assms(1)] retain_cong [OF assms(2)] ..

text \<open>
  C33: Replica assignment. It succeeds exactly when there are enough named candidates and enough of
  the previous replicas are among them; then it returns that many distinct candidates, of which at
  most one is not a previous replica. The result depends only on the sets of candidates and previous
  replicas, not on their order, so that all nodes that see the same members assign the same
  replicas.
\<close>

theorem AssignReplicas_spec:
  "(case AssignReplicas h a b cands prev n of
      Inr rs \<Rightarrow> distinct rs \<and> int (length rs) = n \<and> 1 \<le> n \<and> set rs \<subseteq> set cands - {''''}
        \<and> card (set rs - set prev) \<le> (if n = 1 then 0 else 1)
    | Inl err \<Rightarrow> n < 1 \<or> int (card (set cands - {''''})) < n
        \<or> int (card ((set cands - {''''}) \<inter> set prev)) < (if n > 1 then n - 1 else n))
   \<and> (set cands = set cands' \<and> set prev = set prev' \<longrightarrow>
        AssignReplicas h a b cands prev n = AssignReplicas h a b cands' prev' n)"
proof (intro conjI impI)
  show "case AssignReplicas h a b cands prev n of
      Inr rs \<Rightarrow> distinct rs \<and> int (length rs) = n \<and> 1 \<le> n \<and> set rs \<subseteq> set cands - {''''}
        \<and> card (set rs - set prev) \<le> (if n = 1 then 0 else 1)
    | Inl err \<Rightarrow> n < 1 \<or> int (card (set cands - {''''})) < n
        \<or> int (card ((set cands - {''''}) \<inter> set prev)) < (if n > 1 then n - 1 else n)"
  proof (cases "AssignReplicas h a b cands prev n")
    case (Inl err)
    from AssignReplicas_Inl [THEN iffD1, OF Inl] show ?thesis
      unfolding Inl sum.case retained_needed_def by metis
  next
    case (Inr rs)
    note p = AssignReplicas_Inr [OF Inr]
    have "card (set rs - set prev) = length rs - card (set rs \<inter> set prev)"
      using p by (simp add: card_Diff_subset_Int distinct_card)
    then have "card (set rs - set prev) \<le> (if n = 1 then 0 else 1)"
      using p by (auto simp: retained_needed_def split: if_splits)
    then show ?thesis using p Inr by simp
  qed
next
  show "AssignReplicas h a b cands prev n = AssignReplicas h a b cands' prev' n"
    if "set cands = set cands' \<and> set prev = set prev'" using that by (intro AssignReplicas_cong) auto
qed

section \<open>The boundary of a split\<close>

definition raw_size :: "RawKV \<Rightarrow> int" where
  "raw_size e = int (length (rkv_Key e)) + int (length (rkv_Value e))"

definition bytes_below :: "RawKV list \<Rightarrow> string \<Rightarrow> int" where
  "bytes_below es b = sum_list (map raw_size (filter (\<lambda>e. rkv_Key e < b) es))"

text \<open>How far from balanced a split at a boundary is: the difference of the bytes on its two sides.\<close>

definition imbalance :: "RawKV list \<Rightarrow> string \<Rightarrow> int" where
  "imbalance es b = \<bar>sum_list (map raw_size es) - 2 * bytes_below es b\<bar>"

fun boundaries :: "int \<Rightarrow> RawKV \<Rightarrow> RawKV list \<Rightarrow> int \<Rightarrow> (string \<times> int) list" where
  "boundaries tot p [] acc = []"
| "boundaries tot p (e # es) acc =
     (if rkv_Key p = rkv_Key e then [] else [(rkv_Key e, \<bar>tot - 2 * (acc + raw_size p)\<bar>)]) @ boundaries tot e es (acc + raw_size p)"

definition keep_better :: "string \<times> int \<Rightarrow> (string \<times> int) option \<Rightarrow> (string \<times> int) option" where
  "keep_better c best = (case best of None \<Rightarrow> Some c | Some (b, d) \<Rightarrow> if snd c < d then Some c else best)"

lemma raw_size_nonneg: "0 \<le> raw_size e" "0 \<le> sum_list (map raw_size es)"
  by (simp_all add: raw_size_def) (induction es; simp add: raw_size_def)

lemma entrySize_raw: "raw_size e < 2 ^ 62 \<Longrightarrow> entrySize e = raw_size e"
  using raw_size_nonneg(1) [of e] by (simp add: entrySize_def raw_size_def wrap64_id)

lemma total_fold:
  "sum_list (map raw_size es) + a < 2 ^ 62 \<Longrightarrow> 0 \<le> a \<Longrightarrow>
     fold (\<lambda>entry t. wrap64 (t + entrySize entry)) es a = a + sum_list (map raw_size es)"
proof (induction es arbitrary: a)
  case (Cons e es)
  have "0 \<le> raw_size e" "0 \<le> sum_list (map raw_size es)" by (rule raw_size_nonneg)+
  then have "entrySize e = raw_size e" "wrap64 (a + raw_size e) = a + raw_size e"
    using Cons.prems by (auto intro!: entrySize_raw wrap64_id)
  then show ?case using Cons.IH [of "a + raw_size e"] Cons.prems \<open>0 \<le> raw_size e\<close> by simp
qed simp

lemma PickSplit_loop_fold:
  assumes "0 \<le> acc" "acc + raw_size p + sum_list (map raw_size es) \<le> tot" "tot < 2 ^ 62"
  shows "PickSplit_loop tot p es acc best = fold keep_better (boundaries tot p es acc) best"
  using assms
proof (induction tot p es acc best rule: PickSplit_loop.induct)
  case (2 tot p e es acc best)
  have nn: "0 \<le> raw_size p" "0 \<le> raw_size e" "0 \<le> sum_list (map raw_size es)" by (rule raw_size_nonneg)+
  have sz: "entrySize p = raw_size p" using "2.prems" nn by (intro entrySize_raw) simp
  have acc: "wrap64 (acc + entrySize p) = acc + raw_size p" using "2.prems" nn sz by (simp add: wrap64_id)
  let ?d = "tot - 2 * (acc + raw_size p)"
  have d: "wrap64 (tot - wrap64 (2 * (acc + raw_size p))) = ?d" "wrap64 (- ?d) = - ?d"
    using "2.prems" nn by (simp_all add: wrap64_id)
  have prem: "0 \<le> acc + raw_size p" "acc + raw_size p + raw_size e + sum_list (map raw_size es) \<le> tot" "tot < 2 ^ 62"
    using "2.prems" nn by simp_all
  show ?case
  proof (cases "rkv_Key p = rkv_Key e")
    case True
    then show ?thesis using "2.IH"(1) [OF acc [symmetric] True] prem acc by simp
  next
    case False
    then show ?thesis
      using "2.IH"(2) [OF acc [symmetric] False refl refl] prem acc d
      by (cases best) (auto simp: Let_def keep_better_def abs_if)
  qed
qed simp

lemma keep_better_min:
  "case fold keep_better cs best of
     None \<Rightarrow> best = None \<and> cs = []
   | Some (b, d) \<Rightarrow> (best = Some (b, d) \<or> (b, d) \<in> set cs) \<and> (\<forall>c\<in>set cs. d \<le> snd c) \<and> (\<forall>c. best = Some c \<longrightarrow> d \<le> snd c)"
proof (induction cs arbitrary: best)
  case Nil
  then show ?case by (cases best) auto
next
  case (Cons c cs)
  obtain x where x: "keep_better c best = Some x" "x = c \<or> best = Some x" "snd x \<le> snd c" "\<And>y. best = Some y \<Longrightarrow> snd x \<le> snd y"
  proof (cases best)
    case None
    then show thesis by (intro that [of c]) (simp_all add: keep_better_def)
  next
    case (Some y)
    then show thesis by (intro that [of "if snd c < snd y then c else y"]) (auto simp: keep_better_def split: prod.splits)
  qed
  obtain b d where bd: "fold keep_better cs (Some x) = Some (b, d)"
    using Cons.IH [of "Some x"] by (cases "fold keep_better cs (Some x)") auto
  have IH: "x = (b, d) \<or> (b, d) \<in> set cs" "\<forall>c\<in>set cs. d \<le> snd c" "d \<le> snd x" using Cons.IH [of "Some x"] bd by auto
  have "best = Some (b, d) \<or> (b, d) \<in> set (c # cs)" using IH(1) x(2) by auto
  moreover have "\<forall>z\<in>set (c # cs). d \<le> snd z" using IH(2,3) x(3) by auto
  moreover have "\<forall>y. best = Some y \<longrightarrow> d \<le> snd y" using order_trans [OF IH(3) x(4)] by blast
  ultimately show ?case using bd x(1) by simp
qed

lemma boundaries_set:
  assumes "sorted (map rkv_Key (pre @ p # es))" "acc = sum_list (map raw_size pre)" "tot = sum_list (map raw_size (pre @ p # es))"
  shows "set (boundaries tot p es acc) = (\<lambda>b. (b, imbalance (pre @ p # es) b)) ` (rkv_Key ` set es - {rkv_Key p})"
  using assms
proof (induction es arbitrary: pre p acc)
  case (Cons e es)
  let ?all = "pre @ p # e # es"
  have IH: "set (boundaries tot e es (acc + raw_size p)) = (\<lambda>b. (b, imbalance ?all b)) ` (rkv_Key ` set es - {rkv_Key e})"
    using Cons.IH [of "pre @ [p]" e "acc + raw_size p"] Cons.prems by (simp add: sorted_append)
  have sorted: "\<forall>x\<in>set pre. rkv_Key x \<le> rkv_Key p" "rkv_Key p \<le> rkv_Key e" "\<forall>x\<in>set es. rkv_Key e \<le> rkv_Key x"
    using Cons.prems(1) by (auto simp: sorted_append)
  show ?case
  proof (cases "rkv_Key p = rkv_Key e")
    case True
    then show ?thesis using IH by (simp add: insert_Diff_if)
  next
    case False
    then have "rkv_Key p < rkv_Key e" using sorted(2) by simp
    moreover have "filter (\<lambda>x. rkv_Key x < rkv_Key e) pre = pre" using sorted(1) calculation by (intro filter_True) (metis le_less_trans)
    moreover have "filter (\<lambda>x. rkv_Key x < rkv_Key e) es = []" using sorted(3) by (auto simp: filter_empty_conv)
    ultimately have "bytes_below ?all (rkv_Key e) = acc + raw_size p" using Cons.prems(2) by (simp add: bytes_below_def)
    then have im: "imbalance ?all (rkv_Key e) = \<bar>tot - 2 * (acc + raw_size p)\<bar>" using Cons.prems(3) by (simp add: imbalance_def)
    have "rkv_Key p \<notin> rkv_Key ` set es" using sorted(2,3) False by force
    then have keys: "rkv_Key ` set (e # es) - {rkv_Key p} = insert (rkv_Key e) (rkv_Key ` set es - {rkv_Key e})" using False by auto
    have "set (boundaries tot p (e # es) acc) = insert (rkv_Key e, imbalance ?all (rkv_Key e)) (set (boundaries tot e es (acc + raw_size p)))"
      using False im by simp
    then show ?thesis unfolding IH keys image_insert .
  qed
qed simp

lemma imbalance_sort: "imbalance (sort_key f es) b = imbalance es b"
proof -
  have "mset (filter P (sort_key f es)) = mset (filter P es)" for P by simp
  then have "sum_mset (image_mset raw_size (mset (filter P (sort_key f es)))) = sum_mset (image_mset raw_size (mset (filter P es)))" for P by simp
  from this [unfolded mset_map [symmetric] sum_mset_sum_list] this [of "\<lambda>_. True", unfolded mset_map [symmetric] sum_mset_sum_list]
  show ?thesis by (simp add: imbalance_def bytes_below_def)
qed

text \<open>
  C34: The split boundary. For a range of less than \<open>2^62\<close> bytes, \<open>PickSplitBoundary\<close> returns a stored
  key other than the least one, so that both sides hold data, and no stored key splits the bytes
  more evenly. It reports that the range cannot be split exactly when there are fewer than two
  different keys.
\<close>

theorem PickSplitBoundary_best:
  assumes "scanner w start stop = (w', Inr es)" and "sum_list (map raw_size es) < 2 ^ 62"
  shows "\<exists>r. PickSplitBoundary scanner w start stop = (w', r)
    \<and> (case r of
         Inl err \<Rightarrow> err = ErrCannotSplit \<and> card (rkv_Key ` set es) < 2
       | Inr b \<Rightarrow> b \<in> rkv_Key ` set es \<and> (\<exists>k\<in>rkv_Key ` set es. k < b)
           \<and> (\<forall>b'\<in>rkv_Key ` set es. (\<exists>k\<in>rkv_Key ` set es. k < b') \<longrightarrow> imbalance es b \<le> imbalance es b'))"
proof (cases "length es < 2")
  case True
  have "card (rkv_Key ` set es) \<le> length es" by (metis card_length length_map set_map)
  then show ?thesis using True assms(1) by (simp add: PickSplitBoundary_def)
next
  case False
  define xs where "xs = sort_key rkv_Key es"
  have len: "length xs = length es" and set: "set xs = set es" by (simp_all add: xs_def)
  then obtain p ys where xs: "xs = p # ys" using False by (cases xs) auto
  have sorted: "sorted (map rkv_Key xs)" by (simp add: xs_def)
  have sum: "sum_list (map raw_size xs) = sum_list (map raw_size es)"
    by (metis xs_def mset_map mset_sort sum_mset_sum_list)
  define tot where "tot = fold (\<lambda>entry t. wrap64 (t + entrySize entry)) xs 0"
  have tot: "tot = sum_list (map raw_size xs)" using total_fold [of xs 0] assms(2) sum by (simp add: tot_def)
  let ?B = "rkv_Key ` set ys - {rkv_Key p}"
  have "set (boundaries tot p ys 0) = (\<lambda>b. (b, imbalance xs b)) ` ?B"
    using boundaries_set [of "[]" p ys 0 tot] sorted tot xs by simp
  then have bset: "set (boundaries tot p ys 0) = (\<lambda>b. (b, imbalance es b)) ` ?B" by (simp add: xs_def imbalance_sort)
  have loop: "PickSplit_loop tot p ys 0 None = fold keep_better (boundaries tot p ys 0) None"
    using tot xs assms(2) sum by (intro PickSplit_loop_fold) auto
  have least: "rkv_Key p \<le> k" if "k \<in> rkv_Key ` set es" for k using that sorted set xs by auto
  have B: "b \<in> ?B \<longleftrightarrow> b \<in> rkv_Key ` set es \<and> (\<exists>k\<in>rkv_Key ` set es. k < b)" for b
  proof
    assume "b \<in> ?B"
    then have "b \<in> rkv_Key ` set es" "rkv_Key p \<in> rkv_Key ` set es" "b \<noteq> rkv_Key p" using set xs by auto
    moreover from this have "rkv_Key p < b" using least by (simp add: order_neq_le_trans)
    ultimately show "b \<in> rkv_Key ` set es \<and> (\<exists>k\<in>rkv_Key ` set es. k < b)" by blast
  next
    assume r: "b \<in> rkv_Key ` set es \<and> (\<exists>k\<in>rkv_Key ` set es. k < b)"
    then have "b \<noteq> rkv_Key p" using least by (metis leD)
    then show "b \<in> ?B" using r set xs by auto
  qed
  note min = keep_better_min [where cs = "boundaries tot p ys 0" and best = None, folded loop]
  show ?thesis
  proof (cases "PickSplit_loop tot p ys 0 None")
    case None
    then have "?B = {}" using min bset by simp
    moreover have "rkv_Key ` set es = insert (rkv_Key p) (rkv_Key ` set ys)" using set xs by (metis image_insert list.simps(15))
    ultimately have "rkv_Key ` set es \<subseteq> {rkv_Key p}" by blast
    then have "card (rkv_Key ` set es) \<le> card {rkv_Key p}" by (intro card_mono) auto
    then show ?thesis using None assms(1) False xs
      by (simp add: PickSplitBoundary_def Let_def tot_def xs_def [symmetric])
  next
    case (Some bd)
    obtain b d where bd: "bd = (b, d)" by fastforce
    have "(b, d) \<in> set (boundaries tot p ys 0)" "\<forall>c\<in>set (boundaries tot p ys 0). d \<le> snd c" using min Some bd by auto
    then have "b \<in> ?B" "\<forall>b'\<in>?B. imbalance es b \<le> imbalance es b'" unfolding bset by auto
    then have "b \<in> rkv_Key ` set es \<and> (\<exists>k\<in>rkv_Key ` set es. k < b)
        \<and> (\<forall>b'\<in>rkv_Key ` set es. (\<exists>k\<in>rkv_Key ` set es. k < b') \<longrightarrow> imbalance es b \<le> imbalance es b')"
      using B by blast
    then show ?thesis using Some bd assms(1) False xs
      by (simp add: PickSplitBoundary_def Let_def tot_def xs_def [symmetric])
  qed
qed

section \<open>A tick of the scheduler\<close>

text \<open>A proposal that leaves every key alone or raises its generation is taken over as it is.\<close>

lemma merge_upgrade:
  assumes v: "ranges_valid (Ranges m)" "ranges_valid (Ranges n)"
    and up: "\<And>k l i. range_at (Ranges m) k = Some l \<Longrightarrow> range_at (Ranges n) k = Some i \<Longrightarrow> l = i \<or> Generation l < Generation i"
    and mg: "RangeMap_Merge m n = Some (Inr (res, c))"
  shows "map_option meta (range_at (Ranges res) k) = map_option meta (range_at (Ranges n) k)"
proof -
  have pick: "fst (pick_at (Ranges m) (Ranges n) k) = the (range_at (Ranges n) k) \<and> range_at (Ranges n) k \<noteq> None
      \<and> \<not> snd (snd (pick_at (Ranges m) (Ranges n) k))" for k
  proof -
    obtain l i where li: "range_at (Ranges m) k = Some l" "range_at (Ranges n) k = Some i"
        "pick_at (Ranges m) (Ranges n) k = pickRange l i (the (rangeIndexAt (Ranges m) k)) (the (rangeIndexAt (Ranges n) k))"
      using pick_at_props [OF v, of k] by metis
    obtain w src t where p: "pick_at (Ranges m) (Ranges n) k = (w, src, t)" by (metis prod_cases3)
    have "w = i \<and> \<not> t" using pickRange_cases [OF trans [OF li(3) [symmetric] p]] up [OF li(1,2)] by auto
    then show ?thesis using p li(2) by simp
  qed
  have bumps: "merge_bumps m n = []" using pick by (simp add: merge_bumps_def tied_refs_def tied_at_def filter_empty_conv)
  have nt: "\<not> ties_at_max m n" using pick by (simp add: ties_at_max_def tied_at_def)
  have res: "Ranges res = coalesceSegments (merge_segs m n)"
    using mg nt by (auto simp: Merge_eq [OF v] simp del: rangeMapsEqual_iff)
  have "\<not> bumped_at m n k" by (simp add: bumped_at_def bumps split: prod.splits)
  then show ?thesis using merged_at [OF v nt, of k] pick [of k] by (auto simp: res meta_def)
qed

text \<open>What a change of a key's owners keeps.\<close>

definition safe_handover :: "'w TabletScheduler \<Rightarrow> string list \<Rightarrow> string list \<Rightarrow> string list \<Rightarrow> bool" where
  "safe_handover s cands old new \<longleftrightarrow>
     tc_NodeID (ts_cfg s) \<in> set old \<and> distinct new \<and> int (length new) = tc_ReplicationFactor (ts_cfg s) \<and> set new \<subseteq> set cands
     \<and> card (set new - set old) \<le> 1 \<and> set new \<inter> set old \<noteq> {}"

lemma AssignReplicas_handover:
  assumes "AssignReplicas h a b cands prev (tc_ReplicationFactor (ts_cfg s)) = Inr new" "set prev \<subseteq> set old" "tc_NodeID (ts_cfg s) \<in> set old"
  shows "safe_handover s cands old new"
proof -
  note p = AssignReplicas_Inr [OF assms(1)]
  let ?n = "tc_ReplicationFactor (ts_cfg s)"
  have "card (set new \<inter> set prev) \<le> card (set new \<inter> set old)" using assms(2) by (intro card_mono) auto
  then have le: "retained_needed ?n \<le> int (card (set new \<inter> set old))" using p by linarith
  have "card (set new - set old) = length new - card (set new \<inter> set old)" using p by (simp add: card_Diff_subset_Int distinct_card)
  then have "card (set new - set old) \<le> 1" using p le by (auto simp: retained_needed_def split: if_splits)
  moreover have "0 < card (set new \<inter> set old)" using le p by (auto simp: retained_needed_def split: if_splits)
  ultimately show ?thesis using p assms(3) by (auto simp: safe_handover_def card_gt_0_iff)
qed

definition changed_safely :: "'w TabletScheduler \<Rightarrow> string list \<Rightarrow> Table \<Rightarrow> Table \<Rightarrow> bool" where
  "changed_safely s cands t t' \<longleftrightarrow> table_ok t' \<and> localNodeID t' = localNodeID t \<and>
     (\<forall>k. Table_Owners t' k = Table_Owners t k \<and> gen_at t' k = gen_at t k
        \<or> safe_handover s cands (Table_Owners t k) (Table_Owners t' k) \<and> gen_at t k < gen_at t' k)"

lemma Owners_at: "range_at (Ranges (rangeMap t)) k = Some r \<Longrightarrow> Table_Owners t k = Replicas r \<and> gen_at t k = unat (Generation r)"
  by (simp add: Table_Owners_def Owners_range_at gen_at_def)

text \<open>Applying a proposal: nothing happens, or the table is the proposal at every key.\<close>

lemma apply_cases:
  assumes ok: "table_ok (tb_table st)"
    and up: "\<And>k l. ranges_valid (Ranges proposal) \<Longrightarrow> range_at (Ranges (rangeMap (tb_table st))) k = Some l \<Longrightarrow>
      \<exists>i. range_at (Ranges proposal) k = Some i
        \<and> (i = l \<or> Generation l < Generation i \<and> safe_handover s cands (Replicas l) (Replicas i))"
  obtains "Tablet_apply s st proposal = Some (st, False)"
  | t' where "changed_safely s cands (tb_table st) t'" "t' \<noteq> tb_table st"
      "Tablet_apply s st proposal = Some (st\<lparr>tb_table := t', tb_published := tb_published st @ (if ts_has_publisher s then [Table_Epoch t'] else [])\<rparr>, True)"
proof -
  obtain t' r where m: "Table_Merge (tb_table st) proposal = Some (t', r)" using tab.merge_returns [OF ok] by blast
  from ok m show thesis
  proof (cases rule: Table_Merge_cases)
    case 1
    then show thesis using that(1) m by (cases r) (auto simp: Tablet_apply_def)
  next
    case 2
    have v: "ranges_valid (Ranges (rangeMap (tb_table st)))" "ranges_valid (Ranges proposal)"
      using ok 2(1) by (simp_all add: table_ok_def)
    have at: "map_option meta (range_at (Ranges (rangeMap t')) k) = map_option meta (range_at (Ranges proposal) k)" for k
      using up [OF v(2)] by (intro merge_upgrade [OF v _ 2(2)]) fastforce
    have "table_ok t'" by (rule tab.merge_inv [OF ok m])
    moreover have "Table_Owners t' k = Table_Owners (tb_table st) k \<and> gen_at t' k = gen_at (tb_table st) k
        \<or> safe_handover s cands (Table_Owners (tb_table st) k) (Table_Owners t' k) \<and> gen_at (tb_table st) k < gen_at t' k" for k
    proof -
      obtain l where l: "range_at (Ranges (rangeMap (tb_table st))) k = Some l" by (rule pick_at_props [OF v]) 
      obtain i where i: "range_at (Ranges proposal) k = Some i"
          "i = l \<or> Generation l < Generation i \<and> safe_handover s cands (Replicas l) (Replicas i)" using up [OF v(2) l] by blast
      obtain r where r: "range_at (Ranges (rangeMap t')) k = Some r" "meta r = meta i" using at [of k] i(1) by auto
      then have "Replicas r = Replicas i" "Generation r = Generation i" by (simp_all add: meta_def)
      then show ?thesis using Owners_at [OF l] Owners_at [OF r(1)] i(2) by (auto simp: word_less_nat_alt)
    qed
    ultimately have "changed_safely s cands (tb_table st) t'" using 2(4) by (simp add: changed_safely_def)
    moreover have "rangeMap t' \<noteq> rangeMap (tb_table st)" using 2(2) by (auto simp: Merge_eq [OF v] split: if_splits)
    ultimately show thesis using m 2(3) by (intro that(2) [of t']) (auto simp: Tablet_apply_def)
  qed
qed

lemma range_at_Some: "range_at rs k = Some r \<Longrightarrow> r \<in> set rs \<and> Range_Contains r k"
  by (auto simp: range_at_def find_Some_iff)

text \<open>Replacing ranges by others that hold the same keys.\<close>

lemma range_at_replace:
  assumes same: "(\<exists>r\<in>set mid. Range_Contains r k) \<longleftrightarrow> (\<exists>r\<in>set mid'. Range_Contains r k)"
    and l: "range_at (pre @ mid @ post) k = Some l"
  obtains "range_at (pre @ mid' @ post) k = Some l"
  | i where "l \<in> set mid" "i \<in> set mid'" "range_at (pre @ mid' @ post) k = Some i"
proof (cases "range_at pre k")
  case (Some x)
  then show thesis using that(1) l by (simp add: range_at_append)
next
  case pre: None
  show thesis
  proof (cases "range_at mid k")
    case None
    then have "range_at mid' k = None" using same by (auto simp: range_at_def find_None_iff)
    then show thesis using that(1) l pre None by (simp add: range_at_append)
  next
    case (Some x)
    then have "range_at mid' k \<noteq> None" using same range_at_Some [OF Some] by (auto simp: range_at_def find_None_iff)
    then obtain i where i: "range_at mid' k = Some i" by blast
    then have "range_at (pre @ mid' @ post) k = Some i" "x = l" using l pre Some by (simp_all add: range_at_append)
    then show thesis using that(2) range_at_Some [OF Some] range_at_Some [OF i] by blast
  qed
qed

lemma gen_next: "Generation (r :: Range) \<noteq> -1 \<Longrightarrow> Generation r < Generation r + 1"
  by (simp add: word_less_nat_alt unat_u64_inc)

lemma valid_mem: "ranges_valid rs \<Longrightarrow> r \<in> set rs \<Longrightarrow> End r \<noteq> '''' \<Longrightarrow> Start r < End r"
  by (auto simp: ranges_valid_def range_ok_def)

lemma nth_split2: "Suc i < length xs \<Longrightarrow> take i xs @ [xs ! i, xs ! Suc i] @ drop (Suc (Suc i)) xs = xs"
  by (simp add: Cons_nth_drop_Suc)

lemma chain_next: "chain e rs \<Longrightarrow> Suc i < length rs \<Longrightarrow> Start (rs ! Suc i) = End (rs ! i)"
proof (induction rs arbitrary: e i)
  case (Cons r rs)
  then show ?case by (cases i; cases rs) auto
qed simp

lemma merged_contains:
  assumes "ranges_valid rs" "ranges_proper rs" "Suc i < length rs" "Start m = Start (rs ! i)" "End m = End (rs ! Suc i)"
  shows "Range_Contains m k \<longleftrightarrow> Range_Contains (rs ! i) k \<or> Range_Contains (rs ! Suc i) k"
proof -
  have st: "Start (rs ! Suc i) = End (rs ! i)" using assms(1,3) by (intro chain_next) (auto simp: ranges_valid_def)
  have "rs ! i \<in> set (butlast rs)" using nth_mem [of i "butlast rs"] assms(3) by (simp add: nth_butlast)
  then have ne: "End (rs ! i) \<noteq> ''''" using assms(2) by (simp add: ranges_proper_def)
  have lt: "Start (rs ! i) < End (rs ! i)" using valid_mem [OF assms(1) _ ne] assms(3) by simp
  have "End (rs ! Suc i) \<noteq> '''' \<Longrightarrow> Start (rs ! Suc i) < End (rs ! Suc i)" using valid_mem [OF assms(1)] assms(3) by simp
  then show ?thesis using st ne lt assms(4,5) by (auto simp: Range_Contains_iff dest: less_trans)
qed

lemma split_upgrade:
  assumes ok: "table_ok t" and i: "i < length (Ranges (rangeMap t))" "c = Ranges (rangeMap t) ! i" "Generation c \<noteq> -1"
    and nid: "tc_NodeID (ts_cfg s) \<in> set (Replicas c)" and b: "b \<noteq> ''''"
    and left: "AssignReplicas h (Start c) b cands (Replicas c) (tc_ReplicationFactor (ts_cfg s)) = Inr lr"
    and right: "AssignReplicas h b (End c) cands (Replicas c) (tc_ReplicationFactor (ts_cfg s)) = Inr rr"
    and n: "n = take i (Ranges (rangeMap t))
      @ [\<lparr>Start = Start c, End = b, Replicas = lr, Generation = Generation c + 1, ProposalID = p\<rparr>,
         \<lparr>Start = b, End = End c, Replicas = rr, Generation = Generation c + 1, ProposalID = p\<rparr>]
      @ drop (i + 1) (Ranges (rangeMap t))"
    and v: "ranges_valid n" and l: "range_at (Ranges (rangeMap t)) k = Some l"
  shows "\<exists>x. range_at n k = Some x \<and> (x = l \<or> Generation l < Generation x \<and> safe_handover s cands (Replicas l) (Replicas x))"
proof -
  let ?rs = "Ranges (rangeMap t)"
  let ?L = "\<lparr>Start = Start c, End = b, Replicas = lr, Generation = Generation c + 1, ProposalID = p\<rparr>"
  let ?R = "\<lparr>Start = b, End = End c, Replicas = rr, Generation = Generation c + 1, ProposalID = p\<rparr>"
  have rs: "?rs = take i ?rs @ [c] @ drop (i + 1) ?rs" using i(1,2) by (simp add: id_take_nth_drop)
  have lt: "Start c < b" "End c \<noteq> '''' \<Longrightarrow> b < End c"
    using valid_mem [OF v, of ?L] valid_mem [OF v, of ?R] n b by auto
  have same: "(\<exists>r\<in>set [c]. Range_Contains r k) \<longleftrightarrow> (\<exists>r\<in>set [?L, ?R]. Range_Contains r k)"
    using lt b by (auto simp: Range_Contains_iff dest: less_trans)
  from l have l': "range_at (take i ?rs @ [c] @ drop (i + 1) ?rs) k = Some l" by (simp only: rs [symmetric])
  have hand: "safe_handover s cands (Replicas c) lr" "safe_handover s cands (Replicas c) rr"
    by (rule AssignReplicas_handover [OF left order_refl nid], rule AssignReplicas_handover [OF right order_refl nid])
  from same l' show ?thesis
  proof (cases rule: range_at_replace)
    case 1
    then show ?thesis using n by auto
  next
    case (2 x)
    then show ?thesis using n hand gen_next [OF i(3)] by auto
  qed
qed

lemma merge_upgrade_ranges:
  assumes ok: "table_ok t" and i: "Suc i < length (Ranges (rangeMap t))" "l0 = Ranges (rangeMap t) ! i" "r0 = Ranges (rangeMap t) ! Suc i"
    and g: "max (Generation l0) (Generation r0) \<noteq> -1"
    and nid: "tc_NodeID (ts_cfg s) \<in> set (Replicas l0)" "tc_NodeID (ts_cfg s) \<in> set (Replicas r0)"
    and asg: "AssignReplicas h (Start l0) (End r0) cands (intersectReplicas (Replicas l0) (Replicas r0)) (tc_ReplicationFactor (ts_cfg s)) = Inr reps"
    and m: "m = \<lparr>Start = Start l0, End = End r0, Replicas = reps, Generation = max (Generation l0) (Generation r0) + 1, ProposalID = p\<rparr>"
    and l: "range_at (Ranges (rangeMap t)) k = Some l"
  shows "\<exists>x. range_at (take i (Ranges (rangeMap t)) @ [m] @ drop (i + 2) (Ranges (rangeMap t))) k = Some x
    \<and> (x = l \<or> Generation l < Generation x \<and> safe_handover s cands (Replicas l) (Replicas x))"
proof -
  let ?rs = "Ranges (rangeMap t)"
  have rs: "?rs = take i ?rs @ [l0, r0] @ drop (i + 2) ?rs" using nth_split2 [OF i(1)] i(2,3) by simp
  have vp: "ranges_valid ?rs" "ranges_proper ?rs" using ok by (simp_all add: table_ok_def)
  have same: "(\<exists>r\<in>set [l0, r0]. Range_Contains r k) \<longleftrightarrow> (\<exists>r\<in>set [m]. Range_Contains r k)"
    using merged_contains [OF vp i(1), of m k] m i(2,3) by auto
  from l have l': "range_at (take i ?rs @ [l0, r0] @ drop (i + 2) ?rs) k = Some l" by (simp only: rs [symmetric])
  have hand: "safe_handover s cands (Replicas x) reps" if "x = l0 \<or> x = r0" for x
    using that nid by (intro AssignReplicas_handover [OF asg]) (auto simp: intersectReplicas_def)
  have gen: "Generation x < max (Generation l0) (Generation r0) + 1" if "x = l0 \<or> x = r0" for x
  proof -
    have "Generation x \<le> max (Generation l0) (Generation r0)" using that by auto
    also have "\<dots> < max (Generation l0) (Generation r0) + 1" using g by (simp add: word_less_nat_alt unat_u64_inc)
    finally show ?thesis .
  qed
  from same l' show ?thesis
  proof (cases rule: range_at_replace)
    case 1
    then show ?thesis by auto
  next
    case (2 x)
    then have "l = l0 \<or> l = r0" "x = m" by auto
    then show ?thesis using 2(3) hand gen m by auto
  qed
qed

text \<open>What a step of the loop may do: change nothing but the world, or the table safely and publish its epoch.\<close>

definition kept :: "'w tablet_state \<Rightarrow> 'w tablet_state \<Rightarrow> bool" where
  "kept st st' \<longleftrightarrow> tb_table st' = tb_table st \<and> tb_published st' = tb_published st \<and> tb_settled st' = tb_settled st"

definition moved :: "'w TabletScheduler \<Rightarrow> string list \<Rightarrow> 'w tablet_state \<Rightarrow> 'w tablet_state \<Rightarrow> bool" where
  "moved s cands st st' \<longleftrightarrow> changed_safely s cands (tb_table st) (tb_table st') \<and> tb_table st' \<noteq> tb_table st
     \<and> tb_published st' = tb_published st @ (if ts_has_publisher s then [Table_Epoch (tb_table st')] else [])"

definition step_result :: "'w TabletScheduler \<Rightarrow> string list \<Rightarrow> 'w tablet_state \<Rightarrow> ('w tablet_state \<times> bool) option \<Rightarrow> bool" where
  "step_result s cands st r \<longleftrightarrow> (\<exists>st' b. r = Some (st', b) \<and> (if b then moved s cands st st' else kept st st'))"

lemma kept_same: "step_result s cands st (Some (st\<lparr>tb_world := w\<rparr>, False))" "step_result s cands st (Some (st, False))"
  by (auto simp: step_result_def kept_def)

lemma apply_step:
  assumes "table_ok (tb_table st)" "st0 = st\<lparr>tb_world := w\<rparr>"
    and "\<And>k l. ranges_valid (Ranges proposal) \<Longrightarrow> range_at (Ranges (rangeMap (tb_table st))) k = Some l \<Longrightarrow>
      \<exists>i. range_at (Ranges proposal) k = Some i
        \<and> (i = l \<or> Generation l < Generation i \<and> safe_handover s cands (Replicas l) (Replicas i))"
  shows "step_result s cands st (Tablet_apply s st0 proposal)"
proof -
  have ok: "table_ok (tb_table st0)" using assms(1,2) by simp
  show ?thesis
    by (rule apply_cases [OF ok, of proposal s cands]) (use assms in \<open>auto simp: step_result_def kept_def moved_def\<close>)
qed

lemma splitRange_step:
  assumes ok: "table_ok (tb_table st)" and snap: "snapshot = rangeMap (tb_table st)" and i: "i < length (Ranges snapshot)"
    and nid: "tc_NodeID (ts_cfg s) \<in> set (Replicas (Ranges snapshot ! i))"
  shows "step_result s cands st (splitRange s st snapshot i cands)"
proof -
  let ?c = "Ranges snapshot ! i"
  obtain w r where b: "PickSplitBoundary (ts_scan s) (tb_world st) (Start ?c) (End ?c) = (w, r)" by fastforce
  show ?thesis
  proof (cases "Generation ?c = -1 \<or> isl r")
    case True
    then show ?thesis using b kept_same by (cases r) (auto simp: splitRange_def Let_def)
  next
    case False
    then obtain bd where r: "r = Inr bd" and g: "Generation ?c \<noteq> -1" by (cases r) auto
    let ?A = "\<lambda>x y. AssignReplicas (ts_xxhash64 s) x y cands (Replicas ?c) (tc_ReplicationFactor (ts_cfg s))"
    consider (bad) "bd = '''' \<or> bd = Start ?c \<or> bd = End ?c \<or> isl (?A (Start ?c) bd) \<or> isl (?A bd (End ?c))"
      | (good) lr rr where "bd \<noteq> ''''" "bd \<noteq> Start ?c" "bd \<noteq> End ?c" "?A (Start ?c) bd = Inr lr" "?A bd (End ?c) = Inr rr"
      by (cases "?A (Start ?c) bd"; cases "?A bd (End ?c)") auto
    then show ?thesis
    proof cases
      case bad
      then show ?thesis using b r g kept_same
        by (cases "?A (Start ?c) bd"; cases "?A bd (End ?c)") (auto simp: splitRange_def Let_def)
    next
      case (good lr rr)
      let ?p = "ProposalID_of (ts_sha256_hex s)
        [\<lparr>Start = Start ?c, End = bd, Replicas = lr, Generation = Generation ?c + 1, ProposalID = ''''\<rparr>,
         \<lparr>Start = bd, End = End ?c, Replicas = rr, Generation = Generation ?c + 1, ProposalID = ''''\<rparr>]"
      have eq: "splitRange s st snapshot i cands = Tablet_apply s (st\<lparr>tb_world := w\<rparr>)
        \<lparr>Ranges = take i (Ranges snapshot)
          @ [\<lparr>Start = Start ?c, End = bd, Replicas = lr, Generation = Generation ?c + 1, ProposalID = ?p\<rparr>,
             \<lparr>Start = bd, End = End ?c, Replicas = rr, Generation = Generation ?c + 1, ProposalID = ?p\<rparr>]
          @ drop (i + 1) (Ranges snapshot)\<rparr>"
        using b r g good by (simp add: splitRange_def Let_def)
      show ?thesis unfolding eq
        by (rule apply_step [OF ok refl])
           (use split_upgrade [OF ok i [unfolded snap] refl _ _ good(1) good(4,5) [unfolded snap] refl] g nid snap in simp)
    qed
  qed
qed

lemma mergeRanges_step:
  assumes ok: "table_ok (tb_table st)" and snap: "snapshot = rangeMap (tb_table st)" and i: "Suc i < length (Ranges snapshot)"
    and nid: "tc_NodeID (ts_cfg s) \<in> set (Replicas (Ranges snapshot ! i))" "tc_NodeID (ts_cfg s) \<in> set (Replicas (Ranges snapshot ! Suc i))"
  shows "step_result s cands st (mergeRanges s st snapshot i cands)"
proof -
  let ?l = "Ranges snapshot ! i" and ?r = "Ranges snapshot ! Suc i"
  let ?A = "AssignReplicas (ts_xxhash64 s) (Start ?l) (End ?r) cands (intersectReplicas (Replicas ?l) (Replicas ?r)) (tc_ReplicationFactor (ts_cfg s))"
  let ?g = "max (Generation ?l) (Generation ?r)"
  show ?thesis
  proof (cases "?g = -1 \<or> isl ?A")
    case True
    then show ?thesis using kept_same by (cases ?A) (auto simp: mergeRanges_def Let_def)
  next
    case False
    then obtain reps where a: "?A = Inr reps" and g: "?g \<noteq> -1" by (cases ?A) auto
    let ?p = "ProposalID_of (ts_sha256_hex s) [\<lparr>Start = Start ?l, End = End ?r, Replicas = reps, Generation = ?g + 1, ProposalID = ''''\<rparr>]"
    have eq: "mergeRanges s st snapshot i cands = Tablet_apply s (st\<lparr>tb_world := tb_world st\<rparr>)
      \<lparr>Ranges = take i (Ranges snapshot) @ [\<lparr>Start = Start ?l, End = End ?r, Replicas = reps, Generation = ?g + 1, ProposalID = ?p\<rparr>]
        @ drop (i + 2) (Ranges snapshot)\<rparr>"
      using a g by (simp add: mergeRanges_def Let_def)
    show ?thesis unfolding eq
      by (rule apply_step [OF ok refl])
         (use merge_upgrade_ranges [OF ok i [unfolded snap] refl refl _ _ _ a [unfolded snap] refl] g nid snap in simp)
  qed
qed

lemma kept_trans: "kept st st1 \<Longrightarrow> kept st1 st2 \<Longrightarrow> kept st st2" "kept st st1 \<Longrightarrow> moved s c st1 st2 \<Longrightarrow> moved s c st st2"
  by (simp_all add: kept_def moved_def)

lemma kept_world: "kept st (st\<lparr>tb_world := w\<rparr>)" "kept st st"
  by (simp_all add: kept_def)

text \<open>The branches of one iteration.\<close>

definition due :: "'w TabletScheduler \<Rightarrow> 'w tablet_state \<Rightarrow> Range \<Rightarrow> bool" where
  "due s st r \<longleftrightarrow> containsReplica (Replicas r) (tc_NodeID (ts_cfg s)) \<and> isSettled (ts_cfg s) (tb_settled st) r"

definition finish :: "('w tablet_state \<times> bool) option \<Rightarrow> ('w tablet_state \<Rightarrow> 'w tablet_state option) \<Rightarrow> 'w tablet_state option" where
  "finish r continue = (case r of None \<Rightarrow> None | Some (st, True) \<Rightarrow> Some st | Some (st, False) \<Rightarrow> continue st)"

lemma tick_loop_Cons:
  "Tablet_tick_loop s sn cands (i # is) st =
     (let r = Ranges sn ! i; nxt = Ranges sn ! (i + 1); continue = Tablet_tick_loop s sn cands is
      in if \<not> due s st r then continue st
         else case EstimateSize (ts_scan s) (tb_world st) (Start r) (End r) of
                (w, Inl err) \<Rightarrow> continue (st\<lparr>tb_world := w\<rparr>)
              | (w, Inr sz) \<Rightarrow>
                  if tc_SplitBytes (ts_cfg s) \<le> sz then finish (splitRange s (st\<lparr>tb_world := w\<rparr>) sn i cands) continue
                  else if sz \<le> tc_MergeBytes (ts_cfg s) \<and> i + 1 < length (Ranges sn) \<and> due s st nxt
                  then (case EstimateSize (ts_scan s) w (Start nxt) (End nxt) of
                          (w2, Inl err) \<Rightarrow> continue (st\<lparr>tb_world := w2\<rparr>)
                        | (w2, Inr nextSize) \<Rightarrow>
                            if nextSize \<le> tc_MergeBytes (ts_cfg s) then finish (mergeRanges s (st\<lparr>tb_world := w2\<rparr>) sn i cands) continue
                            else continue (st\<lparr>tb_world := w2\<rparr>))
                  else continue (st\<lparr>tb_world := w\<rparr>))"
  by (simp add: due_def finish_def Let_def split: prod.split sum.split)

lemma Tablet_tick_loop_step:
  assumes "table_ok (tb_table st)" "snapshot = rangeMap (tb_table st)" "\<forall>i\<in>set is. i < length (Ranges snapshot)"
  shows "\<exists>st'. Tablet_tick_loop s snapshot cands is st = Some st' \<and> (kept st st' \<or> moved s cands st st')"
  using assms
proof (induction "is" arbitrary: st)
  case (Cons i "is")
  define cont where "cont = Tablet_tick_loop s snapshot cands is"
  let ?good = "\<lambda>r. \<exists>st'. r = Some st' \<and> (kept st st' \<or> moved s cands st st')"
  have go: "?good (cont st1)" if k: "kept st st1" for st1
  proof -
    have "\<exists>st'. cont st1 = Some st' \<and> (kept st1 st' \<or> moved s cands st1 st')"
      unfolding cont_def using Cons.prems k by (intro Cons.IH) (simp_all add: kept_def)
    then show ?thesis using kept_trans [OF k] by blast
  qed
  have fin: "?good (finish r cont)" if r: "step_result s cands st1 r" and k: "kept st st1" for r st1
  proof -
    obtain st2 b where st2: "r = Some (st2, b)" "if b then moved s cands st1 st2 else kept st1 st2" using r by (auto simp: step_result_def)
    show ?thesis using st2 go [of st2] kept_trans [OF k] by (cases b) (auto simp: finish_def)
  qed
  let ?r = "Ranges snapshot ! i" and ?n = "Ranges snapshot ! (i + 1)"
  have split: "?good (finish (splitRange s (st\<lparr>tb_world := w\<rparr>) snapshot i cands) cont)" if "due s st ?r" for w
    by (rule fin [OF _ kept_world(1)], rule splitRange_step) (use Cons.prems that in \<open>auto simp: due_def containsReplica_def list_ex_iff\<close>)
  have merge: "?good (finish (mergeRanges s (st\<lparr>tb_world := w\<rparr>) snapshot i cands) cont)"
    if "due s st ?r" "i + 1 < length (Ranges snapshot)" "due s st ?n" for w
    by (rule fin [OF _ kept_world(1)], rule mergeRanges_step) (use Cons.prems that in \<open>auto simp: due_def containsReplica_def list_ex_iff\<close>)
  show ?case
    unfolding tick_loop_Cons Let_def cont_def [symmetric]
    using go [OF kept_world(2)] go [OF kept_world(1)] split merge by (auto split: prod.split sum.split)
qed (simp add: kept_def)

text \<open>
  C32: A tick of the tablet scheduler on a well-formed table always returns with a well-formed table,
  and is a safe handover: the owners of a key stay the same, or the node was one of them, the new
  ones are distinct alive nodes in the number of the replication factor, at most one of them is
  new and one of them is old, and the generation of the key has grown. The epoch of the table is
  published exactly when the table has changed.
\<close>

theorem Tablet_tick_safe:
  assumes "table_ok (tb_table st)"
  shows "\<exists>st'. Tablet_tick s cands st = Some st' \<and> table_ok (tb_table st')
    \<and> (\<forall>k. Table_Owners (tb_table st') k = Table_Owners (tb_table st) k \<and> gen_at (tb_table st') k = gen_at (tb_table st) k
         \<or> safe_handover s cands (Table_Owners (tb_table st) k) (Table_Owners (tb_table st') k)
           \<and> gen_at (tb_table st) k < gen_at (tb_table st') k)
    \<and> tb_published st' = tb_published st
         @ (if tb_table st' \<noteq> tb_table st \<and> ts_has_publisher s then [Table_Epoch (tb_table st')] else [])"
proof -
  let ?st = "st\<lparr>tb_settled := updateSettled (ts_cfg s) (tb_settled st) (Table_Snapshot (tb_table st))\<rparr>"
  have tick: "Tablet_tick s cands st =
      Tablet_tick_loop s (rangeMap (tb_table st)) cands [0..<length (Ranges (rangeMap (tb_table st)))] ?st"
    by (simp add: Tablet_tick_def Table_Snapshot_def Let_def)
  have "\<exists>st'. Tablet_tick s cands st = Some st' \<and> (kept ?st st' \<or> moved s cands ?st st')"
    unfolding tick by (rule Tablet_tick_loop_step) (simp_all add: assms)
  then obtain st' where st': "Tablet_tick s cands st = Some st'" "kept ?st st' \<or> moved s cands ?st st'" by blast
  from st'(2) show ?thesis
  proof
    assume "kept ?st st'"
    then show ?thesis using st'(1) assms by (simp add: kept_def)
  next
    assume "moved s cands ?st st'"
    then have m: "changed_safely s cands (tb_table st) (tb_table st')" "tb_table st' \<noteq> tb_table st"
      "tb_published st' = tb_published st @ (if ts_has_publisher s then [Table_Epoch (tb_table st')] else [])"
      by (simp_all add: moved_def)
    then show ?thesis using st'(1) unfolding changed_safely_def by simp
  qed
qed

theorem AssignReplicas_spec_witness:
  "AssignReplicas (\<lambda>_. 0) ''a'' ''m'' [''n2'', ''n1''] [''n1''] 1 = AssignReplicas (\<lambda>_. 0) ''a'' ''m'' [''n1'', ''n2''] [''n1''] 1"
  using AssignReplicas_spec [where h = "\<lambda>_. 0" and a = "''a''" and b = "''m''" and cands = "[''n2'', ''n1'']" and prev = "[''n1'']"
      and n = 1 and cands' = "[''n1'', ''n2'']" and prev' = "[''n1'']"] by (simp add: insert_commute)

definition ex_scanner :: "unit scanner" where
  "ex_scanner w start stop = (w, Inr [\<lparr>rkv_Key = ''a'', rkv_Value = ''123456''\<rparr>, \<lparr>rkv_Key = ''b'', rkv_Value = ''x''\<rparr>, \<lparr>rkv_Key = ''c'', rkv_Value = ''x''\<rparr>])"

theorem PickSplitBoundary_best_witness:
  "\<exists>b. PickSplitBoundary ex_scanner () '''' '''' = ((), Inr b) \<and> (b = ''b'' \<or> b = ''c'')"
proof -
  let ?es = "[\<lparr>rkv_Key = ''a'', rkv_Value = ''123456''\<rparr>, \<lparr>rkv_Key = ''b'', rkv_Value = ''x''\<rparr>, \<lparr>rkv_Key = ''c'', rkv_Value = ''x''\<rparr>]"
  obtain r where r: "PickSplitBoundary ex_scanner () '''' '''' = ((), r)"
    "case r of
         Inl err \<Rightarrow> err = ErrCannotSplit \<and> card (rkv_Key ` set ?es) < 2
       | Inr b \<Rightarrow> b \<in> rkv_Key ` set ?es \<and> (\<exists>k\<in>rkv_Key ` set ?es. k < b)
           \<and> (\<forall>b'\<in>rkv_Key ` set ?es. (\<exists>k\<in>rkv_Key ` set ?es. k < b') \<longrightarrow> imbalance ?es b \<le> imbalance ?es b')"
    using PickSplitBoundary_best [of ex_scanner "()" "''''" "''''" "()" ?es] by (auto simp: ex_scanner_def raw_size_def)
  then obtain b where b: "r = Inr b" by (cases r) auto
  have "b = ''b'' \<or> b = ''c''" using r(2) unfolding b by auto
  then show ?thesis using r(1) b by blast
qed

definition ex_tablet :: "unit TabletScheduler" where
  "ex_tablet = \<lparr>ts_cfg = \<lparr>tc_NodeID = ''n1'', tc_SplitBytes = 10, tc_MergeBytes = 2, tc_ReplicationFactor = 2, tc_SettlingTicks = 1\<rparr>,
     ts_scan = ex_scanner, ts_xxhash64 = (\<lambda>_. 0), ts_sha256_hex = (\<lambda>_. ''p''), ts_has_publisher = True\<rparr>"

definition ex_tablet_state :: "unit tablet_state" where
  "ex_tablet_state = \<lparr>tb_world = (), tb_table = ex_table ''n1'', tb_settled = (\<lambda>_. 0), tb_published = []\<rparr>"

theorem Tablet_tick_safe_witness:
  "\<exists>st'. Tablet_tick ex_tablet [''n1'', ''n2''] ex_tablet_state = Some st' \<and> table_ok (tb_table st')"
proof -
  have "table_ok (tb_table ex_tablet_state)" using ex_table_ok by (simp add: ex_tablet_state_def)
  from Tablet_tick_safe [OF this, of ex_tablet "[''n1'', ''n2'']"] show ?thesis by blast
qed

end
