(* ===== verification/Bloom.thy ===== *)
theory Bloom
  imports Prelude "HOL-Library.Monad_Syntax"
begin

text \<open>
  The Bloom filters beside the data of an SSTable: \<open>src/models/bloom_filter\<close> (\<open>filter.go\<close>, \<open>hash.go\<close>,
  \<open>prefixfilter.go\<close>).

  The hash is MD5 with a seed behind the data, read as a big-endian number; \<open>md5\<close>, the first eight
  bytes of the digest, is an argument. The two sizes of a filter are computed with floating-point logarithms in
  \<open>params.go\<close>; \<open>params n\<close>, the pair of \<open>CalculateM\<close> and \<open>CalculateK\<close> for \<open>n\<close> expected elements, is an argument, and so
  is the random number \<open>ts\<close> the seeds start from. \<open>None\<close> is a panic (a division by zero, an index out of range,
  a negative length).
\<close>

section \<open>hash.go\<close>

type_synonym HashWithSeed = "byte list"

definition HashWithSeed_Hash :: "(byte list \<Rightarrow> u64) \<Rightarrow> HashWithSeed \<Rightarrow> byte list \<Rightarrow> u64" where
  "HashWithSeed_Hash md5 seed data = md5 (data @ seed)"

definition CreateHashFunctions :: "32 word \<Rightarrow> 32 word \<Rightarrow> HashWithSeed list" where
  "CreateHashFunctions ts k = map (\<lambda>i. be_enc 4 (unat (ts + of_nat i))) [0..<unat k]"

section \<open>filter.go\<close>

record BloomFilter =
  bf_K :: "32 word"
  bf_M :: "32 word"
  bf_Array :: "byte list"
  bf_Hashes :: "HashWithSeed list"

type_synonym bloom_params = "int \<Rightarrow> u64 \<times> u64"

definition NewBloomFilterWithParams :: "bloom_params \<Rightarrow> 32 word \<Rightarrow> int \<Rightarrow> BloomFilter option" where
  "NewBloomFilterWithParams params ts expectedElements =
     (let (m, k) = params expectedElements; K = ucast k; M = ucast m
      in if sint (M :: 32 word) < 0 then None
         else Some \<lparr>bf_K = K, bf_M = M, bf_Array = replicate (nat (sint M)) 0,
                    bf_Hashes = CreateHashFunctions ts K\<rparr>)"

text \<open>The slot of a hash: the remainder by \<open>uint64(filter.M)\<close>, which panics when it is zero.\<close>

definition bloom_index :: "(byte list \<Rightarrow> u64) \<Rightarrow> 32 word \<Rightarrow> HashWithSeed \<Rightarrow> string \<Rightarrow> nat option" where
  "bloom_index md5 M seed s =
     (if M = 0 then None
      else Some (unat (HashWithSeed_Hash md5 seed (bytes_of s) mod (scast M :: u64))))"

fun bloom_mark :: "(byte list \<Rightarrow> u64) \<Rightarrow> 32 word \<Rightarrow> string \<Rightarrow> HashWithSeed list \<Rightarrow> byte list \<Rightarrow> byte list option" where
  "bloom_mark md5 M s [] A = Some A"
| "bloom_mark md5 M s (seed # hs) A =
     do { i \<leftarrow> bloom_index md5 M seed s;
          if i < length A then bloom_mark md5 M s hs (A[i := 1]) else None }"

definition BloomFilter_Add :: "(byte list \<Rightarrow> u64) \<Rightarrow> BloomFilter \<Rightarrow> string \<Rightarrow> BloomFilter option" where
  "BloomFilter_Add md5 f s =
     do { A \<leftarrow> bloom_mark md5 (bf_M f) s (bf_Hashes f) (bf_Array f); Some (f\<lparr>bf_Array := A\<rparr>) }"

fun BloomFilter_AddMultiple :: "(byte list \<Rightarrow> u64) \<Rightarrow> BloomFilter \<Rightarrow> string list \<Rightarrow> BloomFilter option" where
  "BloomFilter_AddMultiple md5 f [] = Some f"
| "BloomFilter_AddMultiple md5 f (s # ss) =
     do { A \<leftarrow> bloom_mark md5 (bf_M f) s (bf_Hashes f) (bf_Array f);
          BloomFilter_AddMultiple md5 (f\<lparr>bf_Array := A\<rparr>) ss }"

fun bloom_test :: "(byte list \<Rightarrow> u64) \<Rightarrow> 32 word \<Rightarrow> string \<Rightarrow> HashWithSeed list \<Rightarrow> byte list \<Rightarrow> bool option" where
  "bloom_test md5 M s [] A = Some True"
| "bloom_test md5 M s (seed # hs) A =
     do { i \<leftarrow> bloom_index md5 M seed s;
          if i < length A then (if A ! i \<noteq> 1 then Some False else bloom_test md5 M s hs A) else None }"

definition BloomFilter_Check :: "(byte list \<Rightarrow> u64) \<Rightarrow> BloomFilter \<Rightarrow> string \<Rightarrow> bool option" where
  "BloomFilter_Check md5 f s = bloom_test md5 (bf_M f) s (bf_Hashes f) (bf_Array f)"

definition BloomFilter_SerializeToByteArray :: "BloomFilter \<Rightarrow> byte list" where
  "BloomFilter_SerializeToByteArray f =
     be_enc 4 (unat (bf_K f)) @ be_enc 4 (unat (bf_M f)) @ bf_Array f @ concat (bf_Hashes f)"

text \<open>\<open>binary.Read\<close> of a fixed number of bytes; a short reader is an error.\<close>

datatype bloom_error = UnexpectedEOF

definition read_full :: "nat \<Rightarrow> byte list \<Rightarrow> bloom_error + (byte list \<times> byte list)" where
  "read_full n data = (if length data < n then Inl UnexpectedEOF else Inr (take n data, drop n data))"

fun read_seeds :: "nat \<Rightarrow> byte list \<Rightarrow> bloom_error + HashWithSeed list" where
  "read_seeds 0 data = Inr []"
| "read_seeds (Suc n) data =
     (case read_full 4 data of
        Inl err \<Rightarrow> Inl err
      | Inr (hash, data) \<Rightarrow>
          (case read_seeds n data of Inl err \<Rightarrow> Inl err | Inr hs \<Rightarrow> Inr (hash # hs)))"

definition DeserializeFromByteArray :: "byte list \<Rightarrow> (bloom_error + BloomFilter) option" where
  "DeserializeFromByteArray data =
     (case read_full 4 data of
        Inl err \<Rightarrow> Some (Inl err)
      | Inr (k, data) \<Rightarrow>
          (case read_full 4 data of
             Inl err \<Rightarrow> Some (Inl err)
           | Inr (m, data) \<Rightarrow>
               (let K = of_nat (be_val k) :: 32 word; M = of_nat (be_val m) :: 32 word
                in if sint M < 0 then None
                   else (case read_full (nat (sint M)) data of
                           Inl err \<Rightarrow> Some (Inl err)
                         | Inr (A, data) \<Rightarrow>
                             if sint K < 0 then None
                             else (case read_seeds (nat (sint K)) data of
                                     Inl err \<Rightarrow> Some (Inl err)
                                   | Inr hs \<Rightarrow> Some (Inr \<lparr>bf_K = K, bf_M = M, bf_Array = A, bf_Hashes = hs\<rparr>))))))"

section \<open>prefixfilter.go\<close>

record PrefixBloomFilter =
  pf_filter :: BloomFilter
  pf_minLength :: int
  pf_maxLength :: int

definition MinPrefixLength :: int where "MinPrefixLength = 1"

definition MaxPrefixLength :: int where "MaxPrefixLength = 128"

definition BloomFilterExpectedElements :: int where "BloomFilterExpectedElements = 1000"

definition NewPrefixBloomFilter :: "bloom_params \<Rightarrow> 32 word \<Rightarrow> PrefixBloomFilter option" where
  "NewPrefixBloomFilter params ts =
     (let estimatedPrefixes = BloomFilterExpectedElements * (MaxPrefixLength - MinPrefixLength + 1)
      in do { f \<leftarrow> NewBloomFilterWithParams params ts estimatedPrefixes;
              Some \<lparr>pf_filter = f, pf_minLength = MinPrefixLength, pf_maxLength = MaxPrefixLength\<rparr> })"

definition PrefixBloomFilter_SerializeToByteArray :: "PrefixBloomFilter \<Rightarrow> byte list" where
  "PrefixBloomFilter_SerializeToByteArray pf = BloomFilter_SerializeToByteArray (pf_filter pf)"

definition DeserializePrefixBloomFilter :: "byte list \<Rightarrow> (bloom_error + PrefixBloomFilter) option" where
  "DeserializePrefixBloomFilter data =
     (case DeserializeFromByteArray data of
        None \<Rightarrow> None
      | Some (Inl err) \<Rightarrow> Some (Inl err)
      | Some (Inr f) \<Rightarrow>
          Some (Inr \<lparr>pf_filter = f, pf_minLength = MinPrefixLength, pf_maxLength = MaxPrefixLength\<rparr>))"

text \<open>The loop over the prefix lengths from \<open>minLength\<close> to \<open>maxLen\<close>.\<close>

fun prefix_adds :: "(byte list \<Rightarrow> u64) \<Rightarrow> BloomFilter \<Rightarrow> string \<Rightarrow> int list \<Rightarrow> BloomFilter option" where
  "prefix_adds md5 f key [] = Some f"
| "prefix_adds md5 f key (i # is) =
     (if i < 0 \<or> int (length key) < i then None
      else do { f \<leftarrow> BloomFilter_Add md5 f (take (nat i) key); prefix_adds md5 f key is })"

definition PrefixBloomFilter_Add :: "(byte list \<Rightarrow> u64) \<Rightarrow> PrefixBloomFilter \<Rightarrow> string \<Rightarrow> PrefixBloomFilter option" where
  "PrefixBloomFilter_Add md5 pf key =
     (let keyLen = int (length key);
          maxLen = (if keyLen < pf_maxLength pf then keyLen else pf_maxLength pf)
      in do { f \<leftarrow> prefix_adds md5 (pf_filter pf) key [pf_minLength pf..maxLen];
              Some (pf\<lparr>pf_filter := f\<rparr>) })"

fun PrefixBloomFilter_AddMultiple :: "(byte list \<Rightarrow> u64) \<Rightarrow> PrefixBloomFilter \<Rightarrow> string list \<Rightarrow> PrefixBloomFilter option" where
  "PrefixBloomFilter_AddMultiple md5 pf [] = Some pf"
| "PrefixBloomFilter_AddMultiple md5 pf (key # keys) =
     do { pf \<leftarrow> PrefixBloomFilter_Add md5 pf key; PrefixBloomFilter_AddMultiple md5 pf keys }"

definition PrefixBloomFilter_Contains :: "(byte list \<Rightarrow> u64) \<Rightarrow> PrefixBloomFilter \<Rightarrow> string \<Rightarrow> bool option" where
  "PrefixBloomFilter_Contains md5 pf pre =
     (let prefixLen = int (length pre)
      in if prefixLen < pf_minLength pf then Some True
         else if pf_maxLength pf < prefixLen
         then (if pf_maxLength pf < 0 then None
               else BloomFilter_Check md5 (pf_filter pf) (take (nat (pf_maxLength pf)) pre))
         else BloomFilter_Check md5 (pf_filter pf) pre)"

section \<open>Well-formed filters\<close>

definition BloomFilter_ok :: "BloomFilter \<Rightarrow> bool" where
  "BloomFilter_ok f \<longleftrightarrow> 0 < sint (bf_M f) \<and> int (length (bf_Array f)) = sint (bf_M f)
     \<and> int (length (bf_Hashes f)) = sint (bf_K f) \<and> list_all (\<lambda>h. length h = 4) (bf_Hashes f)"

text \<open>The sizes that make a filter usable: both positive and within \<open>int32\<close>.\<close>

definition params_ok :: "bloom_params \<Rightarrow> int \<Rightarrow> bool" where
  "params_ok params n \<longleftrightarrow> 0 < fst (params n) \<and> fst (params n) < 2 ^ 31 \<and> snd (params n) < 2 ^ 31"

lemma uint_scast_pos:
  assumes "0 \<le> sint (M :: 32 word)"
  shows "uint (scast M :: u64) = sint M"
proof -
  have "sint M < 2 ^ 64" using sint_lt [of M] by simp
  then have "take_bit 64 (sint M) = sint M" using assms by (simp add: take_bit_int_eq_self)
  moreover have "uint (scast M :: u64) = take_bit 64 (sint M)" unfolding scast_eq by (subst uint_word_of_int_eq) simp
  ultimately show ?thesis by (rule trans [rotated])
qed

lemma bloom_index_some:
  assumes "BloomFilter_ok f"
  obtains i where "bloom_index md5 (bf_M f) seed s = Some i" and "i < length (bf_Array f)"
proof -
  have pos: "0 < sint (bf_M f)" and len: "int (length (bf_Array f)) = sint (bf_M f)"
    using assms by (auto simp: BloomFilter_ok_def)
  have "uint (h mod (scast (bf_M f) :: u64)) < sint (bf_M f)" for h
    using pos uint_scast_pos [of "bf_M f"] by (simp add: uint_mod pos_mod_bound)
  then have "unat (h mod (scast (bf_M f) :: u64)) < length (bf_Array f)" for h
    using len by (simp flip: of_nat_less_iff [where 'a=int])
  moreover have "bf_M f \<noteq> 0" using pos by auto
  ultimately show thesis using that by (simp add: bloom_index_def)
qed

text \<open>The slots of a string that are set.\<close>

definition bloom_has :: "(byte list \<Rightarrow> u64) \<Rightarrow> BloomFilter \<Rightarrow> string \<Rightarrow> bool" where
  "bloom_has md5 f s \<longleftrightarrow>
     (\<forall>seed\<in>set (bf_Hashes f). \<forall>i. bloom_index md5 (bf_M f) seed s = Some i \<longrightarrow> bf_Array f ! i = 1)"

lemma bloom_mark_spec:
  assumes "\<And>seed. \<exists>i. bloom_index md5 M seed s = Some i \<and> i < length A"
  shows "\<exists>A'. bloom_mark md5 M s hs A = Some A' \<and> length A' = length A
     \<and> (\<forall>i<length A. A ! i = 1 \<longrightarrow> A' ! i = 1)
     \<and> (\<forall>seed\<in>set hs. \<forall>i. bloom_index md5 M seed s = Some i \<longrightarrow> A' ! i = 1)"
  using assms
proof (induction hs arbitrary: A)
  case Nil
  then show ?case by simp
next
  case (Cons seed hs)
  obtain i where i: "bloom_index md5 M seed s = Some i" "i < length A" using Cons.prems by blast
  have "\<exists>i'. bloom_index md5 M x s = Some i' \<and> i' < length (A[i := 1])" for x using Cons.prems by simp
  from Cons.IH [OF this] obtain A' where A': "bloom_mark md5 M s hs (A[i := 1]) = Some A'"
    "length A' = length A" "\<forall>j<length A. A[i := 1] ! j = 1 \<longrightarrow> A' ! j = 1"
    "\<forall>seed\<in>set hs. \<forall>i. bloom_index md5 M seed s = Some i \<longrightarrow> A' ! i = 1" by auto
  have "A' ! j = 1" if "A ! j = 1" "j < length A" for j using A'(3) that i(2) by (cases "j = i") auto
  moreover have "A' ! i = 1" using A'(3) i(2) by simp
  ultimately show ?case using A' i by auto
qed

lemma BloomFilter_Add_spec:
  assumes ok: "BloomFilter_ok f"
  shows "\<exists>f'. BloomFilter_Add md5 f s = Some f' \<and> BloomFilter_ok f' \<and> bloom_has md5 f' s
     \<and> (\<forall>t. bloom_has md5 f t \<longrightarrow> bloom_has md5 f' t)"
proof -
  have idx: "\<exists>i. bloom_index md5 (bf_M f) seed t = Some i \<and> i < length (bf_Array f)" for seed t
    using bloom_index_some [OF ok] by metis
  obtain A' where A': "bloom_mark md5 (bf_M f) s (bf_Hashes f) (bf_Array f) = Some A'"
    "length A' = length (bf_Array f)" "\<forall>i<length (bf_Array f). bf_Array f ! i = 1 \<longrightarrow> A' ! i = 1"
    "\<forall>seed\<in>set (bf_Hashes f). \<forall>i. bloom_index md5 (bf_M f) seed s = Some i \<longrightarrow> A' ! i = 1"
    using bloom_mark_spec [of md5 "bf_M f" s "bf_Array f" "bf_Hashes f"] idx by blast
  have "bloom_has md5 (f\<lparr>bf_Array := A'\<rparr>) t" if "bloom_has md5 f t" for t
    using that A'(3) idx [of _ t] by (fastforce simp: bloom_has_def)
  then show ?thesis using A' ok by (auto simp: BloomFilter_Add_def BloomFilter_ok_def bloom_has_def)
qed

lemma BloomFilter_AddMultiple_Add:
  "BloomFilter_AddMultiple md5 f (s # ss) = BloomFilter_Add md5 f s \<bind> (\<lambda>f. BloomFilter_AddMultiple md5 f ss)"
  by (simp add: BloomFilter_Add_def)

lemma BloomFilter_AddMultiple_spec:
  assumes "BloomFilter_ok f"
  shows "\<exists>f'. BloomFilter_AddMultiple md5 f ss = Some f' \<and> BloomFilter_ok f'
     \<and> (\<forall>s\<in>set ss. bloom_has md5 f' s) \<and> (\<forall>t. bloom_has md5 f t \<longrightarrow> bloom_has md5 f' t)"
  using assms
proof (induction ss arbitrary: f)
  case Nil
  then show ?case by simp
next
  case (Cons s ss)
  obtain f1 where f1: "BloomFilter_Add md5 f s = Some f1" "BloomFilter_ok f1" "bloom_has md5 f1 s"
    "\<forall>t. bloom_has md5 f t \<longrightarrow> bloom_has md5 f1 t"
    using BloomFilter_Add_spec [OF Cons.prems, of md5 s] by blast
  from Cons.IH [OF f1(2)] show ?case
    using f1 by (auto simp: BloomFilter_AddMultiple_Add simp del: BloomFilter_AddMultiple.simps)
qed

lemma bloom_test_spec:
  assumes "\<And>seed. \<exists>i. bloom_index md5 M seed s = Some i \<and> i < length A"
  shows "bloom_test md5 M s hs A =
    Some (\<forall>seed\<in>set hs. \<forall>i. bloom_index md5 M seed s = Some i \<longrightarrow> A ! i = 1)"
proof (induction hs)
  case Nil
  then show ?case by simp
next
  case (Cons seed hs)
  obtain i where "bloom_index md5 M seed s = Some i" "i < length A" using assms by blast
  then show ?case using Cons by simp
qed

lemma BloomFilter_Check_spec:
  assumes "BloomFilter_ok f"
  shows "BloomFilter_Check md5 f s = Some (bloom_has md5 f s)"
proof -
  have "\<exists>i. bloom_index md5 (bf_M f) seed s = Some i \<and> i < length (bf_Array f)" for seed
    using bloom_index_some [OF assms] by metis
  from bloom_test_spec [OF this] show ?thesis by (simp add: BloomFilter_Check_def bloom_has_def)
qed

section \<open>New filters\<close>

lemma sint_ucast_small:
  assumes "(m :: u64) < 2 ^ 31"
  shows "sint (ucast m :: 32 word) = uint m"
proof -
  have m: "uint m < 2 ^ 31" using assms by (simp add: word_less_def)
  then have u: "uint (ucast m :: 32 word) = uint m"
    by (simp add: unsigned_ucast_eq take_bit_int_eq_self)
  have "signed_take_bit 31 (uint m) = uint m" using m     by (intro signed_take_bit_int_eq_self) (use uint_ge_0 [of m] in linarith, simp)
  then show ?thesis by (simp add: sint_uint u)
qed

lemma NewBloomFilterWithParams_ok:
  assumes "params_ok params n"
  shows "\<exists>f. NewBloomFilterWithParams params ts n = Some f \<and> BloomFilter_ok f"
proof -
  obtain m k where mk: "params n = (m, k)" by (cases "params n")
  have m: "0 < uint m" "sint (ucast m :: 32 word) = uint m" "sint (ucast k :: 32 word) = uint k"
    using assms sint_ucast_small by (auto simp: params_ok_def mk word_less_def)
  have "int (unat (ucast k :: 32 word)) = sint (ucast k :: 32 word)"
  proof -
    have "uint (ucast k :: 32 word) = uint k"
      using assms by (simp add: params_ok_def mk unsigned_ucast_eq take_bit_int_eq_self word_less_def)
    then show ?thesis using m(3) by (simp only: uint_nat)
  qed
  then show ?thesis using m
    by (auto simp: NewBloomFilterWithParams_def mk BloomFilter_ok_def CreateHashFunctions_def list_all_iff Let_def)
qed

section \<open>Serialisation\<close>

lemma read_full_append: "length a = n \<Longrightarrow> read_full n (a @ b) = Inr (a, b)"
  by (simp add: read_full_def)

lemma read_seeds_concat:
  "list_all (\<lambda>h. length h = 4) hs \<Longrightarrow> read_seeds (length hs) (concat hs @ rest) = Inr hs"
  by (induction hs) (simp_all add: read_full_append)

text \<open>A written filter is read back, whatever follows it.\<close>

lemma bloom_roundtrip:
  assumes "BloomFilter_ok f"
  shows "DeserializeFromByteArray (BloomFilter_SerializeToByteArray f @ rest) = Some (Inr f)"
proof -
  have K: "0 \<le> sint (bf_K f)" "nat (sint (bf_K f)) = length (bf_Hashes f)"
    and M: "0 < sint (bf_M f)" "nat (sint (bf_M f)) = length (bf_Array f)"
    and hs: "list_all (\<lambda>h. length h = 4) (bf_Hashes f)"
    using assms by (auto simp: BloomFilter_ok_def)
  have w: "of_nat (be_val (be_enc 4 (unat w))) = w" for w :: "32 word"
  proof -
    have "unat w < 2 ^ 32" using unsigned_less [of w, where 'a=nat] by simp
    then show ?thesis by (simp add: be_val_be_enc)
  qed
  show ?thesis
    using K M read_seeds_concat [OF hs, of rest]
    by (simp add: DeserializeFromByteArray_def BloomFilter_SerializeToByteArray_def read_full_append w Let_def)
qed

lemma prefix_roundtrip:
  assumes "BloomFilter_ok (pf_filter pf)" and "pf_minLength pf = MinPrefixLength"
    and "pf_maxLength pf = MaxPrefixLength"
  shows "DeserializePrefixBloomFilter (PrefixBloomFilter_SerializeToByteArray pf @ rest) = Some (Inr pf)"
  using assms bloom_roundtrip [of "pf_filter pf" rest]
  by (simp add: DeserializePrefixBloomFilter_def PrefixBloomFilter_SerializeToByteArray_def)

section \<open>Prefix filters\<close>

definition PrefixBloomFilter_ok :: "PrefixBloomFilter \<Rightarrow> bool" where
  "PrefixBloomFilter_ok pf \<longleftrightarrow> BloomFilter_ok (pf_filter pf) \<and> pf_minLength pf = MinPrefixLength
     \<and> pf_maxLength pf = MaxPrefixLength"

text \<open>The prefixes of a key that the filter records.\<close>

definition prefix_has :: "(byte list \<Rightarrow> u64) \<Rightarrow> PrefixBloomFilter \<Rightarrow> string \<Rightarrow> bool" where
  "prefix_has md5 pf key \<longleftrightarrow> (\<forall>i. MinPrefixLength \<le> i \<and> i \<le> MaxPrefixLength \<and> i \<le> int (length key)
     \<longrightarrow> bloom_has md5 (pf_filter pf) (take (nat i) key))"

lemma prefix_adds_spec:
  assumes "BloomFilter_ok f" and "\<forall>i\<in>set is. 0 \<le> i \<and> i \<le> int (length key)"
  shows "\<exists>f'. prefix_adds md5 f key is = Some f' \<and> BloomFilter_ok f'
     \<and> (\<forall>i\<in>set is. bloom_has md5 f' (take (nat i) key)) \<and> (\<forall>t. bloom_has md5 f t \<longrightarrow> bloom_has md5 f' t)"
  using assms
proof (induction "is" arbitrary: f)
  case Nil
  then show ?case by simp
next
  case (Cons i "is")
  obtain f1 where f1: "BloomFilter_Add md5 f (take (nat i) key) = Some f1" "BloomFilter_ok f1"
    "bloom_has md5 f1 (take (nat i) key)" "\<forall>t. bloom_has md5 f t \<longrightarrow> bloom_has md5 f1 t"
    using BloomFilter_Add_spec [OF Cons.prems(1), of md5 "take (nat i) key"] by blast
  have "\<forall>i\<in>set is. 0 \<le> i \<and> i \<le> int (length key)" using Cons.prems(2) by simp
  from Cons.IH [OF f1(2) this] show ?case using f1 Cons.prems(2) by auto
qed

lemma PrefixBloomFilter_Add_spec:
  assumes "PrefixBloomFilter_ok pf"
  shows "\<exists>pf'. PrefixBloomFilter_Add md5 pf key = Some pf' \<and> PrefixBloomFilter_ok pf' \<and> prefix_has md5 pf' key
     \<and> (\<forall>k. prefix_has md5 pf k \<longrightarrow> prefix_has md5 pf' k)"
proof -
  let ?is = "[MinPrefixLength..(if int (length key) < MaxPrefixLength then int (length key) else MaxPrefixLength)]"
  have len: "\<forall>i\<in>set ?is. 0 \<le> i \<and> i \<le> int (length key)" by (auto simp: MinPrefixLength_def)
  have ok: "BloomFilter_ok (pf_filter pf)" using assms by (simp add: PrefixBloomFilter_ok_def)
  obtain f' where "prefix_adds md5 (pf_filter pf) key ?is = Some f'" "BloomFilter_ok f'"
    "\<forall>i\<in>set ?is. bloom_has md5 f' (take (nat i) key)" "\<forall>t. bloom_has md5 (pf_filter pf) t \<longrightarrow> bloom_has md5 f' t"
    using prefix_adds_spec [OF ok len, of md5] by blast
  then show ?thesis using assms
    by (auto simp: PrefixBloomFilter_Add_def PrefixBloomFilter_ok_def prefix_has_def Let_def)
qed

lemma PrefixBloomFilter_AddMultiple_spec:
  assumes "PrefixBloomFilter_ok pf"
  shows "\<exists>pf'. PrefixBloomFilter_AddMultiple md5 pf keys = Some pf' \<and> PrefixBloomFilter_ok pf'
     \<and> (\<forall>k\<in>set keys. prefix_has md5 pf' k) \<and> (\<forall>k. prefix_has md5 pf k \<longrightarrow> prefix_has md5 pf' k)"
  using assms
proof (induction keys arbitrary: pf)
  case Nil
  then show ?case by simp
next
  case (Cons key keys)
  obtain pf1 where pf1: "PrefixBloomFilter_Add md5 pf key = Some pf1" "PrefixBloomFilter_ok pf1"
    "prefix_has md5 pf1 key" "\<forall>k. prefix_has md5 pf k \<longrightarrow> prefix_has md5 pf1 k"
    using PrefixBloomFilter_Add_spec [OF Cons.prems, of md5 key] by blast
  from Cons.IH [OF pf1(2)] show ?case using pf1 by auto
qed

text \<open>A filter that records a key answers yes for every prefix of it.\<close>

lemma PrefixBloomFilter_Contains_prefix:
  assumes "PrefixBloomFilter_ok pf" and "prefix_has md5 pf (pre @ rest)"
  shows "PrefixBloomFilter_Contains md5 pf pre = Some True"
proof -
  have ok: "BloomFilter_ok (pf_filter pf)" "pf_minLength pf = MinPrefixLength" "pf_maxLength pf = MaxPrefixLength"
    using assms(1) by (auto simp: PrefixBloomFilter_ok_def)
  have "bloom_has md5 (pf_filter pf) (take (nat i) pre)"
    if "MinPrefixLength \<le> i" "i \<le> MaxPrefixLength" "i \<le> int (length pre)" for i
    using assms(2) that unfolding prefix_has_def by (auto dest!: spec [of _ i])
  from this [of "int (length pre)"] this [of MaxPrefixLength] show ?thesis
    by (cases pre) (simp_all add: PrefixBloomFilter_Contains_def BloomFilter_Check_spec [OF ok(1)] ok(2,3) Let_def
        MinPrefixLength_def MaxPrefixLength_def)
qed

lemma PrefixBloomFilter_Contains_total:
  "PrefixBloomFilter_ok pf \<Longrightarrow> \<exists>b. PrefixBloomFilter_Contains md5 pf pre = Some b"
  by (auto simp: PrefixBloomFilter_Contains_def PrefixBloomFilter_ok_def BloomFilter_Check_spec Let_def MaxPrefixLength_def)

lemma NewPrefixBloomFilter_ok:
  assumes "params_ok params (BloomFilterExpectedElements * (MaxPrefixLength - MinPrefixLength + 1))"
  shows "\<exists>pf. NewPrefixBloomFilter params ts = Some pf \<and> PrefixBloomFilter_ok pf"
  using NewBloomFilterWithParams_ok [OF assms, of ts]
  by (auto simp: NewPrefixBloomFilter_def PrefixBloomFilter_ok_def)

end
