(* ===== verification/MerkleRoot.thy ===== *)
theory MerkleRoot
  imports Prelude "HOL-Library.Log_Nat"
begin

text \<open>
  The streaming Merkle root of an SSTable: \<open>src/models/merkle_tree/merkle.go\<close>.

  The tree keeps one pending hash per level, the empty string for none; \<open>sha\<close>, the hexadecimal SHA-256
  digest of a string, is an argument. The loop of \<open>GetRoot\<close> adds empty leaves until the top level is
  filled; it is a \<open>partial_function\<close>, shown to return for every digest that is never empty. The
  levels behave as a binary counter of the leaves added, which wraps around at \<open>2 ^ maxLevels\<close>.
\<close>

record MerkleTree =
  lvlValues :: "string list"
  maxLevels :: nat

text \<open>\<open>int(math.Ceil(math.Log2(float64(leafCount))))\<close>, exact for the counts a table can have.\<close>

definition InitializeMerkleTree :: "int \<Rightarrow> MerkleTree" where
  "InitializeMerkleTree leafCount =
     (let leafCount = (if leafCount \<le> 0 then 1 else leafCount);
          levels = ceillog2 (nat leafCount);
          levels = (if levels = 0 then 1 else levels)
      in \<lparr>lvlValues = replicate levels '''', maxLevels = levels\<rparr>)"

definition hashValues :: "(string \<Rightarrow> string) \<Rightarrow> string \<Rightarrow> string \<Rightarrow> string" where
  "hashValues sha left right = sha (left @ right)"

text \<open>The loop of \<open>AddLeaf\<close>, from the current level upwards; a hash carried out of the top level is lost.\<close>

fun addLeaf_loop :: "(string \<Rightarrow> string) \<Rightarrow> string \<Rightarrow> string list \<Rightarrow> string list" where
  "addLeaf_loop sha currentHash [] = []"
| "addLeaf_loop sha currentHash (v # vs) =
     (if v = '''' then currentHash # vs else '''' # addLeaf_loop sha (hashValues sha v currentHash) vs)"

definition MerkleTree_AddLeaf :: "(string \<Rightarrow> string) \<Rightarrow> MerkleTree \<Rightarrow> string \<Rightarrow> MerkleTree" where
  "MerkleTree_AddLeaf sha mt v = mt\<lparr>lvlValues := addLeaf_loop sha (sha v) (lvlValues mt)\<rparr>"

partial_function (option) GetRoot_loop :: "(string \<Rightarrow> string) \<Rightarrow> MerkleTree \<Rightarrow> MerkleTree option" where
  "GetRoot_loop sha mt =
     (if lvlValues mt ! (maxLevels mt - 1) = '''' then GetRoot_loop sha (MerkleTree_AddLeaf sha mt '''') else Some mt)"

declare GetRoot_loop.simps [code]

definition MerkleTree_GetRoot :: "(string \<Rightarrow> string) \<Rightarrow> MerkleTree \<Rightarrow> string option" where
  "MerkleTree_GetRoot sha mt =
     (if lvlValues mt ! (maxLevels mt - 1) \<noteq> '''' then Some (lvlValues mt ! (maxLevels mt - 1))
      else map_option (\<lambda>mt. lvlValues mt ! (maxLevels mt - 1)) (GetRoot_loop sha mt))"

definition MerkleTree_GetRootBytes :: "(string \<Rightarrow> string) \<Rightarrow> MerkleTree \<Rightarrow> byte list option" where
  "MerkleTree_GetRootBytes sha mt = map_option bytes_of (MerkleTree_GetRoot sha mt)"

section \<open>The levels as a binary counter\<close>

fun lvl_count :: "string list \<Rightarrow> nat" where
  "lvl_count [] = 0"
| "lvl_count (v # vs) = (if v = '''' then 0 else 1) + 2 * lvl_count vs"

definition MerkleTree_ok :: "MerkleTree \<Rightarrow> bool" where
  "MerkleTree_ok mt \<longleftrightarrow> length (lvlValues mt) = maxLevels mt \<and> 0 < maxLevels mt"

lemma InitializeMerkleTree_ok [simp]: "MerkleTree_ok (InitializeMerkleTree n)"
  by (simp add: MerkleTree_ok_def InitializeMerkleTree_def Let_def)

lemma lvl_count_replicate [simp]: "lvl_count (replicate n '''') = 0"
  by (induction n) auto

lemma lvl_count_bound: "lvl_count vs < 2 ^ length vs"
  by (induction vs) auto

lemma lvl_count_zero: "lvl_count vs = 0 \<Longrightarrow> vs = replicate (length vs) ''''"
  by (induction vs) (auto split: if_splits)

lemma lvl_count_top: "vs \<noteq> [] \<Longrightarrow> last vs \<noteq> '''' \<longleftrightarrow> 2 ^ (length vs - 1) \<le> lvl_count vs"
proof (induction vs)
  case (Cons v vs)
  show ?case
  proof (cases vs)
    case (Cons w ws)
    have "2 ^ length ws \<le> lvl_count vs \<longleftrightarrow> 2 * 2 ^ length ws \<le> (if v = '''' then 0 else 1) + 2 * lvl_count vs"
      by auto
    with Cons.IH Cons show ?thesis by simp
  qed auto
qed simp

lemma length_addLeaf_loop [simp]: "length (addLeaf_loop sha h vs) = length vs"
  by (induction vs arbitrary: h) auto

lemma lvl_count_addLeaf:
  assumes "\<And>s. sha s \<noteq> ''''"
  shows "h \<noteq> '''' \<Longrightarrow> lvl_count (addLeaf_loop sha h vs) = (lvl_count vs + 1) mod 2 ^ length vs"
proof (induction vs arbitrary: h)
  case (Cons v vs)
  have "(1 + 2 * lvl_count vs) mod (2 * 2 ^ length vs) = 1 + 2 * lvl_count vs" if "v = ''''"
    using lvl_count_bound [of vs] by simp
  moreover have "(2 + 2 * c) mod (2 * m) = 2 * ((c + 1) mod m)" for c m :: nat
    using mult_mod_right [of 2 "c + 1" m] by simp
  moreover have "hashValues sha v h \<noteq> ''''" using assms by (simp add: hashValues_def)
  ultimately show ?case using Cons by auto
qed simp

lemma AddLeaf_ok [simp]: "MerkleTree_ok mt \<Longrightarrow> MerkleTree_ok (MerkleTree_AddLeaf sha mt v)"
  by (simp add: MerkleTree_ok_def MerkleTree_AddLeaf_def)

text \<open>\<open>GetRoot\<close> returns: each empty leaf advances the counter towards the top level.\<close>

lemma GetRoot_loop_returns:
  assumes sha: "\<And>s. sha s \<noteq> ''''"
  shows "MerkleTree_ok mt \<Longrightarrow> \<exists>mt'. GetRoot_loop sha mt = Some mt'"
proof (induction "2 ^ maxLevels mt - lvl_count (lvlValues mt)" arbitrary: mt rule: less_induct)
  case less
  let ?vs = "lvlValues mt" and ?mt = "MerkleTree_AddLeaf sha mt ''''"
  have len: "length ?vs = maxLevels mt" "?vs \<noteq> []" using less.prems by (auto simp: MerkleTree_ok_def)
  have top: "?vs ! (maxLevels mt - 1) = last ?vs" using len by (simp add: last_conv_nth)
  show ?case
  proof (cases "last ?vs = ''''")
    case True
    then have "lvl_count ?vs < 2 ^ (maxLevels mt - 1)" using lvl_count_top [OF len(2)] len(1) by simp
    moreover have "2 ^ (maxLevels mt - 1) + 2 ^ (maxLevels mt - 1) = (2 :: nat) ^ maxLevels mt"
      using less.prems by (cases "maxLevels mt") (auto simp: MerkleTree_ok_def)
    moreover have "(0 :: nat) < 2 ^ (maxLevels mt - 1)" by simp
    ultimately have lt: "lvl_count ?vs + 1 < 2 ^ maxLevels mt" by linarith
    then have "lvl_count (lvlValues ?mt) = lvl_count ?vs + 1"
      using lvl_count_addLeaf [of sha "sha ''''" ?vs] sha len(1) by (simp add: MerkleTree_AddLeaf_def)
    then have "2 ^ maxLevels ?mt - lvl_count (lvlValues ?mt) < 2 ^ maxLevels mt - lvl_count ?vs"
      using lt by (simp add: MerkleTree_AddLeaf_def)
    from less.hyps [OF this] less.prems show ?thesis
      using True top by (simp add: GetRoot_loop.simps [of sha mt])
  next
    case False
    then show ?thesis using top by (simp add: GetRoot_loop.simps [of sha mt])
  qed
qed

lemma GetRootBytes_returns:
  assumes "\<And>s. sha s \<noteq> ''''" and "MerkleTree_ok mt"
  shows "\<exists>bs. MerkleTree_GetRootBytes sha mt = Some bs"
  using GetRoot_loop_returns [OF assms]
  by (auto simp: MerkleTree_GetRootBytes_def MerkleTree_GetRoot_def)

section \<open>What the root covers\<close>

lemma lvl_count_adds:
  assumes "\<And>s. sha s \<noteq> ''''" and "MerkleTree_ok mt"
  shows "lvl_count (lvlValues (fold (\<lambda>v mt. MerkleTree_AddLeaf sha mt v) xs mt))
      = (lvl_count (lvlValues mt) + length xs) mod 2 ^ maxLevels mt
    \<and> MerkleTree_ok (fold (\<lambda>v mt. MerkleTree_AddLeaf sha mt v) xs mt)
    \<and> maxLevels (fold (\<lambda>v mt. MerkleTree_AddLeaf sha mt v) xs mt) = maxLevels mt"
  using assms(2)
proof (induction xs arbitrary: mt)
  case Nil
  then show ?case using lvl_count_bound [of "lvlValues mt"] by (simp add: MerkleTree_ok_def)
next
  case (Cons x xs)
  let ?mt = "MerkleTree_AddLeaf sha mt x"
  have "lvl_count (lvlValues ?mt) = (lvl_count (lvlValues mt) + 1) mod 2 ^ maxLevels mt"
    using lvl_count_addLeaf [of sha "sha x" "lvlValues mt"] assms(1) Cons.prems
    by (simp add: MerkleTree_AddLeaf_def MerkleTree_ok_def)
  moreover have "maxLevels ?mt = maxLevels mt" by (simp add: MerkleTree_AddLeaf_def)
  ultimately show ?case using Cons.IH [of ?mt] Cons.prems by (simp add: mod_simps)
qed

text \<open>
  The root of a table whose number of entries is a power of two does not depend on the entries:
  the last leaf carries out of the top level and every level is empty again.
\<close>

lemma merkle_root_independent:
  assumes sha: "\<And>s. sha s \<noteq> ''''" and "0 < k" and "length xs = 2 ^ k"
  shows "fold (\<lambda>v mt. MerkleTree_AddLeaf sha mt v) xs (InitializeMerkleTree (int (length xs)))
    = InitializeMerkleTree (int (length xs))"
proof -
  let ?i = "InitializeMerkleTree (int (length xs))" and ?f = "fold (\<lambda>v mt. MerkleTree_AddLeaf sha mt v) xs"
  have lv: "maxLevels ?i = k" "lvlValues ?i = replicate k ''''"
    using assms(2,3) by (simp_all add: InitializeMerkleTree_def Let_def nat_power_eq)
  have r: "lvl_count (lvlValues (?f ?i)) = 0" "MerkleTree_ok (?f ?i)" "maxLevels (?f ?i) = k"
    using lvl_count_adds [of sha ?i xs] sha assms(3) lv by simp_all
  then have "lvlValues (?f ?i) = replicate k ''''" using lvl_count_zero by (metis MerkleTree_ok_def)
  then show ?thesis using r(3) lv by simp
qed

end
