(* ===== verification/BlockCache.thy ===== *)
theory BlockCache
  imports Prelude "HOL-Library.Monad_Syntax"
begin

text \<open>
  The block cache of the storage engine: the doubly linked list of \<open>src/models/doubly_ll\<close>, the LRU cache
  and the block manager of \<open>src/service/block_manager\<close>.

  Blocks live in a heap, a map from addresses to blocks, and the list operations follow and assign
  their \<open>next\<close> and \<open>prev\<close> pointers; \<open>None\<close> is the nil pointer, and an operation that dereferences nil panics
  (its result is \<open>None\<close>). The heap refines a plain list of addresses, and the cache a list of
  keys and data with the most recently used entry first. \<open>xx\<close>, the xxHash digest of a string, is an
  argument. A file descriptor stands for the content of its file: a table is never written
  again once it has been opened for reading, and removing it leaves an open descriptor readable.
\<close>

section \<open>d\_linked\_list.go\<close>

type_synonym BlockKey = u64

record Block =
  b_data :: "byte list"
  b_BlockKey :: BlockKey
  b_next :: "addr option"
  b_prev :: "addr option"

type_synonym heap = "addr \<rightharpoonup> Block"

text \<open>\<open>fmt.Sprintf("%s:%d", filename, blockNum)\<close>.\<close>

definition NewBlockKey :: "(string \<Rightarrow> u64) \<Rightarrow> int \<Rightarrow> string \<Rightarrow> BlockKey" where
  "NewBlockKey xx blockNum filename =
     xx (filename @ '':'' @ (if blockNum < 0 then ''-'' else []) @ FormatUint10 (nat \<bar>blockNum\<bar>))"

definition NewNode :: "byte list \<Rightarrow> BlockKey \<Rightarrow> Block" where
  "NewNode data blockKey = \<lparr>b_data = data, b_BlockKey = blockKey, b_next = None, b_prev = None\<rparr>"

record DoublyLinkedList =
  d_head :: "addr option"
  d_tail :: "addr option"
  d_length :: int

definition NewDoublyLinkedList :: DoublyLinkedList where
  "NewDoublyLinkedList = \<lparr>d_head = None, d_tail = None, d_length = 0\<rparr>"

text \<open>Assignments through a pointer.\<close>

definition set_next :: "heap \<Rightarrow> addr option \<Rightarrow> addr option \<Rightarrow> heap option" where
  "set_next h a q = do { a \<leftarrow> a; b \<leftarrow> h a; Some (h(a \<mapsto> b\<lparr>b_next := q\<rparr>)) }"

definition set_prev :: "heap \<Rightarrow> addr option \<Rightarrow> addr option \<Rightarrow> heap option" where
  "set_prev h a p = do { a \<leftarrow> a; b \<leftarrow> h a; Some (h(a \<mapsto> b\<lparr>b_prev := p\<rparr>)) }"

definition InsertBeginning :: "heap \<Rightarrow> DoublyLinkedList \<Rightarrow> addr \<Rightarrow> (heap \<times> DoublyLinkedList) option" where
  "InsertBeginning h l n =
     do { h \<leftarrow> set_prev h (Some n) None;
          h \<leftarrow> set_next h (Some n) (d_head l);
          (h, l) \<leftarrow> (if d_head l \<noteq> None then do { h \<leftarrow> set_prev h (d_head l) (Some n); Some (h, l) }
                    else Some (h, l\<lparr>d_tail := Some n\<rparr>));
          Some (h, l\<lparr>d_head := Some n, d_length := d_length l + 1\<rparr>) }"

definition DeleteEnd :: "heap \<Rightarrow> DoublyLinkedList \<Rightarrow> (heap \<times> DoublyLinkedList) option" where
  "DeleteEnd h l =
     (case d_tail l of
        None \<Rightarrow> Some (h, l)
      | Some t \<Rightarrow>
          if d_length l = 1 then Some (h, l\<lparr>d_head := None, d_tail := None, d_length := d_length l - 1\<rparr>)
          else do { b \<leftarrow> h t;
                    let l = l\<lparr>d_tail := b_prev b\<rparr>;
                    h \<leftarrow> set_next h (d_tail l) None;
                    Some (h, l\<lparr>d_length := d_length l - 1\<rparr>) })"

text \<open>The first half of \<open>MoveToFront\<close>: the node leaves its place.\<close>

definition dll_unlink :: "heap \<Rightarrow> DoublyLinkedList \<Rightarrow> addr \<Rightarrow> (heap \<times> DoublyLinkedList) option" where
  "dll_unlink h l node =
     (if Some node = d_tail l
      then do { b \<leftarrow> h node;
                let l = l\<lparr>d_tail := b_prev b\<rparr>;
                h \<leftarrow> set_next h (d_tail l) None;
                Some (h, l) }
      else do { b \<leftarrow> h node;
                h \<leftarrow> set_next h (b_prev b) (b_next b);
                b \<leftarrow> h node;
                h \<leftarrow> set_prev h (b_next b) (b_prev b);
                Some (h, l) })"

definition MoveToFront :: "heap \<Rightarrow> DoublyLinkedList \<Rightarrow> addr \<Rightarrow> (heap \<times> DoublyLinkedList) option" where
  "MoveToFront h l node =
     (if Some node = d_head l then Some (h, l)
      else do { (h, l) \<leftarrow> dll_unlink h l node;
                h \<leftarrow> set_prev h (Some node) None;
                h \<leftarrow> set_next h (Some node) (d_head l);
                h \<leftarrow> set_prev h (d_head l) (Some node);
                Some (h, l\<lparr>d_head := Some node\<rparr>) })"

section \<open>LRU.go\<close>

text \<open>The cache with the heap its blocks live in and the next free address.\<close>

record LRUCache =
  lru_capacity :: int
  lru_cache :: "(BlockKey \<times> addr) list"
  lru_list :: DoublyLinkedList
  lru_heap :: heap
  lru_free :: addr

definition NewLRUCache :: "int \<Rightarrow> LRUCache" where
  "NewLRUCache CacheCapacity =
     \<lparr>lru_capacity = CacheCapacity, lru_cache = [], lru_list = NewDoublyLinkedList, lru_heap = Map.empty, lru_free = 0\<rparr>"

definition LRUCache_evictLocked :: "LRUCache \<Rightarrow> LRUCache option" where
  "LRUCache_evictLocked c =
     (case d_tail (lru_list c) of
        None \<Rightarrow> Some c
      | Some t \<Rightarrow>
          do { b \<leftarrow> lru_heap c t;
               let c = c\<lparr>lru_cache := AList.delete (b_BlockKey b) (lru_cache c)\<rparr>;
               (h, l) \<leftarrow> DeleteEnd (lru_heap c) (lru_list c);
               Some (c\<lparr>lru_heap := h, lru_list := l\<rparr>) })"

definition LRUCache_Put :: "(string \<Rightarrow> u64) \<Rightarrow> LRUCache \<Rightarrow> string \<Rightarrow> int \<Rightarrow> byte list \<Rightarrow> LRUCache option" where
  "LRUCache_Put xx c filePath blockID data =
     (if lru_capacity c \<le> 0 then Some c
      else (let key = NewBlockKey xx blockID filePath
            in case map_of (lru_cache c) key of
                 Some elem \<Rightarrow>
                   do { b \<leftarrow> lru_heap c elem;
                        (h, l) \<leftarrow> MoveToFront ((lru_heap c)(elem \<mapsto> b\<lparr>b_data := data\<rparr>)) (lru_list c) elem;
                        Some (c\<lparr>lru_heap := h, lru_list := l\<rparr>) }
               | None \<Rightarrow>
                   (let node = lru_free c
                    in do { (h, l) \<leftarrow> InsertBeginning ((lru_heap c)(node \<mapsto> NewNode data key)) (lru_list c) node;
                            let c = c\<lparr>lru_heap := h, lru_list := l, lru_free := Suc node,
                                      lru_cache := AList.update key node (lru_cache c)\<rparr>;
                            if d_length (lru_list c) > lru_capacity c then LRUCache_evictLocked c else Some c })))"

definition LRUCache_Get :: "(string \<Rightarrow> u64) \<Rightarrow> LRUCache \<Rightarrow> string \<Rightarrow> int \<Rightarrow> (LRUCache \<times> byte list option) option" where
  "LRUCache_Get xx c filePath blockID =
     (if lru_capacity c \<le> 0 then Some (c, None)
      else (let key = NewBlockKey xx blockID filePath
            in case map_of (lru_cache c) key of
                 Some elem \<Rightarrow>
                   do { (h, l) \<leftarrow> MoveToFront (lru_heap c) (lru_list c) elem;
                        b \<leftarrow> h elem;
                        Some (c\<lparr>lru_heap := h, lru_list := l\<rparr>, Some (b_data b)) }
               | None \<Rightarrow> Some (c, None)))"

definition LRUCache_Len :: "LRUCache \<Rightarrow> int" where
  "LRUCache_Len c = d_length (lru_list c)"

section \<open>block\_manager.go\<close>

type_synonym disk = "(string \<times> byte list) list"

record BlockManager =
  bm_block_size :: int
  bm_lruCache :: LRUCache
  bm_openFDs :: "(string \<times> byte list) list"

datatype file_error = NotExist | ReadEOF | NegativeOffset

definition NewBlockManager :: "int \<Rightarrow> int \<Rightarrow> BlockManager" where
  "NewBlockManager BlockSize CacheCapacity =
     \<lparr>bm_block_size = BlockSize, bm_lruCache = NewLRUCache CacheCapacity, bm_openFDs = []\<rparr>"

definition getOrOpenFD :: "disk \<Rightarrow> BlockManager \<Rightarrow> string \<Rightarrow> BlockManager \<times> (file_error + byte list)" where
  "getOrOpenFD disk bm path =
     (case map_of (bm_openFDs bm) path of
        Some f \<Rightarrow> (bm, Inr f)
      | None \<Rightarrow>
          (case map_of disk path of
             None \<Rightarrow> (bm, Inl NotExist)
           | Some newF \<Rightarrow> (bm\<lparr>bm_openFDs := AList.update path newF (bm_openFDs bm)\<rparr>, Inr newF)))"

text \<open>\<open>os.File.ReadAt\<close>: fewer bytes than asked for is an error.\<close>

definition File_ReadAt :: "byte list \<Rightarrow> int \<Rightarrow> int \<Rightarrow> file_error + byte list" where
  "File_ReadAt f offset n =
     (if offset < 0 then Inl NegativeOffset
      else if n = 0 then Inr []
      else if offset + n \<le> int (length f) then Inr (take (nat n) (drop (nat offset) f))
      else Inl ReadEOF)"

text \<open>Division and remainder of \<open>int64\<close> truncate towards zero; a zero block size panics, as does a negative \<open>size\<close>.\<close>

definition quot :: "int \<Rightarrow> int \<Rightarrow> int" where
  "quot a b = sgn a * sgn b * (\<bar>a\<bar> div \<bar>b\<bar>)"

definition BlockManager_ReadAt :: "(string \<Rightarrow> u64) \<Rightarrow> disk \<Rightarrow> BlockManager \<Rightarrow> string \<Rightarrow> int \<Rightarrow> int
    \<Rightarrow> (BlockManager \<times> (file_error + byte list)) option" where
  "BlockManager_ReadAt xx disk bm path offset n =
     (if bm_block_size bm = 0 then None
      else (let isBlockRead = (n = bm_block_size bm \<and> offset - bm_block_size bm * quot offset (bm_block_size bm) = 0);
                blockID = quot offset (bm_block_size bm)
            in do { (lru, hit) \<leftarrow> (if isBlockRead then LRUCache_Get xx (bm_lruCache bm) path blockID
                                 else Some (bm_lruCache bm, None));
                    let bm = bm\<lparr>bm_lruCache := lru\<rparr>;
                    (case hit of
                       Some data \<Rightarrow> Some (bm, Inr data)
                     | None \<Rightarrow>
                         (case getOrOpenFD disk bm path of
                            (bm, Inl err) \<Rightarrow> Some (bm, Inl err)
                          | (bm, Inr f) \<Rightarrow>
                              if n < 0 then None
                              else (case File_ReadAt f offset n of
                                      Inl err \<Rightarrow> Some (bm, Inl err)
                                    | Inr data \<Rightarrow>
                                        if isBlockRead
                                        then do { lru \<leftarrow> LRUCache_Put xx (bm_lruCache bm) path blockID data;
                                                  Some (bm\<lparr>bm_lruCache := lru\<rparr>, Inr data) }
                                        else Some (bm, Inr data)))) }))"

definition BlockManager_CloseFile :: "BlockManager \<Rightarrow> string \<Rightarrow> BlockManager" where
  "BlockManager_CloseFile bm path = bm\<lparr>bm_openFDs := AList.delete path (bm_openFDs bm)\<rparr>"

section \<open>The heap refines a list of addresses\<close>

text \<open>
  The blocks at the addresses of a list are linked in its order; \<open>p\<close> is the address before the first
  and \<open>q\<close> the one after the last.
\<close>

definition lastaddr :: "addr option \<Rightarrow> addr list \<Rightarrow> addr option" where
  "lastaddr p xs = (if xs = [] then p else Some (last xs))"

fun dseg :: "heap \<Rightarrow> addr option \<Rightarrow> addr list \<Rightarrow> addr option \<Rightarrow> bool" where
  "dseg h p [] q \<longleftrightarrow> True"
| "dseg h p (x # xs) q \<longleftrightarrow>
     (\<exists>b. h x = Some b \<and> b_prev b = p \<and> b_next b = fstaddr xs q) \<and> dseg h (Some x) xs q"

definition dll_ok :: "heap \<Rightarrow> DoublyLinkedList \<Rightarrow> addr list \<Rightarrow> bool" where
  "dll_ok h l xs \<longleftrightarrow> dseg h None xs None \<and> distinct xs \<and> d_head l = fstaddr xs None
     \<and> d_tail l = lastaddr None xs \<and> d_length l = int (length xs)"

lemma lastaddr_simps [simp]:
  "lastaddr p [] = p" "lastaddr p (x # xs) = lastaddr (Some x) xs"
  "lastaddr p (xs @ ys) = lastaddr (lastaddr p xs) ys"
  by (auto simp: lastaddr_def)

lemma dseg_append [simp]:
  "dseg h p (xs @ ys) q \<longleftrightarrow> dseg h p xs (fstaddr ys q) \<and> dseg h (lastaddr p xs) ys q"
  by (induction xs arbitrary: p) auto

lemma dseg_frame [simp]: "a \<notin> set xs \<Longrightarrow> dseg (h(a := b)) p xs q = dseg h p xs q"
  by (induction xs arbitrary: p) auto

text \<open>Only the pointers matter to the links.\<close>

lemma dseg_data: "h a = Some b \<Longrightarrow> dseg (h(a \<mapsto> b\<lparr>b_data := d\<rparr>)) p xs q = dseg h p xs q"
  by (induction xs arbitrary: p) auto

lemma set_next_some [simp]: "h a = Some b \<Longrightarrow> set_next h (Some a) q = Some (h(a \<mapsto> b\<lparr>b_next := q\<rparr>))"
  by (simp add: set_next_def)

lemma set_prev_some [simp]: "h a = Some b \<Longrightarrow> set_prev h (Some a) p = Some (h(a \<mapsto> b\<lparr>b_prev := p\<rparr>))"
  by (simp add: set_prev_def)

lemma dll_ok_new: "dll_ok Map.empty NewDoublyLinkedList []"
  by (simp add: dll_ok_def NewDoublyLinkedList_def)

text \<open>What the list operations keep of a block: everything but its pointers.\<close>

definition same_blocks :: "heap \<Rightarrow> heap \<Rightarrow> bool" where
  "same_blocks h h' \<longleftrightarrow> (\<forall>a. map_option (\<lambda>b. (b_data b, b_BlockKey b)) (h' a) = map_option (\<lambda>b. (b_data b, b_BlockKey b)) (h a))"

lemma same_blocks_refl [simp]: "same_blocks h h"
  by (simp add: same_blocks_def)

lemma same_blocks_upd [simp]:
  "h a = Some b \<Longrightarrow> b_data b' = b_data b \<Longrightarrow> b_BlockKey b' = b_BlockKey b \<Longrightarrow>
     same_blocks h0 (h(a \<mapsto> b')) \<longleftrightarrow> same_blocks h0 h"
  unfolding same_blocks_def by (rule iff_allI) simp

lemma InsertBeginning_ok:
  assumes ok: "dll_ok h l xs" and n: "h n = Some b" "n \<notin> set xs"
  shows "\<exists>h' l'. InsertBeginning h l n = Some (h', l') \<and> dll_ok h' l' (n # xs) \<and> same_blocks h h'"
proof (cases xs)
  case Nil
  then show ?thesis using ok n by (simp add: InsertBeginning_def dll_ok_def)
next
  case (Cons x ys)
  then obtain bx where "h x = Some bx" "x \<noteq> n" "b_prev bx = None" "b_next bx = fstaddr ys None"
    using ok n by (auto simp: dll_ok_def)
  then show ?thesis using ok n Cons by (simp add: InsertBeginning_def dll_ok_def)
qed

lemma DeleteEnd_ok:
  assumes ok: "dll_ok h l (xs @ [t])"
  shows "\<exists>h' l'. DeleteEnd h l = Some (h', l') \<and> dll_ok h' l' xs \<and> same_blocks h h'"
proof (cases xs rule: rev_cases)
  case Nil
  then show ?thesis using ok by (simp add: DeleteEnd_def dll_ok_def)
next
  case (snoc ys y)
  then obtain bt b where "h t = Some bt" "b_prev bt = Some y" "h y = Some b" "b_prev b = lastaddr None ys" "y \<noteq> t"
    using ok by (auto simp: dll_ok_def)
  then show ?thesis using ok snoc by (simp add: DeleteEnd_def dll_ok_def)
qed

lemma dll_unlink_ok:
  assumes ok: "dll_ok h l (zs @ z # n # ys)"
  shows "\<exists>h'. dll_unlink h l n = Some (h', l\<lparr>d_tail := lastaddr None (zs @ z # ys)\<rparr>)
     \<and> dseg h' None (zs @ z # ys) None \<and> same_blocks h h'"
proof -
  obtain bn bz where b: "h n = Some bn" "b_prev bn = Some z" "b_next bn = fstaddr ys None"
    "h z = Some bz" "b_prev bz = lastaddr None zs" "z \<noteq> n"
    using ok by (auto simp: dll_ok_def)
  show ?thesis
  proof (cases ys)
    case Nil
    then show ?thesis using ok b by (simp add: dll_unlink_def dll_ok_def)
  next
    case (Cons y ys')
    moreover have "n \<noteq> last (y # ys')" using ok Cons last_in_set [of "y # ys'"] by (auto simp: dll_ok_def)
    moreover obtain by' where "h y = Some by'" "b_next by' = fstaddr ys' None" "y \<noteq> z" "y \<noteq> n"
      using ok Cons by (auto simp: dll_ok_def)
    ultimately show ?thesis using ok b by (simp add: dll_unlink_def dll_ok_def lastaddr_def)
  qed
qed

lemma MoveToFront_ok:
  assumes ok: "dll_ok h l (xs @ n # ys)"
  shows "\<exists>h' l'. MoveToFront h l n = Some (h', l') \<and> dll_ok h' l' (n # xs @ ys) \<and> same_blocks h h'"
proof (cases xs)
  case Nil
  then show ?thesis using ok by (simp add: MoveToFront_def dll_ok_def)
next
  case (Cons x xs')
  have "xs \<noteq> []" using Cons by simp
  then obtain z zs where z: "xs = zs @ [z]" by (meson rev_exhaust)
  have ok': "dll_ok h l (zs @ z # n # ys)" using ok by (simp add: z)
  obtain h1 where u: "dll_unlink h l n = Some (h1, l\<lparr>d_tail := lastaddr None (zs @ z # ys)\<rparr>)"
      "dseg h1 None (zs @ z # ys) None" "same_blocks h h1"
    using dll_unlink_ok [OF ok'] by blast
  have "zs @ z # ys = xs @ ys" by (simp add: z)
  also have "\<dots> = x # xs' @ ys" by (simp add: Cons)
  finally have x: "zs @ z # ys = x # xs' @ ys" .
  have "h n \<noteq> None" using ok by (auto simp: dll_ok_def)
  moreover have "map_option (\<lambda>b. (b_data b, b_BlockKey b)) (h1 n) = map_option (\<lambda>b. (b_data b, b_BlockKey b)) (h n)"
    using u(3) by (simp add: same_blocks_def)
  ultimately obtain bn where bn: "h1 n = Some bn" by auto
  obtain bx where bx: "h1 x = Some bx" "b_next bx = fstaddr (xs' @ ys) None" using u(2) unfolding x by auto
  have ne: "x \<noteq> n" "n \<notin> set xs'" "n \<notin> set ys" "x \<notin> set xs'" "x \<notin> set ys" using ok Cons by (auto simp: dll_ok_def)
  have head: "d_head l = Some x" using ok Cons by (simp add: dll_ok_def)
  let ?h = "h1(n \<mapsto> bn\<lparr>b_prev := None, b_next := Some x\<rparr>, x \<mapsto> bx\<lparr>b_prev := Some n\<rparr>)"
    and ?l = "l\<lparr>d_tail := lastaddr None (x # xs' @ ys), d_head := Some n\<rparr>"
  have "MoveToFront h l n = Some (?h, ?l)"
    using u(1) ne(1) bn bx(1) unfolding x by (simp add: MoveToFront_def head)
  moreover have "dseg ?h None (n # xs @ ys) None" using u(2) ne bx unfolding x by (simp add: Cons)
  moreover have "same_blocks h ?h" using u(3) bn bx(1) ne(1) by simp
  ultimately show ?thesis using ok by (simp add: dll_ok_def Cons)
qed

section \<open>The cache refines a list of entries\<close>

definition blk :: "heap \<Rightarrow> addr \<Rightarrow> BlockKey \<times> byte list" where
  "blk h a = (case h a of Some b \<Rightarrow> (b_BlockKey b, b_data b) | None \<Rightarrow> (0, []))"

text \<open>The specification: entries with the most recently used first, at most \<open>cap\<close> of them.\<close>

definition lru_touch :: "BlockKey \<Rightarrow> byte list \<Rightarrow> (BlockKey \<times> byte list) list \<Rightarrow> (BlockKey \<times> byte list) list" where
  "lru_touch k d es = (k, d) # filter (\<lambda>e. fst e \<noteq> k) es"

definition lru_put :: "int \<Rightarrow> BlockKey \<Rightarrow> byte list \<Rightarrow> (BlockKey \<times> byte list) list \<Rightarrow> (BlockKey \<times> byte list) list" where
  "lru_put cap k d es = (if cap \<le> 0 then es else take (nat cap) (lru_touch k d es))"

definition lru_get :: "int \<Rightarrow> BlockKey \<Rightarrow> (BlockKey \<times> byte list) list
    \<Rightarrow> (BlockKey \<times> byte list) list \<times> byte list option" where
  "lru_get cap k es =
     (if cap \<le> 0 then (es, None)
      else (case map_of es k of None \<Rightarrow> (es, None) | Some d \<Rightarrow> (lru_touch k d es, Some d)))"

definition LRU_ok :: "LRUCache \<Rightarrow> addr list \<Rightarrow> bool" where
  "LRU_ok c xs \<longleftrightarrow> dll_ok (lru_heap c) (lru_list c) xs \<and> (\<forall>a\<in>set xs. a < lru_free c)
     \<and> distinct (map (\<lambda>a. fst (blk (lru_heap c) a)) xs)
     \<and> (\<forall>k a. map_of (lru_cache c) k = Some a \<longleftrightarrow> a \<in> set xs \<and> fst (blk (lru_heap c) a) = k)
     \<and> int (length xs) \<le> max 0 (lru_capacity c)"

definition LRU_rel :: "LRUCache \<Rightarrow> (BlockKey \<times> byte list) list \<Rightarrow> bool" where
  "LRU_rel c es \<longleftrightarrow> (\<exists>xs. LRU_ok c xs \<and> es = map (blk (lru_heap c)) xs)"

lemma same_blocks_blk: "same_blocks h h' \<Longrightarrow> blk h' = blk h"
proof
  fix a assume "same_blocks h h'"
  then have "map_option (\<lambda>b. (b_data b, b_BlockKey b)) (h' a) = map_option (\<lambda>b. (b_data b, b_BlockKey b)) (h a)"
    by (simp add: same_blocks_def)
  then show "blk h' a = blk h a" by (cases "h a"; cases "h' a") (auto simp: blk_def)
qed

lemma same_blocks_None: "same_blocks h h' \<Longrightarrow> h' a = None \<longleftrightarrow> h a = None"
proof -
  assume "same_blocks h h'"
  then have "map_option (\<lambda>b. (b_data b, b_BlockKey b)) (h' a) = map_option (\<lambda>b. (b_data b, b_BlockKey b)) (h a)"
    by (simp add: same_blocks_def)
  then show ?thesis by (cases "h a"; cases "h' a") auto
qed

lemma filter_keys_append:
  assumes "distinct (map f (xs @ a # ys))"
  shows "filter (\<lambda>x. f x \<noteq> f a) (xs @ a # ys) = xs @ ys"
proof -
  have "\<forall>x\<in>set xs \<union> set ys. f x \<noteq> f a" using assms by (auto simp: image_iff dest: sym)
  then show ?thesis by auto
qed

lemma dseg_some: "dseg h p xs q \<Longrightarrow> a \<in> set xs \<Longrightarrow> \<exists>b. h a = Some b"
  by (induction xs arbitrary: p) auto

lemma LRU_block: "LRU_ok c xs \<Longrightarrow> map_of (lru_cache c) k = Some a \<Longrightarrow> \<exists>b. lru_heap c a = Some b"
  unfolding LRU_ok_def dll_ok_def using dseg_some by blast

lemma LRU_new: "LRU_rel (NewLRUCache cap) []"
  by (simp add: LRU_rel_def LRU_ok_def NewLRUCache_def dll_ok_new)

text \<open>Moving the block of a key to the front, with new data for it.\<close>

lemma LRU_move:
  assumes ok: "LRU_ok c xs" and elem: "map_of (lru_cache c) k = Some a"
    and b: "lru_heap c a = Some b"
  shows "\<exists>h l. MoveToFront ((lru_heap c)(a \<mapsto> b\<lparr>b_data := d\<rparr>)) (lru_list c) a = Some (h, l)
     \<and> LRU_rel (c\<lparr>lru_heap := h, lru_list := l\<rparr>) (lru_touch k d (map (blk (lru_heap c)) xs))
     \<and> (\<exists>b'. h a = Some b' \<and> b_data b' = d)"
proof -
  let ?g = "lru_heap c" and ?h = "(lru_heap c)(a \<mapsto> b\<lparr>b_data := d\<rparr>)"
  have a: "a \<in> set xs" and k: "fst (blk ?g a) = k" using ok elem by (simp_all add: LRU_ok_def)
  obtain ys zs where xs: "xs = ys @ a # zs" using split_list [OF a] by blast
  have key: "blk ?h x = (fst (blk ?g x), if x = a then d else snd (blk ?g x))" for x
    using b by (simp add: blk_def)
  have "dll_ok ?h (lru_list c) xs" using ok dseg_data [of ?g a b d] b by (simp add: LRU_ok_def dll_ok_def)
  then obtain h l where hl: "MoveToFront ?h (lru_list c) a = Some (h, l)" "dll_ok h l (a # ys @ zs)" "same_blocks ?h h"
    using MoveToFront_ok [of ?h "lru_list c" ys a zs] xs by blast
  have blkh: "blk h = blk ?h" by (rule same_blocks_blk [OF hl(3)])
  have dist: "distinct (map (\<lambda>x. fst (blk ?g x)) (ys @ a # zs))" using ok xs by (simp add: LRU_ok_def)
  have ne: "a \<notin> set (ys @ zs)" using ok xs by (auto simp: LRU_ok_def dll_ok_def)
  have some: "h a \<noteq> None" using same_blocks_None [OF hl(3), of a] by simp
  have "LRU_ok (c\<lparr>lru_heap := h, lru_list := l\<rparr>) (a # ys @ zs)"
    using ok hl(2) dist unfolding LRU_ok_def by (auto simp: blkh key xs)
  moreover have "map (blk h) (a # ys @ zs) = lru_touch k d (map (blk ?g) xs)"
  proof -
    have "filter (\<lambda>e. fst e \<noteq> k) (map (blk ?g) xs) = map (blk ?g) (filter (\<lambda>x. fst (blk ?g x) \<noteq> fst (blk ?g a)) xs)"
      by (simp add: filter_map o_def k)
    also have "\<dots> = map (blk ?g) (ys @ zs)" using filter_keys_append [OF dist] xs by simp
    also have "\<dots> = map (blk h) (ys @ zs)" using ne by (auto simp: blkh key prod_eq_iff)
    finally show ?thesis by (simp add: lru_touch_def blkh key k)
  qed
  moreover have "\<exists>b'. h a = Some b' \<and> b_data b' = d"
  proof -
    have "snd (blk h a) = d" by (simp add: blkh key)
    then show ?thesis using some by (auto simp: blk_def)
  qed
  ultimately show ?thesis using hl(1) unfolding LRU_rel_def by fastforce
qed

lemma LRU_lookup:
  assumes "LRU_ok c xs"
  shows "map_of (map (blk (lru_heap c)) xs) k = map_option (\<lambda>a. snd (blk (lru_heap c) a)) (map_of (lru_cache c) k)"
proof (cases "map_of (lru_cache c) k")
  case None
  then have "\<forall>a\<in>set xs. fst (blk (lru_heap c) a) \<noteq> k" using assms unfolding LRU_ok_def by (metis option.distinct(1))
  then have "map_of (map (blk (lru_heap c)) xs) k = None" by (auto simp: map_of_eq_None_iff)
  then show ?thesis by (simp only: None option.map)
next
  case (Some a)
  then have "a \<in> set xs" "fst (blk (lru_heap c) a) = k" using assms by (simp_all add: LRU_ok_def)
  then have "(k, snd (blk (lru_heap c) a)) \<in> set (map (blk (lru_heap c)) xs)" by (force simp: prod_eq_iff)
  moreover have "distinct (map fst (map (blk (lru_heap c)) xs))" using assms by (simp add: LRU_ok_def o_def)
  ultimately show ?thesis using Some by (simp add: map_of_is_SomeI)
qed

lemma LRU_Get_refines:
  assumes "LRU_rel c es"
  shows "\<exists>c'. LRUCache_Get xx c path bid = Some (c', snd (lru_get (lru_capacity c) (NewBlockKey xx bid path) es))
     \<and> LRU_rel c' (fst (lru_get (lru_capacity c) (NewBlockKey xx bid path) es)) \<and> lru_capacity c' = lru_capacity c"
proof -
  let ?k = "NewBlockKey xx bid path"
  obtain xs where ok: "LRU_ok c xs" and es: "es = map (blk (lru_heap c)) xs" using assms by (auto simp: LRU_rel_def)
  show ?thesis
  proof (cases "lru_capacity c \<le> 0 \<or> map_of (lru_cache c) ?k = None")
    case True
    then show ?thesis using assms LRU_lookup [OF ok, of ?k] by (auto simp: LRUCache_Get_def lru_get_def Let_def es)
  next
    case False
    then obtain a where a: "map_of (lru_cache c) ?k = Some a" by auto
    then obtain b where b: "lru_heap c a = Some b" using LRU_block [OF ok] by blast
    have id: "(lru_heap c)(a \<mapsto> b\<lparr>b_data := b_data b\<rparr>) = lru_heap c" using b by auto
    have "map_of es ?k = Some (b_data b)" using LRU_lookup [OF ok, of ?k] a b by (simp add: es blk_def)
    then show ?thesis using False a LRU_move [OF ok a b, of "b_data b"] unfolding id
      by (auto simp: LRUCache_Get_def lru_get_def Let_def es)
  qed
qed

text \<open>A new entry goes to the front; when there is one too many the last one goes.\<close>

lemma LRU_insert:
  assumes ok: "LRU_ok c xs" and fresh: "map_of (lru_cache c) k = None" and n: "n = lru_free c"
  shows "\<exists>h l. InsertBeginning ((lru_heap c)(n \<mapsto> NewNode d k)) (lru_list c) n = Some (h, l)
     \<and> dll_ok h l (n # xs) \<and> distinct (map (\<lambda>a. fst (blk h a)) (n # xs))
     \<and> map (blk h) (n # xs) = lru_touch k d (map (blk (lru_heap c)) xs)
     \<and> (\<forall>j a. map_of (AList.update k n (lru_cache c)) j = Some a \<longleftrightarrow> a \<in> set (n # xs) \<and> fst (blk h a) = j)"
proof -
  let ?h = "(lru_heap c)(n \<mapsto> NewNode d k)"
  have nxs: "n \<notin> set xs" using ok n by (auto simp: LRU_ok_def)
  have nk: "\<forall>a\<in>set xs. fst (blk (lru_heap c) a) \<noteq> k" using ok fresh unfolding LRU_ok_def by (metis option.distinct(1))
  have "dll_ok ?h (lru_list c) xs" using ok nxs by (simp add: LRU_ok_def dll_ok_def)
  then obtain h l where hl: "InsertBeginning ?h (lru_list c) n = Some (h, l)" "dll_ok h l (n # xs)" "same_blocks ?h h"
    using InsertBeginning_ok [of ?h "lru_list c" xs n "NewNode d k"] nxs by auto
  have blkh: "blk h x = (if x = n then (k, d) else blk (lru_heap c) x)" for x
    using same_blocks_blk [OF hl(3)] by (simp add: blk_def NewNode_def)
  have es: "map (blk h) xs = map (blk (lru_heap c)) xs" using nxs by (auto simp: blkh)
  have "distinct (map (\<lambda>a. fst (blk h a)) xs)"
  proof -
    have "map (\<lambda>a. fst (blk h a)) xs = map (\<lambda>a. fst (blk (lru_heap c) a)) xs" using nxs by (auto simp: blkh)
    then show ?thesis using ok by (simp add: LRU_ok_def del: map_eq_conv)
  qed
  then have dist: "distinct (map (\<lambda>a. fst (blk h a)) (n # xs))" using nxs nk by (auto simp: blkh split: if_splits)
  have "filter (\<lambda>e. fst e \<noteq> k) (map (blk (lru_heap c)) xs) = map (blk (lru_heap c)) xs"
    using nk by (auto simp: filter_id_conv)
  then have touch: "map (blk h) (n # xs) = lru_touch k d (map (blk (lru_heap c)) xs)"
    by (simp add: lru_touch_def blkh es del: map_eq_conv)
  have "map_of (AList.update k n (lru_cache c)) j = Some a \<longleftrightarrow> a \<in> set (n # xs) \<and> fst (blk h a) = j" for j a
  proof -
    have "map_of (lru_cache c) j = Some a \<longleftrightarrow> a \<in> set xs \<and> fst (blk (lru_heap c) a) = j" using ok by (simp add: LRU_ok_def)
    then show ?thesis using nxs nk by (auto simp: update_conv' blkh)
  qed
  then show ?thesis using hl(1,2) dist touch by blast
qed

lemma LRU_evict:
  assumes dll: "dll_ok (lru_heap c) (lru_list c) (ys @ [t])" and free: "\<forall>a\<in>set (ys @ [t]). a < lru_free c"
    and dist: "distinct (map (\<lambda>a. fst (blk (lru_heap c) a)) (ys @ [t]))"
    and cache: "\<And>j a. map_of (lru_cache c) j = Some a \<longleftrightarrow> a \<in> set (ys @ [t]) \<and> fst (blk (lru_heap c) a) = j"
    and cap: "int (length ys) \<le> max 0 (lru_capacity c)"
  shows "\<exists>c'. LRUCache_evictLocked c = Some c' \<and> LRU_ok c' ys \<and> lru_capacity c' = lru_capacity c
     \<and> map (blk (lru_heap c')) ys = map (blk (lru_heap c)) ys"
proof -
  have t: "d_tail (lru_list c) = Some t" using dll by (simp add: dll_ok_def)
  obtain b where b: "lru_heap c t = Some b" using dll dseg_some [of "lru_heap c" None "ys @ [t]" None t]
    unfolding dll_ok_def by auto
  obtain h l where hl: "DeleteEnd (lru_heap c) (lru_list c) = Some (h, l)" "dll_ok h l ys" "same_blocks (lru_heap c) h"
    using DeleteEnd_ok [OF dll] by blast
  have blkh: "blk h = blk (lru_heap c)" by (rule same_blocks_blk [OF hl(3)])
  have key: "fst (blk (lru_heap c) t) = b_BlockKey b" using b by (simp add: blk_def)
  have tys: "t \<notin> set ys" using dll by (simp add: dll_ok_def)
  have other: "\<forall>a\<in>set ys. fst (blk (lru_heap c) a) \<noteq> b_BlockKey b" using dist key by (auto simp: image_iff dest: sym)
  let ?c = "c\<lparr>lru_cache := AList.delete (b_BlockKey b) (lru_cache c), lru_heap := h, lru_list := l\<rparr>"
  have "map_of (AList.delete (b_BlockKey b) (lru_cache c)) j = Some a
      \<longleftrightarrow> a \<in> set ys \<and> fst (blk (lru_heap c) a) = j" for j a
    using cache [of j a] other key by (auto simp: delete_conv')
  then have "LRU_ok ?c ys" using hl(2) free dist cap by (simp add: LRU_ok_def blkh)
  then show ?thesis using t b hl(1) by (simp add: LRUCache_evictLocked_def blkh)
qed

lemma LRU_Put_refines:
  assumes rel: "LRU_rel c es"
  shows "\<exists>c'. LRUCache_Put xx c path bid d = Some c'
     \<and> LRU_rel c' (lru_put (lru_capacity c) (NewBlockKey xx bid path) d es) \<and> lru_capacity c' = lru_capacity c"
proof -
  let ?k = "NewBlockKey xx bid path" and ?n = "lru_free c"
  obtain xs where ok: "LRU_ok c xs" and es: "es = map (blk (lru_heap c)) xs" using rel by (auto simp: LRU_rel_def)
  consider (none) "lru_capacity c \<le> 0" | (hit) a where "0 < lru_capacity c" "map_of (lru_cache c) ?k = Some a"
    | (miss) "0 < lru_capacity c" "map_of (lru_cache c) ?k = None" by fastforce
  then show ?thesis
  proof cases
    case none
    then show ?thesis using rel by (simp add: LRUCache_Put_def lru_put_def)
  next
    case hit
    then obtain b where b: "lru_heap c a = Some b" using LRU_block [OF ok] by blast
    obtain h l where m: "MoveToFront ((lru_heap c)(a \<mapsto> b\<lparr>b_data := d\<rparr>)) (lru_list c) a = Some (h, l)"
      "LRU_rel (c\<lparr>lru_heap := h, lru_list := l\<rparr>) (lru_touch ?k d es)"
      using LRU_move [OF ok hit(2) b, of d] es by blast
    then obtain zs where "LRU_ok (c\<lparr>lru_heap := h, lru_list := l\<rparr>) zs" "length zs = length (lru_touch ?k d es)"
      unfolding LRU_rel_def by (metis length_map)
    then have "length (lru_touch ?k d es) \<le> nat (lru_capacity c)" using hit(1) unfolding LRU_ok_def by (auto simp: le_nat_iff)
    then show ?thesis using m b hit by (simp add: LRUCache_Put_def lru_put_def Let_def)
  next
    case miss
    obtain h l where i: "InsertBeginning ((lru_heap c)(?n \<mapsto> NewNode d ?k)) (lru_list c) ?n = Some (h, l)"
      "dll_ok h l (?n # xs)" "distinct (map (\<lambda>a. fst (blk h a)) (?n # xs))"
      "map (blk h) (?n # xs) = lru_touch ?k d es"
      "\<And>j a. map_of (AList.update ?k ?n (lru_cache c)) j = Some a \<longleftrightarrow> a \<in> set (?n # xs) \<and> fst (blk h a) = j"
      using LRU_insert [OF ok miss(2) refl, of d] es by blast
    let ?c = "c\<lparr>lru_heap := h, lru_list := l, lru_free := Suc ?n, lru_cache := AList.update ?k ?n (lru_cache c)\<rparr>"
    have free: "\<forall>a\<in>set (?n # xs). a < lru_free ?c" using ok by (auto simp: LRU_ok_def)
    have len: "d_length l = int (length (?n # xs))" "int (length xs) \<le> lru_capacity c"
      using i(2) ok miss(1) by (auto simp: dll_ok_def LRU_ok_def)
    show ?thesis
    proof (cases "d_length l > lru_capacity c")
      case False
      then have "LRU_ok ?c (?n # xs)" using i(2,3,5) free len(1) by (simp add: LRU_ok_def)
      then have "LRU_rel ?c (lru_touch ?k d es)" unfolding LRU_rel_def using i(4) by auto
      moreover have "length (lru_touch ?k d es) \<le> nat (lru_capacity c)"
        using False len(1) i(4) [symmetric] by simp
      ultimately show ?thesis using False i(1) miss by (simp add: LRUCache_Put_def lru_put_def Let_def)
    next
      case True
      obtain ys t where yt: "?n # xs = ys @ [t]" by (metis append_butlast_last_id list.distinct(1))
      have lys: "int (length ys) = lru_capacity c" using True len arg_cong [OF yt, of length] by simp
      obtain c' where c': "LRUCache_evictLocked ?c = Some c'" "LRU_ok c' ys" "lru_capacity c' = lru_capacity c"
        "map (blk (lru_heap c')) ys = map (blk h) ys"
        using LRU_evict [of ?c ys t] i(2,3,5) free lys unfolding yt by auto
      have "map (blk h) ys = take (nat (lru_capacity c)) (lru_touch ?k d es)"
        unfolding i(4) [symmetric] yt using lys by (simp add: nat_eq_iff)
      then have "LRU_rel c' (take (nat (lru_capacity c)) (lru_touch ?k d es))" using c' unfolding LRU_rel_def by metis
      then show ?thesis using True i(1) miss c' by (simp add: LRUCache_Put_def lru_put_def Let_def)
    qed
  qed
qed

section \<open>Reading through the cache\<close>

text \<open>
  \<open>tables\<close> gives the content of every table file. Two blocks of table files with the same key hold
  the same bytes: xxHash does not collide on the blocks that exist.
\<close>

definition collision_free :: "(string \<Rightarrow> u64) \<Rightarrow> int \<Rightarrow> (string \<rightharpoonup> byte list) \<Rightarrow> bool" where
  "collision_free xx bs tables \<longleftrightarrow>
     (\<forall>p p' f f' i i' d d'. tables p = Some f \<and> tables p' = Some f' \<and> 0 \<le> i \<and> 0 \<le> i'
        \<and> File_ReadAt f (bs * i) bs = Inr d \<and> File_ReadAt f' (bs * i') bs = Inr d'
        \<and> NewBlockKey xx i p = NewBlockKey xx i' p' \<longrightarrow> d = d')"

text \<open>Everything cached is what the file holds.\<close>

definition cache_coherent :: "(string \<Rightarrow> u64) \<Rightarrow> int \<Rightarrow> (string \<rightharpoonup> byte list) \<Rightarrow> (BlockKey \<times> byte list) list \<Rightarrow> bool" where
  "cache_coherent xx bs tables es \<longleftrightarrow>
     (\<forall>k d. (k, d) \<in> set es \<longrightarrow> (\<forall>p f i d'. tables p = Some f \<and> 0 \<le> i \<and> File_ReadAt f (bs * i) bs = Inr d'
        \<and> NewBlockKey xx i p = k \<longrightarrow> d' = d))"

definition bm_ok :: "(string \<Rightarrow> u64) \<Rightarrow> int \<Rightarrow> int \<Rightarrow> (string \<rightharpoonup> byte list) \<Rightarrow> BlockManager \<Rightarrow> bool" where
  "bm_ok xx bs cap tables bm \<longleftrightarrow> bm_block_size bm = bs \<and> 0 < bs \<and> lru_capacity (bm_lruCache bm) = cap
     \<and> (\<exists>es. LRU_rel (bm_lruCache bm) es \<and> cache_coherent xx bs tables es)
     \<and> (\<forall>p f. map_of (bm_openFDs bm) p = Some f \<longrightarrow> tables p = Some f)"

lemma bm_ok_new: "0 < bs \<Longrightarrow> bm_ok xx bs cap tables (NewBlockManager bs cap)"
  using LRU_new [of cap] by (auto simp: bm_ok_def NewBlockManager_def NewLRUCache_def cache_coherent_def)

lemma lru_put_subset: "set (lru_put cap k d es) \<subseteq> insert (k, d) (set es)"
  by (auto simp: lru_put_def lru_touch_def dest: in_set_takeD)

lemma lru_get_coherent:
  assumes "cache_coherent xx bs tables es"
  shows "cache_coherent xx bs tables (fst (lru_get cap k es))"
proof -
  have "set (fst (lru_get cap k es)) \<subseteq> set es"
    by (auto simp: lru_get_def lru_touch_def dest: map_of_SomeD split: option.splits)
  then show ?thesis using assms unfolding cache_coherent_def by blast
qed

lemma lru_put_coherent:
  assumes "cache_coherent xx bs tables es" and "collision_free xx bs tables" and "tables p = Some f"
    and "0 \<le> i" and "File_ReadAt f (bs * i) bs = Inr d"
  shows "cache_coherent xx bs tables (lru_put cap (NewBlockKey xx i p) d es)"
  unfolding cache_coherent_def
proof (intro allI impI, elim conjE)
  fix k e p' f' i' d'
  assume e: "(k, e) \<in> set (lru_put cap (NewBlockKey xx i p) d es)" and *: "tables p' = Some f'" "0 \<le> i'"
    "File_ReadAt f' (bs * i') bs = Inr d'" "NewBlockKey xx i' p' = k"
  from e lru_put_subset consider "k = NewBlockKey xx i p" "e = d" | "(k, e) \<in> set es" by fastforce
  then show "d' = e"
  proof cases
    case 1
    then show ?thesis using assms(2-5) * unfolding collision_free_def by metis
  next
    case 2
    then show ?thesis using assms(1) * unfolding cache_coherent_def by blast
  qed
qed

lemma quot_exact:
  assumes "0 < b" and "0 \<le> a"
  shows "quot a b = a div b"
  using assms by (cases "a = 0") (simp_all add: quot_def)

text \<open>
  A read within the file returns exactly the bytes of the file, whether the cache or the file serves
  it, and leaves the cache coherent.
\<close>

lemma ReadAt_coherent:
  assumes "bm_ok xx bs cap tables bm" and "collision_free xx bs tables" and "map_of disk path = Some f"
    and "tables path = Some f" and "File_ReadAt f offset n = Inr d" and "0 \<le> n"
  shows "\<exists>bm'. BlockManager_ReadAt xx disk bm path offset n = Some (bm', Inr d) \<and> bm_ok xx bs cap tables bm'"
proof -
  let ?lru = "bm_lruCache bm" and ?cap = "lru_capacity (bm_lruCache bm)"
  have bs: "bm_block_size bm = bs" "0 < bs" "?cap = cap"
    and fds: "\<forall>p f. map_of (bm_openFDs bm) p = Some f \<longrightarrow> tables p = Some f" using assms(1) by (auto simp: bm_ok_def)
  obtain es where es: "LRU_rel ?lru es" "cache_coherent xx bs tables es" using assms(1) by (auto simp: bm_ok_def)
  have off: "0 \<le> offset" using assms(5) by (auto simp: File_ReadAt_def split: if_splits)
  have div: "quot offset bs = offset div bs" "0 \<le> offset div bs"
    using quot_exact [OF bs(2) off] pos_imp_zdiv_nonneg_iff [OF bs(2)] off by auto
  have fd: "\<exists>b. getOrOpenFD disk m path = (m\<lparr>bm_openFDs := b\<rparr>, Inr f) \<and> (\<forall>p f. map_of b p = Some f \<longrightarrow> tables p = Some f)"
    if "bm_openFDs m = bm_openFDs bm" for m :: BlockManager
  proof (cases "map_of (bm_openFDs bm) path")
    case None
    then show ?thesis using fds assms(3,4) that
      by (intro exI [of _ "AList.update path f (bm_openFDs bm)"]) (auto simp: getOrOpenFD_def update_conv')
  next
    case (Some g)
    then show ?thesis using fds assms(4) that by (intro exI [of _ "bm_openFDs m"]) (auto simp: getOrOpenFD_def)
  qed
  show ?thesis
  proof (cases "n = bs \<and> offset - bs * (offset div bs) = 0")
    case False
    obtain b where b: "getOrOpenFD disk bm path = (bm\<lparr>bm_openFDs := b\<rparr>, Inr f)"
      "\<forall>p f. map_of b p = Some f \<longrightarrow> tables p = Some f" using fd [OF refl] by blast
    have "BlockManager_ReadAt xx disk bm path offset n = Some (bm\<lparr>bm_openFDs := b\<rparr>, Inr d)"
      using False b(1) assms(5,6) bs div by (auto simp: BlockManager_ReadAt_def Let_def)
    moreover have "bm_ok xx bs cap tables (bm\<lparr>bm_openFDs := b\<rparr>)" using bs es b(2) by (auto simp: bm_ok_def)
    ultimately show ?thesis by blast
  next
    case True
    let ?k = "NewBlockKey xx (offset div bs) path"
    have rd: "File_ReadAt f (bs * (offset div bs)) bs = Inr d" using True assms(5) by simp
    obtain c1 where c1: "LRUCache_Get xx ?lru path (offset div bs) = Some (c1, snd (lru_get ?cap ?k es))"
      "LRU_rel c1 (fst (lru_get ?cap ?k es))" "lru_capacity c1 = ?cap"
      using LRU_Get_refines [OF es(1), of xx path "offset div bs"] by blast
    have coh1: "cache_coherent xx bs tables (fst (lru_get ?cap ?k es))" by (rule lru_get_coherent [OF es(2)])
    show ?thesis
    proof (cases "snd (lru_get ?cap ?k es)")
      case (Some e)
      then have "(?k, e) \<in> set es" by (auto simp: lru_get_def dest: map_of_SomeD split: if_splits option.splits)
      then have "d = e" using es(2) rd div(2) assms(4) unfolding cache_coherent_def by blast
      then have "BlockManager_ReadAt xx disk bm path offset n = Some (bm\<lparr>bm_lruCache := c1\<rparr>, Inr d)"
        using Some c1(1) True bs div by (simp add: BlockManager_ReadAt_def Let_def)
      moreover have "bm_ok xx bs cap tables (bm\<lparr>bm_lruCache := c1\<rparr>)" using c1(2,3) coh1 bs fds by (auto simp: bm_ok_def)
      ultimately show ?thesis by blast
    next
      case None
      obtain c2 where c2: "LRUCache_Put xx c1 path (offset div bs) d = Some c2"
        "LRU_rel c2 (lru_put ?cap ?k d (fst (lru_get ?cap ?k es)))"
        "lru_capacity c2 = ?cap"
        using LRU_Put_refines [OF c1(2), of xx path "offset div bs" d] c1(3) by auto
      have coh2: "cache_coherent xx bs tables (lru_put ?cap ?k d (fst (lru_get ?cap ?k es)))"
        by (rule lru_put_coherent [OF coh1 assms(2,4) div(2) rd])
      obtain b where b: "getOrOpenFD disk (bm\<lparr>bm_lruCache := c1\<rparr>) path = (bm\<lparr>bm_lruCache := c1, bm_openFDs := b\<rparr>, Inr f)"
        "\<forall>p f. map_of b p = Some f \<longrightarrow> tables p = Some f" using fd [of "bm\<lparr>bm_lruCache := c1\<rparr>"] by auto
      have "BlockManager_ReadAt xx disk bm path offset n = Some (bm\<lparr>bm_lruCache := c2, bm_openFDs := b\<rparr>, Inr d)"
        using None c1(1) c2(1) b(1) True bs div assms(5) by (simp add: BlockManager_ReadAt_def Let_def)
      moreover have "bm_ok xx bs cap tables (bm\<lparr>bm_lruCache := c2, bm_openFDs := b\<rparr>)"
        using c2(2,3) coh2 bs b(2) by (auto simp: bm_ok_def)
      ultimately show ?thesis by blast
    qed
  qed
qed

text \<open>A sequence of reads on one block manager, with their results.\<close>

fun ReadAt_seq :: "(string \<Rightarrow> u64) \<Rightarrow> disk \<Rightarrow> BlockManager \<Rightarrow> (string \<times> int \<times> int) list
    \<Rightarrow> (BlockManager \<times> (file_error + byte list) list) option" where
  "ReadAt_seq xx disk bm [] = Some (bm, [])"
| "ReadAt_seq xx disk bm ((path, offset, n) # reqs) =
     do { (bm, r) \<leftarrow> BlockManager_ReadAt xx disk bm path offset n;
          (bm, rs) \<leftarrow> ReadAt_seq xx disk bm reqs;
          Some (bm, r # rs) }"

text \<open>What a request reads from the file itself.\<close>

definition direct_read :: "disk \<Rightarrow> string \<times> int \<times> int \<Rightarrow> file_error + byte list" where
  "direct_read disk = (\<lambda>(path, offset, n). case map_of disk path of None \<Rightarrow> Inl NotExist | Some f \<Rightarrow> File_ReadAt f offset n)"

lemma bm_ok_Len: "bm_ok xx bs cap tables bm \<Longrightarrow> LRUCache_Len (bm_lruCache bm) \<le> max 0 cap"
  by (auto simp: bm_ok_def LRU_rel_def LRU_ok_def dll_ok_def LRUCache_Len_def)

lemma ReadAt_seq_coherent:
  assumes "collision_free xx bs (map_of disk)" and "bm_ok xx bs cap (map_of disk) bm"
    and "\<forall>(path, offset, n)\<in>set reqs. 0 \<le> n \<and> (\<exists>d. direct_read disk (path, offset, n) = Inr d)"
  shows "\<exists>bm'. ReadAt_seq xx disk bm reqs = Some (bm', map (direct_read disk) reqs) \<and> bm_ok xx bs cap (map_of disk) bm'"
  using assms(2,3)
proof (induction reqs arbitrary: bm)
  case Nil
  then show ?case by simp
next
  case (Cons req reqs)
  obtain path offset n where req: "req = (path, offset, n)" by (cases req)
  obtain d where d: "direct_read disk req = Inr d" "0 \<le> n" using Cons.prems(2) by (auto simp: req)
  then obtain f where f: "map_of disk path = Some f" "File_ReadAt f offset n = Inr d"
    by (auto simp: direct_read_def req split: option.splits)
  obtain bm1 where bm1: "BlockManager_ReadAt xx disk bm path offset n = Some (bm1, Inr d)" "bm_ok xx bs cap (map_of disk) bm1"
    using ReadAt_coherent [OF Cons.prems(1) assms(1) f(1) f d(2)] by blast
  have "\<forall>(path, offset, n)\<in>set reqs. 0 \<le> n \<and> (\<exists>d. direct_read disk (path, offset, n) = Inr d)"
    using Cons.prems(2) by simp
  from Cons.IH [OF bm1(2) this] show ?case using bm1(1) d(1) by (auto simp: req)
qed

text \<open>
  C35: Reading through the block manager is transparent: starting from an empty cache of any capacity, every
  sequence of reads within existing files returns for each read exactly the bytes of the file,
  whether the LRU cache or the file serves it (hits move a block to the front, misses insert it
  and evict the least recently used one), no read panics, and the cache never holds more
  blocks than its capacity. The hash of block keys is assumed not to collide on the blocks that exist.\<close>

theorem ReadAt_transparent:
  assumes "0 < bs" and "collision_free xx bs (map_of disk)"
    and "\<forall>(path, offset, n)\<in>set reqs. 0 \<le> n \<and> (\<exists>d. direct_read disk (path, offset, n) = Inr d)"
  shows "\<exists>bm. ReadAt_seq xx disk (NewBlockManager bs cap) reqs = Some (bm, map (direct_read disk) reqs)
     \<and> LRUCache_Len (bm_lruCache bm) \<le> max 0 cap"
proof -
  from ReadAt_seq_coherent [OF assms(2) bm_ok_new [OF assms(1), of xx cap] assms(3)] show ?thesis
    using bm_ok_Len by blast
qed

theorem ReadAt_transparent_witness:
  "\<exists>bm. ReadAt_seq (\<lambda>s. of_nat (of_char (last s))) [(''t'', [1, 2, 3, 4])] (NewBlockManager 2 1)
        [(''t'', 2, 2), (''t'', 0, 2), (''t'', 2, 2)]
      = Some (bm, [Inr [3, 4], Inr [1, 2], Inr [3, 4]]) \<and> LRUCache_Len (bm_lruCache bm) \<le> 1"
proof -
  let ?xx = "\<lambda>s. of_nat (of_char (last s)) :: u64" and ?f = "[1, 2, 3, 4 :: byte]"
  have i: "i = 0 \<or> i = 1" if "0 \<le> i" "File_ReadAt ?f (2 * i) 2 = Inr d" for i d
    using that by (auto simp: File_ReadAt_def split: if_splits)
  have cf: "collision_free ?xx 2 (map_of [(''t'', ?f)])"
    unfolding collision_free_def
  proof (intro allI impI, elim conjE)
    fix p p' f f' i i' d d'
    assume "map_of [(''t'', ?f)] p = Some f" "map_of [(''t'', ?f)] p' = Some f'" and i0: "0 \<le> i" "0 \<le> i'"
      and r: "File_ReadAt f (2 * i) 2 = Inr d" "File_ReadAt f' (2 * i') 2 = Inr d'"
      and k: "NewBlockKey ?xx i p = NewBlockKey ?xx i' p'"
    then have f: "f = ?f" "f' = ?f" by (auto split: if_splits)
    have "i = 0 \<or> i = 1" "i' = 0 \<or> i' = 1" using i i0 r f by blast+
    then have "i = i'" using k by (auto simp: NewBlockKey_def FormatUint10.simps of_char_of)
    then show "d = d'" using r f by simp
  qed
  have d: "direct_read [(''t'', ?f)] (''t'', 2, 2) = Inr [3, 4]" "direct_read [(''t'', ?f)] (''t'', 0, 2) = Inr [1, 2]"
    by code_simp+
  show ?thesis
    using ReadAt_transparent [of 2 ?xx "[(''t'', ?f)]" "[(''t'', 2, 2), (''t'', 0, 2), (''t'', 2, 2)]" 1] cf d
    by (simp del: ReadAt_seq.simps)
qed

section \<open>The contract of a reader of table files\<close>

text \<open>
  What the SSTable reader relies on: a read within a file returns the bytes of the file and keeps
  the reader's invariant.
\<close>

locale block_reader =
  fixes readAt :: "'b \<Rightarrow> string \<Rightarrow> int \<Rightarrow> int \<Rightarrow> ('b \<times> (file_error + byte list)) option"
    and ok :: "'b \<Rightarrow> bool" and files :: "string \<rightharpoonup> byte list"
  assumes read_ok: "ok b \<Longrightarrow> files path = Some f \<Longrightarrow> 0 \<le> n \<Longrightarrow> File_ReadAt f offset n = Inr d \<Longrightarrow>
      \<exists>b'. readAt b path offset n = Some (b', Inr d) \<and> ok b'"
begin

text \<open>A read of part of a file whose content is known.\<close>

lemma read_part:
  assumes "ok b" and "files path = Some (xs @ ys @ zs)" and "offset = int (length xs)" and "n = int (length ys)"
  shows "\<exists>b'. readAt b path offset n = Some (b', Inr ys) \<and> ok b'"
  by (rule read_ok [OF assms(1,2)]) (auto simp: assms(3,4) File_ReadAt_def)

end

text \<open>The block manager meets it, over a disk whose tables are among \<open>tables\<close>.\<close>

definition bm_inv :: "(string \<Rightarrow> u64) \<Rightarrow> int \<Rightarrow> int \<Rightarrow> (string \<rightharpoonup> byte list) \<Rightarrow> disk \<Rightarrow> BlockManager \<Rightarrow> bool" where
  "bm_inv xx bs cap tables disk bm \<longleftrightarrow> bm_ok xx bs cap tables bm \<and> collision_free xx bs tables \<and> map_of disk \<subseteq>\<^sub>m tables"

interpretation bm: block_reader "BlockManager_ReadAt xx disk" "bm_inv xx bs cap tables disk" "map_of disk"
proof
  fix b path f n offset d
  assume ok: "bm_inv xx bs cap tables disk b" and f: "map_of disk path = Some f" and n: "0 \<le> n"
    and d: "File_ReadAt f offset n = Inr d"
  have "tables path = Some f" using ok f by (force simp: bm_inv_def map_le_def)
  moreover have "bm_ok xx bs cap tables b" "collision_free xx bs tables" using ok by (auto simp: bm_inv_def)
  ultimately show "\<exists>b'. BlockManager_ReadAt xx disk b path offset n = Some (b', Inr d) \<and> bm_inv xx bs cap tables disk b'"
    using ReadAt_coherent [OF _ _ f _ d n] ok unfolding bm_inv_def by blast
qed

end
