(* ===== verification/SSTable.thy ===== *)
theory SSTable
  imports Prelude Bloom MerkleRoot BlockCache Memtable
begin

text \<open>
  SSTable files: the block writer \<open>src/service/file_writer/writer.go\<close>, the table format of
  \<open>src/service/ss_parser\<close> and the reader \<open>src/sstable/reader.go\<close>.

  The writer appends to the file at its location; bytes handed to the buffered writer are pending
  until it is flushed. \<open>fail\<close> says which kinds of file operations fail during a call (a failed operation writes
  nothing). The directory of the tables is an association list from path to content. Block sizes
  are greater than 3, the size of a block's trailer (the configuration has 4096). The reader reads
  through an arbitrary \<open>readAt\<close>, the locale \<open>block_reader\<close> of \<open>BlockCache\<close>.
\<close>

section \<open>writer.go\<close>

datatype sst_op = SOpen | SFlush | SWrite | SClose | SRename

datatype sst_error = SstIO

record FileWriter =
  fw_location :: string
  fw_dataRoot :: string
  fw_currentBlock :: "byte list"
  fw_currentBlockNum :: nat
  fw_blockSize :: nat
  fw_offsetInBlock :: nat
  fw_rawBytesWritten :: nat
  fw_file :: bool
  fw_buf :: "byte list"
  fw_disk :: disk

definition generateFileName :: "nat \<Rightarrow> string \<Rightarrow> string" where
  "generateFileName level uuid = ''sstable/lvl'' @ FormatUint10 level @ ''/sstable_'' @ uuid @ ''.db.tmp''"

definition filepath_Join :: "string \<Rightarrow> string \<Rightarrow> string" where
  "filepath_Join dir name = dir @ ''/'' @ name"

definition NewFileWriterInDir :: "nat \<Rightarrow> string \<Rightarrow> string \<Rightarrow> string \<Rightarrow> disk \<Rightarrow> FileWriter" where
  "NewFileWriterInDir blockSize name dataRoot uuid disk =
     (let name = (if name = '''' then generateFileName 0 uuid else name)
      in \<lparr>fw_location = filepath_Join dataRoot name, fw_dataRoot = dataRoot, fw_currentBlock = [],
          fw_currentBlockNum = 0, fw_blockSize = blockSize, fw_offsetInBlock = 0, fw_rawBytesWritten = 0,
          fw_file = False, fw_buf = [], fw_disk = disk\<rparr>)"

text \<open>Opening creates the file or truncates it.\<close>

definition openIfNeeded :: "(sst_op \<Rightarrow> bool) \<Rightarrow> FileWriter \<Rightarrow> FileWriter \<times> sst_error option" where
  "openIfNeeded fail fw =
     (if fw_file fw then (fw, None)
      else if fail SOpen then (fw, Some SstIO)
      else (fw\<lparr>fw_file := True, fw_buf := [], fw_disk := AList.update (fw_location fw) [] (fw_disk fw)\<rparr>, None))"

definition disk_content :: "disk \<Rightarrow> string \<Rightarrow> byte list" where
  "disk_content disk path = (case map_of disk path of None \<Rightarrow> [] | Some bs \<Rightarrow> bs)"

text \<open>\<open>fw.buf.Flush\<close> and \<open>fw.file.Write\<close>.\<close>

definition buf_Flush :: "(sst_op \<Rightarrow> bool) \<Rightarrow> FileWriter \<Rightarrow> FileWriter \<times> sst_error option" where
  "buf_Flush fail fw =
     (if fail SFlush then (fw, Some SstIO)
      else (fw\<lparr>fw_buf := [], fw_disk := AList.update (fw_location fw)
                 (disk_content (fw_disk fw) (fw_location fw) @ fw_buf fw) (fw_disk fw)\<rparr>, None))"

definition file_Write :: "(sst_op \<Rightarrow> bool) \<Rightarrow> FileWriter \<Rightarrow> byte list \<Rightarrow> FileWriter \<times> sst_error option" where
  "file_Write fail fw data =
     (if fail SWrite then (fw, Some SstIO)
      else (fw\<lparr>fw_disk := AList.update (fw_location fw)
                 (disk_content (fw_disk fw) (fw_location fw) @ data) (fw_disk fw)\<rparr>, None))"

definition str_HasSuffix :: "string \<Rightarrow> string \<Rightarrow> bool" where
  "str_HasSuffix s suf \<longleftrightarrow> length suf \<le> length s \<and> drop (length s - length suf) s = suf"

text \<open>\<open>os.Rename\<close> fails when the source does not exist.\<close>

definition os_Rename :: "(sst_op \<Rightarrow> bool) \<Rightarrow> disk \<Rightarrow> string \<Rightarrow> string \<Rightarrow> disk option" where
  "os_Rename fail disk a b =
     (if fail SRename then None
      else (case map_of disk a of
              None \<Rightarrow> None
            | Some content \<Rightarrow> Some (AList.update b content (AList.delete a disk))))"

definition FileWriter_Commit :: "(sst_op \<Rightarrow> bool) \<Rightarrow> FileWriter \<Rightarrow> FileWriter \<times> sst_error option" where
  "FileWriter_Commit fail fw =
     (case (if fw_file fw
            then (case buf_Flush fail fw of
                    (fw, Some err) \<Rightarrow> (fw, Some err)
                  | (fw, None) \<Rightarrow> if fail SClose then (fw, Some SstIO) else (fw\<lparr>fw_file := False, fw_buf := []\<rparr>, None))
            else (fw, None)) of
        (fw, Some err) \<Rightarrow> (fw, Some err)
      | (fw, None) \<Rightarrow>
          if \<not> str_HasSuffix (fw_location fw) ''.tmp'' then (fw, None)
          else (let finalPath = take (length (fw_location fw) - 4) (fw_location fw)
                in case os_Rename fail (fw_disk fw) (fw_location fw) finalPath of
                     None \<Rightarrow> (fw, Some SstIO)
                   | Some disk \<Rightarrow> (fw\<lparr>fw_disk := disk, fw_location := finalPath\<rparr>, None)))"

definition JumboStart :: byte where "JumboStart = 1"
definition JumboMiddle :: byte where "JumboMiddle = 3"
definition JumboEnd :: byte where "JumboEnd = 7"
definition NonJumbo :: byte where "NonJumbo = 0"

definition IsJumbo :: "FileWriter \<Rightarrow> nat \<Rightarrow> bool" where
  "IsJumbo fw dataLen \<longleftrightarrow> dataLen > fw_blockSize fw - 3"

definition CanWrite :: "FileWriter \<Rightarrow> nat \<Rightarrow> bool" where
  "CanWrite fw dataLen \<longleftrightarrow> fw_offsetInBlock fw + dataLen + 3 \<le> fw_blockSize fw"

text \<open>The two length bytes (\<open>byte(n >> 8)\<close>, \<open>byte(n)\<close>) and the type of a block.\<close>

definition block_trailer :: "nat \<Rightarrow> byte \<Rightarrow> byte list" where
  "block_trailer n t = [of_nat (n div 256), of_nat n, t]"

definition FlushCurrentBlock :: "(sst_op \<Rightarrow> bool) \<Rightarrow> FileWriter \<Rightarrow> FileWriter" where
  "FlushCurrentBlock fail fw =
     (if length (fw_currentBlock fw) = 0 then fw
      else (let usedBytes = length (fw_currentBlock fw);
                fw = fw\<lparr>fw_currentBlock := fw_currentBlock fw @ replicate (fw_blockSize fw - usedBytes - 3) 0
                          @ block_trailer usedBytes NonJumbo\<rparr>
            in case openIfNeeded fail fw of
                 (fw, Some err) \<Rightarrow> fw
               | (fw, None) \<Rightarrow> fw\<lparr>fw_buf := fw_buf fw @ fw_currentBlock fw, fw_currentBlockNum := fw_currentBlockNum fw + 1,
                                 fw_currentBlock := [], fw_offsetInBlock := 0\<rparr>))"

definition jumbo_type :: "nat \<Rightarrow> nat \<Rightarrow> byte" where
  "jumbo_type i numBlocks =
     (if i = 0 \<and> numBlocks = 1 then JumboEnd
      else if i = 0 then JumboStart
      else if i = numBlocks - 1 then JumboEnd
      else JumboMiddle)"

text \<open>The loop over the blocks; \<open>data\<close> is what is left from \<open>dataOffset\<close> on.\<close>

fun jumbo_loop :: "nat \<Rightarrow> nat \<Rightarrow> nat \<Rightarrow> byte list \<Rightarrow> FileWriter \<Rightarrow> FileWriter" where
  "jumbo_loop numBlocks i 0 data fw = fw"
| "jumbo_loop numBlocks i (Suc todo) data fw =
     (let avail = fw_blockSize fw - 3;
          chunk = take avail data; chunkSize = length chunk;
          blockData = chunk @ replicate (avail - chunkSize) 0 @ block_trailer chunkSize (jumbo_type i numBlocks)
      in jumbo_loop numBlocks (i + 1) todo (drop avail data)
           (fw\<lparr>fw_buf := fw_buf fw @ blockData, fw_currentBlockNum := fw_currentBlockNum fw + 1\<rparr>))"

definition WriteJumboData :: "(sst_op \<Rightarrow> bool) \<Rightarrow> FileWriter \<Rightarrow> byte list \<Rightarrow> FileWriter \<times> nat" where
  "WriteJumboData fail fw data =
     (let fw = (if length (fw_currentBlock fw) > 0 then FlushCurrentBlock fail fw else fw);
          startBlock = fw_currentBlockNum fw;
          availablePerBlock = fw_blockSize fw - 3;
          numBlocks = (length data + availablePerBlock - 1) div availablePerBlock
      in case openIfNeeded fail fw of
           (fw, Some err) \<Rightarrow> (fw, startBlock)
         | (fw, None) \<Rightarrow>
             ((jumbo_loop numBlocks 0 numBlocks data fw)\<lparr>fw_currentBlock := [], fw_offsetInBlock := 0\<rparr>, startBlock))"

definition FileWriter_Write :: "(sst_op \<Rightarrow> bool) \<Rightarrow> FileWriter \<Rightarrow> byte list \<Rightarrow> bool \<Rightarrow> FileWriter \<times> nat" where
  "FileWriter_Write fail fw data sectionEnd =
     (let fw = (if sectionEnd \<and> length (fw_currentBlock fw) > 0 then FlushCurrentBlock fail fw else fw)
      in if length data = 0 then (fw, fw_currentBlockNum fw)
         else if IsJumbo fw (length data) then WriteJumboData fail fw data
         else (let fw = (if \<not> CanWrite fw (length data) then FlushCurrentBlock fail fw else fw);
                   fw = fw\<lparr>fw_currentBlock := fw_currentBlock fw @ data,
                           fw_offsetInBlock := fw_offsetInBlock fw + length data\<rparr>
               in (fw, fw_currentBlockNum fw)))"

definition WriteRaw :: "(sst_op \<Rightarrow> bool) \<Rightarrow> FileWriter \<Rightarrow> byte list \<Rightarrow> FileWriter \<times> (sst_error + int)" where
  "WriteRaw fail fw data =
     (case openIfNeeded fail (FlushCurrentBlock fail fw) of
        (fw, Some err) \<Rightarrow> (fw, Inl err)
      | (fw, None) \<Rightarrow>
          (case buf_Flush fail fw of
             (fw, Some err) \<Rightarrow> (fw, Inl err)
           | (fw, None) \<Rightarrow>
               (let startOffset = int (fw_currentBlockNum fw) * int (fw_blockSize fw) + int (fw_rawBytesWritten fw)
                in case file_Write fail fw data of
                     (fw, Some err) \<Rightarrow> (fw, Inl err)
                   | (fw, None) \<Rightarrow>
                       (fw\<lparr>fw_rawBytesWritten := fw_rawBytesWritten fw + length data\<rparr>, Inr startOffset))))"

definition ResetFileWriter :: "(sst_op \<Rightarrow> bool) \<Rightarrow> FileWriter \<Rightarrow> string \<Rightarrow> string \<Rightarrow> FileWriter" where
  "ResetFileWriter fail fw name uuid =
     (let fw = (if fw_file fw then (fst (buf_Flush fail fw))\<lparr>fw_file := False, fw_buf := []\<rparr> else fw);
          name = (if name = '''' then generateFileName 0 uuid else name)
      in fw\<lparr>fw_currentBlock := [], fw_currentBlockNum := 0, fw_offsetInBlock := 0, fw_rawBytesWritten := 0,
            fw_location := filepath_Join (fw_dataRoot fw) name\<rparr>)"

section \<open>ss\_parser\<close>

definition FooterSize :: nat where "FooterSize = 56"

definition FooterMagic :: nat where "FooterMagic = 0x0D1AACCE55DB0002"

record IndexEntry =
  ie_Key :: string
  ie_Offset :: int

definition IntToBytes :: "int \<Rightarrow> byte list" where
  "IntToBytes n = be_enc 8 (nat (n mod 2 ^ 64))"

definition SizeAndValueToBytes :: "string \<Rightarrow> byte list" where
  "SizeAndValueToBytes v = (let valueBytes = bytes_of v in IntToBytes (int (length valueBytes)) @ valueBytes)"

text \<open>The loop over the entries, with the index built so far and the block of the last entry.\<close>

fun serialize_data_loop :: "(sst_op \<Rightarrow> bool) \<Rightarrow> nat \<Rightarrow> FileWriter \<Rightarrow> IndexEntry list \<Rightarrow> int \<Rightarrow> KeyValue list
    \<Rightarrow> FileWriter \<times> IndexEntry list \<times> int" where
  "serialize_data_loop fail BlockSize fw index lastBlock [] = (fw, index, lastBlock)"
| "serialize_data_loop fail BlockSize fw index lastBlock ((k, v) # kvs) =
     (let bs = SizeAndValueToBytes k @ SizeAndValueToBytes v;
          (fw, blockNum) = FileWriter_Write fail fw bs False
      in if int blockNum \<noteq> lastBlock
         then serialize_data_loop fail BlockSize fw
                (index @ [\<lparr>ie_Key = k, ie_Offset = int blockNum * int BlockSize\<rparr>]) (int blockNum) kvs
         else serialize_data_loop fail BlockSize fw index lastBlock kvs)"

definition SerializeDataBuildIndex :: "(sst_op \<Rightarrow> bool) \<Rightarrow> nat \<Rightarrow> FileWriter \<Rightarrow> KeyValue list
    \<Rightarrow> FileWriter \<times> IndexEntry list" where
  "SerializeDataBuildIndex fail BlockSize fw keyValues =
     (case serialize_data_loop fail BlockSize fw [] (-1) keyValues of (fw, index, _) \<Rightarrow> (fw, index))"

definition SerializeIndex :: "IndexEntry list \<Rightarrow> byte list" where
  "SerializeIndex entries =
     concat (map (\<lambda>e. IntToBytes (int (length (ie_Key e))) @ bytes_of (ie_Key e) @ IntToBytes (ie_Offset e)) entries)"

definition SerializeFilterSection :: "byte list \<Rightarrow> byte list \<Rightarrow> byte list \<Rightarrow> byte list" where
  "SerializeFilterSection bf pbf merkle =
     IntToBytes (int (length bf)) @ bf @ IntToBytes (int (length pbf)) @ pbf
       @ IntToBytes (int (length merkle)) @ merkle"

definition SerializeFooter :: "int \<Rightarrow> int \<Rightarrow> int \<Rightarrow> int \<Rightarrow> int \<Rightarrow> u64 \<Rightarrow> byte list" where
  "SerializeFooter indexOffset indexSize filterOffset filterSize itemCount maxLSN =
     IntToBytes indexOffset @ IntToBytes indexSize @ IntToBytes filterOffset @ IntToBytes filterSize
       @ IntToBytes itemCount @ be_enc 8 (unat maxLSN) @ be_enc 8 FooterMagic"

text \<open>What the format takes from outside: digests and floating-point sizes, and the block size.\<close>

record sst_env =
  se_md5 :: "byte list \<Rightarrow> u64"
  se_params :: bloom_params
  se_sha :: "string \<Rightarrow> string"
  se_BlockSize :: nat

text \<open>The value of \<open>x, _ := fw.WriteRaw(...)\<close>: zero when the write failed.\<close>

definition ignore_err :: "sst_error + int \<Rightarrow> int" where
  "ignore_err r = (case r of Inl _ \<Rightarrow> 0 | Inr x \<Rightarrow> x)"

text \<open>
  \<open>FlushMemtable\<close>; \<open>ts1\<close> and \<open>ts2\<close> are the random numbers of the two filters, \<open>uuid\<close> the name of the writer's
  next file.
\<close>

definition FlushMemtable :: "sst_env \<Rightarrow> (sst_op \<Rightarrow> bool) \<Rightarrow> 32 word \<Rightarrow> 32 word \<Rightarrow> string
    \<Rightarrow> FileWriter \<Rightarrow> KeyValue list \<Rightarrow> u64 \<Rightarrow> (FileWriter \<times> string) option" where
  "FlushMemtable env fail ts1 ts2 uuid fw data maxLSN =
     do { filter \<leftarrow> NewBloomFilterWithParams (se_params env) ts1 (int (length data));
          filter \<leftarrow> BloomFilter_AddMultiple (se_md5 env) filter (map fst data);
          prefixFilter \<leftarrow> NewPrefixBloomFilter (se_params env) ts2;
          prefixFilter \<leftarrow> PrefixBloomFilter_AddMultiple (se_md5 env) prefixFilter (map fst data);
          let merkleTree = fold (\<lambda>kv mt. MerkleTree_AddLeaf (se_sha env) mt (snd kv)) data
                (InitializeMerkleTree (int (length data)));
          let (fw, indexEntries) = SerializeDataBuildIndex fail (se_BlockSize env) fw data;
          let fw = fst (FileWriter_Write fail fw [] True);
          let indexBytes = SerializeIndex indexEntries;
          let (fw, indexOffset) = WriteRaw fail fw indexBytes;
          root \<leftarrow> MerkleTree_GetRootBytes (se_sha env) merkleTree;
          let filterBytes = SerializeFilterSection (BloomFilter_SerializeToByteArray filter)
                (PrefixBloomFilter_SerializeToByteArray prefixFilter) root;
          let (fw, filterOffset) = WriteRaw fail fw filterBytes;
          let footer = SerializeFooter (ignore_err indexOffset) (int (length indexBytes)) (ignore_err filterOffset)
                (int (length filterBytes)) (int (length data)) maxLSN;
          let fw = fst (WriteRaw fail fw footer);
          let fw = fst (FileWriter_Commit fail fw);
          let path = fw_location fw;
          Some (ResetFileWriter fail fw '''' uuid, path) }"

section \<open>reader.go\<close>

datatype sst_read_error =
    RFile file_error
  | TooSmall
  | BadMagic
  | EntryShort
  | KeyTruncated
  | LengthTruncated
  | ValueTruncated
  | FilterTruncated
  | RBloom bloom_error
  | BlockTooShort
  | UnexpectedBlockType byte

record SSTableReader =
  sr_path :: string
  sr_filter :: BloomFilter
  sr_prefixFilter :: PrefixBloomFilter
  sr_index :: "IndexEntry list"
  sr_itemCount :: int
  sr_maxLSN :: u64

text \<open>\<open>int(binary.BigEndian.Uint64(data[off:]))\<close>, a panic when eight bytes are not there.\<close>

definition int64_at :: "byte list \<Rightarrow> nat \<Rightarrow> int" where
  "int64_at data off = wrap64 (int (be_val (take 8 (drop off data))))"

definition extractClean :: "byte list \<Rightarrow> byte list" where
  "extractClean block =
     (if length block < 3 then block
      else (let usedBytes = unat (block ! (length block - 3)) * 256 + unat (block ! (length block - 2))
            in if usedBytes > length block - 3 then take (length block - 3) block else take usedBytes block))"

text \<open>
  The next field of length \<open>n\<close> at \<open>off\<close>: \<open>data[off : off+n]\<close> behind the check \<open>off+n > len(data)\<close>, which a negative
  length passes and then panics.
\<close>

definition field_at :: "byte list \<Rightarrow> nat \<Rightarrow> int \<Rightarrow> sst_read_error \<Rightarrow> (sst_read_error + byte list \<times> nat) option" where
  "field_at data off n err =
     (let stop = wrap64 (int off + n)
      in if stop > int (length data) then Some (Inl err)
         else if stop < int off then None
         else Some (Inr (take (nat stop - off) (drop off data), nat stop)))"

definition readDataEntry :: "byte list \<Rightarrow> (sst_read_error + string \<times> string \<times> nat) option" where
  "readDataEntry data =
     (if length data < 16 then Some (Inl EntryShort)
      else do { key \<leftarrow> field_at data 8 (int64_at data 0) KeyTruncated;
                (case key of
                   Inl err \<Rightarrow> Some (Inl err)
                 | Inr (key, off) \<Rightarrow>
                     if off + 8 > length data then Some (Inl LengthTruncated)
                     else do { val \<leftarrow> field_at data (off + 8) (int64_at data off) ValueTruncated;
                               (case val of
                                  Inl err \<Rightarrow> Some (Inl err)
                                | Inr (val, off) \<Rightarrow> Some (Inr (string_of key, string_of val, off))) }) })"

text \<open>The loop of \<open>parseIndex\<close>; a remainder of fewer than eight bytes ends it.\<close>

lemma field_at_stop: "field_at data off n err = Some (Inr (x, stop)) \<Longrightarrow> off \<le> stop \<and> stop \<le> length data"
  by (auto simp: field_at_def Let_def split: if_splits)

function parseIndex_loop :: "byte list \<Rightarrow> IndexEntry list \<Rightarrow> (sst_read_error + IndexEntry list) option" where
  "parseIndex_loop data entries =
     (if length data < 8 then Some (Inr entries)
      else (case field_at data 8 (int64_at data 0) KeyTruncated of
              None \<Rightarrow> None
            | Some (Inl err) \<Rightarrow> Some (Inl err)
            | Some (Inr (key, off)) \<Rightarrow>
                if off + 8 > length data then Some (Inl LengthTruncated)
                else parseIndex_loop (drop (off + 8) data)
                       (entries @ [\<lparr>ie_Key = string_of key, ie_Offset = int64_at data off\<rparr>])))"
  by pat_completeness auto
termination
  by (relation "measure (\<lambda>(data, entries). length data)") (auto dest: field_at_stop)

declare parseIndex_loop.simps [simp del]

definition parseIndex :: "byte list \<Rightarrow> (sst_read_error + IndexEntry list) option" where
  "parseIndex data = parseIndex_loop data []"

definition parseFilterSection :: "byte list \<Rightarrow> (sst_read_error + BloomFilter \<times> PrefixBloomFilter) option" where
  "parseFilterSection data =
     (if length data < 8 then Some (Inl FilterTruncated)
      else do { bfb \<leftarrow> field_at data 8 (int64_at data 0) FilterTruncated;
                (case bfb of
                   Inl err \<Rightarrow> Some (Inl err)
                 | Inr (bfb, off) \<Rightarrow>
                     do { bf \<leftarrow> DeserializeFromByteArray bfb;
                          (case bf of
                             Inl err \<Rightarrow> Some (Inl (RBloom err))
                           | Inr bf \<Rightarrow>
                               if off + 8 > length data then Some (Inl FilterTruncated)
                               else do { pbfb \<leftarrow> field_at data (off + 8) (int64_at data off) FilterTruncated;
                                         (case pbfb of
                                            Inl err \<Rightarrow> Some (Inl err)
                                          | Inr (pbfb, off) \<Rightarrow>
                                              do { pbf \<leftarrow> DeserializePrefixBloomFilter pbfb;
                                                   (case pbf of
                                                      Inl err \<Rightarrow> Some (Inl (RBloom err))
                                                    | Inr pbf \<Rightarrow> Some (Inr (bf, pbf))) }) }) }) })"

type_synonym 'b readAt_fun = "'b \<Rightarrow> string \<Rightarrow> int \<Rightarrow> int \<Rightarrow> ('b \<times> (file_error + byte list)) option"

definition SSTable_Open :: "'b readAt_fun \<Rightarrow> disk \<Rightarrow> 'b \<Rightarrow> string \<Rightarrow> ('b \<times> (sst_read_error + SSTableReader)) option" where
  "SSTable_Open readAt disk bm path =
     (case map_of disk path of
        None \<Rightarrow> Some (bm, Inl (RFile NotExist))
      | Some f \<Rightarrow>
          if length f < FooterSize then Some (bm, Inl TooSmall)
          else do { (bm, r) \<leftarrow> readAt bm path (int (length f) - int FooterSize) (int FooterSize);
                    (case r of
                       Inl err \<Rightarrow> Some (bm, Inl (RFile err))
                     | Inr footer \<Rightarrow>
                         if be_val (take 8 (drop 48 footer)) \<noteq> FooterMagic then Some (bm, Inl BadMagic)
                         else do { (bm, r) \<leftarrow> readAt bm path (int64_at footer 0) (int64_at footer 8);
                                   (case r of
                                      Inl err \<Rightarrow> Some (bm, Inl (RFile err))
                                    | Inr indexBytes \<Rightarrow>
                                        do { index \<leftarrow> parseIndex indexBytes;
                                             (case index of
                                                Inl err \<Rightarrow> Some (bm, Inl err)
                                              | Inr index \<Rightarrow>
                                                  do { (bm, r) \<leftarrow> readAt bm path (int64_at footer 16) (int64_at footer 24);
                                                       (case r of
                                                          Inl err \<Rightarrow> Some (bm, Inl (RFile err))
                                                        | Inr filterBytes \<Rightarrow>
                                                            do { fs \<leftarrow> parseFilterSection filterBytes;
                                                                 (case fs of
                                                                    Inl err \<Rightarrow> Some (bm, Inl err)
                                                                  | Inr (bf, pbf) \<Rightarrow>
                                                                      Some (bm, Inr \<lparr>sr_path = path, sr_filter = bf,
                                                                        sr_prefixFilter = pbf, sr_index = index,
                                                                        sr_itemCount = int64_at footer 32,
                                                                        sr_maxLSN = of_nat (be_val (take 8 (drop 40 footer)))\<rparr>)) }) }) }) }) })"

partial_function (option) readJumboForward ::
  "'b readAt_fun \<Rightarrow> nat \<Rightarrow> string \<Rightarrow> int \<Rightarrow> byte list \<Rightarrow> 'b \<Rightarrow> ('b \<times> (sst_read_error + byte list)) option" where
  "readJumboForward readAt BlockSize path currentOffset result bm =
     (case readAt bm path currentOffset (int BlockSize) of
        None \<Rightarrow> None
      | Some (bm, Inl err) \<Rightarrow> Some (bm, Inl (RFile err))
      | Some (bm, Inr block) \<Rightarrow>
          if block = [] then None
          else if last block = JumboEnd then Some (bm, Inr (result @ extractClean block))
          else readJumboForward readAt BlockSize path (currentOffset + int BlockSize) (result @ extractClean block) bm)"

declare readJumboForward.simps [code]

definition readDataBlock :: "'b readAt_fun \<Rightarrow> nat \<Rightarrow> string \<Rightarrow> 'b \<Rightarrow> int \<Rightarrow> ('b \<times> (sst_read_error + byte list)) option" where
  "readDataBlock readAt BlockSize path bm blockOffset =
     do { (bm, r) \<leftarrow> readAt bm path blockOffset (int BlockSize);
          (case r of
             Inl err \<Rightarrow> Some (bm, Inl (RFile err))
           | Inr block \<Rightarrow>
               if length block < 3 then Some (bm, Inl BlockTooShort)
               else (let blockType = last block; cleanData = extractClean block
                     in if blockType = NonJumbo \<or> blockType = JumboEnd then Some (bm, Inr cleanData)
                        else if blockType = JumboStart
                        then readJumboForward readAt BlockSize path (blockOffset + int BlockSize) cleanData bm
                        else Some (bm, Inl (UnexpectedBlockType blockType)))) }"

text \<open>
  The loop over the entries of a block, shared by the reads: \<open>visit\<close> updates the result and says whether to stop;
  an entry that does not parse ends the loop.
\<close>

lemma readDataEntry_progress: "readDataEntry data = Some (Inr (k, v, n)) \<Longrightarrow> 0 < n \<and> data \<noteq> []"
  by (auto simp: readDataEntry_def split: if_splits sum.splits option.splits bind_splits dest!: field_at_stop)

function entry_loop :: "('a \<Rightarrow> string \<Rightarrow> string \<Rightarrow> 'a \<times> bool) \<Rightarrow> 'a \<Rightarrow> byte list \<Rightarrow> ('a \<times> bool) option" where
  "entry_loop visit acc data =
     (if data = [] then Some (acc, False)
      else (case readDataEntry data of
              None \<Rightarrow> None
            | Some (Inl _) \<Rightarrow> Some (acc, False)
            | Some (Inr (k, v, n)) \<Rightarrow>
                (case visit acc k v of
                   (acc, True) \<Rightarrow> Some (acc, True)
                 | (acc, False) \<Rightarrow> entry_loop visit acc (drop n data))))"
  by pat_completeness auto
termination
  by (relation "measure (\<lambda>(visit, acc, data). length data)") (auto dest: readDataEntry_progress)

declare entry_loop.simps [simp del]

definition SSTable_Get :: "sst_env \<Rightarrow> 'b readAt_fun \<Rightarrow> 'b \<Rightarrow> SSTableReader \<Rightarrow> string
    \<Rightarrow> ('b \<times> (sst_read_error + string option)) option" where
  "SSTable_Get env readAt bm r key =
     do { hit \<leftarrow> BloomFilter_Check (se_md5 env) (sr_filter r) key;
          if \<not> hit then Some (bm, Inr None)
          else (let i = sort_Search (length (sr_index r)) (\<lambda>j. ie_Key (sr_index r ! j) > key)
                in if i = 0 then Some (bm, Inr None)
                   else do { (bm, blockData) \<leftarrow> readDataBlock readAt (se_BlockSize env) (sr_path r) bm (ie_Offset (sr_index r ! (i - 1)));
                             (case blockData of
                                Inl err \<Rightarrow> Some (bm, Inl err)
                              | Inr blockData \<Rightarrow>
                                  do { (found, _) \<leftarrow> entry_loop (\<lambda>acc k v. if k = key then (Some v, True) else (acc, False)) None blockData;
                                       Some (bm, Inr found) }) }) }"

text \<open>The loop over the index entries; \<open>stop_at\<close> is the test before a block is read.\<close>

fun scan_blocks :: "'b readAt_fun \<Rightarrow> nat \<Rightarrow> string \<Rightarrow> (IndexEntry \<Rightarrow> bool) \<Rightarrow> ('a \<Rightarrow> string \<Rightarrow> string \<Rightarrow> 'a \<times> bool)
    \<Rightarrow> 'a \<Rightarrow> 'b \<Rightarrow> IndexEntry list \<Rightarrow> ('b \<times> (sst_read_error + 'a)) option" where
  "scan_blocks readAt BlockSize path stop_at visit acc bm [] = Some (bm, Inr acc)"
| "scan_blocks readAt BlockSize path stop_at visit acc bm (e # es) =
     (if stop_at e then Some (bm, Inr acc)
      else do { (bm, blockData) \<leftarrow> readDataBlock readAt BlockSize path bm (ie_Offset e);
                (case blockData of
                   Inl err \<Rightarrow> Some (bm, Inl err)
                 | Inr blockData \<Rightarrow>
                     do { (acc, done) \<leftarrow> entry_loop visit acc blockData;
                          if done then Some (bm, Inr acc)
                          else scan_blocks readAt BlockSize path stop_at visit acc bm es }) })"

definition matchesPrefix :: "string \<Rightarrow> string \<Rightarrow> bool" where
  "matchesPrefix pre key \<longleftrightarrow> length key \<ge> length pre \<and> take (length pre) key = pre"

definition isPastPrefix :: "string \<Rightarrow> string \<Rightarrow> bool" where
  "isPastPrefix pre key \<longleftrightarrow> (let n = (if length key < length pre then length key else length pre) in take n key > take n pre)"

definition scan_start :: "SSTableReader \<Rightarrow> string \<Rightarrow> nat" where
  "scan_start r start =
     (let startIdx = sort_Search (length (sr_index r)) (\<lambda>j. ie_Key (sr_index r ! j) \<ge> start)
      in if startIdx > 0 then startIdx - 1 else startIdx)"

definition SSTable_PrefixScan :: "sst_env \<Rightarrow> 'b readAt_fun \<Rightarrow> 'b \<Rightarrow> SSTableReader \<Rightarrow> string
    \<Rightarrow> ('b \<times> (sst_read_error + KeyValue list)) option" where
  "SSTable_PrefixScan env readAt bm r pre =
     do { hit \<leftarrow> PrefixBloomFilter_Contains (se_md5 env) (sr_prefixFilter r) pre;
          if \<not> hit then Some (bm, Inr [])
          else scan_blocks readAt (se_BlockSize env) (sr_path r) (\<lambda>e. False)
                 (\<lambda>results k v. if matchesPrefix pre k then (AList.update k v results, False)
                                else (results, isPastPrefix pre k))
                 [] bm (drop (scan_start r pre) (sr_index r)) }"

definition SSTable_RangeScan :: "sst_env \<Rightarrow> 'b readAt_fun \<Rightarrow> 'b \<Rightarrow> SSTableReader \<Rightarrow> string \<Rightarrow> string
    \<Rightarrow> ('b \<times> (sst_read_error + KeyValue list)) option" where
  "SSTable_RangeScan env readAt bm r start end' =
     scan_blocks readAt (se_BlockSize env) (sr_path r) (\<lambda>e. ie_Key e > end')
       (\<lambda>results k v. if k \<ge> start \<and> k \<le> end' then (AList.update k v results, False) else (results, k > end'))
       [] bm (drop (scan_start r start) (sr_index r))"

text \<open>\<open>ScanAll\<close>: the calls of its callback, in order.\<close>

definition SSTable_ScanAll :: "sst_env \<Rightarrow> 'b readAt_fun \<Rightarrow> 'b \<Rightarrow> SSTableReader
    \<Rightarrow> ('b \<times> (sst_read_error + KeyValue list)) option" where
  "SSTable_ScanAll env readAt bm r =
     scan_blocks readAt (se_BlockSize env) (sr_path r) (\<lambda>e. False) (\<lambda>calls k v. (calls @ [(k, v)], False)) [] bm (sr_index r)"

end
