(* ===== verification/TableFormat.thy ===== *)
theory TableFormat
  imports SSTable
begin

text \<open>
  What a table file holds. \<open>table_file\<close> says that the bytes of a file are the table of a list of entries:
  data segments (a block of several entries, or the run of blocks of one entry larger than a block), the index of
  their first keys, the filters and the footer. The writer produces such a file, and reading a
  block of it returns the entries of its segment.
\<close>

section \<open>Fields\<close>

definition enc_kv :: "KeyValue \<Rightarrow> byte list" where
  "enc_kv kv = SizeAndValueToBytes (fst kv) @ SizeAndValueToBytes (snd kv)"

definition encs :: "KeyValue list \<Rightarrow> byte list" where
  "encs kvs = concat (map enc_kv kvs)"

lemma encs_simps [simp]: "encs [] = []" "encs (kv # kvs) = enc_kv kv @ encs kvs" "encs (a @ b) = encs a @ encs b"
  by (simp_all add: encs_def)

lemma length_IntToBytes [simp]: "length (IntToBytes n) = 8"
  by (simp add: IntToBytes_def)

lemma length_enc_kv: "length (enc_kv kv) = 16 + length (fst kv) + length (snd kv)"
  by (simp add: enc_kv_def SizeAndValueToBytes_def Let_def)

lemma enc_kv_nonempty [simp]: "enc_kv kv \<noteq> []"
  using length_enc_kv [of kv] by fastforce

lemma int64_at_IntToBytes:
  assumes "0 \<le> n" and "n < 2 ^ 63" and "off = length xs"
  shows "int64_at (xs @ IntToBytes n @ ys) off = n"
proof -
  have "nat n < 256 ^ 8" using assms(1,2) by (simp add: nat_less_iff)
  moreover have "nat (n mod 2 ^ 64) = nat n" using assms(1,2) by simp
  ultimately have "int (be_val (IntToBytes n)) = n" using assms(1) by (simp add: IntToBytes_def be_val_be_enc)
  then show ?thesis using assms by (simp add: int64_at_def wrap64_id)
qed

lemma field_at_exact:
  assumes "off = length xs" and "n = int (length f)" and "length (xs @ f @ ys) < 2 ^ 63"
  shows "field_at (xs @ f @ ys) off n err = Some (Inr (f, off + length f))"
proof -
  have "wrap64 (int off + n) = int (off + length f)" using assms by (simp add: wrap64_id)
  then show ?thesis using assms(1) by (simp add: field_at_def Let_def nat_add_distrib)
qed

text \<open>A length field with what it announces.\<close>

definition sized :: "byte list \<Rightarrow> byte list" where
  "sized f = IntToBytes (int (length f)) @ f"

lemma length_sized [simp]: "length (sized f) = 8 + length f"
  by (simp add: sized_def)

lemma sized_at:
  assumes "off = length xs" and "length (xs @ sized f @ ys) < 2 ^ 63"
  shows "field_at (xs @ sized f @ ys) (off + 8) (int64_at (xs @ sized f @ ys) off) err = Some (Inr (f, off + 8 + length f))"
proof -
  have "int64_at (xs @ sized f @ ys) off = int (length f)"
    using int64_at_IntToBytes [of "int (length f)" off xs "f @ ys"] assms by (simp add: sized_def)
  then show ?thesis
    using field_at_exact [of "off + 8" "xs @ IntToBytes (int (length f))" "int (length f)" f ys err] assms
    by (simp add: sized_def)
qed

lemma SizeAndValueToBytes_sized: "SizeAndValueToBytes v = sized (bytes_of v)"
  by (simp add: SizeAndValueToBytes_def sized_def Let_def)

lemma readDataEntry_enc:
  assumes "length (enc_kv kv @ rest) < 2 ^ 63"
  shows "readDataEntry (enc_kv kv @ rest) = Some (Inr (fst kv, snd kv, length (enc_kv kv)))"
proof -
  let ?k = "bytes_of (fst kv)" and ?v = "bytes_of (snd kv)"
  have e: "enc_kv kv @ rest = [] @ sized ?k @ (sized ?v @ rest)"
    by (simp add: enc_kv_def SizeAndValueToBytes_sized)
  have e2: "[] @ sized ?k @ (sized ?v @ rest) = sized ?k @ sized ?v @ rest" by simp
  have k: "field_at (enc_kv kv @ rest) 8 (int64_at (enc_kv kv @ rest) 0) KeyTruncated = Some (Inr (?k, 8 + length ?k))"
    using sized_at [of 0 "[]" ?k "sized ?v @ rest"] assms unfolding e by simp
  have v: "field_at (enc_kv kv @ rest) (8 + length ?k + 8) (int64_at (enc_kv kv @ rest) (8 + length ?k)) ValueTruncated
      = Some (Inr (?v, 8 + length ?k + 8 + length ?v))"
    using sized_at [of "8 + length ?k" "sized ?k" ?v rest] assms unfolding e e2 by simp
  have v': "field_at (enc_kv kv @ rest) (16 + length (fst kv)) (int64_at (enc_kv kv @ rest) (8 + length (fst kv))) ValueTruncated
      = Some (Inr (?v, 16 + length (fst kv) + length (snd kv)))"
    using v by (simp add: add.commute add.left_commute)
  show ?thesis using k v' by (simp add: readDataEntry_def length_enc_kv)
qed

section \<open>The entries of a block\<close>

fun visit_all :: "('a \<Rightarrow> string \<Rightarrow> string \<Rightarrow> 'a \<times> bool) \<Rightarrow> 'a \<Rightarrow> KeyValue list \<Rightarrow> 'a \<times> bool" where
  "visit_all visit acc [] = (acc, False)"
| "visit_all visit acc ((k, v) # kvs) =
     (case visit acc k v of (acc, True) \<Rightarrow> (acc, True) | (acc, False) \<Rightarrow> visit_all visit acc kvs)"

lemma entry_loop_encs:
  "length (encs kvs) < 2 ^ 63 \<Longrightarrow> entry_loop visit acc (encs kvs) = Some (visit_all visit acc kvs)"
proof (induction kvs arbitrary: acc)
  case Nil
  then show ?case by (simp add: entry_loop.simps)
next
  case (Cons kv kvs)
  have "readDataEntry (enc_kv kv @ encs kvs) = Some (Inr (fst kv, snd kv, length (enc_kv kv)))"
    using Cons.prems by (intro readDataEntry_enc) simp
  then show ?case using Cons
    by (cases kv) (auto simp: entry_loop.simps [of visit acc "enc_kv _ @ encs kvs"] split: prod.split bool.split)
qed

section \<open>Blocks\<close>

definition plain_block :: "nat \<Rightarrow> byte list \<Rightarrow> byte list" where
  "plain_block bs c = c @ replicate (bs - length c - 3) 0 @ block_trailer (length c) NonJumbo"

fun jumbo_blocks :: "nat \<Rightarrow> nat \<Rightarrow> nat \<Rightarrow> nat \<Rightarrow> byte list \<Rightarrow> byte list" where
  "jumbo_blocks bs numBlocks i 0 data = []"
| "jumbo_blocks bs numBlocks i (Suc todo) data =
     take (bs - 3) data @ replicate (bs - 3 - length (take (bs - 3) data)) 0
       @ block_trailer (length (take (bs - 3) data)) (jumbo_type i numBlocks)
       @ jumbo_blocks bs numBlocks (i + 1) todo (drop (bs - 3) data)"

definition jumbo_count :: "nat \<Rightarrow> byte list \<Rightarrow> nat" where
  "jumbo_count bs data = (length data + (bs - 3) - 1) div (bs - 3)"

definition bs_ok :: "nat \<Rightarrow> bool" where
  "bs_ok bs \<longleftrightarrow> 3 < bs \<and> bs - 3 < 65536"

lemma length_block_trailer [simp]: "length (block_trailer n t) = 3"
  by (simp add: block_trailer_def)

lemma length_plain_block: "bs_ok bs \<Longrightarrow> length c \<le> bs - 3 \<Longrightarrow> length (plain_block bs c) = bs"
  by (auto simp: plain_block_def bs_ok_def)

lemma length_jumbo_blocks: "3 < bs \<Longrightarrow> length (jumbo_blocks bs N i n data) = n * bs"
  by (induction n arbitrary: i data) (auto simp: min_def)

lemma extractClean_block:
  assumes "length c < 65536" and "k = length p + length c"
  shows "extractClean (c @ p @ block_trailer (length c) t) = c"
proof -
  let ?b = "c @ p @ block_trailer (length c) t"
  have "?b ! (length ?b - 3) = of_nat (length c div 256)" "?b ! (length ?b - 2) = of_nat (length c)"
    by (simp_all add: nth_append block_trailer_def numeral_2_eq_2 Suc_diff_le)
  moreover have "unat (of_nat (length c div 256) :: byte) = length c div 256"
    "unat (of_nat (length c) :: byte) = length c mod 256"
    using assms(1) by (simp_all add: unat_of_nat)
  ultimately show ?thesis by (simp add: extractClean_def Let_def)
qed

lemma last_block [simp]: "last (c @ p @ block_trailer n t) = t"
  by (simp add: block_trailer_def)

lemma jumbo_count_bounds:
  assumes "3 < bs" and "0 < length data"
  shows "0 < jumbo_count bs data" and "(jumbo_count bs data - 1) * (bs - 3) < length data"
    and "length data \<le> jumbo_count bs data * (bs - 3)"
proof -
  let ?a = "bs - 3" and ?q = "(length data - 1) div (bs - 3)"
  have a: "0 < ?a" using assms(1) by simp
  have "length data + ?a - 1 = (length data - 1) + ?a" using assms(2) by linarith
  then have "jumbo_count bs data = (length data - 1 + ?a) div ?a" unfolding jumbo_count_def by (rule arg_cong)
  also have "\<dots> = Suc ?q" using a by (simp only: div_add_self2 Suc_eq_plus1)
  finally have n: "jumbo_count bs data = Suc ?q" .
  have lo: "?q * ?a \<le> length data - 1" by (rule div_times_less_eq_dividend)
  have hi: "length data - 1 < Suc ?q * ?a" using dividend_less_div_times [OF a, of "length data - 1"]
    by (simp only: mult_Suc)
  show "0 < jumbo_count bs data" unfolding n by (rule zero_less_Suc)
  show "(jumbo_count bs data - 1) * (bs - 3) < length data" unfolding n diff_Suc_1 using lo assms(2) by linarith
  show "length data \<le> jumbo_count bs data * (bs - 3)" unfolding n using hi assms(2) by linarith
qed

lemma jumbo_types: "JumboEnd \<noteq> JumboStart" "JumboEnd \<noteq> JumboMiddle" "JumboStart \<noteq> NonJumbo" "JumboStart \<noteq> JumboEnd"
  "JumboMiddle \<noteq> JumboEnd"
  by (simp_all add: JumboEnd_def JumboStart_def JumboMiddle_def NonJumbo_def)

context block_reader
begin

text \<open>One block of the file, split off its surroundings.\<close>

lemma read_block:
  assumes "ok b" and "files path = Some (xs @ (c @ p @ block_trailer n t) @ zs)"
    and "length c + length p + 3 = bs" and "off = int (length xs)"
  shows "\<exists>b'. readAt b path off (int bs) = Some (b', Inr (c @ p @ block_trailer n t)) \<and> ok b'"
  using assms read_part [of b path xs "c @ p @ block_trailer n t" zs off "int bs"] by simp

lemma readDataBlock_plain:
  assumes "ok b" and "bs_ok bs" and "length c \<le> bs - 3" and "files path = Some (xs @ plain_block bs c @ zs)"
    and "off = int (length xs)"
  shows "\<exists>b'. readDataBlock readAt bs path b off = Some (b', Inr c) \<and> ok b'"
proof -
  let ?p = "replicate (bs - length c - 3) 0"
  obtain b' where "readAt b path off (int bs) = Some (b', Inr (c @ ?p @ block_trailer (length c) NonJumbo))" "ok b'"
    using read_block [OF assms(1) assms(4) [unfolded plain_block_def] _ assms(5)] assms(2,3) by (auto simp: bs_ok_def)
  moreover have "length c < 65536" using assms(2,3) by (simp add: bs_ok_def)
  ultimately show ?thesis using extractClean_block [of c "length ?p + length c" ?p NonJumbo]
    by (simp add: readDataBlock_def)
qed

lemma readJumboForward_ok:
  assumes "bs_ok bs"
  shows "ok b \<Longrightarrow> files path = Some (xs @ jumbo_blocks bs N i (Suc n) data @ zs) \<Longrightarrow> off = int (length xs) \<Longrightarrow>
    0 < i \<Longrightarrow> i + Suc n = N \<Longrightarrow> n * (bs - 3) < length data \<Longrightarrow> length data \<le> Suc n * (bs - 3) \<Longrightarrow>
    \<exists>b'. readJumboForward readAt bs path off result b = Some (b', Inr (result @ data)) \<and> ok b'"
proof (induction n arbitrary: b xs i data off result)
  case (0 b xs i data off result)
  let ?p = "replicate (bs - 3 - length data) (0 :: byte)"
  have len: "length data \<le> bs - 3" using "0.prems" by simp
  then have f: "files path = Some (xs @ (data @ ?p @ block_trailer (length data) JumboEnd) @ zs)"
    using "0.prems" by (auto simp: jumbo_type_def)
  obtain b' where "readAt b path off (int bs) = Some (b', Inr (data @ ?p @ block_trailer (length data) JumboEnd))" "ok b'"
    using read_block [OF "0.prems"(1) f _ "0.prems"(3)] len assms by (auto simp: bs_ok_def)
  then show ?case using extractClean_block [of data "length ?p + length data" ?p JumboEnd] len assms
    by (simp add: readJumboForward.simps [of readAt bs path off] bs_ok_def) (simp add: block_trailer_def)
next
  case (Suc n b xs i data off result)
  let ?c = "take (bs - 3) data" and ?d = "drop (bs - 3) data"
  have len: "length ?c = bs - 3" using Suc.prems(6) by simp
  have t: "jumbo_type i N = JumboMiddle" using Suc.prems(4,5) by (auto simp: jumbo_type_def)
  have f: "files path = Some (xs @ (?c @ [] @ block_trailer (length ?c) JumboMiddle) @ jumbo_blocks bs N (Suc i) (Suc n) ?d @ zs)"
    using Suc.prems(2) len t by simp
  obtain b' where b': "readAt b path off (int bs) = Some (b', Inr (?c @ [] @ block_trailer (length ?c) JumboMiddle))" "ok b'"
    using read_block [OF Suc.prems(1) f _ Suc.prems(3)] len assms by (auto simp: bs_ok_def)
  have clean: "extractClean (?c @ [] @ block_trailer (length ?c) JumboMiddle) = ?c"
    by (rule extractClean_block [of ?c "length ?c"]) (use len assms in \<open>simp_all add: bs_ok_def\<close>)
  have f2: "files path = Some ((xs @ ?c @ block_trailer (length ?c) JumboMiddle) @ jumbo_blocks bs N (Suc i) (Suc n) ?d @ zs)"
    using f by simp
  have "\<exists>b''. readJumboForward readAt bs path (off + int bs) (result @ ?c) b' = Some (b'', Inr ((result @ ?c) @ ?d)) \<and> ok b''"
  proof (rule Suc.IH [OF b'(2) f2])
    have s: "Suc n * (bs - 3) = (bs - 3) + n * (bs - 3)" "Suc (Suc n) * (bs - 3) = (bs - 3) + Suc n * (bs - 3)"
      by (rule mult_Suc)+
    show "n * (bs - 3) < length ?d" "length ?d \<le> Suc n * (bs - 3)"
      using Suc.prems(6,7) s unfolding length_drop by linarith+
    show "off + int bs = int (length (xs @ ?c @ block_trailer (length ?c) JumboMiddle))"
      using Suc.prems(3) len assms by (auto simp: bs_ok_def)
  qed (use Suc.prems(4,5) in simp_all)
  then show ?case using b'(1) clean
    by (simp add: readJumboForward.simps [of readAt bs path off] jumbo_types) (simp add: block_trailer_def jumbo_types)
qed

lemma readDataBlock_jumbo:
  assumes "ok b" and "bs_ok bs" and "bs - 3 < length data"
    and "files path = Some (xs @ jumbo_blocks bs (jumbo_count bs data) 0 (jumbo_count bs data) data @ zs)"
    and "off = int (length xs)"
  shows "\<exists>b'. readDataBlock readAt bs path b off = Some (b', Inr data) \<and> ok b'"
proof -
  let ?c = "take (bs - 3) data" and ?d = "drop (bs - 3) data" and ?N = "jumbo_count bs data"
  have bs: "3 < bs" "0 < length data" using assms(2,3) by (auto simp: bs_ok_def)
  note N = jumbo_count_bounds [OF bs]
  have "1 < ?N" using N(1,3) assms(3) by (cases "?N = 1") auto
  then obtain n where n: "?N = Suc (Suc n)" by (metis Suc_lessE less_imp_Suc_add One_nat_def)
  have len: "length ?c = bs - 3" using assms(3) by simp
  have f: "files path = Some (xs @ (?c @ [] @ block_trailer (length ?c) JumboStart) @ jumbo_blocks bs ?N 1 (Suc n) ?d @ zs)"
    using assms(4) len unfolding n by (simp add: jumbo_type_def)
  obtain b' where b': "readAt b path off (int bs) = Some (b', Inr (?c @ [] @ block_trailer (length ?c) JumboStart))" "ok b'"
    using read_block [OF assms(1) f _ assms(5)] len assms(2) by (auto simp: bs_ok_def)
  have clean: "extractClean (?c @ [] @ block_trailer (length ?c) JumboStart) = ?c"
    by (rule extractClean_block [of ?c "length ?c"]) (use len assms(2) in \<open>simp_all add: bs_ok_def\<close>)
  have f2: "files path = Some ((xs @ ?c @ block_trailer (length ?c) JumboStart) @ jumbo_blocks bs ?N 1 (Suc n) ?d @ zs)"
    using f by simp
  have "\<exists>b''. readJumboForward readAt bs path (off + int bs) ?c b' = Some (b'', Inr (?c @ ?d)) \<and> ok b''"
  proof (rule readJumboForward_ok [OF assms(2) b'(2) f2])
    have s: "Suc n * (bs - 3) = (bs - 3) + n * (bs - 3)" "Suc (Suc n) * (bs - 3) = (bs - 3) + Suc n * (bs - 3)"
      by (rule mult_Suc)+
    show "n * (bs - 3) < length ?d" "length ?d \<le> Suc n * (bs - 3)"
      using N(2,3) s unfolding length_drop n diff_Suc_1 by linarith+
    show "off + int bs = int (length (xs @ ?c @ block_trailer (length ?c) JumboStart))"
      using assms(5) len bs(1) by auto
  qed (simp_all add: n)
  then show ?thesis using b'(1) clean
    by (simp add: readDataBlock_def jumbo_types) (simp add: block_trailer_def jumbo_types)
qed

end

section \<open>Segments\<close>

text \<open>A segment: the entries it holds and its bytes.\<close>

type_synonym segment = "KeyValue list \<times> byte list"

definition jumbo_bytes :: "nat \<Rightarrow> byte list \<Rightarrow> byte list" where
  "jumbo_bytes bs data = jumbo_blocks bs (jumbo_count bs data) 0 (jumbo_count bs data) data"

definition seg_ok :: "nat \<Rightarrow> segment \<Rightarrow> bool" where
  "seg_ok bs s \<longleftrightarrow> fst s \<noteq> [] \<and>
     (length (encs (fst s)) \<le> bs - 3 \<and> snd s = plain_block bs (encs (fst s))
      \<or> length (fst s) = 1 \<and> bs - 3 < length (encs (fst s)) \<and> snd s = jumbo_bytes bs (encs (fst s)))"

definition seg_bytes :: "segment list \<Rightarrow> byte list" where
  "seg_bytes segs = concat (map snd segs)"

definition seg_entries :: "segment list \<Rightarrow> KeyValue list" where
  "seg_entries segs = concat (map fst segs)"

fun seg_index :: "int \<Rightarrow> segment list \<Rightarrow> IndexEntry list" where
  "seg_index off [] = []"
| "seg_index off (s # segs) = \<lparr>ie_Key = fst (hd (fst s)), ie_Offset = off\<rparr> # seg_index (off + int (length (snd s))) segs"

lemma seg_simps [simp]:
  "seg_bytes [] = []" "seg_bytes (s # segs) = snd s @ seg_bytes segs" "seg_bytes (a @ b) = seg_bytes a @ seg_bytes b"
  "seg_entries [] = []" "seg_entries (s # segs) = fst s @ seg_entries segs"
  "seg_entries (a @ b) = seg_entries a @ seg_entries b"
  by (simp_all add: seg_bytes_def seg_entries_def)

lemma seg_index_append: "seg_index off (a @ b) = seg_index off a @ seg_index (off + int (length (seg_bytes a))) b"
  by (induction a arbitrary: off) (auto simp: algebra_simps)

lemma length_seg_index [simp]: "length (seg_index off segs) = length segs"
  by (induction segs arbitrary: off) auto

context block_reader
begin

text \<open>Reading at the offset of a segment returns the entries of the segment, encoded.\<close>

lemma readDataBlock_seg:
  assumes "ok b" and "bs_ok bs" and "seg_ok bs s" and "files path = Some (xs @ snd s @ zs)" and "off = int (length xs)"
  shows "\<exists>b'. readDataBlock readAt bs path b off = Some (b', Inr (encs (fst s))) \<and> ok b'"
  using assms(3) readDataBlock_plain [OF assms(1,2) _ _ assms(5), of "encs (fst s)" path zs]
    readDataBlock_jumbo [OF assms(1,2) _ _ assms(5), of "encs (fst s)" path zs] assms(4)
  by (auto simp: seg_ok_def jumbo_bytes_def)

end

section \<open>The writer produces segments\<close>

abbreviation no_sfail :: "sst_op \<Rightarrow> bool" where
  "no_sfail \<equiv> \<lambda>_. False"

text \<open>
  The writer between two entries: the finished segments are in the buffer of the open file, the
  entries \<open>cur\<close> in the current block.
\<close>

definition fw_state :: "nat \<Rightarrow> FileWriter \<Rightarrow> FileWriter \<Rightarrow> segment list \<Rightarrow> KeyValue list \<Rightarrow> bool" where
  "fw_state bs fw0 fw segs cur \<longleftrightarrow> fw_blockSize fw = bs \<and> list_all (seg_ok bs) segs
     \<and> fw_location fw = fw_location fw0 \<and> fw_dataRoot fw = fw_dataRoot fw0
     \<and> fw_currentBlock fw = encs cur \<and> fw_offsetInBlock fw = length (encs cur) \<and> length (encs cur) \<le> bs - 3
     \<and> fw_currentBlockNum fw * bs = length (seg_bytes segs) \<and> fw_rawBytesWritten fw = 0
     \<and> fw_file fw = (segs \<noteq> [])
     \<and> (segs \<noteq> [] \<longrightarrow> fw_buf fw = seg_bytes segs \<and> map_of (fw_disk fw) = (map_of (fw_disk fw0))(fw_location fw0 \<mapsto> []))
     \<and> (segs = [] \<longrightarrow> fw_disk fw = fw_disk fw0)"

definition fw_fresh :: "nat \<Rightarrow> FileWriter \<Rightarrow> bool" where
  "fw_fresh bs fw \<longleftrightarrow> fw_state bs fw fw [] []"

lemma openIfNeeded_no_fail:
  "openIfNeeded no_sfail fw = (if fw_file fw then fw
     else fw\<lparr>fw_file := True, fw_buf := [], fw_disk := AList.update (fw_location fw) [] (fw_disk fw)\<rparr>, None)"
  by (simp add: openIfNeeded_def)

lemma fw_state_flush:
  assumes st: "fw_state bs fw0 fw segs cur" and "cur \<noteq> []" and bs: "bs_ok bs"
  shows "fw_state bs fw0 (FlushCurrentBlock no_sfail fw) (segs @ [(cur, plain_block bs (encs cur))]) []
     \<and> fw_currentBlockNum (FlushCurrentBlock no_sfail fw) = Suc (fw_currentBlockNum fw)"
proof -
  have ne: "encs cur \<noteq> []" using assms(2) by (cases cur) auto
  have ok: "seg_ok bs (cur, plain_block bs (encs cur))" using st assms(2) by (simp add: seg_ok_def fw_state_def)
  have len: "length (plain_block bs (encs cur)) = bs" using st bs by (simp add: length_plain_block fw_state_def)
  show ?thesis
    using st ne ok len unfolding fw_state_def FlushCurrentBlock_def openIfNeeded_no_fail
    by (auto simp: Let_def plain_block_def update_conv')
qed

lemma jumbo_loop_eq:
  "jumbo_loop N i n data fw =
     fw\<lparr>fw_buf := fw_buf fw @ jumbo_blocks (fw_blockSize fw) N i n data, fw_currentBlockNum := fw_currentBlockNum fw + n\<rparr>"
  by (induction n arbitrary: i data fw) (simp_all add: Let_def)

lemma fw_state_jumbo:
  assumes st: "fw_state bs fw0 fw segs []" and kv: "bs - 3 < length (enc_kv kv)" and bs: "bs_ok bs"
  shows "\<exists>fw'. WriteJumboData no_sfail fw (enc_kv kv) = (fw', fw_currentBlockNum fw)
     \<and> fw_state bs fw0 fw' (segs @ [([kv], jumbo_bytes bs (enc_kv kv))]) []
     \<and> fw_currentBlockNum fw < fw_currentBlockNum fw'"
proof -
  let ?N = "jumbo_count bs (enc_kv kv)"
  have ok: "seg_ok bs ([kv], jumbo_bytes bs (enc_kv kv))" using kv by (simp add: seg_ok_def)
  have b: "3 < bs" using bs by (simp add: bs_ok_def)
  have len: "length (jumbo_bytes bs (enc_kv kv)) = ?N * bs" using b by (simp add: jumbo_bytes_def length_jumbo_blocks)
  have N: "0 < ?N" using jumbo_count_bounds(1) [OF b, of "enc_kv kv"] by simp
  have size: "fw_blockSize fw = bs" using st by (simp add: fw_state_def)
  let ?fw = "(if fw_file fw then fw else fw\<lparr>fw_file := True, fw_buf := [], fw_disk := AList.update (fw_location fw) [] (fw_disk fw)\<rparr>)"
  have w: "WriteJumboData no_sfail fw (enc_kv kv) =
      (?fw\<lparr>fw_buf := fw_buf ?fw @ jumbo_bytes bs (enc_kv kv), fw_currentBlockNum := fw_currentBlockNum ?fw + ?N,
           fw_currentBlock := [], fw_offsetInBlock := 0\<rparr>, fw_currentBlockNum fw)"
    using st size by (simp add: WriteJumboData_def openIfNeeded_no_fail jumbo_loop_eq Let_def fw_state_def
        jumbo_bytes_def jumbo_count_def)
  show ?thesis unfolding w using st ok len N by (auto simp: fw_state_def update_conv' algebra_simps)
qed

text \<open>The index and the block of the last entry, as the loop of \<open>SerializeDataBuildIndex\<close> keeps them.\<close>

definition idx_state :: "FileWriter \<Rightarrow> segment list \<Rightarrow> KeyValue list \<Rightarrow> IndexEntry list \<Rightarrow> int \<Rightarrow> bool" where
  "idx_state fw segs cur index lastBlock \<longleftrightarrow>
     index = seg_index 0 segs @ (if cur = [] then [] else [\<lparr>ie_Key = fst (hd cur), ie_Offset = int (length (seg_bytes segs))\<rparr>])
     \<and> (if cur = [] then lastBlock < int (fw_currentBlockNum fw) else lastBlock = int (fw_currentBlockNum fw))"

definition idx_add :: "nat \<Rightarrow> string \<Rightarrow> nat \<Rightarrow> IndexEntry list \<times> int \<Rightarrow> IndexEntry list \<times> int" where
  "idx_add bs k n = (\<lambda>(index, lastBlock). if int n \<noteq> lastBlock
     then (index @ [\<lparr>ie_Key = k, ie_Offset = int n * int bs\<rparr>], int n) else (index, lastBlock))"

lemma serialize_data_loop_Cons:
  "serialize_data_loop fail bs fw index lastBlock (kv # kvs) =
     (let (fw, n) = FileWriter_Write fail fw (enc_kv kv) False; (index, lastBlock) = idx_add bs (fst kv) n (index, lastBlock)
      in serialize_data_loop fail bs fw index lastBlock kvs)"
  by (cases kv) (auto simp: idx_add_def enc_kv_def split: prod.split)

lemma fw_state_num:
  assumes "fw_state bs fw0 fw segs cur"
  shows "int (fw_currentBlockNum fw) * int bs = int (length (seg_bytes segs))"
proof -
  have "fw_currentBlockNum fw * bs = length (seg_bytes segs)" using assms by (simp add: fw_state_def)
  then show ?thesis by (simp flip: of_nat_mult)
qed

lemma step_jumbo:
  assumes st: "fw_state bs fw0 fw segs []" and ix: "idx_state fw segs [] index lastBlock"
    and kv: "bs - 3 < length (enc_kv kv)" and bs: "bs_ok bs"
  shows "\<exists>fw' segs'. WriteJumboData no_sfail fw (enc_kv kv) = (fw', fw_currentBlockNum fw)
     \<and> fw_state bs fw0 fw' segs' [] \<and> seg_entries segs' = seg_entries segs @ [kv]
     \<and> (\<lambda>(i, l). idx_state fw' segs' [] i l) (idx_add bs (fst kv) (fw_currentBlockNum fw) (index, lastBlock))"
proof -
  obtain fw' where "WriteJumboData no_sfail fw (enc_kv kv) = (fw', fw_currentBlockNum fw)"
    "fw_state bs fw0 fw' (segs @ [([kv], jumbo_bytes bs (enc_kv kv))]) []" "fw_currentBlockNum fw < fw_currentBlockNum fw'"
    using fw_state_jumbo [OF st kv bs] by blast
  moreover have "idx_state fw' (segs @ [([kv], jumbo_bytes bs (enc_kv kv))]) []
      (seg_index 0 segs @ [\<lparr>ie_Key = fst kv, ie_Offset = int (length (seg_bytes segs))\<rparr>]) (int (fw_currentBlockNum fw))"
    using calculation(3) by (simp add: idx_state_def seg_index_append)
  ultimately show ?thesis using ix fw_state_num [OF st]
    by (intro exI [of _ fw'] exI [of _ "segs @ [([kv], jumbo_bytes bs (enc_kv kv))]"]) (simp add: idx_state_def idx_add_def)
qed

lemma step_append:
  assumes st: "fw_state bs fw0 fw segs cur" and ix: "idx_state fw segs cur index lastBlock"
    and kv: "length (encs cur) + length (enc_kv kv) \<le> bs - 3"
  shows "fw_state bs fw0 (fw\<lparr>fw_currentBlock := encs cur @ enc_kv kv, fw_offsetInBlock := length (encs cur) + length (enc_kv kv)\<rparr>)
       segs (cur @ [kv])
     \<and> (\<lambda>(i, l). idx_state (fw\<lparr>fw_currentBlock := encs cur @ enc_kv kv, fw_offsetInBlock := length (encs cur) + length (enc_kv kv)\<rparr>)
          segs (cur @ [kv]) i l) (idx_add bs (fst kv) (fw_currentBlockNum fw) (index, lastBlock))"
  using st ix kv fw_state_num [OF st] by (cases cur) (auto simp: fw_state_def idx_state_def idx_add_def)

lemma idx_flush:
  assumes st: "fw_state bs fw0 fw segs cur" and ix: "idx_state fw segs cur index lastBlock" and "cur \<noteq> []" and "bs_ok bs"
  shows "idx_state (FlushCurrentBlock no_sfail fw) (segs @ [(cur, plain_block bs (encs cur))]) [] index lastBlock"
  using fw_state_flush [OF st assms(3,4)] ix assms(3) by (simp add: idx_state_def seg_index_append)

text \<open>One entry of the loop.\<close>

lemma write_step:
  assumes st: "fw_state bs fw0 fw segs cur" and ix: "idx_state fw segs cur index lastBlock" and bs: "bs_ok bs"
  shows "\<exists>fw' n segs' cur'. FileWriter_Write no_sfail fw (enc_kv kv) False = (fw', n)
     \<and> fw_state bs fw0 fw' segs' cur' \<and> seg_entries segs' @ cur' = seg_entries segs @ cur @ [kv] \<and> (segs' = [] \<longrightarrow> cur' \<noteq> [])
     \<and> (\<lambda>(i, l). idx_state fw' segs' cur' i l) (idx_add bs (fst kv) n (index, lastBlock))"
proof -
  let ?fl = "FlushCurrentBlock no_sfail fw" and ?segs = "segs @ [(cur, plain_block bs (encs cur))]"
  note flushed = fw_state_flush [OF st _ bs] idx_flush [OF st ix _ bs]
  have f: "fw_blockSize fw = bs" "fw_offsetInBlock fw = length (encs cur)" "fw_currentBlock fw = encs cur"
    "length (encs cur) \<le> bs - 3" "3 < bs"
    using st bs by (auto simp: fw_state_def bs_ok_def)
  have cur: "encs cur = [] \<longleftrightarrow> cur = []" by (cases cur) auto
  have can: "CanWrite fw (length (enc_kv kv)) \<longleftrightarrow> length (encs cur) + length (enc_kv kv) \<le> bs - 3"
    using f by (auto simp: CanWrite_def)
  consider (jumbo) "bs - 3 < length (enc_kv kv)" | (fits) "length (encs cur) + length (enc_kv kv) \<le> bs - 3"
    | (full) "length (enc_kv kv) \<le> bs - 3" "bs - 3 < length (encs cur) + length (enc_kv kv)" by linarith
  then show ?thesis
  proof cases
    case jumbo
    have w: "FileWriter_Write no_sfail fw (enc_kv kv) False = WriteJumboData no_sfail fw (enc_kv kv)"
      using jumbo f by (simp add: FileWriter_Write_def IsJumbo_def)
    show ?thesis
    proof (cases "cur = []")
      case True
      then show ?thesis using step_jumbo [of bs fw0 fw segs index lastBlock kv] st ix jumbo bs w by fastforce
    next
      case False
      then have fl: "fw_state bs fw0 ?fl ?segs []" "idx_state ?fl ?segs [] index lastBlock" using flushed by auto
      have "fw_currentBlock ?fl = []" using fl(1) by (simp add: fw_state_def)
      then have "WriteJumboData no_sfail fw (enc_kv kv) = WriteJumboData no_sfail ?fl (enc_kv kv)"
        using False f cur by (simp add: WriteJumboData_def)
      then show ?thesis using step_jumbo [OF fl jumbo bs] w by fastforce
    qed
  next
    case fits
    let ?fw = "fw\<lparr>fw_currentBlock := encs cur @ enc_kv kv, fw_offsetInBlock := length (encs cur) + length (enc_kv kv)\<rparr>"
    have "FileWriter_Write no_sfail fw (enc_kv kv) False = (?fw, fw_currentBlockNum fw)"
      using fits f can by (simp add: FileWriter_Write_def IsJumbo_def)
    then show ?thesis using step_append [OF st ix fits] by fastforce
  next
    case full
    then have "cur \<noteq> []" by auto
    then have fl: "fw_state bs fw0 ?fl ?segs []" "idx_state ?fl ?segs [] index lastBlock" using flushed by auto
    let ?fw = "?fl\<lparr>fw_currentBlock := encs [] @ enc_kv kv, fw_offsetInBlock := length (encs []) + length (enc_kv kv)\<rparr>"
    have "FileWriter_Write no_sfail fw (enc_kv kv) False = (?fw, fw_currentBlockNum ?fl)"
      using full f fl(1) can by (simp add: FileWriter_Write_def IsJumbo_def fw_state_def Let_def)
    then show ?thesis using step_append [OF fl, of kv] full(1) by fastforce
  qed
qed

lemma serialize_loop_spec:
  assumes "fw_state bs fw0 fw segs cur" and "idx_state fw segs cur index lastBlock" and "bs_ok bs"
    and "segs @ [(cur, [])] = [([], [])] \<Longrightarrow> kvs \<noteq> []"
  shows "\<exists>fw' segs' cur' index' lastBlock'. serialize_data_loop no_sfail bs fw index lastBlock kvs = (fw', index', lastBlock')
     \<and> fw_state bs fw0 fw' segs' cur' \<and> idx_state fw' segs' cur' index' lastBlock'
     \<and> seg_entries segs' @ cur' = seg_entries segs @ cur @ kvs \<and> (segs' = [] \<longrightarrow> cur' \<noteq> [])"
  using assms(1,2,4)
proof (induction kvs arbitrary: fw segs cur index lastBlock)
  case Nil
  then show ?case by auto
next
  case (Cons kv kvs)
  obtain fw1 n segs1 cur1 where w: "FileWriter_Write no_sfail fw (enc_kv kv) False = (fw1, n)"
    "fw_state bs fw0 fw1 segs1 cur1" "seg_entries segs1 @ cur1 = seg_entries segs @ cur @ [kv]" "segs1 = [] \<longrightarrow> cur1 \<noteq> []"
    and ia: "(\<lambda>(i, l). idx_state fw1 segs1 cur1 i l) (idx_add bs (fst kv) n (index, lastBlock))"
    using write_step [OF Cons.prems(1,2) assms(3), of kv] by (elim exE conjE) (rule that)
  obtain i l where il: "idx_add bs (fst kv) n (index, lastBlock) = (i, l)" by (cases "idx_add bs (fst kv) n (index, lastBlock)")
  have ix: "idx_state fw1 segs1 cur1 i l" using ia unfolding il by simp
  have ne: "segs1 @ [(cur1, [])] = [([], [])] \<Longrightarrow> kvs \<noteq> []" using w(4) by (cases segs1) auto
  have s: "serialize_data_loop no_sfail bs fw index lastBlock (kv # kvs) = serialize_data_loop no_sfail bs fw1 i l kvs"
    unfolding serialize_data_loop_Cons w(1) Let_def il prod.case by (rule refl)
  have e: "seg_entries segs @ cur @ kv # kvs = (seg_entries segs1 @ cur1) @ kvs" by (simp add: w(3))
  show ?case unfolding s e append_assoc by (rule Cons.IH [OF w(2) ix ne])
qed

text \<open>The data section of a table: the file holds the segments of the entries, and the index their first keys.\<close>

lemma data_section:
  assumes fresh: "fw_fresh bs fw" and bs: "bs_ok bs" and ne: "data \<noteq> []"
  shows "\<exists>fw1 segs. SerializeDataBuildIndex no_sfail bs fw data = (fw1, seg_index 0 segs)
     \<and> fw_state bs fw (fst (FileWriter_Write no_sfail fw1 [] True)) segs [] \<and> segs \<noteq> [] \<and> seg_entries segs = data"
proof -
  have st0: "fw_state bs fw fw [] []" using fresh by (simp add: fw_fresh_def)
  have ix0: "idx_state fw [] [] [] (-1)" by (simp add: idx_state_def)
  obtain fw1 segs cur index l where s: "serialize_data_loop no_sfail bs fw [] (-1) data = (fw1, index, l)"
    "fw_state bs fw fw1 segs cur" "idx_state fw1 segs cur index l" "seg_entries segs @ cur = data" "segs = [] \<longrightarrow> cur \<noteq> []"
    using serialize_loop_spec [OF st0 ix0 bs, of data, OF ne] unfolding seg_simps append_Nil by (elim exE conjE) (rule that)
  have b: "SerializeDataBuildIndex no_sfail bs fw data = (fw1, index)" by (simp add: SerializeDataBuildIndex_def s(1))
  have cb: "fw_currentBlock fw1 = encs cur" using s(2) by (simp add: fw_state_def)
  show ?thesis
  proof (cases "cur = []")
    case True
    then show ?thesis using s b cb by (intro exI [of _ fw1] exI [of _ segs]) (simp add: idx_state_def FileWriter_Write_def)
  next
    case False
    then have "encs cur \<noteq> []" by (cases cur) auto
    then have "fst (FileWriter_Write no_sfail fw1 [] True) = FlushCurrentBlock no_sfail fw1"
      using cb by (simp add: FileWriter_Write_def Let_def)
    then show ?thesis
      using fw_state_flush [OF s(2) False bs] idx_flush [OF s(2,3) False bs] b s(4)
      by (intro exI [of _ fw1] exI [of _ "segs @ [(cur, plain_block bs (encs cur))]"]) (simp add: idx_state_def)
  qed
qed

section \<open>Raw sections and the final file\<close>

text \<open>The open file holds \<open>content\<close> once its buffer is flushed, and nothing else of the directory has changed.\<close>

definition fw_out :: "nat \<Rightarrow> FileWriter \<Rightarrow> FileWriter \<Rightarrow> byte list \<Rightarrow> bool" where
  "fw_out bs fw0 fw content \<longleftrightarrow> fw_file fw \<and> fw_currentBlock fw = [] \<and> fw_blockSize fw = bs
     \<and> fw_location fw = fw_location fw0 \<and> fw_dataRoot fw = fw_dataRoot fw0
     \<and> fw_currentBlockNum fw * bs + fw_rawBytesWritten fw = length content
     \<and> (\<exists>w. map_of (fw_disk fw) = (map_of (fw_disk fw0))(fw_location fw0 \<mapsto> w) \<and> w @ fw_buf fw = content)"

lemma fw_state_out: "fw_state bs fw0 fw segs [] \<Longrightarrow> segs \<noteq> [] \<Longrightarrow> fw_out bs fw0 fw (seg_bytes segs)"
  by (auto simp: fw_state_def fw_out_def)

lemma WriteRaw_out:
  assumes "fw_out bs fw0 fw content"
  shows "\<exists>fw'. WriteRaw no_sfail fw data = (fw', Inr (int (length content))) \<and> fw_out bs fw0 fw' (content @ data)"
proof -
  obtain w where w: "map_of (fw_disk fw) = (map_of (fw_disk fw0))(fw_location fw0 \<mapsto> w)" "w @ fw_buf fw = content"
    using assms by (auto simp: fw_out_def)
  have l: "int (fw_currentBlockNum fw) * int bs + int (fw_rawBytesWritten fw) = int (length content)"
    using assms unfolding fw_out_def by (metis of_nat_add of_nat_mult)
  have c: "disk_content (fw_disk fw) (fw_location fw0) = w" by (simp add: disk_content_def w(1))
  show ?thesis using assms w l c
    by (auto simp: fw_out_def WriteRaw_def FlushCurrentBlock_def openIfNeeded_def buf_Flush_def file_Write_def
        update_conv' disk_content_def)
qed

lemma map_of_delete: "map_of (AList.delete k al) = (map_of al)(k := None)"
  by (auto simp: delete_conv')

lemma Commit_out:
  assumes out: "fw_out bs fw0 fw content" and loc: "fw_location fw0 = path @ ''.tmp''"
  shows "\<exists>fw'. FileWriter_Commit no_sfail fw = (fw', None) \<and> fw_location fw' = path \<and> \<not> fw_file fw'
     \<and> fw_blockSize fw' = bs \<and> fw_dataRoot fw' = fw_dataRoot fw0
     \<and> map_of (fw_disk fw') = (map_of (fw_disk fw0))(fw_location fw0 := None, path \<mapsto> content)"
proof -
  obtain w where w: "map_of (fw_disk fw) = (map_of (fw_disk fw0))(fw_location fw0 \<mapsto> w)" "w @ fw_buf fw = content"
    using out by (auto simp: fw_out_def)
  have c: "disk_content (fw_disk fw) (fw_location fw0) = w" by (simp add: disk_content_def w(1))
  have suf: "str_HasSuffix (path @ ''.tmp'') ''.tmp''" by (simp add: str_HasSuffix_def)
  show ?thesis using out w c suf loc
    by (auto simp: fw_out_def FileWriter_Commit_def buf_Flush_def os_Rename_def update_conv' map_of_delete Let_def)
qed

lemma Reset_fresh:
  assumes "\<not> fw_file fw" and "fw_blockSize fw = bs"
  shows "fw_fresh bs (ResetFileWriter fail fw '''' uuid)
     \<and> fw_location (ResetFileWriter fail fw '''' uuid) = filepath_Join (fw_dataRoot fw) (generateFileName 0 uuid)
     \<and> fw_disk (ResetFileWriter fail fw '''' uuid) = fw_disk fw \<and> fw_dataRoot (ResetFileWriter fail fw '''' uuid) = fw_dataRoot fw"
  using assms by (simp add: ResetFileWriter_def fw_fresh_def fw_state_def Let_def)

section \<open>Table files\<close>

text \<open>The bytes of a table: segments, index, filters and footer.\<close>

definition table_bytes :: "segment list \<Rightarrow> BloomFilter \<Rightarrow> PrefixBloomFilter \<Rightarrow> byte list \<Rightarrow> int \<Rightarrow> u64 \<Rightarrow> byte list" where
  "table_bytes segs bf pbf mroot itemCount maxLSN =
     (let ib = SerializeIndex (seg_index 0 segs);
          fb = SerializeFilterSection (BloomFilter_SerializeToByteArray bf) (PrefixBloomFilter_SerializeToByteArray pbf) mroot
      in seg_bytes segs @ ib @ fb @
         SerializeFooter (int (length (seg_bytes segs))) (int (length ib)) (int (length (seg_bytes segs) + length ib))
           (int (length fb)) itemCount maxLSN)"

definition filters_ok :: "(byte list \<Rightarrow> u64) \<Rightarrow> BloomFilter \<Rightarrow> PrefixBloomFilter \<Rightarrow> string set \<Rightarrow> bool" where
  "filters_ok md5 bf pbf keys \<longleftrightarrow> BloomFilter_ok bf \<and> (\<forall>k\<in>keys. bloom_has md5 bf k)
     \<and> PrefixBloomFilter_ok pbf \<and> (\<forall>k\<in>keys. prefix_has md5 pbf k)"

definition table_file :: "sst_env \<Rightarrow> byte list \<Rightarrow> KeyValue list \<Rightarrow> int \<Rightarrow> u64 \<Rightarrow> bool" where
  "table_file env f data itemCount maxLSN \<longleftrightarrow> bs_ok (se_BlockSize env) \<and> length f < 2 ^ 63 \<and> 0 \<le> itemCount \<and> itemCount < 2 ^ 63
     \<and> (\<exists>segs bf pbf mroot. list_all (seg_ok (se_BlockSize env)) segs \<and> seg_entries segs = data
          \<and> filters_ok (se_md5 env) bf pbf (fst ` set data) \<and> f = table_bytes segs bf pbf mroot itemCount maxLSN)"

text \<open>A table has at least as many bytes as entries.\<close>

lemma length_encs: "length kvs \<le> length (encs kvs)"
proof (induction kvs)
  case (Cons kv kvs)
  then show ?case using length_enc_kv [of kv] by simp
qed simp

lemma seg_ok_length:
  assumes "bs_ok bs" and "seg_ok bs s"
  shows "length (encs (fst s)) \<le> length (snd s)"
proof -
  have b: "3 < bs" using assms(1) by (simp add: bs_ok_def)
  have "length d \<le> length (jumbo_bytes bs d)" if "d \<noteq> []" for d
  proof -
    have "length d \<le> jumbo_count bs d * (bs - 3)" using jumbo_count_bounds(3) [OF b, of d] that by simp
    also have "\<dots> \<le> jumbo_count bs d * bs" by simp
    finally show ?thesis using b by (simp add: jumbo_bytes_def length_jumbo_blocks)
  qed
  moreover have "encs (fst s) \<noteq> []" using assms(2) by (cases "fst s") (auto simp: seg_ok_def)
  ultimately show ?thesis using assms by (auto simp: seg_ok_def length_plain_block)
qed

lemma length_entries_table:
  assumes "bs_ok bs" and "list_all (seg_ok bs) segs"
  shows "length (seg_entries segs) \<le> length (table_bytes segs bf pbf mroot n lsn)"
proof -
  have "length (seg_entries segs) \<le> length (seg_bytes segs)"
    using assms(2)
  proof (induction segs)
    case (Cons s segs)
    then have "length (fst s) \<le> length (snd s)"
      using length_encs [of "fst s"] seg_ok_length [OF assms(1), of s] by simp
    then show ?case using Cons by simp
  qed simp
  then show ?thesis by (simp add: table_bytes_def Let_def)
qed

text \<open>The environment is usable for \<open>n\<close> entries: block size and filter sizes fit, the digest is never empty.\<close>

definition env_ok :: "sst_env \<Rightarrow> nat \<Rightarrow> bool" where
  "env_ok env n \<longleftrightarrow> bs_ok (se_BlockSize env) \<and> params_ok (se_params env) (int n)
     \<and> params_ok (se_params env) (BloomFilterExpectedElements * (MaxPrefixLength - MinPrefixLength + 1))
     \<and> (\<forall>s. se_sha env s \<noteq> '''')"

text \<open>The filters and the Merkle mroot of a table can be built.\<close>

lemma table_filters:
  assumes "env_ok env n"
  shows "\<exists>bf0 bf pbf0 pbf. NewBloomFilterWithParams (se_params env) ts1 (int n) = Some bf0
     \<and> BloomFilter_AddMultiple (se_md5 env) bf0 (map fst data) = Some bf
     \<and> NewPrefixBloomFilter (se_params env) ts2 = Some pbf0
     \<and> PrefixBloomFilter_AddMultiple (se_md5 env) pbf0 (map fst data) = Some pbf
     \<and> filters_ok (se_md5 env) bf pbf (fst ` set data)"
proof -
  obtain bf0 where bf0: "NewBloomFilterWithParams (se_params env) ts1 (int n) = Some bf0" "BloomFilter_ok bf0"
    using NewBloomFilterWithParams_ok [of "se_params env" "int n" ts1] assms by (auto simp: env_ok_def)
  obtain bf where bf: "BloomFilter_AddMultiple (se_md5 env) bf0 (map fst data) = Some bf" "BloomFilter_ok bf"
    "\<forall>k\<in>set (map fst data). bloom_has (se_md5 env) bf k" using BloomFilter_AddMultiple_spec [OF bf0(2)] by blast
  obtain pbf0 where pbf0: "NewPrefixBloomFilter (se_params env) ts2 = Some pbf0" "PrefixBloomFilter_ok pbf0"
    using NewPrefixBloomFilter_ok [of "se_params env" ts2] assms unfolding env_ok_def by blast
  obtain pbf where pbf: "PrefixBloomFilter_AddMultiple (se_md5 env) pbf0 (map fst data) = Some pbf" "PrefixBloomFilter_ok pbf"
    "\<forall>k\<in>set (map fst data). prefix_has (se_md5 env) pbf k" using PrefixBloomFilter_AddMultiple_spec [OF pbf0(2)] by blast
  show ?thesis using bf0(1) bf pbf0(1) pbf by (auto simp: filters_ok_def)
qed

lemma table_root:
  assumes "\<forall>s. sha s \<noteq> ''''"
  shows "\<exists>mroot. MerkleTree_GetRootBytes sha (fold (\<lambda>kv mt. MerkleTree_AddLeaf sha mt (snd kv)) data (InitializeMerkleTree n)) = Some mroot"
proof (rule GetRootBytes_returns)
  have "MerkleTree_ok (fold (\<lambda>kv mt. MerkleTree_AddLeaf sha mt (snd kv)) data mt)" if "MerkleTree_ok mt" for mt
    using that by (induction data arbitrary: mt) auto
  then show "MerkleTree_ok (fold (\<lambda>kv mt. MerkleTree_AddLeaf sha mt (snd kv)) data (InitializeMerkleTree n))" by simp
qed (use assms in blast)

text \<open>The sections behind the data, as every writer of a table appends them.\<close>

lemma table_sections:
  assumes out: "fw_out bs fw0 fw (seg_bytes segs)" and loc: "fw_location fw0 = path @ ''.tmp''"
    and ib: "ib = SerializeIndex (seg_index 0 segs)"
    and fb: "fb = SerializeFilterSection (BloomFilter_SerializeToByteArray bf) (PrefixBloomFilter_SerializeToByteArray pbf) mroot"
  shows "\<exists>fw1 fw2 fw3 fw4. WriteRaw no_sfail fw ib = (fw1, Inr (int (length (seg_bytes segs))))
     \<and> WriteRaw no_sfail fw1 fb = (fw2, Inr (int (length (seg_bytes segs) + length ib)))
     \<and> fst (WriteRaw no_sfail fw2 (SerializeFooter (int (length (seg_bytes segs))) (int (length ib))
           (int (length (seg_bytes segs) + length ib)) (int (length fb)) n lsn)) = fw3
     \<and> snd (WriteRaw no_sfail fw2 (SerializeFooter (int (length (seg_bytes segs))) (int (length ib))
           (int (length (seg_bytes segs) + length ib)) (int (length fb)) n lsn)) = Inr (int (length (seg_bytes segs @ ib @ fb)))
     \<and> FileWriter_Commit no_sfail fw3 = (fw4, None) \<and> fw_location fw4 = path \<and> \<not> fw_file fw4 \<and> fw_blockSize fw4 = bs
     \<and> fw_dataRoot fw4 = fw_dataRoot fw0
     \<and> map_of (fw_disk fw4) = (map_of (fw_disk fw0))(fw_location fw0 := None, path \<mapsto> table_bytes segs bf pbf mroot n lsn)"
proof -
  let ?foot = "SerializeFooter (int (length (seg_bytes segs))) (int (length ib)) (int (length (seg_bytes segs) + length ib))
     (int (length fb)) n lsn"
  obtain fw1 where 1: "WriteRaw no_sfail fw ib = (fw1, Inr (int (length (seg_bytes segs))))" "fw_out bs fw0 fw1 (seg_bytes segs @ ib)"
    using WriteRaw_out [OF out] by blast
  obtain fw2 where 2: "WriteRaw no_sfail fw1 fb = (fw2, Inr (int (length (seg_bytes segs @ ib))))"
    "fw_out bs fw0 fw2 ((seg_bytes segs @ ib) @ fb)" using WriteRaw_out [OF 1(2)] by blast
  obtain fw3 where 3: "WriteRaw no_sfail fw2 ?foot = (fw3, Inr (int (length ((seg_bytes segs @ ib) @ fb))))"
    "fw_out bs fw0 fw3 (((seg_bytes segs @ ib) @ fb) @ ?foot)" using WriteRaw_out [OF 2(2)] by blast
  have t: "table_bytes segs bf pbf mroot n lsn = ((seg_bytes segs @ ib) @ fb) @ ?foot"
    by (simp add: table_bytes_def ib fb Let_def)
  show ?thesis using 1(1) 2(1) 3(1) Commit_out [OF 3(2) loc] unfolding t by auto
qed

text \<open>
  \<open>FlushMemtable\<close>, when no file operation fails: the new file is the table of the entries, the rest of
  the directory is unchanged, and the writer is ready for the next table.
\<close>

lemma FlushMemtable_table:
  assumes env: "env_ok env (length data)" and fresh: "fw_fresh (se_BlockSize env) fw" and ne: "data \<noteq> []"
    and loc: "fw_location fw = path @ ''.tmp''"
  shows "\<exists>fw' f. FlushMemtable env no_sfail ts1 ts2 uuid fw data lsn = Some (fw', path)
     \<and> (length f < 2 ^ 63 \<longrightarrow> table_file env f data (int (length data)) lsn)
     \<and> map_of (fw_disk fw') = (map_of (fw_disk fw))(fw_location fw := None, path \<mapsto> f)
     \<and> fw_fresh (se_BlockSize env) fw' \<and> fw_dataRoot fw' = fw_dataRoot fw
     \<and> fw_location fw' = filepath_Join (fw_dataRoot fw) (generateFileName 0 uuid)"
proof -
  let ?bs = "se_BlockSize env"
  have bs: "bs_ok ?bs" using env by (simp add: env_ok_def)
  obtain bf0 bf pbf0 pbf where f: "NewBloomFilterWithParams (se_params env) ts1 (int (length data)) = Some bf0"
    "BloomFilter_AddMultiple (se_md5 env) bf0 (map fst data) = Some bf"
    "NewPrefixBloomFilter (se_params env) ts2 = Some pbf0"
    "PrefixBloomFilter_AddMultiple (se_md5 env) pbf0 (map fst data) = Some pbf"
    "filters_ok (se_md5 env) bf pbf (fst ` set data)"
    using table_filters [OF env] by blast
  obtain mroot where mroot: "MerkleTree_GetRootBytes (se_sha env)
      (fold (\<lambda>kv mt. MerkleTree_AddLeaf (se_sha env) mt (snd kv)) data (InitializeMerkleTree (int (length data)))) = Some mroot"
    using table_root env unfolding env_ok_def by blast
  obtain fw1 segs where s: "SerializeDataBuildIndex no_sfail ?bs fw data = (fw1, seg_index 0 segs)"
    "fw_state ?bs fw (fst (FileWriter_Write no_sfail fw1 [] True)) segs []" "segs \<noteq> []" "seg_entries segs = data"
    using data_section [OF fresh bs ne] by blast
  obtain fw2 fw3 fw4 fw5 where w: "WriteRaw no_sfail (fst (FileWriter_Write no_sfail fw1 [] True)) (SerializeIndex (seg_index 0 segs))
       = (fw2, Inr (int (length (seg_bytes segs))))"
    "WriteRaw no_sfail fw2 (SerializeFilterSection (BloomFilter_SerializeToByteArray bf) (PrefixBloomFilter_SerializeToByteArray pbf) mroot)
       = (fw3, Inr (int (length (seg_bytes segs) + length (SerializeIndex (seg_index 0 segs)))))"
    "fst (WriteRaw no_sfail fw3 (SerializeFooter (int (length (seg_bytes segs))) (int (length (SerializeIndex (seg_index 0 segs))))
        (int (length (seg_bytes segs) + length (SerializeIndex (seg_index 0 segs))))
        (int (length (SerializeFilterSection (BloomFilter_SerializeToByteArray bf) (PrefixBloomFilter_SerializeToByteArray pbf) mroot)))
        (int (length data)) lsn)) = fw4"
    "FileWriter_Commit no_sfail fw4 = (fw5, None)" "fw_location fw5 = path" "\<not> fw_file fw5" "fw_blockSize fw5 = ?bs"
    "fw_dataRoot fw5 = fw_dataRoot fw"
    "map_of (fw_disk fw5) = (map_of (fw_disk fw))(fw_location fw := None, path \<mapsto> table_bytes segs bf pbf mroot (int (length data)) lsn)"
    using table_sections [OF fw_state_out [OF s(2,3)] loc refl refl] by blast
  have "FlushMemtable env no_sfail ts1 ts2 uuid fw data lsn = Some (ResetFileWriter no_sfail fw5 '''' uuid, path)"
    by (simp add: FlushMemtable_def f(1-4) mroot s(1) w(1,2) ignore_err_def)
       (use w(3-5) in simp)
  moreover have "table_file env (table_bytes segs bf pbf mroot (int (length data)) lsn) data (int (length data)) lsn"
    if "length (table_bytes segs bf pbf mroot (int (length data)) lsn) < 2 ^ 63"
  proof -
    have ok: "list_all (seg_ok ?bs) segs" using s(2) by (simp add: fw_state_def)
    have "length data \<le> length (table_bytes segs bf pbf mroot (int (length data)) lsn)"
      using length_entries_table [OF bs ok] s(4) by simp
    then show ?thesis unfolding table_file_def using bs that ok s(4) f(5) by fastforce
  qed
  ultimately show ?thesis using Reset_fresh [OF w(6,7), of no_sfail uuid] w(8,9) by metis
qed

end
