(* ===== verification/TableRead.thy ===== *)
theory TableRead
  imports TableFormat
begin

text \<open>
  Reading table files: opening a file that is the table of a list of entries recovers its index and filters, and
  point reads, range scans, prefix scans and full scans return exactly what the entries say. The
  lemmas hold for every reader of files that meets \<open>block_reader\<close>; the properties instantiate them with the
  block manager.
\<close>

section \<open>Index, filters and footer\<close>

definition entry_bytes :: "IndexEntry \<Rightarrow> byte list" where
  "entry_bytes e = sized (bytes_of (ie_Key e)) @ IntToBytes (ie_Offset e)"

lemma SerializeIndex_Cons: "SerializeIndex (e # es) = entry_bytes e @ SerializeIndex es"
  by (simp add: SerializeIndex_def entry_bytes_def sized_def)

lemma parseIndex_loop_ok:
  "length (SerializeIndex es) < 2 ^ 63 \<Longrightarrow> list_all (\<lambda>e. 0 \<le> ie_Offset e \<and> ie_Offset e < 2 ^ 63) es \<Longrightarrow>
     parseIndex_loop (SerializeIndex es) acc = Some (Inr (acc @ es))"
proof (induction es arbitrary: acc)
  case Nil
  then show ?case by (simp add: SerializeIndex_def parseIndex_loop.simps)
next
  case (Cons e es)
  let ?k = "bytes_of (ie_Key e)" and ?rest = "SerializeIndex es"
  let ?data = "sized ?k @ IntToBytes (ie_Offset e) @ ?rest"
  have d: "SerializeIndex (e # es) = ?data" by (simp add: SerializeIndex_Cons entry_bytes_def)
  have len: "length ?data < 2 ^ 63" using Cons.prems(1) unfolding d .
  have k: "field_at ?data 8 (int64_at ?data 0) KeyTruncated = Some (Inr (?k, 8 + length ?k))"
    using sized_at [of 0 "[]" ?k "IntToBytes (ie_Offset e) @ ?rest"] len by simp
  have ie: "\<lparr>ie_Key = ie_Key e, ie_Offset = ie_Offset e\<rparr> = e" by (cases e) simp
  have o: "int64_at ?data (8 + length ?k) = ie_Offset e"
    using int64_at_IntToBytes [of "ie_Offset e" "8 + length ?k" "sized ?k" ?rest] Cons.prems(2) by simp
  have "parseIndex_loop ?data acc = parseIndex_loop ?rest (acc @ [e])"
    using k o by (simp add: parseIndex_loop.simps [of ?data] ie)
  then show ?case unfolding d using Cons.IH [of "acc @ [e]"] Cons.prems len by simp
qed

lemma parseFilterSection_ok:
  assumes "BloomFilter_ok bf" and "PrefixBloomFilter_ok pbf"
    and len: "length (SerializeFilterSection (BloomFilter_SerializeToByteArray bf) (PrefixBloomFilter_SerializeToByteArray pbf) mroot) < 2 ^ 63"
  shows "parseFilterSection (SerializeFilterSection (BloomFilter_SerializeToByteArray bf)
     (PrefixBloomFilter_SerializeToByteArray pbf) mroot) = Some (Inr (bf, pbf))"
proof -
  let ?a = "BloomFilter_SerializeToByteArray bf" and ?b = "PrefixBloomFilter_SerializeToByteArray pbf"
  let ?d = "sized ?a @ sized ?b @ sized mroot"
  have d: "SerializeFilterSection ?a ?b mroot = ?d" by (simp add: SerializeFilterSection_def sized_def)
  have len': "length ?d < 2 ^ 63" using len unfolding d .
  have 1: "field_at ?d 8 (int64_at ?d 0) FilterTruncated = Some (Inr (?a, 8 + length ?a))"
    using sized_at [of 0 "[]" ?a "sized ?b @ sized mroot"] len' by simp
  have 2: "field_at ?d (8 + length ?a + 8) (int64_at ?d (8 + length ?a)) FilterTruncated = Some (Inr (?b, 8 + length ?a + 8 + length ?b))"
    using sized_at [of "8 + length ?a" "sized ?a" ?b "sized mroot"] len' by simp
  have r: "DeserializeFromByteArray ?a = Some (Inr bf)" using bloom_roundtrip [OF assms(1), of "[]"] by simp
  have pr: "DeserializePrefixBloomFilter ?b = Some (Inr pbf)"
    using prefix_roundtrip [of pbf "[]"] assms(2) by (simp add: PrefixBloomFilter_ok_def)
  have "\<not> length ?d < 8" "\<not> length ?d < 8 + length ?a + 8" by simp_all
  then show ?thesis unfolding d parseFilterSection_def by (simp only: if_False 1 bind.bind_lunit sum.case prod.case r 2 pr)
qed

lemma footer_fields:
  assumes "0 \<le> a" "a < 2 ^ 63" "0 \<le> b" "b < 2 ^ 63" "0 \<le> c" "c < 2 ^ 63" "0 \<le> d" "d < 2 ^ 63" "0 \<le> e" "e < 2 ^ 63"
  shows "int64_at (SerializeFooter a b c d e lsn) 0 = a" "int64_at (SerializeFooter a b c d e lsn) 8 = b"
    "int64_at (SerializeFooter a b c d e lsn) 16 = c" "int64_at (SerializeFooter a b c d e lsn) 24 = d"
    "int64_at (SerializeFooter a b c d e lsn) 32 = e"
    "be_val (take 8 (drop 40 (SerializeFooter a b c d e lsn))) = unat lsn"
    "be_val (take 8 (drop 48 (SerializeFooter a b c d e lsn))) = FooterMagic"
proof -
  let ?t = "be_enc 8 (unat lsn) @ be_enc 8 FooterMagic"
  show "int64_at (SerializeFooter a b c d e lsn) 0 = a"
    using int64_at_IntToBytes [of a 0 "[]"] assms by (simp add: SerializeFooter_def)
  show "int64_at (SerializeFooter a b c d e lsn) 8 = b"
    using int64_at_IntToBytes [of b 8 "IntToBytes a"] assms by (simp add: SerializeFooter_def)
  show "int64_at (SerializeFooter a b c d e lsn) 16 = c"
    using int64_at_IntToBytes [of c 16 "IntToBytes a @ IntToBytes b"] assms by (simp add: SerializeFooter_def)
  show "int64_at (SerializeFooter a b c d e lsn) 24 = d"
    using int64_at_IntToBytes [of d 24 "IntToBytes a @ IntToBytes b @ IntToBytes c"] assms by (simp add: SerializeFooter_def)
  show "int64_at (SerializeFooter a b c d e lsn) 32 = e"
    using int64_at_IntToBytes [of e 32 "IntToBytes a @ IntToBytes b @ IntToBytes c @ IntToBytes d" ?t] assms
    by (simp add: SerializeFooter_def)
  show "be_val (take 8 (drop 40 (SerializeFooter a b c d e lsn))) = unat lsn"
    using unat_mod_word [of lsn] by (simp add: SerializeFooter_def be_val_be_enc)
  show "be_val (take 8 (drop 48 (SerializeFooter a b c d e lsn))) = FooterMagic"
    by (simp add: SerializeFooter_def be_val_be_enc FooterMagic_def)
qed

lemma length_SerializeFooter [simp]: "length (SerializeFooter a b c d e lsn) = FooterSize"
  by (simp add: SerializeFooter_def FooterSize_def)

section \<open>Opening a table\<close>

text \<open>An open reader that belongs to the table of \<open>data\<close>.\<close>

definition reader_of :: "sst_env \<Rightarrow> (string \<rightharpoonup> byte list) \<Rightarrow> SSTableReader \<Rightarrow> KeyValue list \<Rightarrow> bool" where
  "reader_of env files r data \<longleftrightarrow> bs_ok (se_BlockSize env) \<and>
     filters_ok (se_md5 env) (sr_filter r) (sr_prefixFilter r) (fst ` set data) \<and>
     (\<exists>segs rest. list_all (seg_ok (se_BlockSize env)) segs \<and> seg_entries segs = data \<and> sr_index r = seg_index 0 segs
        \<and> files (sr_path r) = Some (seg_bytes segs @ rest) \<and> length (seg_bytes segs @ rest) < 2 ^ 63)"

lemma seg_index_offsets:
  "0 \<le> off \<Longrightarrow> off + int (length (seg_bytes segs)) < 2 ^ 63 \<Longrightarrow>
     list_all (\<lambda>e. 0 \<le> ie_Offset e \<and> ie_Offset e < 2 ^ 63) (seg_index off segs)"
proof (induction segs arbitrary: off)
  case (Cons s segs)
  have "list_all (\<lambda>e. 0 \<le> ie_Offset e \<and> ie_Offset e < 2 ^ 63) (seg_index (off + int (length (snd s))) segs)"
    by (rule Cons.IH) (use Cons.prems in auto)
  then show ?case using Cons.prems by simp
qed simp

context block_reader
begin

lemma Open_table:
  assumes b: "ok b" and disk: "files = map_of disk" and f: "map_of disk path = Some f" and t: "table_file env f data n lsn"
  shows "\<exists>b' r. SSTable_Open readAt disk b path = Some (b', Inr r) \<and> ok b' \<and> reader_of env files r data
     \<and> sr_path r = path \<and> sr_itemCount r = n \<and> sr_maxLSN r = lsn"
proof -
  obtain segs bf pbf mroot where s: "list_all (seg_ok (se_BlockSize env)) segs" "seg_entries segs = data"
    "filters_ok (se_md5 env) bf pbf (fst ` set data)" and tb: "f = table_bytes segs bf pbf mroot n lsn"
    using t by (auto simp: table_file_def)
  have n: "0 \<le> n" "n < 2 ^ 63" and len: "length f < 2 ^ 63" and bs: "bs_ok (se_BlockSize env)" using t by (auto simp: table_file_def)
  define ib where "ib = SerializeIndex (seg_index 0 segs)"
  define fb where "fb = SerializeFilterSection (BloomFilter_SerializeToByteArray bf) (PrefixBloomFilter_SerializeToByteArray pbf) mroot"
  let ?d = "seg_bytes segs"
  define foot where "foot = SerializeFooter (int (length ?d)) (int (length ib)) (int (length ?d + length ib)) (int (length fb)) n lsn"
  have fc: "f = ?d @ ib @ fb @ foot" by (simp add: tb table_bytes_def ib_def fb_def foot_def Let_def)
  have lf: "length foot = FooterSize" by (simp add: foot_def)
  have l: "length ?d + length ib + length fb + FooterSize < 2 ^ 63" using len unfolding fc by (simp add: lf)
  have fo: "int64_at foot 0 = int (length ?d)" "int64_at foot 8 = int (length ib)" "int64_at foot 16 = int (length ?d + length ib)"
    "int64_at foot 24 = int (length fb)" "int64_at foot 32 = n" "be_val (take 8 (drop 40 foot)) = unat lsn"
    "be_val (take 8 (drop 48 foot)) = FooterMagic"
    unfolding foot_def by (rule footer_fields; use l n in simp)+
  have fl: "files path = Some (?d @ ib @ fb @ foot)" using f disk fc by simp
  have fl3: "files path = Some ((?d @ ib @ fb) @ foot @ [])" "files path = Some (?d @ ib @ (fb @ foot))"
    "files path = Some ((?d @ ib) @ fb @ foot)" unfolding fl by (simp_all only: append_assoc append_Nil2)
  have lo: "int (length f) - int FooterSize = int (length (?d @ ib @ fb))" "int FooterSize = int (length foot)"
    unfolding fc by (simp_all add: lf)
  obtain b1 where r1: "readAt b path (int (length f) - int FooterSize) (int FooterSize) = Some (b1, Inr foot)" "ok b1"
    using read_part [OF b fl3(1) lo] by blast
  obtain b2 where r2: "readAt b1 path (int (length ?d)) (int (length ib)) = Some (b2, Inr ib)" "ok b2"
    using read_part [OF r1(2) fl3(2) refl refl] by blast
  obtain b3 where r3: "readAt b2 path (int (length ?d + length ib)) (int (length fb)) = Some (b3, Inr fb)" "ok b3"
    using read_part [OF r2(2) fl3(3) refl refl] unfolding length_append by blast
  have pi: "parseIndex ib = Some (Inr (seg_index 0 segs))"
    using parseIndex_loop_ok [of "seg_index 0 segs" "[]"] seg_index_offsets [of 0 segs] l by (simp add: parseIndex_def ib_def)
  have pf: "parseFilterSection fb = Some (Inr (bf, pbf))"
    using parseFilterSection_ok [of bf pbf mroot] s(3) l by (simp add: filters_ok_def fb_def)
  let ?r = "\<lparr>sr_path = path, sr_filter = bf, sr_prefixFilter = pbf, sr_index = seg_index 0 segs, sr_itemCount = n, sr_maxLSN = lsn\<rparr>"
  have nl: "\<not> length f < FooterSize" by (simp add: fc lf)
  have "SSTable_Open readAt disk b path = Some (b3, Inr ?r)"
    unfolding SSTable_Open_def f option.case by (simp only: nl if_False bind.bind_lunit prod.case sum.case r1(1) fo r2(1) pi r3(1) pf
      simp_thms of_nat_unat ucast_id not_True_eq_False)
  moreover have "reader_of env files ?r data"
    unfolding reader_of_def using bs s fl len [unfolded fc] by (intro conjI exI [of _ segs] exI [of _ "ib @ fb @ foot"]) simp_all
  ultimately show ?thesis using r3(2) by auto
qed

end

section \<open>Entries in key order\<close>

lemma seg_index_nth:
  "i < length segs \<Longrightarrow> seg_index off segs ! i =
     \<lparr>ie_Key = fst (hd (fst (segs ! i))), ie_Offset = off + int (length (seg_bytes (take i segs)))\<rparr>"
proof (induction segs arbitrary: off i)
  case (Cons s segs)
  then show ?case by (cases i) (auto simp: algebra_simps)
qed simp

lemma seg_entries_take_drop: "seg_entries segs = seg_entries (take i segs) @ seg_entries (drop i segs)"
  using seg_simps(6) [of "take i segs" "drop i segs"] by simp

text \<open>The first key of a segment separates the entries before it from those from it on.\<close>

lemma seg_split:
  assumes "keys_sorted (seg_entries segs)" and "list_all (seg_ok bs) segs" and "i < length segs"
  shows "k \<in> fst ` set (seg_entries (take i segs)) \<Longrightarrow> k < ie_Key (seg_index off segs ! i)"
    and "k \<in> fst ` set (seg_entries (drop i segs)) \<Longrightarrow> ie_Key (seg_index off segs ! i) \<le> k"
proof -
  have "seg_ok bs (segs ! i)" using assms(2,3) by (simp add: list_all_length)
  then obtain kv kvs where s: "fst (segs ! i) = kv # kvs" by (cases "fst (segs ! i)") (auto simp: seg_ok_def)
  have d: "seg_entries (drop i segs) = kv # kvs @ seg_entries (drop (Suc i) segs)"
    using Cons_nth_drop_Suc [OF assms(3), symmetric] s by simp
  have key: "ie_Key (seg_index off segs ! i) = fst kv" using assms(3) s by (simp add: seg_index_nth)
  have so: "keys_sorted (seg_entries (take i segs) @ kv # kvs @ seg_entries (drop (Suc i) segs))"
    using assms(1) unfolding seg_entries_take_drop [of segs i] d .
  show "k \<in> fst ` set (seg_entries (take i segs)) \<Longrightarrow> k < ie_Key (seg_index off segs ! i)"
    using so unfolding key by (auto simp: sorted_wrt_append)
  show "k \<in> fst ` set (seg_entries (drop i segs)) \<Longrightarrow> ie_Key (seg_index off segs ! i) \<le> k"
    using so unfolding key d by (auto simp: sorted_wrt_append dest: order_less_imp_le)
qed

lemma seg_index_mono:
  assumes "keys_sorted (seg_entries segs)" and "list_all (seg_ok bs) segs" and "i \<le> j" and "j < length segs"
  shows "ie_Key (seg_index off segs ! i) \<le> ie_Key (seg_index off segs ! j)"
proof -
  have "seg_ok bs (segs ! j)" using assms(2,4) by (simp add: list_all_length)
  then obtain kv kvs where s: "fst (segs ! j) = kv # kvs" by (cases "fst (segs ! j)") (auto simp: seg_ok_def)
  have "drop i segs ! (j - i) = segs ! j" "j - i < length (drop i segs)" using assms(3,4) by auto
  then have "segs ! j \<in> set (drop i segs)" using nth_mem by metis
  then have "kv \<in> set (seg_entries (drop i segs))" using s by (auto simp: seg_entries_def intro!: bexI [of _ "segs ! j"])
  moreover have "ie_Key (seg_index off segs ! j) = fst kv" using assms(4) s by (simp add: seg_index_nth)
  ultimately show ?thesis using seg_split(2) [OF assms(1,2), of i] assms(3,4) by auto
qed

text \<open>The binary searches over the index.\<close>

lemma index_search:
  assumes "keys_sorted (seg_entries segs)" and "list_all (seg_ok bs) segs" and up: "\<forall>x y. x \<le> y \<longrightarrow> P x \<longrightarrow> P y"
    and i: "i = sort_Search (length (seg_index off segs)) (\<lambda>j. P (ie_Key (seg_index off segs ! j)))"
  shows "i \<le> length segs" and "a < i \<Longrightarrow> \<not> P (ie_Key (seg_index off segs ! a))"
    and "i \<le> a \<Longrightarrow> a < length segs \<Longrightarrow> P (ie_Key (seg_index off segs ! a))"
proof -
  have mono: "P (ie_Key (seg_index off segs ! d))"
    if "c \<le> d" "d < length (seg_index off segs)" "P (ie_Key (seg_index off segs ! c))" for c d
    using up seg_index_mono [OF assms(1,2) that(1)] that(2,3) length_seg_index by metis
  note search = sort_Search_spec [where n="length (seg_index off segs)" and f="\<lambda>j. P (ie_Key (seg_index off segs ! j))"]
  show "i \<le> length segs" unfolding i using search(1) mono by fastforce
  show "a < i \<Longrightarrow> \<not> P (ie_Key (seg_index off segs ! a))" unfolding i by (rule search(2) [OF mono])
  show "i \<le> a \<Longrightarrow> a < length segs \<Longrightarrow> P (ie_Key (seg_index off segs ! a))"
    unfolding i by (rule search(3) [OF mono]) simp_all
qed

section \<open>Point reads\<close>

lemma visit_get: "visit_all (\<lambda>acc k v. if k = key then (Some v, True) else (acc, False)) None es = (map_of es key, key \<in> fst ` set es)"
proof -
  have "visit_all (\<lambda>acc k v. if k = key then (Some v, True) else (acc, False)) acc es
      = (case map_of es key of None \<Rightarrow> acc | Some v \<Rightarrow> Some v, key \<in> fst ` set es)" for acc
    by (induction es) (auto split: option.splits)
  then show ?thesis by (simp split: option.splits)
qed

context block_reader
begin

text \<open>The block at an index position holds the entries of the segment.\<close>

lemma read_segment_at:
  assumes b: "ok b" and bs: "bs_ok bs" and segs: "list_all (seg_ok bs) segs" and i: "i < length segs"
    and f: "files path = Some (xs @ seg_bytes segs @ zs)"
  shows "\<exists>b'. readDataBlock readAt bs path b (ie_Offset (seg_index (int (length xs)) segs ! i))
     = Some (b', Inr (encs (fst (segs ! i)))) \<and> ok b'"
proof -
  have "segs = take i segs @ segs ! i # drop (Suc i) segs" using i by (simp add: id_take_nth_drop)
  then have "seg_bytes segs = seg_bytes (take i segs) @ snd (segs ! i) @ seg_bytes (drop (Suc i) segs)"
    by (metis seg_simps(2,3))
  then have f': "files path = Some ((xs @ seg_bytes (take i segs)) @ snd (segs ! i) @ (seg_bytes (drop (Suc i) segs) @ zs))"
    using f by simp
  show ?thesis
    by (rule readDataBlock_seg [OF b bs _ f']) (use segs i in \<open>simp_all add: list_all_length seg_index_nth\<close>)
qed

lemma seg_encs_bound:
  assumes "bs_ok bs" and "list_all (seg_ok bs) segs" and "s \<in> set segs"
  shows "length (encs (fst s)) \<le> length (seg_bytes segs)"
proof -
  have "length (encs (fst s)) \<le> length (snd s)" using assms by (intro seg_ok_length) (auto simp: list_all_iff)
  also have "length (snd s) \<le> length (seg_bytes segs)" using assms(3) by (induction segs) auto
  finally show ?thesis .
qed

lemma Get_table:
  assumes b: "ok b" and r: "reader_of env files r data" and so: "keys_sorted data"
  shows "\<exists>b'. SSTable_Get env readAt b r key = Some (b', Inr (map_of data key)) \<and> ok b'"
proof -
  obtain segs rest where s: "list_all (seg_ok (se_BlockSize env)) segs" "seg_entries segs = data" "sr_index r = seg_index 0 segs"
    "files (sr_path r) = Some (seg_bytes segs @ rest)" "length (seg_bytes segs @ rest) < 2 ^ 63"
    and bs: "bs_ok (se_BlockSize env)" and flt: "filters_ok (se_md5 env) (sr_filter r) (sr_prefixFilter r) (fst ` set data)"
    using r by (auto simp: reader_of_def)
  have chk: "BloomFilter_Check (se_md5 env) (sr_filter r) key = Some (bloom_has (se_md5 env) (sr_filter r) key)"
    using flt by (simp add: filters_ok_def BloomFilter_Check_spec)
  let ?i = "sort_Search (length (seg_index 0 segs)) (\<lambda>j. ie_Key (seg_index 0 segs ! j) > key)"
  have so': "keys_sorted (seg_entries segs)" using so s(2) by simp
  have "\<forall>x y. x \<le> y \<longrightarrow> key < x \<longrightarrow> key < y" by (auto intro: order_less_le_trans)
  note search = index_search [OF so' s(1) this refl [of ?i]]
  show ?thesis
  proof (cases "bloom_has (se_md5 env) (sr_filter r) key")
    case False
    then have "key \<notin> fst ` set data" using flt by (auto simp: filters_ok_def)
    then have "map_of data key = None" by (simp add: map_of_eq_None_iff)
    then show ?thesis using False chk b by (simp add: SSTable_Get_def)
  next
    case True
    show ?thesis
    proof (cases "?i = 0")
      case i0: True
      have "key \<notin> fst ` set data"
      proof
        assume k: "key \<in> fst ` set data"
        then have ne: "0 < length segs" using s(2) by (cases segs) auto
        then have "ie_Key (seg_index 0 segs ! 0) > key" using search(3) [where a=0] i0 by simp
        moreover have "ie_Key (seg_index 0 segs ! 0) \<le> key" using seg_split(2) [OF so' s(1) ne, where k=key and off=0] k s(2) by simp
        ultimately show False by simp
      qed
      then have "map_of data key = None" by (simp add: map_of_eq_None_iff)
      then show ?thesis using True i0 chk b s(3) by (simp add: SSTable_Get_def)
    next
      case i: False
      let ?j = "?i - 1"
      have j: "?j < length segs" using search(1) i by simp
      have le: "ie_Key (seg_index 0 segs ! ?j) \<le> key" using search(2) [where a="?j"] i by simp
      have before: "key \<notin> fst ` set (seg_entries (take ?j segs))"
        using seg_split(1) [OF so' s(1) j, where k=key and off=0] le leD by blast
      have after: "key \<notin> fst ` set (seg_entries (drop (Suc ?j) segs))"
      proof
        assume k: "key \<in> fst ` set (seg_entries (drop (Suc ?j) segs))"
        then have l: "Suc ?j < length segs" by (cases "Suc ?j < length segs") auto
        then have "ie_Key (seg_index 0 segs ! Suc ?j) > key" using search(3) [where a="Suc ?j"] i by simp
        moreover have "ie_Key (seg_index 0 segs ! Suc ?j) \<le> key" using seg_split(2) [OF so' s(1) l, where k=key and off=0] k by simp
        ultimately show False by simp
      qed
      have "data = seg_entries (take ?j segs) @ fst (segs ! ?j) @ seg_entries (drop (Suc ?j) segs)"
        using id_take_nth_drop [OF j] s(2) by (metis seg_simps(5,6))
      then have m: "map_of data key = map_of (fst (segs ! ?j)) key"
        using before after by (simp add: map_add_def map_of_eq_None_iff [THEN iffD2] split: option.splits)
      obtain b' where b': "readDataBlock readAt (se_BlockSize env) (sr_path r) b (ie_Offset (seg_index 0 segs ! ?j))
          = Some (b', Inr (encs (fst (segs ! ?j))))" "ok b'"
        using read_segment_at [OF b bs s(1) j, of "sr_path r" "[]" rest] s(4) by auto
      have "length (encs (fst (segs ! ?j))) < 2 ^ 63" using seg_encs_bound [OF bs s(1), of "segs ! ?j"] j s(5) by simp
      then have "entry_loop (\<lambda>acc k v. if k = key then (Some v, True) else (acc, False)) None (encs (fst (segs ! ?j)))
          = Some (map_of (fst (segs ! ?j)) key, key \<in> fst ` set (fst (segs ! ?j)))"
        by (simp add: entry_loop_encs visit_get)
      then show ?thesis using True i chk b' s(3) m by (simp add: SSTable_Get_def)
    qed
  qed
qed

end

section \<open>Scans\<close>

text \<open>
  A scan collects the entries whose key satisfies \<open>p\<close> and stops at the first key that is \<open>past\<close> them.
\<close>

definition scan_visit :: "(string \<Rightarrow> bool) \<Rightarrow> (string \<Rightarrow> bool) \<Rightarrow> KeyValue list \<Rightarrow> string \<Rightarrow> string \<Rightarrow> KeyValue list \<times> bool" where
  "scan_visit p past results k v = (if p k then (AList.update k v results, False) else (results, past k))"

abbreviation collect :: "(string \<Rightarrow> bool) \<Rightarrow> KeyValue list \<Rightarrow> KeyValue list \<Rightarrow> KeyValue list" where
  "collect p es acc \<equiv> fold (\<lambda>(k, v). AList.update k v) (filter (\<lambda>kv. p (fst kv)) es) acc"

lemma visit_scan:
  assumes past: "\<forall>k k'. past k \<longrightarrow> k \<le> k' \<longrightarrow> \<not> p k'"
  shows "keys_sorted es \<Longrightarrow> \<exists>d. visit_all (scan_visit p past) acc es = (collect p es acc, d)
    \<and> (d \<longrightarrow> (\<exists>k\<in>fst ` set es. past k))"
proof (induction es arbitrary: acc)
  case (Cons kv es)
  obtain k v where kv: "kv = (k, v)" by (cases kv)
  have none: "filter (\<lambda>kv. p (fst kv)) es = []" if "past k"
    using Cons.prems past that by (auto simp: kv filter_empty_conv dest: order_less_imp_le)
  show ?case
  proof (cases "\<not> p k \<and> past k")
    case True
    then show ?thesis using none by (auto simp: kv scan_visit_def)
  next
    case False
    then show ?thesis using Cons.IH [of "if p k then AList.update k v acc else acc"] Cons.prems
      by (auto simp: kv scan_visit_def)
  qed
qed auto

context block_reader
begin

lemma scan_blocks_spec:
  assumes bs: "bs_ok bs" and past: "\<forall>k k'. past k \<longrightarrow> k \<le> k' \<longrightarrow> \<not> p k'"
    and stop: "\<forall>e k. stop_at e \<longrightarrow> ie_Key e \<le> k \<longrightarrow> \<not> p k"
  shows "ok b \<Longrightarrow> list_all (seg_ok bs) segs \<Longrightarrow> keys_sorted (seg_entries segs) \<Longrightarrow>
     files path = Some (xs @ seg_bytes segs @ zs) \<Longrightarrow> length (xs @ seg_bytes segs @ zs) < 2 ^ 63 \<Longrightarrow>
     \<exists>b'. scan_blocks readAt bs path stop_at (scan_visit p past) acc b (seg_index (int (length xs)) segs)
       = Some (b', Inr (collect p (seg_entries segs) acc)) \<and> ok b'"
proof (induction segs arbitrary: b xs acc)
  case (Cons s segs)
  let ?e = "\<lparr>ie_Key = fst (hd (fst s)), ie_Offset = int (length xs)\<rparr>"
  have "k \<in> fst ` set (seg_entries (s # segs)) \<Longrightarrow> ie_Key ?e \<le> k" for k
    using seg_split(2) [OF Cons.prems(3,2), of 0 k] by simp
  then have first: "stop_at ?e \<Longrightarrow> filter (\<lambda>kv. p (fst kv)) (seg_entries (s # segs)) = []"
    using stop by (fastforce simp: filter_empty_conv)
  obtain b1 where b1: "readDataBlock readAt bs path b (int (length xs)) = Some (b1, Inr (encs (fst s)))" "ok b1"
    using read_segment_at [OF Cons.prems(1) bs Cons.prems(2) _ Cons.prems(4), of 0] by auto
  have "length (encs (fst s)) \<le> length (seg_bytes (s # segs))" by (rule seg_encs_bound [OF bs Cons.prems(2)]) simp
  then have len: "length (encs (fst s)) < 2 ^ 63" using Cons.prems(5) by simp
  have so: "keys_sorted (fst s)" "keys_sorted (seg_entries segs)" using Cons.prems(3) by (auto simp: sorted_wrt_append)
  obtain d where d: "visit_all (scan_visit p past) acc (fst s) = (collect p (fst s) acc, d)"
    "d \<longrightarrow> (\<exists>k\<in>fst ` set (fst s). past k)" using visit_scan [OF past so(1)] by blast
  have none: "d \<Longrightarrow> filter (\<lambda>kv. p (fst kv)) (seg_entries segs) = []"
    using d(2) past Cons.prems(3) by (fastforce simp: filter_empty_conv sorted_wrt_append dest: order_less_imp_le)
  have f: "files path = Some ((xs @ snd s) @ seg_bytes segs @ zs)" using Cons.prems(4) by simp
  have l: "length ((xs @ snd s) @ seg_bytes segs @ zs) < 2 ^ 63" using Cons.prems(5) by simp
  obtain b2 where b2: "scan_blocks readAt bs path stop_at (scan_visit p past) (collect p (fst s) acc) b1
      (seg_index (int (length (xs @ snd s))) segs) = Some (b2, Inr (collect p (seg_entries segs) (collect p (fst s) acc)))" "ok b2"
    using Cons.IH [OF b1(2) _ so(2) f l] Cons.prems(2) by auto
  show ?case
  proof (cases "stop_at ?e")
    case True
    then show ?thesis using first Cons.prems(1) by simp
  next
    case False
    then show ?thesis using b1 b2 none by (cases d) (simp_all add: entry_loop_encs [OF len] d(1) algebra_simps)
  qed
qed simp

text \<open>A scan that skips the segments before the start of its keys.\<close>

lemma scan_from:
  assumes b: "ok b" and r: "reader_of env files r data" and so: "keys_sorted data"
    and past: "\<forall>k k'. past k \<longrightarrow> k \<le> k' \<longrightarrow> \<not> p k'" and stop: "\<forall>e k. stop_at e \<longrightarrow> ie_Key e \<le> k \<longrightarrow> \<not> p k"
    and low: "\<forall>k. k < start \<longrightarrow> \<not> p k"
  shows "\<exists>b'. scan_blocks readAt (se_BlockSize env) (sr_path r) stop_at (scan_visit p past) [] b (drop (scan_start r start) (sr_index r))
     = Some (b', Inr (filter (\<lambda>kv. p (fst kv)) data)) \<and> ok b'"
proof -
  obtain segs rest where s: "list_all (seg_ok (se_BlockSize env)) segs" "seg_entries segs = data" "sr_index r = seg_index 0 segs"
    "files (sr_path r) = Some (seg_bytes segs @ rest)" "length (seg_bytes segs @ rest) < 2 ^ 63" and bs: "bs_ok (se_BlockSize env)"
    using r by (auto simp: reader_of_def)
  have so': "keys_sorted (seg_entries segs)" using so s(2) by simp
  let ?i = "sort_Search (length (seg_index 0 segs)) (\<lambda>j. ie_Key (seg_index 0 segs ! j) \<ge> start)" and ?n = "scan_start r start"
  have n: "?n = ?i - 1" using s(3) by (auto simp: scan_start_def Let_def)
  have "\<forall>x y. x \<le> y \<longrightarrow> start \<le> x \<longrightarrow> start \<le> y" by (auto intro: order_trans)
  note search = index_search [OF so' s(1) this refl [of ?i]]
  have "\<not> p k" if k: "k \<in> fst ` set (seg_entries (take ?n segs))" for k
  proof -
    have "?n < length segs \<and> 0 < ?i" using k search(1) n by (cases "?i = 0") auto
    then have "k < ie_Key (seg_index 0 segs ! ?n)" "ie_Key (seg_index 0 segs ! ?n) < start"
      using seg_split(1) [OF so' s(1) _ k] search(2) [of ?n] n by (auto simp: not_le)
    then show ?thesis using low order_less_trans by blast
  qed
  then have skip: "filter (\<lambda>kv. p (fst kv)) data = filter (\<lambda>kv. p (fst kv)) (seg_entries (drop ?n segs))"
    unfolding s(2) [symmetric] seg_entries_take_drop [of segs ?n] by (auto simp: filter_empty_conv)
  let ?xs = "seg_bytes (take ?n segs)"
  have seg: "seg_bytes segs = ?xs @ seg_bytes (drop ?n segs)" using seg_simps(3) [of "take ?n segs" "drop ?n segs"] by simp
  have ix: "drop ?n (sr_index r) = seg_index (int (length ?xs)) (drop ?n segs)"
  proof (cases "?n \<le> length segs")
    case True
    then show ?thesis using seg_index_append [of 0 "take ?n segs" "drop ?n segs"] s(3) by simp
  qed (use s(3) in simp)
  have so2: "keys_sorted (seg_entries (drop ?n segs))"
    using so' unfolding seg_entries_take_drop [of segs ?n] by (simp add: sorted_wrt_append)
  have la: "list_all (seg_ok (se_BlockSize env)) (drop ?n segs)" using s(1) by (auto simp: list_all_iff dest: in_set_dropD)
  have f: "files (sr_path r) = Some (?xs @ seg_bytes (drop ?n segs) @ rest)" using s(4) seg by simp
  have l: "length (?xs @ seg_bytes (drop ?n segs) @ rest) < 2 ^ 63" using s(5) unfolding seg by simp
  have "gmap_ok (filter (\<lambda>kv. p (fst kv)) data)" using keys_sorted_distinct [OF so] by (simp add: distinct_map_filter)
  then have c: "collect p (seg_entries (drop ?n segs)) [] = filter (\<lambda>kv. p (fst kv)) data"
    using fold_update_copy [of "[]" "filter (\<lambda>kv. p (fst kv)) data"] unfolding skip by simp
  show ?thesis unfolding ix
    using scan_blocks_spec [OF bs past stop b la so2 f l, of "[]"] unfolding c by blast
qed

end

lemma lex_prefix_less: "length xs = length ys \<Longrightarrow> xs < ys \<Longrightarrow> xs @ u < ys @ (v :: string)"
  by (induction xs ys rule: list_induct2) (auto simp: less_list_code)

lemma lex_le_append: "xs \<le> xs @ (ys :: string)"
  by (induction xs) (auto simp: less_eq_list_code)

lemma matchesPrefix_iff: "matchesPrefix pre k \<longleftrightarrow> (\<exists>r. k = pre @ r)"
  unfolding matchesPrefix_def by (metis append_eq_conv_conj append_take_drop_id le_add1 length_append)

lemma isPastPrefix_past:
  assumes "isPastPrefix pre k" and "k \<le> k'"
  shows "\<not> matchesPrefix pre k'"
proof
  assume "matchesPrefix pre k'"
  then obtain r where r: "k' = pre @ r" by (auto simp: matchesPrefix_iff)
  let ?n = "if length k < length pre then length k else length pre"
  have lt: "take ?n pre < take ?n k" using assms(1) by (simp add: isPastPrefix_def Let_def)
  have len: "length (take ?n pre) = length (take ?n k)" by simp
  have "take ?n pre @ (drop ?n pre @ r) < take ?n k @ drop ?n k" by (rule lex_prefix_less [OF len lt])
  then have "k' < k" unfolding r append_assoc [symmetric] append_take_drop_id .
  then show False using assms(2) by simp
qed

lemma matchesPrefix_ge: "matchesPrefix pre k \<Longrightarrow> pre \<le> k"
  using lex_le_append by (auto simp: matchesPrefix_iff)

context block_reader
begin

lemma RangeScan_table:
  assumes "ok b" and "reader_of env files r data" and "keys_sorted data"
  shows "\<exists>b'. SSTable_RangeScan env readAt b r start stop = Some (b', Inr (filter (\<lambda>kv. start \<le> fst kv \<and> fst kv \<le> stop) data)) \<and> ok b'"
proof -
  have v: "(\<lambda>results k v. if k \<ge> start \<and> k \<le> stop then (AList.update k v results, False) else (results, k > stop))
      = scan_visit (\<lambda>k. start \<le> k \<and> k \<le> stop) (\<lambda>k. k > stop)" by (intro ext) (simp add: scan_visit_def)
  show ?thesis unfolding SSTable_RangeScan_def v by (rule scan_from [OF assms]) (auto dest: order_less_le_trans)
qed

lemma PrefixScan_table:
  assumes "ok b" and r: "reader_of env files r data" and so: "keys_sorted data"
  shows "\<exists>b'. SSTable_PrefixScan env readAt b r pre = Some (b', Inr (filter (\<lambda>kv. matchesPrefix pre (fst kv)) data)) \<and> ok b'"
proof -
  have v: "(\<lambda>results k v. if matchesPrefix pre k then (AList.update k v results, False) else (results, isPastPrefix pre k))
      = scan_visit (matchesPrefix pre) (isPastPrefix pre)" by (intro ext) (simp add: scan_visit_def)
  have pf: "PrefixBloomFilter_ok (sr_prefixFilter r)" "\<forall>k\<in>fst ` set data. prefix_has (se_md5 env) (sr_prefixFilter r) k"
    using r by (auto simp: reader_of_def filters_ok_def)
  obtain hit where hit: "PrefixBloomFilter_Contains (se_md5 env) (sr_prefixFilter r) pre = Some hit"
    using PrefixBloomFilter_Contains_total [OF pf(1)] by blast
  show ?thesis
  proof (cases hit)
    case False
    have "\<not> matchesPrefix pre k" if "k \<in> fst ` set data" for k
      using PrefixBloomFilter_Contains_prefix [OF pf(1), of "se_md5 env" pre] pf(2) that hit False
      unfolding matchesPrefix_iff by (metis option.inject)
    then show ?thesis using hit False assms(1) by (auto simp: SSTable_PrefixScan_def filter_empty_conv)
  next
    case True
    have "\<exists>b'. scan_blocks readAt (se_BlockSize env) (sr_path r) (\<lambda>e. False) (scan_visit (matchesPrefix pre) (isPastPrefix pre)) [] b
        (drop (scan_start r pre) (sr_index r)) = Some (b', Inr (filter (\<lambda>kv. matchesPrefix pre (fst kv)) data)) \<and> ok b'"
      by (rule scan_from [OF assms]) (use isPastPrefix_past matchesPrefix_ge leD in blast)+
    then show ?thesis unfolding SSTable_PrefixScan_def v using hit True by simp
  qed
qed

lemma scan_blocks_all:
  assumes bs: "bs_ok bs"
  shows "ok b \<Longrightarrow> list_all (seg_ok bs) segs \<Longrightarrow> files path = Some (xs @ seg_bytes segs @ zs) \<Longrightarrow>
     length (xs @ seg_bytes segs @ zs) < 2 ^ 63 \<Longrightarrow>
     \<exists>b'. scan_blocks readAt bs path (\<lambda>e. False) (\<lambda>calls k v. (calls @ [(k, v)], False)) acc b (seg_index (int (length xs)) segs)
       = Some (b', Inr (acc @ seg_entries segs)) \<and> ok b'"
proof (induction segs arbitrary: b xs acc)
  case (Cons s segs)
  obtain b1 where b1: "readDataBlock readAt bs path b (int (length xs)) = Some (b1, Inr (encs (fst s)))" "ok b1"
    using read_segment_at [OF Cons.prems(1) bs Cons.prems(2) _ Cons.prems(3), of 0] by auto
  have "length (encs (fst s)) \<le> length (seg_bytes (s # segs))" by (rule seg_encs_bound [OF bs Cons.prems(2)]) simp
  then have len: "length (encs (fst s)) < 2 ^ 63" using Cons.prems(4) by simp
  have v: "visit_all (\<lambda>calls k v. (calls @ [(k, v)], False)) a es = (a @ es, False)" for a and es :: "KeyValue list"
    by (induction es arbitrary: a) auto
  have f: "files path = Some ((xs @ snd s) @ seg_bytes segs @ zs)" using Cons.prems(3) by simp
  have l: "length ((xs @ snd s) @ seg_bytes segs @ zs) < 2 ^ 63" using Cons.prems(4) by simp
  show ?case using b1(1) Cons.IH [OF b1(2) _ f l, of "acc @ fst s"] Cons.prems(2)
    by (auto simp: entry_loop_encs [OF len] v algebra_simps)
qed simp

lemma ScanAll_table:
  assumes "ok b" and r: "reader_of env files r data"
  shows "\<exists>b'. SSTable_ScanAll env readAt b r = Some (b', Inr data) \<and> ok b'"
proof -
  obtain segs rest where s: "list_all (seg_ok (se_BlockSize env)) segs" "seg_entries segs = data" "sr_index r = seg_index 0 segs"
    "files (sr_path r) = Some ([] @ seg_bytes segs @ rest)" "length ([] @ seg_bytes segs @ rest) < 2 ^ 63" and bs: "bs_ok (se_BlockSize env)"
    using r by (auto simp: reader_of_def)
  show ?thesis using scan_blocks_all [OF bs assms(1) s(1,4,5), of "[]"] unfolding SSTable_ScanAll_def s(3) s(2) by simp
qed

end

section \<open>Flush and read\<close>

text \<open>
  C36: Flushing a memtable and reading the file back is a round trip. For entries in strict key order, when no
  file operation fails, \<open>FlushMemtable\<close> returns the final path; every block manager that agrees with the files
  opens the new table, and then a point read returns exactly the value flushed for the key (none for
  other keys, whatever the Bloom filter answers), a range scan and a prefix scan exactly the matching entries, and a
  full scan all entries, including entries larger than a block.\<close>

theorem flush_then_read:
  assumes "env_ok env (length data)" and "fw_fresh (se_BlockSize env) fw" and "data \<noteq> []"
    and "sorted_wrt (<) (map fst data)" and "fw_location fw = path @ ''.tmp''"
  shows "\<exists>fw'. FlushMemtable env no_sfail ts1 ts2 uuid fw data lsn = Some (fw', path) \<and>
     (\<forall>tables bm. length (disk_content (fw_disk fw') path) < 2 ^ 63
        \<and> bm_inv xx (int (se_BlockSize env)) cap tables (fw_disk fw') bm \<longrightarrow>
        (\<exists>bm1 r. SSTable_Open (BlockManager_ReadAt xx (fw_disk fw')) (fw_disk fw') bm path = Some (bm1, Inr r)
           \<and> sr_itemCount r = int (length data) \<and> sr_maxLSN r = lsn
           \<and> (\<forall>key. map_option snd (SSTable_Get env (BlockManager_ReadAt xx (fw_disk fw')) bm1 r key)
                = Some (Inr (map_of data key)))
           \<and> (\<forall>start stop. map_option snd (SSTable_RangeScan env (BlockManager_ReadAt xx (fw_disk fw')) bm1 r start stop)
                = Some (Inr (filter (\<lambda>kv. start \<le> fst kv \<and> fst kv \<le> stop) data)))
           \<and> (\<forall>pre. map_option snd (SSTable_PrefixScan env (BlockManager_ReadAt xx (fw_disk fw')) bm1 r pre)
                = Some (Inr (filter (\<lambda>kv. matchesPrefix pre (fst kv)) data)))
           \<and> map_option snd (SSTable_ScanAll env (BlockManager_ReadAt xx (fw_disk fw')) bm1 r) = Some (Inr data)))"
proof -
  obtain fw' f where fw': "FlushMemtable env no_sfail ts1 ts2 uuid fw data lsn = Some (fw', path)"
    "length f < 2 ^ 63 \<longrightarrow> table_file env f data (int (length data)) lsn" "map_of (fw_disk fw') path = Some f"
    using FlushMemtable_table [OF assms(1,2,3,5), of ts1 ts2 uuid lsn] by (metis fun_upd_same)
  show ?thesis
  proof (intro exI [of _ fw'] conjI fw'(1) allI impI, elim conjE)
    fix tables bm
    let ?R = "BlockManager_ReadAt xx (fw_disk fw')"
    assume len: "length (disk_content (fw_disk fw') path) < 2 ^ 63"
      and inv: "bm_inv xx (int (se_BlockSize env)) cap tables (fw_disk fw') bm"
    then have t: "table_file env f data (int (length data)) lsn" using fw'(2,3) by (simp add: disk_content_def)
    obtain bm1 r where o: "SSTable_Open ?R (fw_disk fw') bm path = Some (bm1, Inr r)"
      "bm_inv xx (int (se_BlockSize env)) cap tables (fw_disk fw') bm1" "reader_of env (map_of (fw_disk fw')) r data"
      "sr_itemCount r = int (length data)" "sr_maxLSN r = lsn"
      using bm.Open_table [OF inv refl fw'(3) t] by blast
    note rd = o(2,3) assms(4)
    show "\<exists>bm1 r. SSTable_Open ?R (fw_disk fw') bm path = Some (bm1, Inr r)
           \<and> sr_itemCount r = int (length data) \<and> sr_maxLSN r = lsn
           \<and> (\<forall>key. map_option snd (SSTable_Get env ?R bm1 r key) = Some (Inr (map_of data key)))
           \<and> (\<forall>start stop. map_option snd (SSTable_RangeScan env ?R bm1 r start stop)
                = Some (Inr (filter (\<lambda>kv. start \<le> fst kv \<and> fst kv \<le> stop) data)))
           \<and> (\<forall>pre. map_option snd (SSTable_PrefixScan env ?R bm1 r pre)
                = Some (Inr (filter (\<lambda>kv. matchesPrefix pre (fst kv)) data)))
           \<and> map_option snd (SSTable_ScanAll env ?R bm1 r) = Some (Inr data)"
    proof (intro exI [of _ bm1] exI [of _ r] conjI o(1,4,5) allI)
      fix key start stop pre
      show "map_option snd (SSTable_Get env ?R bm1 r key) = Some (Inr (map_of data key))"
        using bm.Get_table [OF rd, of key] by auto
      show "map_option snd (SSTable_RangeScan env ?R bm1 r start stop) = Some (Inr (filter (\<lambda>kv. start \<le> fst kv \<and> fst kv \<le> stop) data))"
        using bm.RangeScan_table [OF rd, of start stop] by auto
      show "map_option snd (SSTable_PrefixScan env ?R bm1 r pre) = Some (Inr (filter (\<lambda>kv. matchesPrefix pre (fst kv)) data))"
        using bm.PrefixScan_table [OF rd, of pre] by auto
      show "map_option snd (SSTable_ScanAll env ?R bm1 r) = Some (Inr data)"
        using bm.ScanAll_table [OF rd(1,2)] by auto
    qed
  qed
qed

text \<open>A small environment: blocks of 24 bytes, filters of two slots, constant digests.\<close>

definition small_env :: sst_env where
  "small_env = \<lparr>se_md5 = (\<lambda>bs. 0), se_params = (\<lambda>n. (2, 1)), se_sha = (\<lambda>s. ''h''), se_BlockSize = 24\<rparr>"

definition small_fw :: FileWriter where
  "small_fw = NewFileWriterInDir 24 ''t.db.tmp'' ''d'' ''u'' []"

definition small_data :: "KeyValue list" where
  "small_data = [(''a'', ''1''), (''b'', ''0123456789'')]"

definition last_digit :: "string \<Rightarrow> u64" where
  "last_digit s = of_nat (of_char (last s))"

lemma small_env_ok: "env_ok small_env n"
  by (simp add: env_ok_def small_env_def bs_ok_def params_ok_def)

lemma last_digit_key:
  assumes "0 \<le> i" "i < 10"
  shows "NewBlockKey last_digit i p = of_nat (48 + nat i)"
proof -
  have "FormatUint10 (nat i) = [char_of (48 + nat i)]" using assms by (simp add: FormatUint10.simps nat_less_iff)
  then show ?thesis using assms of_char_digit [of "nat i"] by (simp add: NewBlockKey_def last_digit_def nat_less_iff del: of_char_of)
qed

lemma collision_free_small:
  assumes "length f < 10 * bs" and "0 < bs"
  shows "collision_free last_digit (int bs) [p \<mapsto> f]"
  unfolding collision_free_def
proof (intro allI impI, elim conjE)
  fix q q' g g' i i' d d'
  assume g: "[p \<mapsto> f] q = Some g" "[p \<mapsto> f] q' = Some g'" and i: "0 \<le> i" "0 \<le> i'"
    and r: "File_ReadAt g (int bs * i) (int bs) = Inr d" "File_ReadAt g' (int bs * i') (int bs) = Inr d'"
    and k: "NewBlockKey last_digit i q = NewBlockKey last_digit i' q'"
  have gf: "g = f" "g' = f" using g by (auto split: if_splits)
  have bound: "j < 10" if "File_ReadAt f (int bs * j) (int bs) = Inr e" for j e
  proof -
    have "int bs * j + int bs \<le> int (length f)" using that assms(2) by (auto simp: File_ReadAt_def split: if_splits)
    moreover have "int (length f) < int bs * 10" using assms(1) by linarith
    ultimately have "int bs * (j + 1) < int bs * 10" by (simp only: distrib_left mult_1_right)
    then show ?thesis using assms(2) by simp
  qed
  have "i < 10" "i' < 10" using bound r unfolding gf by blast+
  then have "(of_nat (48 + nat i) :: u64) = of_nat (48 + nat i')" using k i last_digit_key by simp
  then have "unat (of_nat (48 + nat i) :: u64) = unat (of_nat (48 + nat i') :: u64)" by (rule arg_cong)
  then have "nat i = nat i'" using \<open>i < 10\<close> \<open>i' < 10\<close> unfolding unat_of_nat by simp
  then have "i = i'" using i by simp
  then show "d = d'" using r unfolding gf by simp
qed

definition small_bf :: BloomFilter where
  "small_bf = \<lparr>bf_K = 1, bf_M = 2, bf_Array = [1, 0], bf_Hashes = [[0, 0, 0, 0]]\<rparr>"

definition small_pbf :: PrefixBloomFilter where
  "small_pbf = \<lparr>pf_filter = small_bf, pf_minLength = 1, pf_maxLength = 128\<rparr>"

definition small_w1 :: "FileWriter \<times> IndexEntry list" where
  "small_w1 = SerializeDataBuildIndex no_sfail 24 small_fw small_data"

definition small_w2 :: "FileWriter \<times> (sst_error + int)" where
  "small_w2 = WriteRaw no_sfail (fst (FileWriter_Write no_sfail (fst small_w1) [] True)) (SerializeIndex (snd small_w1))"

definition small_fb :: "byte list" where
  "small_fb = SerializeFilterSection (BloomFilter_SerializeToByteArray small_bf) (PrefixBloomFilter_SerializeToByteArray small_pbf) [104]"

definition small_w3 :: "FileWriter \<times> (sst_error + int)" where
  "small_w3 = WriteRaw no_sfail (fst small_w2) small_fb"

definition small_w4 :: "FileWriter \<times> (sst_error + int)" where
  "small_w4 = WriteRaw no_sfail (fst small_w3) (SerializeFooter (ignore_err (snd small_w2)) (int (length (SerializeIndex (snd small_w1))))
   (ignore_err (snd small_w3)) (int (length small_fb)) 2 7)"

definition small_w5 :: "FileWriter \<times> sst_error option" where
  "small_w5 = FileWriter_Commit no_sfail (fst small_w4)"

lemma small_b0: "NewBloomFilterWithParams (se_params small_env) 0 n = Some (small_bf\<lparr>bf_Array := [0, 0]\<rparr>)"
  by (simp add: NewBloomFilterWithParams_def small_env_def small_bf_def CreateHashFunctions_def Let_def) code_simp

lemma small_b1: "BloomFilter_AddMultiple (se_md5 small_env) (small_bf\<lparr>bf_Array := [0, 0]\<rparr>) (map fst small_data) = Some small_bf"
  by code_simp

lemma small_b2: "NewPrefixBloomFilter (se_params small_env) 0 = Some (small_pbf\<lparr>pf_filter := small_bf\<lparr>bf_Array := [0, 0]\<rparr>\<rparr>)"
  by code_simp

lemma small_b3: "PrefixBloomFilter_AddMultiple (se_md5 small_env) (small_pbf\<lparr>pf_filter := small_bf\<lparr>bf_Array := [0, 0]\<rparr>\<rparr>) (map fst small_data) = Some small_pbf"
  by code_simp

lemma small_b4: "MerkleTree_GetRootBytes (se_sha small_env) (fold (\<lambda>kv mt. MerkleTree_AddLeaf (se_sha small_env) mt (snd kv)) small_data
                (InitializeMerkleTree (int (length small_data)))) = Some [104]" by code_simp

lemma small_b5: "se_BlockSize small_env = 24" "int (length small_data) = 2" by code_simp+

lemma small_flush: "FlushMemtable small_env no_sfail 0 0 ''v'' small_fw small_data 7 = Some (ResetFileWriter no_sfail (fst small_w5) '''' ''v'', fw_location (fst small_w5))"
  unfolding FlushMemtable_def small_b0 bind.bind_lunit small_b1 small_b2 small_b3 Let_def small_b4 small_fb_def [symmetric]
  unfolding small_b5 case_prod_beta small_w1_def [symmetric]
  unfolding small_w2_def [symmetric] small_w3_def [symmetric] small_w4_def [symmetric] small_w5_def [symmetric]
  by (rule refl)

lemma WriteRaw_out_fst: "fw_out bs fw0 fw c \<Longrightarrow> fw_out bs fw0 (fst (WriteRaw no_sfail fw d)) (c @ d)"
  using WriteRaw_out [of bs fw0 fw c d] by auto

lemma small_out: "fw_out 24 small_fw (fst (FileWriter_Write no_sfail (fst small_w1) [] True))
    (fw_buf (fst (FileWriter_Write no_sfail (fst small_w1) [] True)))"
  "length (fw_buf (fst (FileWriter_Write no_sfail (fst small_w1) [] True))) = 72"
proof -
  let ?x = "fst (FileWriter_Write no_sfail (fst small_w1) [] True)"
  show 1: "length (fw_buf ?x) = 72" by code_simp
  have "fw_file ?x" "fw_currentBlock ?x = []" "fw_blockSize ?x = 24" "fw_location ?x = fw_location small_fw"
    "fw_dataRoot ?x = fw_dataRoot small_fw" "fw_currentBlockNum ?x * 24 + fw_rawBytesWritten ?x = 72"
    "fw_disk ?x = [(fw_location small_fw, [])]" "fw_disk small_fw = []"
    by code_simp+
  then show "fw_out 24 small_fw ?x (fw_buf ?x)" unfolding fw_out_def 1 by simp
qed

lemma small_file:
  "\<exists>f. map_of (fw_disk (ResetFileWriter no_sfail (fst small_w5) '''' ''v'')) = [''d/t.db'' \<mapsto> f] \<and> length f = 215
     \<and> fw_location (fst small_w5) = ''d/t.db''"
proof -
  let ?c = "fw_buf (fst (FileWriter_Write no_sfail (fst small_w1) [] True))" and ?ib = "SerializeIndex (snd small_w1)"
  let ?ft = "SerializeFooter (ignore_err (snd small_w2)) (int (length ?ib)) (ignore_err (snd small_w3)) (int (length small_fb)) 2 7"
  have "fw_out 24 small_fw (fst small_w2) (?c @ ?ib)" unfolding small_w2_def by (rule WriteRaw_out_fst [OF small_out(1)])
  then have "fw_out 24 small_fw (fst small_w3) ((?c @ ?ib) @ small_fb)" unfolding small_w3_def by (rule WriteRaw_out_fst)
  then have 4: "fw_out 24 small_fw (fst small_w4) (((?c @ ?ib) @ small_fb) @ ?ft)" unfolding small_w4_def by (rule WriteRaw_out_fst)
  have loc: "fw_location small_fw = ''d/t.db'' @ ''.tmp''" "fw_disk small_fw = []" by code_simp+
  have 5: "fw_location (fst small_w5) = ''d/t.db''" "\<not> fw_file (fst small_w5)"
    "map_of (fw_disk (fst small_w5)) = [''d/t.db'' \<mapsto> ((?c @ ?ib) @ small_fb) @ ?ft]"
    using Commit_out [OF 4 loc(1)] loc by (auto simp: small_w5_def)
  have "length ?ib = 34" "length small_fb = 53" by code_simp+
  then have "length (((?c @ ?ib) @ small_fb) @ ?ft) = 215" using small_out(2) by (simp add: FooterSize_def)
  then show ?thesis using 5 Reset_fresh [OF 5(2) refl, of no_sfail "''v''"] by auto
qed
theorem flush_then_read_witness:
  "\<exists>fw' bm1 r. FlushMemtable small_env no_sfail 0 0 ''v'' small_fw small_data 7 = Some (fw', ''d/t.db'')
     \<and> SSTable_Open (BlockManager_ReadAt last_digit (fw_disk fw')) (fw_disk fw') (NewBlockManager 24 2) ''d/t.db'' = Some (bm1, Inr r)
     \<and> map_option snd (SSTable_Get small_env (BlockManager_ReadAt last_digit (fw_disk fw')) bm1 r ''b'') = Some (Inr (Some ''0123456789''))
     \<and> map_option snd (SSTable_ScanAll small_env (BlockManager_ReadAt last_digit (fw_disk fw')) bm1 r) = Some (Inr small_data)"
proof -
  have h: "fw_fresh (se_BlockSize small_env) small_fw" "small_data \<noteq> []" "sorted_wrt (<) (map fst small_data)"
    "fw_location small_fw = ''d/t.db'' @ ''.tmp''"
    by (simp_all add: fw_fresh_def fw_state_def small_fw_def small_env_def NewFileWriterInDir_def small_data_def filepath_Join_def)
  obtain fw' where fw': "FlushMemtable small_env no_sfail 0 0 ''v'' small_fw small_data 7 = Some (fw', ''d/t.db'')" and
    rd: "\<forall>tables bm. length (disk_content (fw_disk fw') ''d/t.db'') < 2 ^ 63
        \<and> bm_inv last_digit (int (se_BlockSize small_env)) 2 tables (fw_disk fw') bm \<longrightarrow>
        (\<exists>bm1 r. SSTable_Open (BlockManager_ReadAt last_digit (fw_disk fw')) (fw_disk fw') bm ''d/t.db'' = Some (bm1, Inr r)
           \<and> sr_itemCount r = int (length small_data) \<and> sr_maxLSN r = 7
           \<and> (\<forall>key. map_option snd (SSTable_Get small_env (BlockManager_ReadAt last_digit (fw_disk fw')) bm1 r key)
                = Some (Inr (map_of small_data key)))
           \<and> (\<forall>start stop. map_option snd (SSTable_RangeScan small_env (BlockManager_ReadAt last_digit (fw_disk fw')) bm1 r start stop)
                = Some (Inr (filter (\<lambda>kv. start \<le> fst kv \<and> fst kv \<le> stop) small_data)))
           \<and> (\<forall>pre. map_option snd (SSTable_PrefixScan small_env (BlockManager_ReadAt last_digit (fw_disk fw')) bm1 r pre)
                = Some (Inr (filter (\<lambda>kv. matchesPrefix pre (fst kv)) small_data)))
           \<and> map_option snd (SSTable_ScanAll small_env (BlockManager_ReadAt last_digit (fw_disk fw')) bm1 r) = Some (Inr small_data))"
    using flush_then_read [OF small_env_ok h, of 0 0 "''v''" 7 last_digit 2] by (elim exE conjE) (rule that)
  obtain f where f: "map_of (fw_disk fw') = [''d/t.db'' \<mapsto> f]" "length f = 215"
    using small_file fw' unfolding small_flush by auto
  have inv: "bm_inv last_digit (int (se_BlockSize small_env)) 2 [''d/t.db'' \<mapsto> f] (fw_disk fw') (NewBlockManager 24 2)"
    using bm_ok_new [of 24 last_digit 2 "[''d/t.db'' \<mapsto> f]"] collision_free_small [of f 24 "''d/t.db''"] f
    by (simp add: bm_inv_def small_env_def)
  have len: "length (disk_content (fw_disk fw') ''d/t.db'') < 2 ^ 63" using f by (simp add: disk_content_def)
  note o = rd [rule_format, OF conjI [OF len inv]]
  have "map_of small_data ''b'' = Some ''0123456789''" by (simp add: small_data_def)
  then show ?thesis using fw' o by (elim exE conjE) fastforce
qed

end
