(* ===== verification/WalCursor.thy ===== *)
theory WalCursor
  imports Wal
begin

text \<open>
  The log as its clients see it: \<open>src/wal/wal.go\<close> (waiting for durability, subscribers, the start of a cursor)
  and \<open>src/wal/cursor.go\<close>. A subscriber is a channel of capacity one: its identity and whether a signal waits in
  it. The reader of a cursor is the name of the file and the position in it; \<open>seen\<close> gives the content behind an
  open file, which is that of the directory as long as the segment is not purged.
\<close>

section \<open>wal.go: durability and subscribers\<close>

record WAL =
  wal_store :: AppendFileStorage
  wal_syncMode :: string
  wal_flushedLSN :: u64
  wal_subs :: "(nat \<times> bool) list"

definition NewWALWithStorage :: "AppendFileStorage \<Rightarrow> string \<Rightarrow> WAL" where
  "NewWALWithStorage store syncMode =
     \<lparr>wal_store = store, wal_syncMode = syncMode, wal_flushedLSN = durableLSN store, wal_subs = []\<rparr>"

text \<open>A signal is dropped when one is already waiting.\<close>

definition notifySubs :: "WAL \<Rightarrow> WAL" where
  "notifySubs w = w\<lparr>wal_subs := map (\<lambda>(ch, _). (ch, True)) (wal_subs w)\<rparr>"

text \<open>The new channel \<open>ch\<close> is an argument.\<close>

definition WAL_Subscribe :: "nat \<Rightarrow> WAL \<Rightarrow> WAL" where
  "WAL_Subscribe ch w = w\<lparr>wal_subs := wal_subs w @ [(ch, False)]\<rparr>"

fun Unsubscribe_loop :: "nat \<Rightarrow> (nat \<times> bool) list \<Rightarrow> (nat \<times> bool) list" where
  "Unsubscribe_loop ch [] = []"
| "Unsubscribe_loop ch (s # subs) = (if fst s = ch then subs else s # Unsubscribe_loop ch subs)"

definition WAL_Unsubscribe :: "WAL \<Rightarrow> nat \<Rightarrow> WAL" where
  "WAL_Unsubscribe w ch = w\<lparr>wal_subs := Unsubscribe_loop ch (wal_subs w)\<rparr>"

text \<open>
  \<open>WaitDurable\<close> of a caller that finds no sync in flight. \<open>fails n\<close> says which operations fail during the
  \<open>n\<close>-th sync it makes.
\<close>

partial_function (option) WaitDurable_loop :: "(nat \<Rightarrow> io_op \<Rightarrow> bool) \<Rightarrow> nat \<Rightarrow> WAL \<Rightarrow> u64 \<Rightarrow> (WAL \<times> wal_error option) option" where
  "WaitDurable_loop fails n w lsn =
     (if lsn \<le> wal_flushedLSN w then Some (w, None)
      else (case Storage_Sync (fails n) (wal_store w) of
              (store, err) \<Rightarrow>
                (let w = notifySubs (w\<lparr>wal_store := store, wal_flushedLSN := durableLSN store\<rparr>)
                 in if err \<noteq> None \<and> lsn > wal_flushedLSN w then Some (w, err)
                    else WaitDurable_loop fails (n + 1) w lsn)))"

declare WaitDurable_loop.simps [code]

definition WaitDurable :: "(nat \<Rightarrow> io_op \<Rightarrow> bool) \<Rightarrow> WAL \<Rightarrow> u64 \<Rightarrow> (WAL \<times> wal_error option) option" where
  "WaitDurable fails w lsn =
     (if wal_syncMode w = ''sync''
      then (case Storage_Sync (fails 0) (wal_store w) of (store, err) \<Rightarrow> Some (w\<lparr>wal_store := store\<rparr>, err))
      else WaitDurable_loop fails 0 w lsn)"

text \<open>The blocking writes; \<open>fail\<close> concerns the append, \<open>fails\<close> the syncs.\<close>

definition WAL_WritePut :: "(io_op \<Rightarrow> bool) \<Rightarrow> (nat \<Rightarrow> io_op \<Rightarrow> bool) \<Rightarrow> WAL \<Rightarrow> string \<Rightarrow> string \<Rightarrow> (WAL \<times> wal_error option) option" where
  "WAL_WritePut fail fails w key value =
     (case WAL_AppendPut fail (wal_store w) key value of
        (store, Inl err) \<Rightarrow> Some (w\<lparr>wal_store := store\<rparr>, Some err)
      | (store, Inr lsn) \<Rightarrow> WaitDurable fails (w\<lparr>wal_store := store\<rparr>) lsn)"

definition WAL_WriteDelete :: "(io_op \<Rightarrow> bool) \<Rightarrow> (nat \<Rightarrow> io_op \<Rightarrow> bool) \<Rightarrow> WAL \<Rightarrow> string \<Rightarrow> (WAL \<times> wal_error option) option" where
  "WAL_WriteDelete fail fails w key =
     (case WAL_AppendDelete fail (wal_store w) key of
        (store, Inl err) \<Rightarrow> Some (w\<lparr>wal_store := store\<rparr>, Some err)
      | (store, Inr lsn) \<Rightarrow> WaitDurable fails (w\<lparr>wal_store := store\<rparr>) lsn)"

section \<open>cursor.go\<close>

record fileSegmentReader =
  fr_path :: string
  fr_off :: nat

definition OpenSegmentReader :: "(io_op \<Rightarrow> bool) \<Rightarrow> AppendFileStorage \<Rightarrow> u64 \<Rightarrow> wal_error + fileSegmentReader" where
  "OpenSegmentReader fail s sid =
     (if fail OpStat \<or> map_of (walDir s) (SegmentName sid) = None then Inl SegmentNotFound
      else if fail OpOpen then Inl IOError
      else Inr \<lparr>fr_path = SegmentName sid, fr_off = 0\<rparr>)"

definition segmentMaxLSN :: "(io_op \<Rightarrow> bool) \<Rightarrow> AppendFileStorage \<Rightarrow> u64 \<Rightarrow> wal_error + u64" where
  "segmentMaxLSN fail s sid =
     (case OpenSegmentReader fail s sid of
        Inl err \<Rightarrow> Inl err
      | Inr r \<Rightarrow> Inr (fold (\<lambda>rec maxLSN. r_LSN rec) (read_segment (file_content (walDir s) (fr_path r))) 0))"

record WALCursor =
  wc_afterLSN :: u64
  wc_segIdx :: nat
  wc_segments :: "(u64 \<times> string) list"
  wc_reader :: "fileSegmentReader option"
  wc_peeked :: "Entry option"
  wc_notify :: nat

text \<open>The index of the first segment that may hold an LSN above \<open>afterLSN\<close>.\<close>

fun CursorFrom_loop :: "(io_op \<Rightarrow> bool) \<Rightarrow> AppendFileStorage \<Rightarrow> u64 \<Rightarrow> nat \<Rightarrow> nat \<Rightarrow> (u64 \<times> string) list \<Rightarrow> wal_error + nat" where
  "CursorFrom_loop fail s afterLSN i startIdx [] = Inr startIdx"
| "CursorFrom_loop fail s afterLSN i startIdx (seg # segments) =
     (if fst seg = segmentID s then Inr startIdx
      else (case segmentMaxLSN fail s (fst seg) of
              Inl err \<Rightarrow> Inl err
            | Inr maxLSN \<Rightarrow> if maxLSN \<le> afterLSN then CursorFrom_loop fail s afterLSN (i + 1) (i + 1) segments
                           else Inr startIdx))"

definition CursorFrom :: "(io_op \<Rightarrow> bool) \<Rightarrow> nat \<Rightarrow> WAL \<Rightarrow> u64 \<Rightarrow> WAL \<times> (wal_error + WALCursor)" where
  "CursorFrom fail ch w afterLSN =
     (case ListSegmentsInDir fail (walDir (wal_store w)) of
        Inl err \<Rightarrow> (w, Inl err)
      | Inr segments \<Rightarrow>
          (case CursorFrom_loop fail (wal_store w) afterLSN 0 0 segments of
             Inl err \<Rightarrow> (w, Inl err)
           | Inr startIdx \<Rightarrow>
               (WAL_Subscribe ch w, Inr \<lparr>wc_afterLSN = afterLSN, wc_segIdx = startIdx, wc_segments = segments,
                  wc_reader = None, wc_peeked = None, wc_notify = ch\<rparr>)))"

text \<open>Opening the next segment when there is no reader.\<close>

definition cursor_open :: "(io_op \<Rightarrow> bool) \<Rightarrow> AppendFileStorage \<Rightarrow> WALCursor \<Rightarrow> WALCursor \<times> wal_error option" where
  "cursor_open fail s c =
     (if wc_reader c \<noteq> None then (c, None)
      else (case ListSegmentsInDir fail (walDir s) of
              Inl err \<Rightarrow> (c, Some err)
            | Inr segs \<Rightarrow>
                (let c = c\<lparr>wc_segments := segs\<rparr>
                 in if wc_segIdx c \<ge> length (wc_segments c) then (c, Some EOF)
                    else (case OpenSegmentReader fail s (fst (wc_segments c ! wc_segIdx c)) of
                            Inl err \<Rightarrow> (c, Some err)
                          | Inr r \<Rightarrow> (c\<lparr>wc_reader := Some r\<rparr>, None)))))"

text \<open>One record of the open segment, with the reader behind it; \<open>None\<close> is \<open>io.EOF\<close>.\<close>

definition cursor_read :: "(string \<Rightarrow> byte list) \<Rightarrow> fileSegmentReader \<Rightarrow> (Record \<times> fileSegmentReader) option" where
  "cursor_read seen r =
     (let file = drop (fr_off r) (seen (fr_path r))
      in case fileSegmentReader_Next file of
           Inl _ \<Rightarrow> None
         | Inr (rec, rest) \<Rightarrow> Some (rec, r\<lparr>fr_off := fr_off r + (length file - length rest)\<rparr>))"

text \<open>
  What gets smaller in the loop of \<open>Next\<close>: a round ends with a record less in the open segment, or with an open segment instead of none, or with the
  next index.
\<close>

definition cursor_rank :: "(io_op \<Rightarrow> bool) \<Rightarrow> AppendFileStorage \<Rightarrow> WALCursor \<Rightarrow> nat" where
  "cursor_rank fail s c =
     (let n = (case ListSegmentsInDir fail (walDir s) of Inl _ \<Rightarrow> 0 | Inr segs \<Rightarrow> length segs)
      in if wc_reader c = None then 2 * (n - wc_segIdx c) else 2 * (n - wc_segIdx c - 1) + 1)"

definition cursor_left :: "(string \<Rightarrow> byte list) \<Rightarrow> WALCursor \<Rightarrow> nat" where
  "cursor_left seen c = (case wc_reader c of None \<Rightarrow> 0 | Some r \<Rightarrow> length (seen (fr_path r)) - fr_off r)"

lemma cursor_open_rank:
  assumes "cursor_open fail s c = (c', None)"
  shows "wc_reader c' \<noteq> None" and "cursor_rank fail s (c'\<lparr>wc_reader := None, wc_segIdx := Suc (wc_segIdx c')\<rparr>) < cursor_rank fail s c"
    and "c' = c \<or> (cursor_rank fail s (c'\<lparr>wc_reader := Some r\<rparr>) < cursor_rank fail s c)"
  using assms by (auto simp: cursor_open_def cursor_rank_def Let_def split: if_splits sum.splits)

lemma cursor_read_left:
  assumes "cursor_read seen r = Some (rec, r')"
  shows "fr_path r' = fr_path r" and "length (seen (fr_path r)) - fr_off r' < length (seen (fr_path r)) - fr_off r"
proof -
  show "fr_path r' = fr_path r"
    using assms by (auto simp: cursor_read_def Let_def split: sum.splits)
  obtain rest where n: "fileSegmentReader_Next (drop (fr_off r) (seen (fr_path r))) = Inr (rec, rest)"
    and r': "fr_off r' = fr_off r + (length (drop (fr_off r) (seen (fr_path r))) - length rest)"
    using assms by (auto simp: cursor_read_def Let_def split: sum.splits)
  have "length rest < length (drop (fr_off r) (seen (fr_path r)))" using reader_progress [OF n] .
  then show "length (seen (fr_path r)) - fr_off r' < length (seen (fr_path r)) - fr_off r" using r' by simp
qed

lemma cursor_step_left:
  assumes "cursor_open fail s c = (c', None)" and "cursor_read seen (the (wc_reader c')) = Some (rec, r)"
  shows "cursor_rank fail s (c'\<lparr>wc_reader := Some r\<rparr>) < cursor_rank fail s c
    \<or> cursor_rank fail s (c'\<lparr>wc_reader := Some r\<rparr>) = cursor_rank fail s c \<and> cursor_left seen (c'\<lparr>wc_reader := Some r\<rparr>) < cursor_left seen c"
proof (cases "c' = c")
  case True
  obtain r0 where r0: "wc_reader c = Some r0" using cursor_open_rank(1) [OF assms(1)] True by auto
  then have "cursor_left seen (c'\<lparr>wc_reader := Some r\<rparr>) < cursor_left seen c"
    using cursor_read_left [OF assms(2)] True by (simp add: cursor_left_def)
  then show ?thesis using r0 True by (simp add: cursor_rank_def)
qed (use cursor_open_rank(3) [OF assms(1)] in blast)

text \<open>
  The loop of \<open>Next\<close>. The reader is open only while \<open>segIdx\<close> is an index of \<open>segments\<close>: both are set together
  and the index moves when the reader is closed.
\<close>

function WALCursor_Next :: "(io_op \<Rightarrow> bool) \<Rightarrow> (string \<Rightarrow> byte list) \<Rightarrow> AppendFileStorage \<Rightarrow> WALCursor \<Rightarrow> WALCursor \<times> (wal_error + Entry)" where
  "WALCursor_Next fail seen s c =
     (case wc_peeked c of
        Some entry \<Rightarrow> if e_LSN entry \<le> durableLSN s then (c\<lparr>wc_peeked := None\<rparr>, Inr entry) else (c, Inl EOF)
      | None \<Rightarrow>
          (case cursor_open fail s c of
             (c, Some err) \<Rightarrow> (c, Inl err)
           | (c, None) \<Rightarrow>
               (let active = (fst (wc_segments c ! wc_segIdx c) = segmentID s)
                in case cursor_read seen (the (wc_reader c)) of
                     None \<Rightarrow>
                       if active then (c\<lparr>wc_reader := None\<rparr>, Inl EOF)
                       else WALCursor_Next fail seen s (c\<lparr>wc_reader := None, wc_segIdx := wc_segIdx c + 1\<rparr>)
                   | Some (rec, r) \<Rightarrow>
                       (let entry = recordToEntry rec; c = c\<lparr>wc_reader := Some r\<rparr>
                        in if e_LSN entry \<le> wc_afterLSN c then WALCursor_Next fail seen s c
                           else if active \<and> e_LSN entry > durableLSN s then (c\<lparr>wc_peeked := Some entry\<rparr>, Inl EOF)
                           else (c, Inr entry)))))"
  by pat_completeness auto
termination
  by (relation "measures [\<lambda>(fail, seen, s, c). cursor_rank fail s c, \<lambda>(fail, seen, s, c). cursor_left seen c]")
    (auto simp: cursor_open_rank(2) dest!: cursor_step_left [OF sym])

declare WALCursor_Next.simps [simp del]

definition WALCursor_Notify :: "WALCursor \<Rightarrow> nat" where
  "WALCursor_Notify c = wc_notify c"

definition WALCursor_Close :: "(io_op \<Rightarrow> bool) \<Rightarrow> WAL \<Rightarrow> WALCursor \<Rightarrow> WAL \<times> wal_error option" where
  "WALCursor_Close fail w c =
     (WAL_Unsubscribe w (wc_notify c), if wc_reader c \<noteq> None \<and> fail OpClose then Some IOError else None)"

section \<open>What a cursor delivers\<close>

text \<open>
  The records a cursor has before it: those of the open segment that are not read yet and those of the
  segments behind it.
\<close>

definition cursor_at :: "u64 list \<Rightarrow> (u64 \<Rightarrow> Record list) \<Rightarrow> WALCursor \<Rightarrow> Record list \<Rightarrow> bool" where
  "cursor_at ids recs c rest \<longleftrightarrow> wc_peeked c = None \<and> wc_segIdx c < length ids
     \<and> (case wc_reader c of
          None \<Rightarrow> rest = concat (map recs (drop (wc_segIdx c) (sort ids)))
        | Some r \<Rightarrow> wc_segments c = map (\<lambda>i. (i, SegmentName i)) (sort ids) \<and> fr_path r = SegmentName (sort ids ! wc_segIdx c)
            \<and> (\<exists>past left. recs (sort ids ! wc_segIdx c) = past @ left \<and> fr_off r = length (recs_bytes past)
                 \<and> rest = left @ concat (map recs (drop (Suc (wc_segIdx c)) (sort ids)))))"

abbreviation due :: "u64 \<Rightarrow> u64 \<Rightarrow> Record list \<Rightarrow> Record list" where
  "due afterLSN durable rest \<equiv> filter (\<lambda>r. afterLSN < r_LSN r \<and> r_LSN r \<le> durable) rest"

abbreviation increasing :: "Record list \<Rightarrow> bool" where
  "increasing rs \<equiv> sorted_wrt (\<lambda>r q. r_LSN r < r_LSN q) rs"

lemma nth_sort_mem: "k < length ids \<Longrightarrow> sort ids ! k \<in> set (ids :: u64 list)"
  by (metis length_sort nth_mem set_sort)

lemma open_at:
  assumes inv: "wal_inv s ids recs" and c: "cursor_at ids recs c rest"
  shows "\<exists>c'. cursor_open no_fail s c = (c', None) \<and> cursor_at ids recs c' rest \<and> wc_reader c' \<noteq> None
    \<and> wc_afterLSN c' = wc_afterLSN c \<and> wc_segIdx c' = wc_segIdx c"
proof (cases "wc_reader c")
  case (Some r)
  then show ?thesis using c by (simp add: cursor_open_def)
next
  case None
  let ?k = "wc_segIdx c"
  have k: "?k < length ids" using c by (simp add: cursor_at_def)
  have l: "ListSegmentsInDir no_fail (walDir s) = Inr (map (\<lambda>i. (i, SegmentName i)) (sort ids))"
    using list_segments inv by (auto simp: wal_inv_def)
  have o: "OpenSegmentReader no_fail s (sort ids ! ?k) = Inr \<lparr>fr_path = SegmentName (sort ids ! ?k), fr_off = 0\<rparr>"
    using inv nth_sort_mem [OF k] by (auto simp: OpenSegmentReader_def wal_inv_def)
  have "drop ?k (sort ids) = sort ids ! ?k # drop (Suc ?k) (sort ids)" using k by (simp add: Cons_nth_drop_Suc)
  then show ?thesis using None c k l o by (auto simp: cursor_open_def cursor_at_def Let_def)
qed

lemma read_at:
  assumes inv: "wal_inv s ids recs" and c: "cursor_at ids recs c rest" and r: "wc_reader c = Some r"
  shows "case cursor_read (file_content (walDir s)) r of
      None \<Rightarrow> rest = concat (map recs (drop (Suc (wc_segIdx c)) (sort ids)))
    | Some (x, r') \<Rightarrow> \<exists>rest'. rest = x # rest' \<and> x \<in> set (recs (sort ids ! wc_segIdx c)) \<and> cursor_at ids recs (c\<lparr>wc_reader := Some r'\<rparr>) rest'"
proof -
  let ?i = "sort ids ! wc_segIdx c"
  obtain past left where pl: "recs ?i = past @ left" "fr_off r = length (recs_bytes past)" "fr_path r = SegmentName ?i"
    "rest = left @ concat (map recs (drop (Suc (wc_segIdx c)) (sort ids)))" using c r by (auto simp: cursor_at_def)
  have i: "?i \<in> set ids" using c nth_sort_mem by (simp add: cursor_at_def)
  have ok: "\<forall>x\<in>set left. rec_ok x" and "file_content (walDir s) (SegmentName ?i) = recs_bytes past @ recs_bytes left"
    using inv i pl(1) by (auto simp: wal_inv_def file_content_def)
  then have d: "drop (fr_off r) (file_content (walDir s) (fr_path r)) = recs_bytes left" using pl by simp
  show ?thesis
  proof (cases left)
    case Nil
    then show ?thesis using d pl(4) by (simp add: cursor_read_def fileSegmentReader_Next_def)
  next
    case (Cons x xs)
    have n: "fileSegmentReader_Next (recs_bytes left) = Inr (x, recs_bytes xs)" using Next_bytes ok Cons by simp
    have "recs ?i = (past @ [x]) @ xs" using pl(1) Cons by simp
    then have "cursor_at ids recs (c\<lparr>wc_reader := Some (r\<lparr>fr_off := length (recs_bytes (past @ [x]))\<rparr>)\<rparr>)
        (xs @ concat (map recs (drop (Suc (wc_segIdx c)) (sort ids))))"
      using c r pl unfolding cursor_at_def by (auto simp del: append_assoc)
    then show ?thesis using n d Cons pl by (simp add: cursor_read_def Let_def)
  qed
qed

text \<open>The last segment is the active one; the records of the others are durable.\<close>

lemma active_index:
  assumes inv: "wal_inv s ids recs" and k: "k < length ids"
  shows "sort ids ! k = segmentID s \<longleftrightarrow> Suc k = length ids"
    and "sort ids ! k \<noteq> segmentID s \<Longrightarrow> x \<in> set (recs (sort ids ! k)) \<Longrightarrow> r_LSN x \<le> durableLSN s"
proof -
  have d: "distinct ids" "segmentID s \<in> set ids" "\<forall>i\<in>set ids. i \<le> segmentID s" using inv by (auto simp: wal_inv_def dir_ids_def)
  obtain pre where pre: "sort ids = pre @ [segmentID s]" "segmentID s \<notin> set pre" using sort_active [OF d] by blast
  have len: "length ids = Suc (length pre)" using arg_cong [OF pre(1), of length] by simp
  then have "pre ! k \<noteq> segmentID s" if "k < length pre" using that pre(2) nth_mem by metis
  then show "sort ids ! k = segmentID s \<longleftrightarrow> Suc k = length ids" unfolding pre(1) using k pre(2) len
    by (auto simp: nth_append less_Suc_eq)
  show "r_LSN x \<le> durableLSN s" if "sort ids ! k \<noteq> segmentID s" "x \<in> set (recs (sort ids ! k))"
    using inv that nth_sort_mem [OF k] by (auto simp: wal_inv_def)
qed

text \<open>A cursor that has read everything stands before the active segment again.\<close>

definition caught_up :: "AppendFileStorage \<Rightarrow> u64 list \<Rightarrow> (u64 \<Rightarrow> Record list) \<Rightarrow> WALCursor \<Rightarrow> Record list \<Rightarrow> WALCursor \<Rightarrow> bool" where
  "caught_up s ids recs c rest c' \<longleftrightarrow>
     ((\<forall>r\<in>set rest. r_LSN r \<le> durableLSN s) \<longrightarrow> cursor_at ids recs c' (recs (segmentID s)) \<and> wc_afterLSN c' = wc_afterLSN c)"

lemma caught_up_mono: "set rest' \<subseteq> set rest \<Longrightarrow> wc_afterLSN c1 = wc_afterLSN c \<Longrightarrow> caught_up s ids recs c1 rest' c' \<Longrightarrow> caught_up s ids recs c rest c'"
  unfolding caught_up_def by auto

lemma Next_at:
  assumes inv: "wal_inv s ids recs" and "cursor_at ids recs c rest" and "increasing rest"
  shows "case due (wc_afterLSN c) (durableLSN s) rest of
      [] \<Rightarrow> \<exists>c'. WALCursor_Next no_fail (file_content (walDir s)) s c = (c', Inl EOF) \<and> caught_up s ids recs c rest c'
    | x # xs \<Rightarrow> \<exists>c' rest'. WALCursor_Next no_fail (file_content (walDir s)) s c = (c', Inr (recordToEntry x))
        \<and> cursor_at ids recs c' rest' \<and> increasing rest' \<and> due (wc_afterLSN c) (durableLSN s) rest' = xs
        \<and> wc_afterLSN c' = wc_afterLSN c \<and> set rest' \<subseteq> set rest"
  using assms(2,3)
proof (induction "length rest + (length ids - wc_segIdx c)" arbitrary: c rest rule: less_induct)
  case less
  let ?N = "WALCursor_Next no_fail (file_content (walDir s)) s"
  have pk: "wc_peeked c = None" and k: "wc_segIdx c < length ids" using less.prems(1) by (auto simp: cursor_at_def)
  obtain c1 r where o: "cursor_open no_fail s c = (c1, None)" and c1: "cursor_at ids recs c1 rest" "wc_reader c1 = Some r"
    "wc_afterLSN c1 = wc_afterLSN c" "wc_segIdx c1 = wc_segIdx c" using open_at [OF inv less.prems(1)] by blast
  have "wc_segments c1 = map (\<lambda>i. (i, SegmentName i)) (sort ids)" using c1(1,2) by (simp add: cursor_at_def)
  then have act: "fst (wc_segments c1 ! wc_segIdx c1) = segmentID s \<longleftrightarrow> Suc (wc_segIdx c) = length ids"
    using active_index(1) [OF inv k] k c1(4) by simp
  note rd = read_at [OF inv c1(1,2), unfolded c1(4)]
  note unf = WALCursor_Next.simps [of no_fail "file_content (walDir s)" s c]
  show ?case
  proof (cases "cursor_read (file_content (walDir s)) r")
    case None
    note rest = rd [unfolded None, simplified]
    show ?thesis
    proof (cases "Suc (wc_segIdx c) = length ids")
      case True
      then have N: "?N c = (c1\<lparr>wc_reader := None\<rparr>, Inl EOF)" using unf pk o c1 None act by simp
      have "drop (wc_segIdx c) (sort ids) = [segmentID s]"
        using active_index(1) [OF inv k] True k by (simp add: Cons_nth_drop_Suc [symmetric])
      then have "caught_up s ids recs c rest (c1\<lparr>wc_reader := None\<rparr>)" using c1 by (simp add: caught_up_def cursor_at_def)
      then show ?thesis using True rest N by simp
    next
      case False
      let ?c = "c1\<lparr>wc_reader := None, wc_segIdx := Suc (wc_segIdx c)\<rparr>"
      have eq: "?N c = ?N ?c" "wc_afterLSN ?c = wc_afterLSN c" using unf pk o c1 None act False by simp_all
      have at: "cursor_at ids recs ?c rest" using c1(1) rest k False by (simp add: cursor_at_def)
      have "length rest + (length ids - wc_segIdx ?c) < length rest + (length ids - wc_segIdx c)" using k by simp
      from less.hyps [OF this at less.prems(2), unfolded eq(2)] show ?thesis unfolding eq(1)
        using caught_up_mono [OF order_refl eq(2)] by (auto split: list.splits)
    qed
  next
    case (Some xr)
    obtain x r' where xr: "xr = (x, r')" by (cases xr)
    then obtain rest' where r': "rest = x # rest'" "x \<in> set (recs (sort ids ! wc_segIdx c))"
      "cursor_at ids recs (c1\<lparr>wc_reader := Some r'\<rparr>) rest'" using rd Some by auto
    let ?c = "c1\<lparr>wc_reader := Some r'\<rparr>"
    have inc: "increasing rest'" "\<forall>y\<in>set rest'. r_LSN x < r_LSN y" using less.prems(2) r'(1) by auto
    have lsn: "e_LSN (recordToEntry x) = r_LSN x" by (simp add: recordToEntry_def)
    show ?thesis
    proof (cases "r_LSN x \<le> wc_afterLSN c")
      case True
      then have eq: "?N c = ?N ?c" "wc_afterLSN ?c = wc_afterLSN c" "due (wc_afterLSN c) (durableLSN s) rest = due (wc_afterLSN c) (durableLSN s) rest'"
        using unf pk o c1 Some xr lsn r'(1) by (simp_all add: leD)
      have "length rest' + (length ids - wc_segIdx ?c) < length rest + (length ids - wc_segIdx c)" using r'(1) c1(4) by simp
      from less.hyps [OF this r'(3) inc(1), unfolded eq(2)] show ?thesis unfolding eq(1,3)
        using caught_up_mono [of rest' rest ?c c, OF _ eq(2)] r'(1) by (fastforce split: list.splits)
    next
      case after: False
      show ?thesis
      proof (cases "r_LSN x \<le> durableLSN s")
        case True
        then have "?N c = (?c, Inr (recordToEntry x))" using unf pk o c1 Some xr lsn after by (simp add: Let_def leD)
        then show ?thesis using r' inc True after c1(3) by auto
      next
        case False
        then have "Suc (wc_segIdx c) = length ids" using active_index [OF inv k] r'(2) by blast
        then have "?N c = (?c\<lparr>wc_peeked := Some (recordToEntry x)\<rparr>, Inl EOF)"
          using unf pk o c1 Some xr lsn after False act by (simp add: Let_def not_le)
        moreover have "due (wc_afterLSN c) (durableLSN s) rest = []" using r'(1) inc(2) False by (auto simp: filter_empty_conv)
        moreover have "caught_up s ids recs c rest (?c\<lparr>wc_peeked := Some (recordToEntry x)\<rparr>)"
          using False r'(1) by (simp add: caught_up_def)
        ultimately show ?thesis by simp
      qed
    qed
  qed
qed

text \<open>\<open>n\<close> calls of \<open>Next\<close> on a log that does not change meanwhile.\<close>

fun cursor_calls :: "AppendFileStorage \<Rightarrow> nat \<Rightarrow> WALCursor \<Rightarrow> (wal_error + Entry) list" where
  "cursor_calls s 0 c = []"
| "cursor_calls s (Suc n) c =
     (case WALCursor_Next no_fail (file_content (walDir s)) s c of (c, res) \<Rightarrow> res # cursor_calls s n c)"

lemma calls_at:
  assumes "wal_inv s ids recs" and "cursor_at ids recs c rest" and "increasing rest"
    and "due (wc_afterLSN c) (durableLSN s) rest = xs"
  shows "\<exists>c'. (\<forall>n. cursor_calls s (Suc (length xs) + n) c = map (Inr \<circ> recordToEntry) xs @ Inl EOF # cursor_calls s n c')
    \<and> caught_up s ids recs c rest c'"
  using assms(2-4)
proof (induction xs arbitrary: c rest)
  case Nil
  then show ?case using Next_at [OF assms(1) Nil.prems(1,2)] by auto
next
  case (Cons x xs)
  obtain c1 rest' where n: "WALCursor_Next no_fail (file_content (walDir s)) s c = (c1, Inr (recordToEntry x))"
    "cursor_at ids recs c1 rest'" "increasing rest'" "due (wc_afterLSN c) (durableLSN s) rest' = xs" "wc_afterLSN c1 = wc_afterLSN c"
    "set rest' \<subseteq> set rest"
    using Next_at [OF assms(1) Cons.prems(1,2)] unfolding Cons.prems(3) by auto
  then show ?case using Cons.IH [OF n(2,3)] caught_up_mono [OF n(6,5)] by fastforce
qed

text \<open>
  \<open>Next\<close> closes the reader at the end of the active segment and does not move \<open>afterLSN\<close>: the calls behind
  \<open>io.EOF\<close> deliver the entries of the active segment again.
\<close>

lemma cursor_redelivers:
  assumes inv: "wal_inv s ids recs" and c: "cursor_at ids recs c rest" "increasing rest" "increasing (recs (segmentID s))"
    and durable: "\<forall>r\<in>set rest. r_LSN r \<le> durableLSN s"
    and xs: "due (wc_afterLSN c) (durableLSN s) rest = xs" and ys: "due (wc_afterLSN c) (durableLSN s) (recs (segmentID s)) = ys"
  shows "cursor_calls s (Suc (length xs) + Suc (length ys)) c
    = map (Inr \<circ> recordToEntry) xs @ Inl EOF # map (Inr \<circ> recordToEntry) ys @ [Inl EOF]"
proof -
  obtain c1 where c1: "\<And>n. cursor_calls s (Suc (length xs) + n) c = map (Inr \<circ> recordToEntry) xs @ Inl EOF # cursor_calls s n c1"
    "cursor_at ids recs c1 (recs (segmentID s))" "wc_afterLSN c1 = wc_afterLSN c"
    using calls_at [OF inv c(1,2) xs] durable by (auto simp: caught_up_def)
  obtain c2 where "\<And>n. cursor_calls s (Suc (length ys) + n) c1 = map (Inr \<circ> recordToEntry) ys @ Inl EOF # cursor_calls s n c2"
    using calls_at [OF inv c1(2) c(3)] ys unfolding c1(3) by blast
  from this [of 0] show ?thesis using c1(1) [of "Suc (length ys)"] by simp
qed

section \<open>Where a cursor starts\<close>

lemma increasing_last:
  assumes "increasing rs" and "r \<in> set rs"
  shows "r_LSN r \<le> r_LSN (last rs)"
proof -
  have "rs = butlast rs @ [last rs]" using assms(2) by (metis append_butlast_last_id empty_iff empty_set)
  then have "r = last rs \<or> r_LSN r < r_LSN (last rs)"
    using assms sorted_wrt_append [of "\<lambda>r q. r_LSN r < r_LSN q" "butlast rs" "[last rs]"]
    by (metis Un_iff empty_iff empty_set list.set_intros(1) set_ConsD set_append)
  then show ?thesis by auto
qed

lemma increasing_concat: "increasing (concat rss) \<Longrightarrow> rs \<in> set rss \<Longrightarrow> increasing rs"
  by (induction rss) (auto simp: sorted_wrt_append)

lemma segmentMaxLSN_at:
  assumes inv: "wal_inv s ids recs" and i: "i \<in> set ids" and inc: "increasing (log_of ids recs)"
  shows "\<exists>m. segmentMaxLSN no_fail s i = Inr m \<and> (\<forall>r\<in>set (recs i). r_LSN r \<le> m)"
proof -
  have f: "map_of (walDir s) (SegmentName i) = Some (recs_bytes (recs i))" "\<forall>r\<in>set (recs i). rec_ok r"
    using inv i by (auto simp: wal_inv_def)
  have fold: "fold (\<lambda>rec m. r_LSN rec) rs m = (if rs = [] then m else r_LSN (last rs))" for rs m
    by (induction rs arbitrary: m) auto
  have "increasing (recs i)" using inc i increasing_concat [of "map recs (sort ids)" "recs i"] by (simp add: log_of_def)
  then have "\<forall>r\<in>set (recs i). r_LSN r \<le> (if recs i = [] then 0 else r_LSN (last (recs i)))"
    using increasing_last by auto
  moreover have "segmentMaxLSN no_fail s i = Inr (if recs i = [] then 0 else r_LSN (last (recs i)))"
    using f(1) read_segment_recs [OF f(2)] by (simp add: segmentMaxLSN_def OpenSegmentReader_def file_content_def fold)
  ultimately show ?thesis by blast
qed

lemma CursorFrom_loop_at:
  assumes inv: "wal_inv s ids recs" and inc: "increasing (log_of ids recs)"
    and "set js \<subseteq> set ids" and "segmentID s \<in> set js"
  shows "\<exists>k. CursorFrom_loop no_fail s afterLSN i i (map (\<lambda>i. (i, SegmentName i)) js) = Inr (i + k) \<and> k < length js
    \<and> (\<forall>j\<in>set (take k js). \<forall>r\<in>set (recs j). r_LSN r \<le> afterLSN)"
  using assms(3,4)
proof (induction js arbitrary: i)
  case (Cons j js)
  show ?case
  proof (cases "j = segmentID s")
    case True
    then show ?thesis by (intro exI [of _ 0]) simp
  next
    case False
    obtain m where m: "segmentMaxLSN no_fail s j = Inr m" "\<forall>r\<in>set (recs j). r_LSN r \<le> m"
      using segmentMaxLSN_at [OF inv _ inc, of j] Cons.prems(1) by auto
    show ?thesis
    proof (cases "m \<le> afterLSN")
      case True
      obtain k where "CursorFrom_loop no_fail s afterLSN (i + 1) (i + 1) (map (\<lambda>i. (i, SegmentName i)) js) = Inr (i + 1 + k)"
        "k < length js" "\<forall>j\<in>set (take k js). \<forall>r\<in>set (recs j). r_LSN r \<le> afterLSN"
        using Cons.IH [of "i + 1"] Cons.prems False by auto
      then show ?thesis using True False m by (intro exI [of _ "Suc k"]) (auto intro: order_trans)
    next
      case no: False
      then show ?thesis using False m by (intro exI [of _ 0]) simp
    qed
  qed
qed simp

lemma CursorFrom_at:
  assumes inv: "wal_inv (wal_store w) ids recs" and inc: "increasing (log_of ids recs)"
  shows "\<exists>c rest. CursorFrom no_fail ch w afterLSN = (WAL_Subscribe ch w, Inr c) \<and> cursor_at ids recs c rest
    \<and> increasing rest \<and> wc_afterLSN c = afterLSN
    \<and> due afterLSN d rest = due afterLSN d (log_of ids recs)"
proof -
  let ?s = "wal_store w"
  have l: "ListSegmentsInDir no_fail (walDir ?s) = Inr (map (\<lambda>i. (i, SegmentName i)) (sort ids))"
    using list_segments inv by (auto simp: wal_inv_def)
  obtain k where k: "CursorFrom_loop no_fail ?s afterLSN 0 0 (map (\<lambda>i. (i, SegmentName i)) (sort ids)) = Inr (0 + k)"
    "k < length ids" "\<forall>j\<in>set (take k (sort ids)). \<forall>r\<in>set (recs j). r_LSN r \<le> afterLSN"
    using CursorFrom_loop_at [OF inv inc, of "sort ids" afterLSN 0] inv by (auto simp: wal_inv_def)
  let ?skip = "concat (map recs (take k (sort ids)))" and ?rest = "concat (map recs (drop k (sort ids)))"
  have log: "log_of ids recs = ?skip @ ?rest"
    unfolding log_of_def by (metis append_take_drop_id concat_append map_append)
  have "due afterLSN d ?skip = []" using k(3) by (fastforce simp: filter_empty_conv)
  then have "due afterLSN d ?rest = due afterLSN d (log_of ids recs)" unfolding log by simp
  moreover have "increasing ?rest" using inc unfolding log by (simp add: sorted_wrt_append)
  ultimately show ?thesis using l k(1,2) by (auto simp: CursorFrom_def cursor_at_def)
qed

section \<open>Logs of operations\<close>

lemma op_records_ge:
  "unat lsn + length ops \<le> 2 ^ 64 \<Longrightarrow> r \<in> set (op_records lsn ops) \<Longrightarrow> unat lsn \<le> unat (r_LSN r)"
proof (induction ops arbitrary: lsn)
  case (Cons op1 ops)
  show ?case
  proof (cases "r = op_record lsn op1")
    case True
    then show ?thesis by (cases op1) simp_all
  next
    case False
    then have r: "r \<in> set (op_records (lsn + 1) ops)" using Cons.prems by simp
    then have "ops \<noteq> []" by auto
    then have "lsn \<noteq> -1" using Cons.prems(1) by (cases ops) (auto simp: unsigned_minus_1_eq_mask mask_eq_exp_minus_1)
    then show ?thesis using Cons.IH [OF _ r] Cons.prems(1) by (simp add: unat_u64_inc)
  qed
qed simp

lemma lsn_step: "unat (lsn :: u64) + length (op1 # ops) \<le> 2 ^ 64 \<Longrightarrow> ops = [] \<or> unat (lsn + 1) = unat lsn + 1"
  by (cases "lsn = -1") (auto simp: unat_u64_inc unsigned_minus_1_eq_mask mask_eq_exp_minus_1 Suc_le_eq)

lemma r_LSN_op_record [simp]: "r_LSN (op_record lsn op1) = lsn"
  by (cases op1) simp_all

lemma op_records_increasing: "unat lsn + length ops \<le> 2 ^ 64 \<Longrightarrow> increasing (op_records lsn ops)"
proof (induction ops arbitrary: lsn)
  case (Cons op1 ops)
  then show ?case using lsn_step [OF Cons.prems] op_records_ge [of "lsn + 1" ops]
    by (cases "ops = []") (fastforce simp: word_less_nat_alt)+
qed simp

lemma due_op_records:
  "unat lsn + length ops \<le> 2 ^ 64 \<Longrightarrow>
    due a d (op_records lsn ops) = drop (unat a + 1 - unat lsn) (take (unat d + 1 - unat lsn) (op_records lsn ops))"
proof (induction ops arbitrary: lsn)
  case (Cons op1 ops)
  show ?case
  proof (cases "ops = []")
    case True
    then show ?thesis by (auto simp: word_less_nat_alt word_le_nat_alt take_Cons' drop_Cons')
  next
    case False
    then have n: "unat (lsn + 1) = unat lsn + 1" using lsn_step [OF Cons.prems] by simp
    then have "due a d (op_records (lsn + 1) ops) = drop (unat a - unat lsn) (take (unat d - unat lsn) (op_records (lsn + 1) ops))"
      using Cons.IH [of "lsn + 1"] Cons.prems by simp
    then show ?thesis by (auto simp: word_less_nat_alt word_le_nat_alt take_Cons' drop_Cons' Suc_diff_le)
  qed
qed simp

text \<open>
  C37: A cursor delivers exactly the durable entries behind its start. After \<open>ops1\<close>, a sync and \<open>ops2\<close>, across
  segment rotations, a cursor opened after LSN \<open>a\<close> returns the entries \<open>a + 1, a + 2, \<dots>\<close> up to the durable LSN,
  in order and with nothing in between, then \<open>io.EOF\<close>; the durable LSN covers at least \<open>ops1\<close>.
\<close>

theorem cursor_delivers_durable:
  assumes "NewAppendStorageInDir no_fail [] segSize bufSize = (s0, None)"
    and "\<forall>op1\<in>set (ops1 @ ops2). op_size op1 < 2 ^ 32 - 25" and "length (ops1 @ ops2) + 1 < max_segments"
    and "WAL_append_all s0 ops1 = (s1, lsns1)" and "Storage_Sync no_fail s1 = (s2, None)"
    and "WAL_append_all s2 ops2 = (s3, lsns2)" and "wal_store w = s3"
  shows "length ops1 \<le> unat (durableLSN s3) \<and> unat (durableLSN s3) \<le> length (ops1 @ ops2)
    \<and> (\<exists>c. CursorFrom no_fail ch w a = (WAL_Subscribe ch w, Inr c)
        \<and> cursor_calls s3 (Suc (unat (durableLSN s3) - unat a)) c
            = map Inr (drop (unat a) (take (unat (durableLSN s3)) (op_entries 1 (ops1 @ ops2)))) @ [Inl EOF])"
proof -
  let ?ops = "ops1 @ ops2" and ?d = "durableLSN s3"
  obtain ids recs where inv: "wal_inv s3 ids recs" and log: "log_of ids recs = op_records 1 ?ops"
    and d: "length ops1 \<le> unat ?d" "unat ?d \<le> length ?ops"
    using synced_run [OF assms(1-6)] by blast
  have len: "unat (1 :: u64) + length ?ops \<le> 2 ^ 64" using assms(3) by simp
  note inc = op_records_increasing [OF len] and due = due_op_records [OF len, of a ?d]
  obtain c rest where c: "CursorFrom no_fail ch w a = (WAL_Subscribe ch w, Inr c)" "cursor_at ids recs c rest" "increasing rest"
    "wc_afterLSN c = a" "due a ?d rest = drop (unat a) (take (unat ?d) (op_records 1 ?ops))"
    using CursorFrom_at [of w ids recs ch a ?d] inv inc due unfolding log assms(7) by auto
  have l: "length (drop (unat a) (take (unat ?d) (op_records 1 ?ops))) = unat ?d - unat a" using d by simp
  have "map (Inr \<circ> recordToEntry) (drop (unat a) (take (unat ?d) (op_records 1 ?ops)))
      = map Inr (drop (unat a) (take (unat ?d) (op_entries 1 ?ops)))"
    by (simp add: drop_map [symmetric] take_map [symmetric] map_op_records [symmetric])
  moreover obtain c' where "\<And>n. cursor_calls s3 (Suc (unat ?d - unat a) + n) c
      = map (Inr \<circ> recordToEntry) (drop (unat a) (take (unat ?d) (op_records 1 ?ops))) @ Inl EOF # cursor_calls s3 n c'"
    using calls_at [OF inv c(2,3), unfolded c(4), OF c(5), unfolded l] by blast
  note this [of 0]
  ultimately show ?thesis using d c(1) by auto
qed

theorem cursor_delivers_durable_witness:
  "\<exists>s0 s1 s2 s3 c. NewAppendStorageInDir no_fail [] 30 8 = (s0, None)
     \<and> WAL_append_all s0 [WPut ''a'' ''1'', WPut ''b'' ''2''] = (s1, Some [1, 2]) \<and> Storage_Sync no_fail s1 = (s2, None)
     \<and> WAL_append_all s2 [] = (s3, Some []) \<and> durableLSN s3 = 2
     \<and> snd (CursorFrom no_fail 0 (NewWALWithStorage s3 ''group'') 1) = Inr c
     \<and> cursor_calls s3 2 c = [Inr \<lparr>e_LSN = 2, e_Op = OpPut, e_Key = ''b'', e_Value = ''2''\<rparr>, Inl EOF]"
proof -
  let ?a = "[WPut ''a'' ''1'', WPut ''b'' ''2'']"
  obtain s0 where s0: "NewAppendStorageInDir no_fail [] 30 8 = (s0, None)" using fresh_exists by blast
  note f = fresh_inv [OF s0]
  obtain s1 ids1 recs1 where s1: "WAL_append_all s0 ?a = (s1, Some [1, 2])" "wal_inv s1 ids1 recs1" "unat (appendedLSN s1) = 2"
    using append_all_inv [OF f(1), of ?a] f(2-4) by auto
  obtain s2 where s2: "Storage_Sync no_fail s1 = (s2, None)" "durableLSN s2 = appendedLSN s1" using Sync_inv [OF s1(2)] by blast
  have s3: "WAL_append_all s2 [] = (s2, Some [])" by simp
  have d: "unat (durableLSN s2) = 2" using s1(3) s2(2) by simp
  then have d': "durableLSN s2 = 2" using word_unat_eq_iff [of "durableLSN s2" 2] by simp
  obtain c where "snd (CursorFrom no_fail 0 (NewWALWithStorage s2 ''group'') 1) = Inr c"
    "cursor_calls s2 (Suc (2 - 1)) c = map Inr (drop 1 (take 2 (op_entries 1 (?a @ [])))) @ [Inl EOF]"
    using cursor_delivers_durable [OF s0 _ _ s1(1) s2(1) s3, of "NewWALWithStorage s2 ''group''" 0 1] d
    by (auto simp: NewWALWithStorage_def)
  then show ?thesis using s0 s1(1) s2(1) s3 d' by (intro exI [of _ s0] exI [of _ s1] exI [of _ s2] exI [of _ c]) (simp add: numeral_2_eq_2)
qed

end
