(* ===== verification/Compacter.thy ===== *)
theory Compacter
  imports TableRead
begin

text \<open>
  Compaction: \<open>src/service/ss_compacter/ss_compacter_st.go\<close>. A batch of tables is read, merged through the binary heap of
  \<open>container/heap\<close>, and written to a table of the next level; the caller installs the results and deletes the inputs.
\<close>

section \<open>The heap\<close>

record heapEntry =
  he_key :: string
  he_value :: string
  he_streamIdx :: nat

type_synonym mergeHeap = "heapEntry list"

definition mergeHeap_Less :: "mergeHeap \<Rightarrow> nat \<Rightarrow> nat \<Rightarrow> bool" where
  "mergeHeap_Less h i j \<longleftrightarrow> he_key (h ! i) < he_key (h ! j)"

definition mergeHeap_Swap :: "mergeHeap \<Rightarrow> nat \<Rightarrow> nat \<Rightarrow> mergeHeap" where
  "mergeHeap_Swap h i j = h[i := h ! j, j := h ! i]"

text \<open>\<open>up\<close> and \<open>down\<close> of \<open>container/heap\<close>.\<close>

function heap_up :: "mergeHeap \<Rightarrow> nat \<Rightarrow> mergeHeap" where
  "heap_up h j =
     (let i = (j - 1) div 2
      in if i = j \<or> \<not> mergeHeap_Less h j i then h else heap_up (mergeHeap_Swap h i j) i)"
  by pat_completeness auto
termination
  by (relation "measure snd") auto

declare heap_up.simps [simp del]

function heap_down :: "mergeHeap \<Rightarrow> nat \<Rightarrow> nat \<Rightarrow> mergeHeap" where
  "heap_down h i n =
     (let j1 = 2 * i + 1
      in if j1 \<ge> n then h
         else (let j = (if j1 + 1 < n \<and> mergeHeap_Less h (j1 + 1) j1 then j1 + 1 else j1)
               in if \<not> mergeHeap_Less h j i then h else heap_down (mergeHeap_Swap h i j) j n))"
  by pat_completeness auto
termination
  by (relation "measure (\<lambda>(h, i, n). n - i)") (auto simp: Let_def split: if_splits)

declare heap_down.simps [simp del]

definition heap_Push :: "mergeHeap \<Rightarrow> heapEntry \<Rightarrow> mergeHeap" where
  "heap_Push h x = heap_up (h @ [x]) (length h)"

definition heap_Pop :: "mergeHeap \<Rightarrow> heapEntry \<times> mergeHeap" where
  "heap_Pop h =
     (let n = length h - 1;
          h = heap_down (mergeHeap_Swap h 0 n) 0 n
      in (last h, butlast h))"

section \<open>compactTables\<close>

text \<open>The heap with the first entry of each stream, and the next position of each.\<close>

fun seed_heap :: "KeyValue list list \<Rightarrow> nat \<Rightarrow> mergeHeap \<Rightarrow> nat list \<Rightarrow> mergeHeap \<times> nat list" where
  "seed_heap [] i h indices = (h, indices)"
| "seed_heap (stream # streams) i h indices =
     (if stream \<noteq> []
      then seed_heap streams (i + 1) (heap_Push h \<lparr>he_key = fst (stream ! 0), he_value = snd (stream ! 0), he_streamIdx = i\<rparr>) (indices @ [1])
      else seed_heap streams (i + 1) h (indices @ [0]))"

text \<open>
  The loop that pops the heap; it returns the entries written, in order. Each of them is added to the
  filters, to the Merkle tree and to the file as soon as it is popped, which nothing else in the loop depends on.
\<close>

definition merge_advance :: "KeyValue list list \<Rightarrow> nat list \<Rightarrow> mergeHeap \<Rightarrow> nat \<Rightarrow> mergeHeap \<times> nat list" where
  "merge_advance streams indices h si =
     (if indices ! si < length (streams ! si)
      then (let next = streams ! si ! (indices ! si)
            in (heap_Push h \<lparr>he_key = fst next, he_value = snd next, he_streamIdx = si\<rparr>, indices[si := indices ! si + 1]))
      else (h, indices))"

partial_function (option) merge_loop :: "bool \<Rightarrow> KeyValue list list \<Rightarrow> nat list \<Rightarrow> mergeHeap \<Rightarrow> string \<Rightarrow> KeyValue list \<Rightarrow> KeyValue list option" where
  "merge_loop dropTombstones streams indices h lastKey out =
     (if h = [] then Some out
      else (case heap_Pop h of
              (entry, h) \<Rightarrow>
                (case merge_advance streams indices h (he_streamIdx entry) of
                   (h, indices) \<Rightarrow>
                     if he_key entry = lastKey then merge_loop dropTombstones streams indices h lastKey out
                     else if dropTombstones \<and> he_value entry = Tombstone then merge_loop dropTombstones streams indices h (he_key entry) out
                     else merge_loop dropTombstones streams indices h (he_key entry) (out @ [(he_key entry, he_value entry)]))))"

declare merge_loop.simps [code]

definition merge_entries :: "bool \<Rightarrow> KeyValue list list \<Rightarrow> KeyValue list option" where
  "merge_entries dropTombstones streams =
     (case seed_heap streams 0 [] [] of (h, indices) \<Rightarrow> merge_loop dropTombstones streams indices h '''' [])"

text \<open>Reading the inputs: the streams, the number of entries and the largest LSN.\<close>

fun compact_read :: "sst_env \<Rightarrow> (string \<Rightarrow> u64) \<Rightarrow> disk \<Rightarrow> BlockManager \<Rightarrow> KeyValue list list \<Rightarrow> nat \<Rightarrow> u64 \<Rightarrow> string list
    \<Rightarrow> (BlockManager \<times> (sst_read_error + (KeyValue list list \<times> nat \<times> u64))) option" where
  "compact_read env xx disk bm streams totalItems maxLSN [] = Some (bm, Inr (streams, totalItems, maxLSN))"
| "compact_read env xx disk bm streams totalItems maxLSN (path # paths) =
     do { (bm, r) \<leftarrow> SSTable_Open (BlockManager_ReadAt xx disk) disk bm path;
          (case r of
             Inl err \<Rightarrow> Some (bm, Inl err)
           | Inr reader \<Rightarrow>
               do { let maxLSN = (if sr_maxLSN reader > maxLSN then sr_maxLSN reader else maxLSN);
                    (bm, r) \<leftarrow> SSTable_ScanAll env (BlockManager_ReadAt xx disk) bm reader;
                    (case r of
                       Inl err \<Rightarrow> Some (bm, Inl err)
                     | Inr stream \<Rightarrow>
                         compact_read env xx disk bm (streams @ [stream]) (totalItems + length stream) maxLSN paths) }) }"

datatype compact_error = CompactRead sst_read_error | CompactWrite sst_error

text \<open>What writing a table takes from outside: failing operations, two random numbers and a file name.\<close>

record flush_in =
  fi_fail :: "sst_op \<Rightarrow> bool"
  fi_ts1 :: "32 word"
  fi_ts2 :: "32 word"
  fi_uuid :: string

text \<open>\<open>os.Remove\<close> of the file of a writer.\<close>

definition fw_remove :: "FileWriter \<Rightarrow> FileWriter" where
  "fw_remove fw = fw\<lparr>fw_disk := AList.delete (fw_location fw) (fw_disk fw)\<rparr>"

text \<open>The sections behind the data; an error removes the file.\<close>

definition compact_sections :: "(sst_op \<Rightarrow> bool) \<Rightarrow> FileWriter \<Rightarrow> byte list \<Rightarrow> byte list \<Rightarrow> int \<Rightarrow> u64 \<Rightarrow> FileWriter \<times> compact_error option" where
  "compact_sections fail fw indexBytes filterBytes totalItems maxLSN =
     (case WriteRaw fail fw indexBytes of
        (fw, Inl err) \<Rightarrow> (fw_remove fw, Some (CompactWrite err))
      | (fw, Inr indexOffset) \<Rightarrow>
          (case WriteRaw fail fw filterBytes of
             (fw, Inl err) \<Rightarrow> (fw_remove fw, Some (CompactWrite err))
           | (fw, Inr filterOffset) \<Rightarrow>
               (case WriteRaw fail fw (SerializeFooter indexOffset (int (length indexBytes)) filterOffset
                       (int (length filterBytes)) totalItems maxLSN) of
                  (fw, Inl err) \<Rightarrow> (fw_remove fw, Some (CompactWrite err))
                | (fw, Inr _) \<Rightarrow> (fw, None))))"

definition compactTables :: "sst_env \<Rightarrow> (string \<Rightarrow> u64) \<Rightarrow> flush_in \<Rightarrow> string list \<Rightarrow> FileWriter \<Rightarrow> BlockManager \<Rightarrow> bool \<Rightarrow> u64
    \<Rightarrow> (FileWriter \<times> BlockManager \<times> compact_error option) option" where
  "compactTables env xx fi tables fw bm isLastLevel safeCompactionLSN =
     do { (bm, r) \<leftarrow> compact_read env xx (fw_disk fw) bm [] 0 0 tables;
          (case r of
             Inl err \<Rightarrow> Some (fw, bm, Some (CompactRead err))
           | Inr (streams, totalItems, batchMaxLSN) \<Rightarrow>
               do { let dropTombstones = (isLastLevel \<and> (safeCompactionLSN = 0 \<or> (batchMaxLSN > 0 \<and> batchMaxLSN \<le> safeCompactionLSN)));
                    bloom \<leftarrow> NewBloomFilterWithParams (se_params env) (fi_ts1 fi) (int totalItems);
                    prefixFilter \<leftarrow> NewPrefixBloomFilter (se_params env) (fi_ts2 fi);
                    out \<leftarrow> merge_entries dropTombstones streams;
                    bloom \<leftarrow> BloomFilter_AddMultiple (se_md5 env) bloom (map fst out);
                    prefixFilter \<leftarrow> PrefixBloomFilter_AddMultiple (se_md5 env) prefixFilter (map fst out);
                    let merkle = fold (\<lambda>kv mt. MerkleTree_AddLeaf (se_sha env) mt (snd kv)) out (InitializeMerkleTree (int totalItems));
                    let (fw, indexEntries) = SerializeDataBuildIndex (fi_fail fi) (se_BlockSize env) fw out;
                    let fw = fst (FileWriter_Write (fi_fail fi) fw [] True);
                    rootBytes \<leftarrow> MerkleTree_GetRootBytes (se_sha env) merkle;
                    let (fw, err) = compact_sections (fi_fail fi) fw (SerializeIndex indexEntries)
                          (SerializeFilterSection (BloomFilter_SerializeToByteArray bloom) (PrefixBloomFilter_SerializeToByteArray prefixFilter) rootBytes)
                          (int totalItems) batchMaxLSN;
                    Some (fw, bm, err) }) }"

section \<open>CheckCompactionConditions\<close>

record CompactionResult =
  cr_Level :: nat
  cr_NewPath :: string
  cr_OldPaths :: "string list"

text \<open>One batch of a level.\<close>

definition compact_batch :: "sst_env \<Rightarrow> (string \<Rightarrow> u64) \<Rightarrow> nat \<Rightarrow> flush_in \<Rightarrow> disk \<Rightarrow> BlockManager \<Rightarrow> string \<Rightarrow> nat \<Rightarrow> string list \<Rightarrow> u64
    \<Rightarrow> (disk \<times> BlockManager \<times> CompactionResult list) option" where
  "compact_batch env xx LSMLevels fi disk bm dataRoot level toCompact safeCompactionLSN =
     do { let fw = NewFileWriterInDir (se_BlockSize env)
                (''sstable/lvl'' @ FormatUint10 (level + 1) @ ''/sstable_'' @ fi_uuid fi @ ''.db.tmp'') dataRoot '''' disk;
          let isLastLevel = (level + 1 \<ge> LSMLevels);
          (fw, bm, err) \<leftarrow> compactTables env xx fi toCompact fw bm isLastLevel safeCompactionLSN;
          if err \<noteq> None then Some (fw_disk fw, bm, [])
          else (case FileWriter_Commit (fi_fail fi) fw of
                  (fw, Some _) \<Rightarrow> Some (fw_disk (fw_remove fw), bm, [])
                | (fw, None) \<Rightarrow> Some (fw_disk fw, bm, [\<lparr>cr_Level = level, cr_NewPath = fw_location fw, cr_OldPaths = toCompact\<rparr>])) }"

text \<open>The batches of a level, oldest files first; a threshold of zero never ends. \<open>n\<close> numbers the batches.\<close>

function compact_level :: "sst_env \<Rightarrow> (string \<Rightarrow> u64) \<Rightarrow> nat \<Rightarrow> nat \<Rightarrow> (nat \<Rightarrow> flush_in) \<Rightarrow> nat \<Rightarrow> disk \<Rightarrow> BlockManager \<Rightarrow> string \<Rightarrow> nat
    \<Rightarrow> string list \<Rightarrow> u64 \<Rightarrow> CompactionResult list \<Rightarrow> (disk \<times> BlockManager \<times> nat \<times> CompactionResult list) option" where
  "compact_level env xx LSMLevels threshold fis n disk bm dataRoot level sstFiles safe results =
     (if threshold = 0 then None
      else if length sstFiles \<ge> threshold
      then do { (disk, bm, res) \<leftarrow> compact_batch env xx LSMLevels (fis n) disk bm dataRoot level (take threshold sstFiles) safe;
                compact_level env xx LSMLevels threshold fis (n + 1) disk bm dataRoot level (drop threshold sstFiles) safe (results @ res) }
      else Some (disk, bm, n, results))"
  by pat_completeness auto
termination
  by (relation "measure (\<lambda>(env, xx, LSMLevels, threshold, fis, n, disk, bm, dataRoot, level, sstFiles, safe, results). length sstFiles)") auto

declare compact_level.simps [simp del]

fun compact_levels :: "sst_env \<Rightarrow> (string \<Rightarrow> u64) \<Rightarrow> nat \<Rightarrow> nat \<Rightarrow> (nat \<Rightarrow> flush_in) \<Rightarrow> nat \<Rightarrow> disk \<Rightarrow> BlockManager \<Rightarrow> string
    \<Rightarrow> (nat \<times> string list) list \<Rightarrow> u64 \<Rightarrow> CompactionResult list \<Rightarrow> (disk \<times> BlockManager \<times> CompactionResult list) option" where
  "compact_levels env xx LSMLevels threshold fis n disk bm dataRoot [] safe results = Some (disk, bm, results)"
| "compact_levels env xx LSMLevels threshold fis n disk bm dataRoot ((level, files) # levels) safe results =
     do { (disk, bm, n, results) \<leftarrow> compact_level env xx LSMLevels threshold fis n disk bm dataRoot level files safe results;
          compact_levels env xx LSMLevels threshold fis n disk bm dataRoot levels safe results }"

definition CheckCompactionConditions :: "sst_env \<Rightarrow> (string \<Rightarrow> u64) \<Rightarrow> nat \<Rightarrow> nat \<Rightarrow> (nat \<Rightarrow> flush_in) \<Rightarrow> disk \<Rightarrow> BlockManager \<Rightarrow> string
    \<Rightarrow> string list list \<Rightarrow> u64 \<Rightarrow> (disk \<times> BlockManager \<times> CompactionResult list) option" where
  "CheckCompactionConditions env xx LSMLevels threshold fis disk bm dataRoot vs safe =
     (if length vs < LSMLevels - 1 then None
      else compact_levels env xx LSMLevels threshold fis 0 disk bm dataRoot (take (LSMLevels - 1) (List.enumerate 0 vs)) safe [])"

section \<open>The heap orders its entries\<close>

abbreviation hkey :: "mergeHeap \<Rightarrow> nat \<Rightarrow> string" where
  "hkey h i \<equiv> he_key (h ! i)"

text \<open>The order holds at every edge of the tree among the first \<open>n\<close> entries.\<close>

definition heap_upto :: "nat \<Rightarrow> mergeHeap \<Rightarrow> bool" where
  "heap_upto n h \<longleftrightarrow> (\<forall>m<n. 0 < m \<longrightarrow> hkey h ((m - 1) div 2) \<le> hkey h m)"

abbreviation heap_ok :: "mergeHeap \<Rightarrow> bool" where
  "heap_ok h \<equiv> heap_upto (length h) h"

lemma parent_less: "0 < i \<Longrightarrow> (i - 1) div 2 < (i :: nat)"
  by simp

lemma heap_root_min:
  assumes "heap_upto n h" and "i < n"
  shows "hkey h 0 \<le> hkey h i"
  using assms(2)
proof (induction i rule: less_induct)
  case (less i)
  show ?case
  proof (cases "i = 0")
    case False
    then have "(i - 1) div 2 < i" by simp
    then have "hkey h 0 \<le> hkey h ((i - 1) div 2)" using less by simp
    also have "\<dots> \<le> hkey h i" using assms(1) less.prems False by (simp add: heap_upto_def)
    finally show ?thesis .
  qed simp
qed

lemma Swap_props:
  assumes "i < length h" and "j < length h"
  shows "length (mergeHeap_Swap h i j) = length h" and "mset (mergeHeap_Swap h i j) = mset h"
    and "m < length h \<Longrightarrow> mergeHeap_Swap h i j ! m = (if m = j then h ! i else if m = i then h ! j else h ! m)"
  using assms mset_swap [of j h i] by (simp_all add: mergeHeap_Swap_def nth_list_update)

text \<open>Sifting up: only the edge above \<open>j\<close> may be out of order.\<close>

lemma heap_up_ok:
  assumes "j < length h" and "\<forall>m<length h. 0 < m \<and> m \<noteq> j \<longrightarrow> hkey h ((m - 1) div 2) \<le> hkey h m"
    and "\<forall>m<length h. 0 < m \<and> (m - 1) div 2 = j \<and> 0 < j \<longrightarrow> hkey h ((j - 1) div 2) \<le> hkey h m"
  shows "heap_upto (length h) (heap_up h j) \<and> length (heap_up h j) = length h \<and> mset (heap_up h j) = mset h"
  using assms
proof (induction h j rule: heap_up.induct)
  case (1 h j)
  let ?i = "(j - 1) div 2" and ?h = "mergeHeap_Swap h ((j - 1) div 2) j"
  show ?case
  proof (cases "?i = j \<or> \<not> mergeHeap_Less h j ?i")
    case True
    then have "heap_up h j = h" by (subst heap_up.simps) (simp add: Let_def)
    moreover have "heap_ok h" unfolding heap_upto_def
    proof (intro allI impI)
      fix m
      assume m: "m < length h" "0 < m"
      show "hkey h ((m - 1) div 2) \<le> hkey h m" using True m 1(3) by (cases "m = j") (auto simp: mergeHeap_Less_def)
    qed
    ultimately show ?thesis by simp
  next
    case False
    then have ij: "?i < j" and lt: "hkey h j < hkey h ?i" by (auto simp: mergeHeap_Less_def)
    have il: "?i < length h" using ij 1(2) by simp
    note sw = Swap_props [OF il 1(2)]
    have inv1: "\<forall>m<length ?h. 0 < m \<and> m \<noteq> ?i \<longrightarrow> hkey ?h ((m - 1) div 2) \<le> hkey ?h m"
    proof (intro allI impI)
      fix m
      assume m: "m < length ?h" "0 < m \<and> m \<noteq> ?i"
      have ml: "m < length h" "(m - 1) div 2 < length h" using m sw(1) by auto
      consider "m = j" | "m \<noteq> j" "(m - 1) div 2 = j" | "m \<noteq> j" "(m - 1) div 2 = ?i" | "m \<noteq> j" "(m - 1) div 2 \<noteq> j" "(m - 1) div 2 \<noteq> ?i" by blast
      then show "hkey ?h ((m - 1) div 2) \<le> hkey ?h m"
      proof cases
        case 1
        then show ?thesis using lt ij sw(3) [OF ml(1)] sw(3) [OF ml(2)] by (auto simp: less_imp_le)
      next
        case 2
        then have "hkey h ?i \<le> hkey h m" using 1(4) ml ij m by auto
        then show ?thesis using 2 m sw(3) [OF ml(1)] sw(3) [OF ml(2)] by auto
      next
        case 3
        then have "hkey h ?i \<le> hkey h m" using 1(3) ml m by metis
        then show ?thesis using 3 m ij lt sw(3) [OF ml(1)] sw(3) [OF ml(2)] by auto
      next
        case 4
        then have "hkey h ((m - 1) div 2) \<le> hkey h m" using 1(3) ml m by blast
        then show ?thesis using 4 m sw(3) [OF ml(1)] sw(3) [OF ml(2)] by auto
      qed
    qed
    have inv2: "\<forall>m<length ?h. 0 < m \<and> (m - 1) div 2 = ?i \<and> 0 < ?i \<longrightarrow> hkey ?h ((?i - 1) div 2) \<le> hkey ?h m"
    proof (intro allI impI)
      fix m
      assume m: "m < length ?h" "0 < m \<and> (m - 1) div 2 = ?i \<and> 0 < ?i"
      have pi: "(?i - 1) div 2 < ?i" using m parent_less by blast
      then have ml: "m < length h" "(?i - 1) div 2 < length h" "(?i - 1) div 2 < ?i" using m sw(1) il by auto
      have up: "hkey h ((?i - 1) div 2) \<le> hkey h ?i" using 1(3) il ij m by auto
      show "hkey ?h ((?i - 1) div 2) \<le> hkey ?h m"
      proof (cases "m = j")
        case True
        then show ?thesis using up ml ij sw(3) [OF ml(1)] sw(3) [OF ml(2)] by auto
      next
        case False
        have "hkey h ?i \<le> hkey h m" using 1(3) ml m False by metis
        moreover have "m \<noteq> ?i" using m parent_less [of m] by auto
        ultimately show ?thesis using up ml ij False sw(3) [OF ml(1)] sw(3) [OF ml(2)] by auto
      qed
    qed
    have "heap_up h j = heap_up ?h ?i" using False by (subst heap_up.simps) (simp add: Let_def)
    then show ?thesis using 1(1) [OF refl False _ inv1 inv2] il sw(1,2) by simp
  qed
qed

text \<open>Sifting down among the first \<open>n\<close> entries: only the edges below \<open>i\<close> may be out of order.\<close>

lemma heap_down_ok:
  assumes "n \<le> length h" and "i < n" and "\<forall>m<n. 0 < m \<and> (m - 1) div 2 \<noteq> i \<longrightarrow> hkey h ((m - 1) div 2) \<le> hkey h m"
    and "\<forall>m<n. 0 < m \<and> (m - 1) div 2 = i \<and> 0 < i \<longrightarrow> hkey h ((i - 1) div 2) \<le> hkey h m"
  shows "heap_upto n (heap_down h i n) \<and> length (heap_down h i n) = length h \<and> mset (heap_down h i n) = mset h
    \<and> (\<forall>m. n \<le> m \<longrightarrow> heap_down h i n ! m = h ! m)"
  using assms
proof (induction h i n rule: heap_down.induct)
  case (1 h i n)
  have child: "m = 2 * i + 1 \<or> m = 2 * i + 2" if "0 < m" "(m - 1) div 2 = i" for m using that by presburger
  show ?case
  proof (cases "2 * i + 1 \<ge> n")
    case True
    then have "heap_down h i n = h" by (subst heap_down.simps) (simp add: Let_def)
    moreover have "(m - 1) div 2 \<noteq> i" if "0 < m" "m < n" for m using child [of m] that True by auto
    ultimately show ?thesis using 1(4) by (auto simp: heap_upto_def)
  next
    case j1: False
    define j where "j = (if 2 * i + 1 + 1 < n \<and> mergeHeap_Less h (2 * i + 1 + 1) (2 * i + 1) then 2 * i + 1 + 1 else 2 * i + 1)"
    have j: "j < n" "(j - 1) div 2 = i" "i < j" using j1 by (auto simp: j_def)
    have least: "hkey h j \<le> hkey h m" if "0 < m" "m < n" "(m - 1) div 2 = i" for m
      using child [of m] that j1 by (auto simp: j_def mergeHeap_Less_def)
    show ?thesis
    proof (cases "mergeHeap_Less h j i")
      case False
      then have "heap_down h i n = h" by (subst heap_down.simps) (simp only: Let_def j_def [symmetric] j1 if_False not_False_eq_True if_True)
      moreover have "heap_upto n h" unfolding heap_upto_def
      proof (intro allI impI)
        fix m
        assume m: "m < n" "0 < m"
        show "hkey h ((m - 1) div 2) \<le> hkey h m"
        proof (cases "(m - 1) div 2 = i")
          case True
          then show ?thesis using least [OF m(2,1) True] False by (auto simp: mergeHeap_Less_def)
        qed (use 1(4) m in blast)
      qed
      ultimately show ?thesis by simp
    next
      case True
      let ?h = "mergeHeap_Swap h i j"
      have lt: "hkey h j < hkey h i" using True by (simp add: mergeHeap_Less_def)
      have il: "i < length h" "j < length h" using j 1(2,3) by auto
      note sw = Swap_props [OF il]
      have inv1: "\<forall>m<n. 0 < m \<and> (m - 1) div 2 \<noteq> j \<longrightarrow> hkey ?h ((m - 1) div 2) \<le> hkey ?h m"
      proof (intro allI impI)
        fix m
        assume m: "m < n" "0 < m \<and> (m - 1) div 2 \<noteq> j"
        have ml: "m < length h" "(m - 1) div 2 < length h" using m 1(2) by auto
        consider "m = j" | "m \<noteq> j" "(m - 1) div 2 = i" | "m = i" "(m - 1) div 2 \<noteq> i" | "m \<noteq> j" "m \<noteq> i" "(m - 1) div 2 \<noteq> i" by blast
        then show "hkey ?h ((m - 1) div 2) \<le> hkey ?h m"
        proof cases
          case 1
          then show ?thesis using lt j sw(3) [OF ml(1)] sw(3) [OF ml(2)] by (auto simp: less_imp_le)
        next
          case 2
          have "m \<noteq> i" using 2(2) m parent_less by fastforce
          then show ?thesis using 2 m least [of m] sw(3) [OF ml(1)] sw(3) [OF ml(2)] j by auto
        next
          case 3
          have "0 < i" using 3 m by simp
          then have "hkey h ((i - 1) div 2) \<le> hkey h j" using 1(5) j by auto
          then show ?thesis using 3 m sw(3) [OF ml(1)] sw(3) [OF ml(2)] j by auto
        next
          case 4
          then have "hkey h ((m - 1) div 2) \<le> hkey h m" using 1(4) m by blast
          then show ?thesis using 4 m sw(3) [OF ml(1)] sw(3) [OF ml(2)] by auto
        qed
      qed
      have inv2: "\<forall>m<n. 0 < m \<and> (m - 1) div 2 = j \<and> 0 < j \<longrightarrow> hkey ?h ((j - 1) div 2) \<le> hkey ?h m"
      proof (intro allI impI)
        fix m
        assume m: "m < n" "0 < m \<and> (m - 1) div 2 = j \<and> 0 < j"
        then have ne: "(m - 1) div 2 \<noteq> i" "m \<noteq> j" "m \<noteq> i" using j parent_less [of m] by auto
        then have "hkey h j \<le> hkey h m" using 1(4) m by metis
        moreover have "m < length h" using m 1(2) by simp
        ultimately show "hkey ?h ((j - 1) div 2) \<le> hkey ?h m" using sw(3) [of m] sw(3) [OF il(1)] j ne by auto
      qed
      have "heap_down h i n = heap_down ?h j n"
        by (subst heap_down.simps) (simp only: Let_def j_def [symmetric] j1 True if_False not_True_eq_False)
      moreover have "heap_upto n (heap_down ?h j n) \<and> length (heap_down ?h j n) = length ?h \<and> mset (heap_down ?h j n) = mset ?h
          \<and> (\<forall>m. n \<le> m \<longrightarrow> heap_down ?h j n ! m = ?h ! m)"
        by (rule 1(1) [OF refl j1 j_def _ _ j(1) inv1 inv2]) (use True sw(1) 1(2) in auto)
      moreover have "?h ! m = h ! m" if "n \<le> m" for m using that j by (simp add: mergeHeap_Swap_def)
      ultimately show ?thesis using sw(1,2) by simp
    qed
  qed
qed

lemma heap_Push_ok:
  assumes "heap_ok h"
  shows "heap_ok (heap_Push h x) \<and> mset (heap_Push h x) = add_mset x (mset h) \<and> length (heap_Push h x) = Suc (length h)"
proof -
  have "heap_upto (length (h @ [x])) (heap_up (h @ [x]) (length h)) \<and> length (heap_up (h @ [x]) (length h)) = length (h @ [x])
      \<and> mset (heap_up (h @ [x]) (length h)) = mset (h @ [x])"
  proof (rule heap_up_ok)
    show "\<forall>m<length (h @ [x]). 0 < m \<and> m \<noteq> length h \<longrightarrow> hkey (h @ [x]) ((m - 1) div 2) \<le> hkey (h @ [x]) m"
      using assms by (auto simp: heap_upto_def nth_append)
  qed auto
  then show ?thesis by (simp add: heap_Push_def)
qed

lemma heap_Pop_ok:
  assumes ok: "heap_ok h" and ne: "h \<noteq> []"
  shows "\<exists>h'. heap_Pop h = (h ! 0, h') \<and> heap_ok h' \<and> add_mset (h ! 0) (mset h') = mset h"
proof -
  let ?n = "length h - 1"
  let ?s = "mergeHeap_Swap h 0 ?n"
  have l: "0 < length h" "?n < length h" using ne by auto
  note sw = Swap_props [OF l]
  have d: "heap_upto ?n (heap_down ?s 0 ?n) \<and> length (heap_down ?s 0 ?n) = length h \<and> mset (heap_down ?s 0 ?n) = mset h
      \<and> heap_down ?s 0 ?n ! ?n = h ! 0"
  proof (cases "?n = 0")
    case True
    have "heap_down ?s 0 0 = ?s" by (subst heap_down.simps) simp
    then have "heap_down ?s 0 ?n = ?s" by (simp only: True)
    then show ?thesis using sw(1,2) sw(3) [OF l(2)] True by (simp add: heap_upto_def)
  next
    case False
    have "heap_upto ?n (heap_down ?s 0 ?n) \<and> length (heap_down ?s 0 ?n) = length ?s \<and> mset (heap_down ?s 0 ?n) = mset ?s
        \<and> (\<forall>m. ?n \<le> m \<longrightarrow> heap_down ?s 0 ?n ! m = ?s ! m)"
    proof (rule heap_down_ok)
      show "\<forall>m<?n. 0 < m \<and> (m - 1) div 2 \<noteq> 0 \<longrightarrow> hkey ?s ((m - 1) div 2) \<le> hkey ?s m"
      proof (intro allI impI)
        fix m
        assume m: "m < ?n" "0 < m \<and> (m - 1) div 2 \<noteq> 0"
        have q: "(m - 1) div 2 < ?n" using m by simp
        have "hkey h ((m - 1) div 2) \<le> hkey h m" using ok m by (simp add: heap_upto_def)
        then show "hkey ?s ((m - 1) div 2) \<le> hkey ?s m" using sw(3) [of m] sw(3) [of "(m - 1) div 2"] m q by auto
      qed
    qed (use False sw(1) in auto)
    then show ?thesis using sw(1,2) sw(3) [OF l(2)] by simp
  qed
  let ?h = "heap_down ?s 0 ?n"
  have ne': "?h \<noteq> []" using d ne by auto
  have la: "last ?h = h ! 0" using d ne' by (simp add: last_conv_nth)
  have "heap_ok (butlast ?h)" using d by (auto simp: heap_upto_def nth_butlast)
  moreover have "mset ?h = add_mset (last ?h) (mset (butlast ?h))" using ne' by (metis append_butlast_last_id mset_append mset_single_iff_right union_mset_add_mset_right add.right_neutral mset.simps)
  ultimately show ?thesis using d la by (simp add: heap_Pop_def Let_def)
qed

section \<open>The merge\<close>

text \<open>
  Each stream that is not exhausted has exactly one entry in the heap, the one before its next position.
  What is still to be popped are those entries and what follows them.
\<close>

definition merge_inv :: "KeyValue list list \<Rightarrow> nat list \<Rightarrow> mergeHeap \<Rightarrow> bool" where
  "merge_inv streams indices h \<longleftrightarrow> length indices = length streams \<and> heap_ok h \<and> distinct (map he_streamIdx h)
     \<and> (\<forall>e\<in>set h. he_streamIdx e < length streams \<and> 0 < indices ! he_streamIdx e
          \<and> indices ! he_streamIdx e \<le> length (streams ! he_streamIdx e)
          \<and> (he_key e, he_value e) = streams ! he_streamIdx e ! (indices ! he_streamIdx e - 1))
     \<and> (\<forall>s<length streams. s \<notin> he_streamIdx ` set h \<longrightarrow> indices ! s = length (streams ! s))"

definition stream_rest :: "KeyValue list list \<Rightarrow> nat list \<Rightarrow> nat \<Rightarrow> KeyValue list" where
  "stream_rest streams indices s = drop (indices ! s - 1) (streams ! s)"

definition pending :: "KeyValue list list \<Rightarrow> nat list \<Rightarrow> mergeHeap \<Rightarrow> KeyValue set" where
  "pending streams indices h = (\<Union>e\<in>set h. set (stream_rest streams indices (he_streamIdx e)))"

definition merge_left :: "KeyValue list list \<Rightarrow> nat list \<Rightarrow> mergeHeap \<Rightarrow> nat" where
  "merge_left streams indices h = length h + (\<Sum>s<length streams. length (streams ! s) - indices ! s)"

lemma distinct_idx: "mset h = mset h' \<Longrightarrow> distinct (map he_streamIdx h') \<Longrightarrow> distinct (map he_streamIdx h)"
  by (metis mset_eq_imp_distinct_iff mset_map)

lemma stream_rest_head:
  assumes "merge_inv streams indices h" and "e \<in> set h"
  shows "stream_rest streams indices (he_streamIdx e) = (he_key e, he_value e) # drop (indices ! he_streamIdx e) (streams ! he_streamIdx e)"
proof -
  have "0 < indices ! he_streamIdx e" "indices ! he_streamIdx e \<le> length (streams ! he_streamIdx e)"
    "(he_key e, he_value e) = streams ! he_streamIdx e ! (indices ! he_streamIdx e - 1)" using assms by (auto simp: merge_inv_def)
  then show ?thesis by (simp add: stream_rest_def Cons_nth_drop_Suc [symmetric])
qed

lemma stream_rest_ge:
  assumes "merge_inv streams indices h" and "e \<in> set h" and "\<forall>s<length streams. keys_sorted (streams ! s)"
    and "kv \<in> set (stream_rest streams indices (he_streamIdx e))"
  shows "he_key e \<le> fst kv"
proof -
  let ?s = "he_streamIdx e"
  have "keys_sorted (stream_rest streams indices ?s)"
    using assms(1-3) by (auto simp: stream_rest_def merge_inv_def drop_map [symmetric] sorted_wrt_drop)
  then show ?thesis using assms(4) unfolding stream_rest_head [OF assms(1,2)] by (auto simp: less_imp_le)
qed

text \<open>One turn of the loop: the popped entry is a smallest one of what is pending, and the rest stays.\<close>

lemma merge_step:
  assumes inv: "merge_inv streams indices h" and so: "\<forall>s<length streams. keys_sorted (streams ! s)" and ne: "h \<noteq> []"
  shows "\<exists>e h1 h2 indices'. heap_Pop h = (e, h1) \<and> merge_advance streams indices h1 (he_streamIdx e) = (h2, indices')
    \<and> merge_inv streams indices' h2 \<and> pending streams indices h = insert (he_key e, he_value e) (pending streams indices' h2)
    \<and> (\<forall>kv\<in>pending streams indices h. he_key e \<le> fst kv) \<and> Suc (merge_left streams indices' h2) = merge_left streams indices h"
proof -
  have ok: "heap_ok h" and di: "distinct (map he_streamIdx h)" and li: "length indices = length streams" using inv by (auto simp: merge_inv_def)
  define e where "e = h ! 0"
  obtain h1 where h1: "heap_Pop h = (e, h1)" "heap_ok h1" "add_mset e (mset h1) = mset h"
    using heap_Pop_ok [OF ok ne] by (auto simp: e_def)
  have eh: "e \<in> set h" using ne by (simp add: e_def)
  have seth: "set h = insert e (set h1)" using h1(3) by (metis set_mset_add_mset_insert set_mset_mset)
  have "distinct (map he_streamIdx (e # h1))" by (rule distinct_idx [OF _ di]) (use h1(3) in simp)
  then have di1: "distinct (map he_streamIdx h1)" "he_streamIdx e \<notin> he_streamIdx ` set h1" by simp_all
  have len1: "length h = Suc (length h1)" using h1(3) by (metis size_add_mset size_mset)
  let ?s = "he_streamIdx e"
  have es: "?s < length streams" "0 < indices ! ?s" "indices ! ?s \<le> length (streams ! ?s)"
    "(he_key e, he_value e) = streams ! ?s ! (indices ! ?s - 1)" using inv eh by (auto simp: merge_inv_def)
  have least: "\<forall>kv\<in>pending streams indices h. he_key e \<le> fst kv"
  proof
    fix kv
    assume "kv \<in> pending streams indices h"
    then obtain e' where e': "e' \<in> set h" "kv \<in> set (stream_rest streams indices (he_streamIdx e'))" by (auto simp: pending_def)
    obtain i where "i < length h" "e' = h ! i" using e'(1) by (auto simp: in_set_conv_nth)
    then have "he_key e \<le> he_key e'" using heap_root_min [OF ok] by (simp add: e_def)
    also have "\<dots> \<le> fst kv" by (rule stream_rest_ge [OF inv e'(1) so e'(2)])
    finally show "he_key e \<le> fst kv" .
  qed
  have others: "stream_rest streams (indices[?s := x]) (he_streamIdx e') = stream_rest streams indices (he_streamIdx e')" if "e' \<in> set h1" for e' x
  proof -
    have "he_streamIdx e' \<noteq> ?s" using that di1(2) by (metis image_eqI)
    then show ?thesis by (simp add: stream_rest_def)
  qed
  have pend: "pending streams indices h = set (stream_rest streams indices ?s) \<union> (\<Union>e\<in>set h1. set (stream_rest streams indices (he_streamIdx e)))"
    by (simp add: pending_def seth)
  show ?thesis
  proof (cases "indices ! ?s < length (streams ! ?s)")
    case True
    let ?nx = "streams ! ?s ! (indices ! ?s)" and ?ix = "indices[?s := indices ! ?s + 1]"
    let ?e = "\<lparr>he_key = fst (streams ! ?s ! (indices ! ?s)), he_value = snd (streams ! ?s ! (indices ! ?s)), he_streamIdx = ?s\<rparr>"
    have adv: "merge_advance streams indices h1 ?s = (heap_Push h1 ?e, ?ix)" using True by (simp add: merge_advance_def Let_def)
    note pu = heap_Push_ok [OF h1(2), of ?e]
    have set2: "set (heap_Push h1 ?e) = insert ?e (set h1)" using pu by (metis set_mset_add_mset_insert set_mset_mset)
    have d2: "distinct (map he_streamIdx (heap_Push h1 ?e))" by (rule distinct_idx [of _ "?e # h1"]) (use pu di1 in simp_all)
    have inv2: "merge_inv streams ?ix (heap_Push h1 ?e)"
      unfolding merge_inv_def set2
    proof (intro conjI ballI allI impI)
      fix x
      assume x: "x \<in> insert ?e (set h1)"
      then have c: "x = ?e \<or> x \<in> set h1 \<and> he_streamIdx x \<noteq> ?s" using di1(2) by (metis image_eqI insertE)
      then show "he_streamIdx x < length streams" "0 < ?ix ! he_streamIdx x" "?ix ! he_streamIdx x \<le> length (streams ! he_streamIdx x)"
        "(he_key x, he_value x) = streams ! he_streamIdx x ! (?ix ! he_streamIdx x - 1)"
        using inv es True li seth by (auto simp: merge_inv_def)
    next
      fix s
      assume s: "s < length streams" "s \<notin> he_streamIdx ` insert ?e (set h1)"
      then show "?ix ! s = length (streams ! s)" using inv seth by (auto simp: merge_inv_def)
    qed (use pu d2 li in auto)
    have rest: "stream_rest streams ?ix ?s = drop (indices ! ?s) (streams ! ?s)" using li es(1) by (simp add: stream_rest_def)
    have "pending streams ?ix (heap_Push h1 ?e) = set (drop (indices ! ?s) (streams ! ?s)) \<union> (\<Union>e\<in>set h1. set (stream_rest streams indices (he_streamIdx e)))"
      using others rest by (simp add: pending_def set2)
    then have p2: "pending streams indices h = insert (he_key e, he_value e) (pending streams ?ix (heap_Push h1 ?e))"
      unfolding pend stream_rest_head [OF inv eh] by simp
    have "(\<Sum>s<length streams. length (streams ! s) - indices ! s) = Suc (\<Sum>s<length streams. length (streams ! s) - ?ix ! s)"
    proof -
      have "(\<Sum>s<length streams. length (streams ! s) - indices ! s)
          = (length (streams ! ?s) - indices ! ?s) + (\<Sum>s\<in>{..<length streams} - {?s}. length (streams ! s) - indices ! s)"
        using es(1) by (subst sum.remove [of _ ?s]) auto
      moreover have "(\<Sum>s<length streams. length (streams ! s) - ?ix ! s)
          = (length (streams ! ?s) - ?ix ! ?s) + (\<Sum>s\<in>{..<length streams} - {?s}. length (streams ! s) - indices ! s)"
        using es(1) by (subst sum.remove [of _ ?s]) (auto intro!: sum.cong)
      ultimately show ?thesis using True li es(1) by simp
    qed
    then have "Suc (merge_left streams ?ix (heap_Push h1 ?e)) = merge_left streams indices h" using pu len1 by (simp add: merge_left_def)
    then show ?thesis using h1(1) adv inv2 p2 least by blast
  next
    case False
    have adv: "merge_advance streams indices h1 ?s = (h1, indices)" using False by (simp add: merge_advance_def)
    have inv2: "merge_inv streams indices h1"
      using inv h1(2) di1 seth False es by (auto simp: merge_inv_def)
    have p2: "pending streams indices h = insert (he_key e, he_value e) (pending streams indices h1)"
      unfolding pend stream_rest_head [OF inv eh] using False by (simp add: pending_def)
    have "Suc (merge_left streams indices h1) = merge_left streams indices h" using len1 by (simp add: merge_left_def)
    then show ?thesis using h1(1) adv inv2 p2 least by blast
  qed
qed

lemma merge_loop_ok:
  assumes "merge_inv streams indices h" and so: "\<forall>s<length streams. keys_sorted (streams ! s)"
    and "\<forall>kv\<in>pending streams indices h. lastKey \<le> fst kv"
  shows "\<exists>new. merge_loop False streams indices h lastKey out = Some (out @ new) \<and> keys_sorted new \<and> (\<forall>kv\<in>set new. lastKey < fst kv)
    \<and> set new \<subseteq> pending streams indices h \<and> fst ` set new = fst ` pending streams indices h - {lastKey}"
  using assms(1,3)
proof (induction "merge_left streams indices h" arbitrary: indices h lastKey out)
  case 0
  then have "h = []" by (simp add: merge_left_def)
  then show ?case by (subst merge_loop.simps) (simp add: pending_def)
next
  case (Suc n)
  show ?case
  proof (cases "h = []")
    case True
    then show ?thesis by (subst merge_loop.simps) (simp add: pending_def)
  next
    case False
    obtain e h1 h2 ix where st: "heap_Pop h = (e, h1)" "merge_advance streams indices h1 (he_streamIdx e) = (h2, ix)" "merge_inv streams ix h2"
      "pending streams indices h = insert (he_key e, he_value e) (pending streams ix h2)"
      "\<forall>kv\<in>pending streams indices h. he_key e \<le> fst kv" "Suc (merge_left streams ix h2) = merge_left streams indices h"
      using merge_step [OF Suc(3) so False] by blast
    have n: "n = merge_left streams ix h2" using Suc(2) st(6) by simp
    have lk: "lastKey \<le> he_key e" using Suc(4) st(4) by simp
    show ?thesis
    proof (cases "he_key e = lastKey")
      case True
      have "\<forall>kv\<in>pending streams ix h2. lastKey \<le> fst kv" using Suc(4) st(4) by simp
      note ih = Suc(1) [OF n st(3) this, of out]
      have "merge_loop False streams indices h lastKey out = merge_loop False streams ix h2 lastKey out"
        by (subst merge_loop.simps) (simp add: False st(1,2) True)
      then show ?thesis using ih st(4) True by auto
    next
      case ne: False
      have lt: "lastKey < he_key e" using lk ne by simp
      have "\<forall>kv\<in>pending streams ix h2. he_key e \<le> fst kv" using st(4,5) by simp
      then obtain new where new: "merge_loop False streams ix h2 (he_key e) (out @ [(he_key e, he_value e)]) = Some ((out @ [(he_key e, he_value e)]) @ new)"
        "keys_sorted new" "\<forall>kv\<in>set new. he_key e < fst kv" "set new \<subseteq> pending streams ix h2"
        "fst ` set new = fst ` pending streams ix h2 - {he_key e}"
        using Suc(1) [OF n st(3), of "he_key e" "out @ [(he_key e, he_value e)]"] by blast
      have eq: "merge_loop False streams indices h lastKey out = Some (out @ (he_key e, he_value e) # new)"
        by (subst merge_loop.simps) (simp add: False st(1,2) ne new(1))
      have "lastKey \<notin> fst ` pending streams indices h" using st(5) lt by (auto simp: not_le)
      then have keys: "fst ` set ((he_key e, he_value e) # new) = fst ` pending streams indices h - {lastKey}"
        unfolding st(4) using new(5) by auto
      have "\<forall>kv\<in>set ((he_key e, he_value e) # new). lastKey < fst kv" using lt new(3) by (auto intro: less_trans)
      moreover have "keys_sorted ((he_key e, he_value e) # new)" using new(2,3) by simp
      moreover have "set ((he_key e, he_value e) # new) \<subseteq> pending streams indices h" using new(4) st(4) by auto
      ultimately show ?thesis using eq keys by blast
    qed
  qed
qed

lemma merge_inv_Nil: "merge_inv [] [] []"
  by (simp add: merge_inv_def heap_upto_def)

lemma seed_heap_ok:
  assumes "merge_inv pre indices h" and "pending pre indices h = (\<Union>s<length pre. set (pre ! s))"
  shows "\<exists>h' ix. seed_heap streams (length pre) h indices = (h', ix) \<and> merge_inv (pre @ streams) ix h'
    \<and> pending (pre @ streams) ix h' = (\<Union>s<length (pre @ streams). set ((pre @ streams) ! s))"
  using assms
proof (induction streams arbitrary: pre indices h)
  case Nil
  then show ?case by simp
next
  case (Cons stream streams)
  have li: "length indices = length pre" and ok: "heap_ok h" and idx: "\<forall>e\<in>set h. he_streamIdx e < length pre"
    and di: "distinct (map he_streamIdx h)" using Cons.prems(1) by (auto simp: merge_inv_def)
  have old: "stream_rest (pre @ [stream]) (indices @ [x]) (he_streamIdx e) = stream_rest pre indices (he_streamIdx e)" if "e \<in> set h" for e x
    using that idx li by (auto simp: stream_rest_def nth_append)
  have un: "(\<Union>s<length (pre @ [stream]). set ((pre @ [stream]) ! s)) = (\<Union>s<length pre. set (pre ! s)) \<union> set stream"
    by (auto simp: nth_append less_Suc_eq split: if_splits)
  show ?case
  proof (cases "stream = []")
    case True
    have inv: "merge_inv (pre @ [stream]) (indices @ [0]) h"
      using Cons.prems(1) True li unfolding merge_inv_def by (auto simp: nth_append less_Suc_eq)
    have p: "pending (pre @ [stream]) (indices @ [0]) h = (\<Union>s<length (pre @ [stream]). set ((pre @ [stream]) ! s))"
      using Cons.prems(2) old True unfolding un by (simp add: pending_def)
    show ?thesis using Cons.IH [OF inv p] True by simp
  next
    case False
    let ?e = "\<lparr>he_key = fst (stream ! 0), he_value = snd (stream ! 0), he_streamIdx = length pre\<rparr>"
    note pu = heap_Push_ok [OF ok, of ?e]
    have set2: "set (heap_Push h ?e) = insert ?e (set h)" using pu by (metis set_mset_add_mset_insert set_mset_mset)
    have d2: "distinct (map he_streamIdx (heap_Push h ?e))" by (rule distinct_idx [of _ "?e # h"]) (use pu di idx in auto)
    have inv: "merge_inv (pre @ [stream]) (indices @ [1]) (heap_Push h ?e)"
      using Cons.prems(1) False li pu d2 unfolding merge_inv_def set2 by (auto simp: nth_append less_Suc_eq Suc_le_eq)
    have rest: "stream_rest (pre @ [stream]) (indices @ [1]) (length pre) = stream" using li by (simp add: stream_rest_def nth_append)
    have p: "pending (pre @ [stream]) (indices @ [1]) (heap_Push h ?e) = (\<Union>s<length (pre @ [stream]). set ((pre @ [stream]) ! s))"
      using Cons.prems(2) old rest unfolding un by (auto simp: pending_def set2)
    show ?thesis using Cons.IH [OF inv p] False by simp
  qed
qed

text \<open>The merge of sorted streams lists every non-empty key of them once, in order, with a value one of them has for it.\<close>

lemma merge_entries_ok:
  assumes "\<forall>d\<in>set streams. keys_sorted d"
  shows "\<exists>out. merge_entries False streams = Some out \<and> keys_sorted out \<and> set out \<subseteq> (\<Union>d\<in>set streams. set d)
    \<and> fst ` set out = (\<Union>d\<in>set streams. fst ` set d) - {''''}"
proof -
  obtain h ix where s: "seed_heap streams 0 [] [] = (h, ix)" "merge_inv streams ix h" "pending streams ix h = (\<Union>s<length streams. set (streams ! s))"
    using seed_heap_ok [OF merge_inv_Nil, of streams] by (auto simp: pending_def)
  have p: "pending streams ix h = (\<Union>d\<in>set streams. set d)" 
  proof -
    have "set streams = (!) streams ` {..<length streams}" by (metis atLeast0LessThan list.set_map map_nth set_upt)
    then show ?thesis using s(3) by simp
  qed
  have "\<forall>s<length streams. keys_sorted (streams ! s)" using assms by auto
  from merge_loop_ok [OF s(2) this, of "''''" "[]"] obtain out where
    "merge_loop False streams ix h '''' [] = Some out" "keys_sorted out" "set out \<subseteq> pending streams ix h"
    "fst ` set out = fst ` pending streams ix h - {''''}" by auto
  then show ?thesis unfolding merge_entries_def s(1) p by (auto simp: image_UN)
qed

section \<open>The merged table\<close>

text \<open>The inputs: each path is a table of the given data and LSN.\<close>

definition input_table :: "sst_env \<Rightarrow> disk \<Rightarrow> string \<Rightarrow> KeyValue list \<times> u64 \<Rightarrow> bool" where
  "input_table env disk p dl \<longleftrightarrow> keys_sorted (fst dl) \<and> (\<exists>f n. map_of disk p = Some f \<and> table_file env f (fst dl) n (snd dl))"

lemma compact_read_ok:
  assumes "bm_inv xx (int (se_BlockSize env)) cap files disk bm" and "list_all2 (input_table env disk) paths tabs"
  shows "\<exists>bm'. compact_read env xx disk bm streams n l paths
      = Some (bm', Inr (streams @ map fst tabs, n + (\<Sum>d\<leftarrow>map fst tabs. length d), fold max (map snd tabs) l))
    \<and> bm_inv xx (int (se_BlockSize env)) cap files disk bm'"
  using assms
proof (induction paths arbitrary: tabs bm streams n l)
  case Nil
  then show ?case by simp
next
  case (Cons p paths)
  obtain d tl rest where t: "tabs = (d, tl) # rest" "input_table env disk p (d, tl)" "list_all2 (input_table env disk) paths rest"
    using Cons.prems(2) by (auto simp: list_all2_Cons1)
  obtain f k where f: "map_of disk p = Some f" "table_file env f d k tl" using t(2) by (auto simp: input_table_def)
  obtain bm1 r where o: "SSTable_Open (BlockManager_ReadAt xx disk) disk bm p = Some (bm1, Inr r)"
    "bm_inv xx (int (se_BlockSize env)) cap files disk bm1" "reader_of env (map_of disk) r d" "sr_maxLSN r = tl"
    using bm.Open_table [OF Cons.prems(1) refl f] by blast
  obtain bm2 where s: "SSTable_ScanAll env (BlockManager_ReadAt xx disk) bm1 r = Some (bm2, Inr d)"
    "bm_inv xx (int (se_BlockSize env)) cap files disk bm2" using bm.ScanAll_table [OF o(2,3)] by blast
  have m: "(if tl > l then tl else l) = max tl l" by (auto simp: max_def)
  show ?case using Cons.IH [OF s(2) t(3), of "streams @ [d]" "n + length d" "max tl l"] o(1,4) s(1)
    by (simp add: t(1) Let_def m add.assoc split del: if_split cong: if_cong)
qed

text \<open>
  A batch whose inputs are sorted tables, when no file operation fails: the new table holds the merge of the inputs, and no other file changes.
\<close>

lemma compact_batch_ok:
  assumes inv: "bm_inv xx (int (se_BlockSize env)) cap files disk bm" and tabs: "list_all2 (input_table env disk) paths tabs"
    and env: "env_ok env (\<Sum>d\<leftarrow>map fst tabs. length d)" and fl: "fi_fail fi = no_sfail" and lv: "level + 1 < LSMLevels"
    and m: "merge_entries False (map fst tabs) = Some out" and ne: "out \<noteq> []"
    and path: "path = filepath_Join dataRoot (''sstable/lvl'' @ FormatUint10 (level + 1) @ ''/sstable_'' @ fi_uuid fi @ ''.db'')"
    and new: "map_of disk (path @ ''.tmp'') = None"
  shows "\<exists>disk' bm' f. compact_batch env xx LSMLevels fi disk bm dataRoot level paths safe
        = Some (disk', bm', [\<lparr>cr_Level = level, cr_NewPath = path, cr_OldPaths = paths\<rparr>])
     \<and> map_of disk' = (map_of disk)(path \<mapsto> f)
     \<and> (length f < 2 ^ 63 \<and> (\<Sum>d\<leftarrow>map fst tabs. length d) < 2 ^ 63 \<longrightarrow>
          table_file env f out (int (\<Sum>d\<leftarrow>map fst tabs. length d)) (fold max (map snd tabs) 0))"
proof -
  define total where "total = (\<Sum>d\<leftarrow>map fst tabs. length d)"
  let ?bs = "se_BlockSize env" and ?lsn = "fold max (map snd tabs) 0"
  define fw where "fw = NewFileWriterInDir ?bs (''sstable/lvl'' @ FormatUint10 (level + 1) @ ''/sstable_'' @ fi_uuid fi @ ''.db.tmp'') dataRoot '''' disk"
  have env: "env_ok env total" using env by (simp only: total_def)
  then have bs: "bs_ok ?bs" by (simp add: env_ok_def)
  have fresh: "fw_fresh ?bs fw" by (simp add: fw_def fw_fresh_def fw_state_def NewFileWriterInDir_def)
  have loc: "fw_location fw = path @ ''.tmp''" "fw_disk fw = disk" by (simp_all add: fw_def NewFileWriterInDir_def filepath_Join_def path)
  obtain bm' where rd: "compact_read env xx (fw_disk fw) bm [] 0 0 paths = Some (bm', Inr (map fst tabs, total, ?lsn))"
    using compact_read_ok [OF inv tabs, of "[]" 0 0] by (auto simp: loc total_def)
  obtain bf0 bf pbf0 pbf where f: "NewBloomFilterWithParams (se_params env) (fi_ts1 fi) (int total) = Some bf0"
    "BloomFilter_AddMultiple (se_md5 env) bf0 (map fst out) = Some bf" "NewPrefixBloomFilter (se_params env) (fi_ts2 fi) = Some pbf0"
    "PrefixBloomFilter_AddMultiple (se_md5 env) pbf0 (map fst out) = Some pbf" "filters_ok (se_md5 env) bf pbf (fst ` set out)"
    using table_filters [OF env] by blast
  obtain mroot where mroot: "MerkleTree_GetRootBytes (se_sha env)
      (fold (\<lambda>kv mt. MerkleTree_AddLeaf (se_sha env) mt (snd kv)) out (InitializeMerkleTree (int total))) = Some mroot"
    using table_root env unfolding env_ok_def by blast
  obtain fw1 segs where s: "SerializeDataBuildIndex no_sfail ?bs fw out = (fw1, seg_index 0 segs)"
    "fw_state ?bs fw (fst (FileWriter_Write no_sfail fw1 [] True)) segs []" "segs \<noteq> []" "seg_entries segs = out"
    using data_section [OF fresh bs ne] by blast
  define fw2 where "fw2 = fst (FileWriter_Write no_sfail fw1 [] True)"
  define ib where "ib = SerializeIndex (seg_index 0 segs)"
  define fb where "fb = SerializeFilterSection (BloomFilter_SerializeToByteArray bf) (PrefixBloomFilter_SerializeToByteArray pbf) mroot"
  let ?f = "table_bytes segs bf pbf mroot (int total) ?lsn"
  from table_sections [OF fw_state_out [OF s(2,3)] loc(1) ib_def fb_def, of "int total" ?lsn] obtain fw3 fw4 fw5 fw6 where
    w: "WriteRaw no_sfail fw2 ib = (fw3, Inr (int (length (seg_bytes segs))))"
    "WriteRaw no_sfail fw3 fb = (fw4, Inr (int (length (seg_bytes segs) + length ib)))"
    "fst (WriteRaw no_sfail fw4 (SerializeFooter (int (length (seg_bytes segs))) (int (length ib))
           (int (length (seg_bytes segs) + length ib)) (int (length fb)) (int total) ?lsn)) = fw5"
    "snd (WriteRaw no_sfail fw4 (SerializeFooter (int (length (seg_bytes segs))) (int (length ib))
           (int (length (seg_bytes segs) + length ib)) (int (length fb)) (int total) ?lsn)) = Inr (int (length (seg_bytes segs @ ib @ fb)))"
    "FileWriter_Commit no_sfail fw5 = (fw6, None)" "fw_location fw6 = path"
    "map_of (fw_disk fw6) = (map_of (fw_disk fw))(fw_location fw := None, path \<mapsto> ?f)"
    unfolding fw2_def by blast
  have "WriteRaw no_sfail fw4 (SerializeFooter (int (length (seg_bytes segs))) (int (length ib))
      (int (length (seg_bytes segs) + length ib)) (int (length fb)) (int total) ?lsn) = (fw5, Inr (int (length (seg_bytes segs @ ib @ fb))))"
    by (rule prod_eqI) (simp_all only: w(3,4) fst_conv snd_conv)
  then have cs: "compact_sections no_sfail fw2 ib fb (int total) ?lsn = (fw5, None)"
    unfolding compact_sections_def w(1) prod.case sum.case w(2) by simp
  have ct: "compactTables env xx fi paths fw bm (level + 1 \<ge> LSMLevels) safe = Some (fw5, bm', None)"
    unfolding compactTables_def rd using lv
    by (simp add: f(1-4) m mroot fl s(1) fw2_def [symmetric] ib_def [symmetric] fb_def [symmetric] cs)
  have b: "compact_batch env xx LSMLevels fi disk bm dataRoot level paths safe
      = Some (fw_disk fw6, bm', [\<lparr>cr_Level = level, cr_NewPath = path, cr_OldPaths = paths\<rparr>])"
    unfolding compact_batch_def Let_def fw_def [symmetric] ct by (simp add: fl w(5,6))
  have d: "map_of (fw_disk fw6) = (map_of disk)(path \<mapsto> ?f)" using w(7) new by (simp add: loc fun_upd_idem)
  have "table_file env ?f out (int total) ?lsn" if "length ?f < 2 ^ 63" "total < 2 ^ 63"
  proof -
    have "list_all (seg_ok ?bs) segs" using s(2) by (simp add: fw_state_def)
    then show ?thesis unfolding table_file_def using bs that s(4) f(5) by fastforce
  qed
  then show ?thesis using b d unfolding total_def by blast
qed

lemma inputs_sorted: "list_all2 (input_table env disk) paths tabs \<Longrightarrow> \<forall>d\<in>set (map fst tabs). keys_sorted d"
  by (induction rule: list_all2_induct) (auto simp: input_table_def)

text \<open>
  C40: A compaction keeps every key. When a batch of sorted tables is compacted and no file operation fails, the
  compaction returns one result that names the inputs and a new table; no other file changes; and every block
  manager that agrees with the files opens the new table and finds in it, in strict key order, exactly the non-empty keys of the inputs, each with a
  value that one of the inputs has for it. A point read of the new table returns that value.
\<close>

theorem compaction_keeps_keys:
  assumes "bm_inv xx (int (se_BlockSize env)) cap files disk bm" and "list_all2 (input_table env disk) paths tabs"
    and "env_ok env (\<Sum>d\<leftarrow>map fst tabs. length d)" and "fi_fail fi = no_sfail" and "level + 1 < LSMLevels"
    and "k0 \<noteq> ''''" and "k0 \<in> (\<Union>d\<in>set (map fst tabs). fst ` set d)"
    and "path = filepath_Join dataRoot (''sstable/lvl'' @ FormatUint10 (level + 1) @ ''/sstable_'' @ fi_uuid fi @ ''.db'')"
    and "map_of disk (path @ ''.tmp'') = None"
  shows "\<exists>disk' bm' out. compact_batch env xx LSMLevels fi disk bm dataRoot level paths safe
        = Some (disk', bm', [\<lparr>cr_Level = level, cr_NewPath = path, cr_OldPaths = paths\<rparr>])
     \<and> (\<forall>q. q \<noteq> path \<longrightarrow> map_of disk' q = map_of disk q)
     \<and> keys_sorted out \<and> fst ` set out = (\<Union>d\<in>set (map fst tabs). fst ` set d) - {''''}
     \<and> set out \<subseteq> (\<Union>d\<in>set (map fst tabs). set d)
     \<and> (\<forall>files2 bm2. length (disk_content disk' path) < 2 ^ 63 \<and> (\<Sum>d\<leftarrow>map fst tabs. length d) < 2 ^ 63
          \<and> bm_inv xx (int (se_BlockSize env)) cap files2 disk' bm2 \<longrightarrow>
          (\<exists>bm3 r. SSTable_Open (BlockManager_ReadAt xx disk') disk' bm2 path = Some (bm3, Inr r)
             \<and> map_option snd (SSTable_ScanAll env (BlockManager_ReadAt xx disk') bm3 r) = Some (Inr out)
             \<and> (\<forall>key. map_option snd (SSTable_Get env (BlockManager_ReadAt xx disk') bm3 r key) = Some (Inr (map_of out key)))))"
proof -
  obtain out where out: "merge_entries False (map fst tabs) = Some out" "keys_sorted out" "set out \<subseteq> (\<Union>d\<in>set (map fst tabs). set d)"
    "fst ` set out = (\<Union>d\<in>set (map fst tabs). fst ` set d) - {''''}" using merge_entries_ok [OF inputs_sorted [OF assms(2)]] by (elim exE conjE) (rule that)
  have "k0 \<in> fst ` set out" unfolding out(4) using assms(6,7) by blast
  then have "out \<noteq> []" by auto
  note cb = compact_batch_ok [OF assms(1-5) out(1) this assms(8,9), of safe]
  obtain disk' bm' f where b: "compact_batch env xx LSMLevels fi disk bm dataRoot level paths safe
        = Some (disk', bm', [\<lparr>cr_Level = level, cr_NewPath = path, cr_OldPaths = paths\<rparr>])"
     "map_of disk' = (map_of disk)(path \<mapsto> f)"
     "length f < 2 ^ 63 \<and> (\<Sum>d\<leftarrow>map fst tabs. length d) < 2 ^ 63 \<longrightarrow>
          table_file env f out (int (\<Sum>d\<leftarrow>map fst tabs. length d)) (fold max (map snd tabs) 0)"
    using cb by (elim exE conjE) (rule that)
  have rd: "\<exists>bm3 r. SSTable_Open (BlockManager_ReadAt xx disk') disk' bm2 path = Some (bm3, Inr r)
             \<and> map_option snd (SSTable_ScanAll env (BlockManager_ReadAt xx disk') bm3 r) = Some (Inr out)
             \<and> (\<forall>key. map_option snd (SSTable_Get env (BlockManager_ReadAt xx disk') bm3 r key) = Some (Inr (map_of out key)))"
    if h: "length (disk_content disk' path) < 2 ^ 63" "(\<Sum>d\<leftarrow>map fst tabs. length d) < 2 ^ 63"
      "bm_inv xx (int (se_BlockSize env)) cap files2 disk' bm2" for files2 bm2
  proof -
    have pf: "map_of disk' path = Some f" using b(2) by simp
    then have t: "table_file env f out (int (\<Sum>d\<leftarrow>map fst tabs. length d)) (fold max (map snd tabs) 0)"
      using b(3) h(1,2) by (simp add: disk_content_def)
    obtain bm3 r where o: "SSTable_Open (BlockManager_ReadAt xx disk') disk' bm2 path = Some (bm3, Inr r)"
      "bm_inv xx (int (se_BlockSize env)) cap files2 disk' bm3" "reader_of env (map_of disk') r out"
      using bm.Open_table [OF h(3) refl pf t] by blast
    have "map_option snd (SSTable_ScanAll env (BlockManager_ReadAt xx disk') bm3 r) = Some (Inr out)"
      using bm.ScanAll_table [OF o(2,3)] by auto
    moreover have "map_option snd (SSTable_Get env (BlockManager_ReadAt xx disk') bm3 r key) = Some (Inr (map_of out key))" for key
      using bm.Get_table [OF o(2,3) out(2), of key] by auto
    ultimately show ?thesis using o(1) by blast
  qed
  have same: "\<forall>q. q \<noteq> path \<longrightarrow> map_of disk' q = map_of disk q" using b(2) by simp
  show ?thesis
    by (rule exI [of _ disk'], rule exI [of _ bm'], rule exI [of _ out], rule conjI [OF b(1)], rule conjI [OF same],
        rule conjI [OF out(2)], rule conjI [OF out(4)], rule conjI [OF out(3)]) (intro allI impI, elim conjE, rule rd)
qed

definition small_fi :: flush_in where
  "small_fi = \<lparr>fi_fail = no_sfail, fi_ts1 = 0, fi_ts2 = 0, fi_uuid = ''w''\<rparr>"

lemma small_table:
  obtains disk f where "map_of disk = [''d/t.db'' \<mapsto> f]" and "length f = 215" and "table_file small_env f small_data 2 7"
proof -
  have h: "fw_fresh (se_BlockSize small_env) small_fw" "small_data \<noteq> []" "fw_location small_fw = ''d/t.db'' @ ''.tmp''"
    by (simp_all add: fw_fresh_def fw_state_def small_fw_def small_env_def NewFileWriterInDir_def small_data_def filepath_Join_def)
  obtain fw' f where fw': "FlushMemtable small_env no_sfail 0 0 ''v'' small_fw small_data 7 = Some (fw', ''d/t.db'')"
    "length f < 2 ^ 63 \<longrightarrow> table_file small_env f small_data (int (length small_data)) 7"
    "map_of (fw_disk fw') = (map_of (fw_disk small_fw))(fw_location small_fw := None, ''d/t.db'' \<mapsto> f)"
    using FlushMemtable_table [OF small_env_ok h, of 0 0 "''v''" 7] by blast
  obtain f' where f': "map_of (fw_disk fw') = [''d/t.db'' \<mapsto> f']" "length f' = 215" using small_file fw'(1) unfolding small_flush by auto
  have "f' = f" using f'(1) fw'(3) by (metis fun_upd_same option.inject)
  then show thesis using that [OF f'] fw'(2) f'(2) by (simp add: small_data_def)
qed

theorem compaction_keeps_keys_witness:
  "\<exists>disk bm disk' bm' out. map fst disk = [''d/t.db'']
     \<and> compact_batch small_env last_digit 2 small_fi disk bm ''d'' 0 [''d/t.db''] 0
        = Some (disk', bm', [\<lparr>cr_Level = 0, cr_NewPath = ''d/sstable/lvl1/sstable_w.db'', cr_OldPaths = [''d/t.db'']\<rparr>])
     \<and> fst ` set out = {''a'', ''b''} \<and> set out \<subseteq> set small_data"
proof -
  obtain disk0 f where f: "map_of disk0 = [''d/t.db'' \<mapsto> f]" "length f = 215" "table_file small_env f small_data 2 7" by (rule small_table)
  define disk where "disk = [(''d/t.db'', f)]"
  have inv: "bm_inv last_digit (int (se_BlockSize small_env)) 2 [''d/t.db'' \<mapsto> f] disk (NewBlockManager 24 2)"
    using bm_ok_new [of 24 last_digit 2 "[''d/t.db'' \<mapsto> f]"] collision_free_small [of f 24 "''d/t.db''"] f(2)
    by (simp add: bm_inv_def small_env_def disk_def)
  have tab: "list_all2 (input_table small_env disk) [''d/t.db''] [(small_data, 7)]"
    using f(3) by (auto simp: input_table_def disk_def) (simp add: small_data_def)
  have fl: "fi_fail small_fi = no_sfail" "0 + 1 < (2 :: nat)" "''a'' \<noteq> ''''" "''a'' \<in> (\<Union>d\<in>set (map fst [(small_data, 7 :: u64)]). fst ` set d)"
    by (simp_all add: small_fi_def small_data_def)
  have path: "''d/sstable/lvl1/sstable_w.db'' = filepath_Join ''d'' (''sstable/lvl'' @ FormatUint10 (0 + 1) @ ''/sstable_'' @ fi_uuid small_fi @ ''.db'')"
    by code_simp
  have new: "map_of disk (''d/sstable/lvl1/sstable_w.db'' @ ''.tmp'') = None" by (simp add: disk_def)
  have keys: "(\<Union>d\<in>set (map fst [(small_data, 7 :: u64)]). fst ` set d) - {''''} = {''a'', ''b''}" by (auto simp: small_data_def)
  from compaction_keeps_keys [OF inv tab small_env_ok fl(1,2,3,4) path new, of 0] obtain disk' bm' out where
    "compact_batch small_env last_digit 2 small_fi disk (NewBlockManager 24 2) ''d'' 0 [''d/t.db''] 0
        = Some (disk', bm', [\<lparr>cr_Level = 0, cr_NewPath = ''d/sstable/lvl1/sstable_w.db'', cr_OldPaths = [''d/t.db'']\<rparr>])"
    "fst ` set out = {''a'', ''b''}" "set out \<subseteq> set small_data"
    unfolding keys by auto
  then show ?thesis by (intro exI [of _ disk] exI [of _ "NewBlockManager 24 2"] exI [of _ disk'] exI [of _ bm'] exI [of _ out]) (simp add: disk_def)
qed

section \<open>Which value survives\<close>

text \<open>
  The inputs of a batch are the oldest files of the level, oldest first, and equal keys of a heap of four entries leave
  the first entry at the root: of four versions of a key the merge keeps the oldest.
\<close>

lemma merge_keeps_oldest:
  "merge_entries False [[(''k'', ''v1'')], [(''k'', ''v2'')], [(''k'', ''v3'')], [(''k'', ''v4'')]] = Some [(''k'', ''v1'')]"
  by code_simp

text \<open>The empty key is dropped: it equals the initial value of the last key seen.\<close>

lemma merge_drops_empty_key: "merge_entries False [[('''', ''v''), (''a'', ''w'')]] = Some [(''a'', ''w'')]"
  by code_simp

text \<open>Deletes are never collected: no level that is compacted is followed by the last one.\<close>

lemma never_last_level: "level \<in> set (map fst (take (LSMLevels - 1) (List.enumerate 0 vs))) \<Longrightarrow> \<not> level + 1 \<ge> LSMLevels"
  by (auto simp: take_map [symmetric] in_set_conv_nth nth_enumerate_eq)

end
