(* ===== verification/Engine.thy ===== *)
theory Engine
  imports Compacter WalCursor
begin

text \<open>
  The storage engine: \<open>src/engine\<close>, with the table cache \<open>src/sstable/table_cache.go\<close>, the rate limiter
  \<open>src/service/user_limiter\<close> and \<open>src/service/token_bucket\<close>.

  The engine is parametrised by the memtable (the record of operations of \<open>Memtable\<close>). Every operation
  is a function on the engine state: a write of the writer goroutine, one batch of it, one round of
  the flusher, the installation of a compaction, reads, scans and snapshots. \<open>None\<close> stands for a call
  that panics or that waits on a full queue. \<open>now\<close> is the clock of the rate limiter, \<open>fail\<close> and \<open>sfail\<close> say which file
  operations of the log and of the tables fail, and random numbers and file names are arguments.
\<close>

section \<open>token\_bucket.go and user\_limiter.go\<close>

definition MaxTokens :: int where "MaxTokens = 10000"

definition TokenRefillRate :: int where "TokenRefillRate = 100"

record TokenBucket =
  tb_currTokens :: int
  tb_lastRefillTime :: int

definition GetNewTokenBucket :: "int \<Rightarrow> TokenBucket" where
  "GetNewTokenBucket now = \<lparr>tb_currTokens = MaxTokens, tb_lastRefillTime = now\<rparr>"

text \<open>The product with the rate, a whole number, is exact in floating point for the times that occur.\<close>

definition CheckTokens :: "int \<Rightarrow> TokenBucket \<Rightarrow> TokenBucket \<times> bool" where
  "CheckTokens now tb =
     (let elapsed = now - tb_lastRefillTime tb;
          refilled = elapsed * TokenRefillRate;
          tokens = min (tb_currTokens tb + refilled) MaxTokens
      in if tokens < 1 then (tb, False)
         else (tb\<lparr>tb_currTokens := tokens - 1, tb_lastRefillTime := now\<rparr>, True))"

type_synonym UserLimiter = "(string \<times> TokenBucket) list"

definition CheckUserTokens :: "int \<Rightarrow> UserLimiter \<Rightarrow> string \<Rightarrow> UserLimiter \<times> bool" where
  "CheckUserTokens now ul user =
     (let bucket = (case map_of ul user of None \<Rightarrow> GetNewTokenBucket now | Some b \<Rightarrow> b);
          (bucket, ok) = CheckTokens now bucket
      in (AList.update user bucket ul, ok))"

section \<open>table\_cache.go\<close>

text \<open>The list of paths, most recently used first, and the open readers by path.\<close>

record TableCache =
  tc_capacity :: int
  tc_cache :: "(string \<times> SSTableReader) list"
  tc_lru :: "string list"

definition NewTableCache :: "int \<Rightarrow> TableCache" where
  "NewTableCache capacity =
     (let capacity = (if capacity \<le> 0 then 32 else capacity)
      in \<lparr>tc_capacity = capacity, tc_cache = [], tc_lru = []\<rparr>)"

definition tc_evictLocked :: "TableCache \<Rightarrow> BlockManager \<Rightarrow> TableCache \<times> BlockManager" where
  "tc_evictLocked tc bm =
     (if tc_lru tc = [] then (tc, bm)
      else (let path = last (tc_lru tc)
            in (tc\<lparr>tc_lru := butlast (tc_lru tc), tc_cache := AList.delete path (tc_cache tc)\<rparr>, BlockManager_CloseFile bm path)))"

definition GetOrOpen :: "(string \<Rightarrow> u64) \<Rightarrow> disk \<Rightarrow> TableCache \<Rightarrow> BlockManager \<Rightarrow> string
    \<Rightarrow> (TableCache \<times> BlockManager \<times> (sst_read_error + SSTableReader)) option" where
  "GetOrOpen xx disk tc bm path =
     (case map_of (tc_cache tc) path of
        Some r \<Rightarrow> Some (tc\<lparr>tc_lru := path # remove1 path (tc_lru tc)\<rparr>, bm, Inr r)
      | None \<Rightarrow>
          do { (bm, r) \<leftarrow> SSTable_Open (BlockManager_ReadAt xx disk) disk bm path;
               (case r of
                  Inl err \<Rightarrow> Some (tc, bm, Inl err)
                | Inr reader \<Rightarrow>
                    (let tc = tc\<lparr>tc_lru := path # tc_lru tc, tc_cache := AList.update path reader (tc_cache tc)\<rparr>;
                         (tc, bm) = (if int (length (tc_lru tc)) > tc_capacity tc then tc_evictLocked tc bm else (tc, bm))
                     in Some (tc, bm, Inr reader))) })"

definition TableCache_Evict :: "TableCache \<Rightarrow> BlockManager \<Rightarrow> string \<Rightarrow> TableCache \<times> BlockManager" where
  "TableCache_Evict tc bm path =
     ((if path \<in> set (map fst (tc_cache tc))
       then tc\<lparr>tc_lru := remove1 path (tc_lru tc), tc_cache := AList.delete path (tc_cache tc)\<rparr> else tc),
      BlockManager_CloseFile bm path)"

section \<open>immutable\_queue.go\<close>

record immutableQueue =
  iq_items :: "ImmutableMemtable list"
  iq_max :: int
  iq_closed :: bool

definition newImmutableQueue :: "int \<Rightarrow> immutableQueue" where
  "newImmutableQueue n = (let n = (if n < 1 then 1 else n) in \<lparr>iq_items = [], iq_max = n, iq_closed = False\<rparr>)"

text \<open>\<open>Push\<close> waits while the queue is full (\<open>None\<close>); a closed queue drops the table.\<close>

definition iq_Push :: "immutableQueue \<Rightarrow> ImmutableMemtable \<Rightarrow> immutableQueue option" where
  "iq_Push q im =
     (if int (length (iq_items q)) \<ge> iq_max q \<and> \<not> iq_closed q then None
      else if iq_closed q then Some q
      else Some (q\<lparr>iq_items := iq_items q @ [im]\<rparr>))"

text \<open>\<open>Peek\<close> waits on an empty open queue (\<open>None\<close>); on an empty closed queue it returns nil.\<close>

definition iq_Peek :: "immutableQueue \<Rightarrow> ImmutableMemtable option option" where
  "iq_Peek q =
     (if iq_items q = [] \<and> \<not> iq_closed q then None
      else if iq_items q = [] then Some None
      else Some (Some (hd (iq_items q))))"

definition iq_PopFront :: "immutableQueue \<Rightarrow> immutableQueue" where
  "iq_PopFront q = (if iq_items q \<noteq> [] then q\<lparr>iq_items := tl (iq_items q)\<rparr> else q)"

definition iq_Snapshot :: "immutableQueue \<Rightarrow> ImmutableMemtable list" where
  "iq_Snapshot q = rev (iq_items q)"

definition iq_Close :: "immutableQueue \<Rightarrow> immutableQueue" where
  "iq_Close q = q\<lparr>iq_closed := True\<rparr>"

definition iq_Len :: "immutableQueue \<Rightarrow> int" where
  "iq_Len q = int (length (iq_items q))"

section \<open>engine.go\<close>

record 'm Engine =
  userLimiter :: UserLimiter
  activeMem :: 'm
  immQueue :: immutableQueue
  e_wal :: WAL
  ss_writer :: FileWriter
  block_manager :: BlockManager
  tableCache :: TableCache
  compactCh :: bool
  versions :: "string list list"
  dataRoot :: string
  skipRateLimit :: bool
  skipCompaction :: bool
  pinned :: "(string \<times> int) list"
  deferredDeletes :: "string list"
  safeCompactionLSN :: u64

text \<open>The directory of the tables, shared by the writer and the readers.\<close>

abbreviation e_disk :: "('m, 'z) Engine_scheme \<Rightarrow> disk" where
  "e_disk e \<equiv> fw_disk (ss_writer e)"

text \<open>What an engine is built over: the memtable, digests and formats, and its configuration.\<close>

record 'm eng_env =
  ee_ops :: "'m MemtableOps"
  ee_sst :: sst_env
  ee_xx :: "string \<Rightarrow> u64"
  ee_MemtableSize :: int
  ee_LSMLevels :: nat
  ee_CompactionThreshold :: nat

datatype eng_error = NotAllowed string | WalWrite wal_error | WalSync wal_error | SnapshotStat string

definition SSTableLevelDir :: "string \<Rightarrow> nat \<Rightarrow> string" where
  "SSTableLevelDir dir0 level = dir0 @ ''/sstable/lvl'' @ FormatUint10 level"

text \<open>The files directly in a directory with a given suffix; \<open>os.ReadDir\<close> sorts them by name.\<close>

definition dir_files :: "disk \<Rightarrow> string \<Rightarrow> string \<Rightarrow> string list" where
  "dir_files disk dir suf =
     sort (filter (\<lambda>p. take (length dir + 1) p = dir @ ''/'' \<and> CHR ''/'' \<notin> set (drop (length dir + 1) p) \<and> str_HasSuffix p suf)
             (map fst disk))"

definition ListSSTablesInLevel :: "disk \<Rightarrow> string \<Rightarrow> nat \<Rightarrow> string list" where
  "ListSSTablesInLevel disk dir0 level = dir_files disk (SSTableLevelDir dir0 level) ''.db''"

text \<open>\<open>initVersions\<close> lists the tables of each level and removes left-over temporary files.\<close>

definition initVersions :: "nat \<Rightarrow> 'm Engine \<Rightarrow> 'm Engine" where
  "initVersions levels e =
     (let vs = map (ListSSTablesInLevel (e_disk e) (dataRoot e)) [0..<levels];
          tmp = concat (map (\<lambda>l. dir_files (e_disk e) (SSTableLevelDir (dataRoot e) l) ''.db.tmp'') [0..<levels])
      in e\<lparr>versions := vs, ss_writer := (ss_writer e)\<lparr>fw_disk := fold AList.delete tmp (e_disk e)\<rparr>\<rparr>)"

definition newEngine :: "'m eng_env \<Rightarrow> int \<Rightarrow> int \<Rightarrow> int \<Rightarrow> string \<Rightarrow> string \<Rightarrow> disk \<Rightarrow> WAL \<Rightarrow> bool \<Rightarrow> bool \<Rightarrow> 'm Engine" where
  "newEngine env MaxImmutableCount CacheCapacity TableCacheSize dir0 uuid disk wal noLimit noCompaction =
     (let maxImm = (if MaxImmutableCount < 1 then 3 else MaxImmutableCount);
          bs = se_BlockSize (ee_sst env)
      in initVersions (ee_LSMLevels env)
           \<lparr>userLimiter = [], activeMem = mo_New (ee_ops env), immQueue = newImmutableQueue maxImm, e_wal = wal,
            ss_writer = NewFileWriterInDir bs '''' dir0 uuid disk, block_manager = NewBlockManager (int bs) CacheCapacity,
            tableCache = NewTableCache TableCacheSize, compactCh = False, versions = [], dataRoot = dir0, skipRateLimit = noLimit,
            skipCompaction = noCompaction, pinned = [], deferredDeletes = [], safeCompactionLSN = 0\<rparr>)"

definition swapActiveMem :: "'m eng_env \<Rightarrow> 'm Engine \<Rightarrow> 'm Engine" where
  "swapActiveMem env e = e\<lparr>activeMem := mo_New (ee_ops env)\<rparr>"

definition registerSSTable :: "'m Engine \<Rightarrow> nat \<Rightarrow> string \<Rightarrow> 'm Engine option" where
  "registerSSTable e level path =
     (if level < length (versions e) then Some (e\<lparr>versions := (versions e)[level := versions e ! level @ [path]]\<rparr>) else None)"

text \<open>\<open>os.Remove\<close> of a path.\<close>

definition e_remove :: "'m Engine \<Rightarrow> string \<Rightarrow> 'm Engine" where
  "e_remove e path = e\<lparr>ss_writer := (ss_writer e)\<lparr>fw_disk := AList.delete path (e_disk e)\<rparr>\<rparr>"

definition deleteFiles :: "'m Engine \<Rightarrow> string list \<Rightarrow> 'm Engine" where
  "deleteFiles e paths =
     fold (\<lambda>p e. if vget (pinned e) p > 0 then e\<lparr>deferredDeletes := deferredDeletes e @ [p]\<rparr> else e_remove e p) paths e"

definition installCompaction :: "'m Engine \<Rightarrow> nat \<Rightarrow> string \<Rightarrow> string list \<Rightarrow> 'm Engine option" where
  "installCompaction e level newPath oldPaths =
     (let outLevel = level + 1
      in if outLevel < length (versions e)
         then (let vs = (versions e)[outLevel := versions e ! outLevel @ [newPath]];
                   vs = vs[level := filter (\<lambda>p. p \<notin> set oldPaths) (vs ! level)];
                   (tc, bm) = fold (\<lambda>p (tc, bm). TableCache_Evict tc bm p) oldPaths (tableCache e, block_manager e)
               in Some (deleteFiles (e\<lparr>versions := vs, tableCache := tc, block_manager := bm\<rparr>) oldPaths))
         else None)"

definition pinFile :: "'m Engine \<Rightarrow> string \<Rightarrow> 'm Engine" where
  "pinFile e path = e\<lparr>pinned := AList.update path (vget (pinned e) path + 1) (pinned e)\<rparr>"

record SnapshotFile =
  sf_Level :: nat
  sf_Path :: string
  sf_Size :: int

definition unpin1 :: "string \<Rightarrow> (string \<times> int) list \<Rightarrow> (string \<times> int) list" where
  "unpin1 p pins =
     (let pins = AList.update p (vget pins p - 1) pins
      in if vget pins p = 0 then AList.delete p pins else pins)"

definition unpinFiles :: "'m Engine \<Rightarrow> SnapshotFile list \<Rightarrow> 'm Engine" where
  "unpinFiles e files =
     (let e = e\<lparr>pinned := fold (\<lambda>f. unpin1 (sf_Path f)) files (pinned e)\<rparr>;
          remaining = filter (\<lambda>p. vget (pinned e) p > 0) (deferredDeletes e);
          e = fold (\<lambda>p e. e_remove e p) (filter (\<lambda>p. \<not> vget (pinned e) p > 0) (deferredDeletes e)) e
      in e\<lparr>deferredDeletes := remaining\<rparr>)"

definition reversedPaths :: "string list \<Rightarrow> string list" where
  "reversedPaths s = rev s"

definition drainActiveMem :: "'m eng_env \<Rightarrow> 'm Engine \<Rightarrow> 'm Engine option" where
  "drainActiveMem env e =
     (if mo_GetSize (ee_ops env) (activeMem e) = 0 then Some e
      else do { raw \<leftarrow> mo_ToRaw (ee_ops env) (activeMem e);
                q \<leftarrow> iq_Push (immQueue e) (NewImmutableMemtable raw (appendedLSN (wal_store (e_wal e))));
                Some (swapActiveMem env (e\<lparr>immQueue := q\<rparr>)) })"

section \<open>write.go and write\_queue.go\<close>

text \<open>The check at the start of every request, with the limiter it leaves.\<close>

definition e_limit :: "int \<Rightarrow> 'm Engine \<Rightarrow> string \<Rightarrow> 'm Engine \<times> bool" where
  "e_limit now e user =
     (if skipRateLimit e then (e, True)
      else (case CheckUserTokens now (userLimiter e) user of (ul, ok) \<Rightarrow> (e\<lparr>userLimiter := ul\<rparr>, ok)))"

definition applyWriteToMem :: "'m eng_env \<Rightarrow> int \<Rightarrow> (io_op \<Rightarrow> bool) \<Rightarrow> 'm Engine \<Rightarrow> string \<Rightarrow> string \<Rightarrow> string
    \<Rightarrow> ('m Engine \<times> (eng_error + u64)) option" where
  "applyWriteToMem env now fail e user key value =
     (case e_limit now e user of
        (e, False) \<Rightarrow> Some (e, Inl (NotAllowed user))
      | (e, True) \<Rightarrow>
          (case (if value = Tombstone then WAL_AppendDelete fail (wal_store (e_wal e)) key
                 else WAL_AppendPut fail (wal_store (e_wal e)) key value) of
             (store, Inl err) \<Rightarrow> Some (e\<lparr>e_wal := (e_wal e)\<lparr>wal_store := store\<rparr>\<rparr>, Inl (WalWrite err))
           | (store, Inr lsn) \<Rightarrow>
               do { let e = e\<lparr>e_wal := (e_wal e)\<lparr>wal_store := store\<rparr>\<rparr>;
                    mem \<leftarrow> mo_Add (ee_ops env) (activeMem e) key value;
                    let e = e\<lparr>activeMem := mem\<rparr>;
                    if mo_GetSize (ee_ops env) mem \<ge> ee_MemtableSize env
                    then do { raw \<leftarrow> mo_ToRaw (ee_ops env) mem;
                              q \<leftarrow> iq_Push (immQueue e) (NewImmutableMemtable raw lsn);
                              Some (swapActiveMem env (e\<lparr>immQueue := q\<rparr>), Inr lsn) }
                    else Some (e, Inr lsn) }))"

definition e_flush :: "'m eng_env \<Rightarrow> flush_in \<Rightarrow> 'm Engine \<Rightarrow> KeyValue list \<Rightarrow> u64 \<Rightarrow> 'm Engine option" where
  "e_flush env fi e data maxLSN =
     do { (fw, path) \<leftarrow> FlushMemtable (ee_sst env) (fi_fail fi) (fi_ts1 fi) (fi_ts2 fi) (fi_uuid fi) (ss_writer e) data maxLSN;
          registerSSTable (e\<lparr>ss_writer := fw\<rparr>) 0 path }"

definition replayFlush :: "'m eng_env \<Rightarrow> flush_in \<Rightarrow> 'm Engine \<Rightarrow> 'm Engine option" where
  "replayFlush env fi e =
     do { (snapshot, _) \<leftarrow> mo_TakeSnapshot (ee_ops env) (activeMem e);
          e_flush env fi (e\<lparr>activeMem := mo_New (ee_ops env)\<rparr>) snapshot 0 }"

definition applyWrite :: "'m eng_env \<Rightarrow> flush_in \<Rightarrow> 'm Engine \<Rightarrow> string \<Rightarrow> string \<Rightarrow> 'm Engine option" where
  "applyWrite env fi e key value =
     do { mem \<leftarrow> mo_Add (ee_ops env) (activeMem e) key value;
          let e = e\<lparr>activeMem := mem\<rparr>;
          if mo_GetSize (ee_ops env) mem \<ge> ee_MemtableSize env then replayFlush env fi e else Some e }"

record writeReq =
  wr_user :: string
  wr_key :: string
  wr_value :: string
  wr_sync :: bool

text \<open>The loop that applies a batch, with the largest LSN of its synchronous writes.\<close>

fun apply_batch :: "'m eng_env \<Rightarrow> int \<Rightarrow> (io_op \<Rightarrow> bool) \<Rightarrow> 'm Engine \<Rightarrow> u64 \<Rightarrow> bool \<Rightarrow> writeReq list
    \<Rightarrow> ('m Engine \<times> (eng_error + u64) list \<times> u64 \<times> bool) option" where
  "apply_batch env now fail e maxSyncLSN needsSync [] = Some (e, [], maxSyncLSN, needsSync)"
| "apply_batch env now fail e maxSyncLSN needsSync (r # rs) =
     do { (e, res) \<leftarrow> applyWriteToMem env now fail e (wr_user r) (wr_key r) (wr_value r);
          let (maxSyncLSN, needsSync) =
            (case res of
               Inl _ \<Rightarrow> (maxSyncLSN, needsSync)
             | Inr lsn \<Rightarrow> if wr_sync r \<and> lsn > maxSyncLSN then (lsn, True) else (maxSyncLSN, needsSync));
          (e, ress, maxSyncLSN, needsSync) \<leftarrow> apply_batch env now fail e maxSyncLSN needsSync rs;
          Some (e, res # ress, maxSyncLSN, needsSync) }"

text \<open>
  One round of \<open>runWriter\<close>: the answers sent before the sync (asynchronous writes) and after it, each
  the position of a request in the batch with its error.
\<close>

definition Writer_batch :: "'m eng_env \<Rightarrow> int \<Rightarrow> (io_op \<Rightarrow> bool) \<Rightarrow> (nat \<Rightarrow> io_op \<Rightarrow> bool) \<Rightarrow> 'm Engine \<Rightarrow> writeReq list
    \<Rightarrow> ('m Engine \<times> (nat \<times> eng_error option) list \<times> (nat \<times> eng_error option) list) option" where
  "Writer_batch env now fail sfails e batch =
     do { (e, res, maxSyncLSN, needsSync) \<leftarrow> apply_batch env now fail e 0 False batch;
          let err = (\<lambda>i. case res ! i of Inl err \<Rightarrow> Some err | Inr _ \<Rightarrow> None);
          let early = map (\<lambda>i. (i, err i)) (filter (\<lambda>i. \<not> wr_sync (batch ! i)) [0..<length batch]);
          (w, syncErr) \<leftarrow> (if needsSync then WaitDurable sfails (e_wal e) maxSyncLSN else Some (e_wal e, None));
          let late = map (\<lambda>i. (i, case err i of Some x \<Rightarrow> Some x | None \<Rightarrow> map_option WalSync syncErr))
                       (filter (\<lambda>i. wr_sync (batch ! i)) [0..<length batch]);
          Some (e\<lparr>e_wal := w\<rparr>, early, late) }"

section \<open>flusher.go\<close>

text \<open>
  One round of \<open>runFlusher\<close>; \<open>None\<close> inside means the flusher ends. \<open>MarkFlushed\<close> wakes those that wait for the table that
  has just left the queue; \<open>compactCh\<close> is whether a signal waits in the channel to the compactor.
\<close>

definition Flusher_round :: "'m eng_env \<Rightarrow> flush_in \<Rightarrow> (io_op \<Rightarrow> bool) \<Rightarrow> 'm Engine \<Rightarrow> 'm Engine option option" where
  "Flusher_round env fi fail e =
     do { im \<leftarrow> iq_Peek (immQueue e);
          (case im of
             None \<Rightarrow> Some None
           | Some im \<Rightarrow>
               do { e \<leftarrow> e_flush env fi e (ImmutableMemtable_ToRaw im) (im_maxLSN im);
                    let store = fst (Storage_PurgeUpTo fail (wal_store (e_wal e)) (im_maxLSN im));
                    Some (Some (e\<lparr>e_wal := (e_wal e)\<lparr>wal_store := store\<rparr>, immQueue := iq_PopFront (immQueue e),
                       compactCh := (if skipCompaction e then compactCh e else True)\<rparr>)) }) }"

text \<open>The rounds of the flusher that \<open>WaitForPendingFlushes\<close> waits for: one for each queued table.\<close>

fun flush_pending :: "'m eng_env \<Rightarrow> (nat \<Rightarrow> flush_in) \<Rightarrow> (io_op \<Rightarrow> bool) \<Rightarrow> nat \<Rightarrow> 'm Engine \<Rightarrow> 'm Engine option" where
  "flush_pending env fis fail 0 e = Some e"
| "flush_pending env fis fail (Suc n) e =
     do { r \<leftarrow> Flusher_round env (fis n) fail e;
          (case r of None \<Rightarrow> Some e | Some e \<Rightarrow> flush_pending env fis fail n e) }"

definition WaitForPendingFlushes :: "'m eng_env \<Rightarrow> (nat \<Rightarrow> flush_in) \<Rightarrow> (io_op \<Rightarrow> bool) \<Rightarrow> 'm Engine \<Rightarrow> 'm Engine option" where
  "WaitForPendingFlushes env fis fail e = flush_pending env fis fail (length (iq_Snapshot (immQueue e))) e"

text \<open>\<open>Shut\<close> after the writer has stopped: the flusher empties the closed queue and ends, then the log is synced.\<close>

definition Engine_Shut :: "'m eng_env \<Rightarrow> (nat \<Rightarrow> flush_in) \<Rightarrow> (io_op \<Rightarrow> bool) \<Rightarrow> (io_op \<Rightarrow> bool) \<Rightarrow> 'm Engine
    \<Rightarrow> ('m Engine \<times> wal_error option) option" where
  "Engine_Shut env fis fail sfail e =
     do { e \<leftarrow> drainActiveMem env e;
          let e = e\<lparr>immQueue := iq_Close (immQueue e)\<rparr>;
          e \<leftarrow> WaitForPendingFlushes env fis fail e;
          let (store, err) = Storage_Sync sfail (wal_store (e_wal e));
          Some (e\<lparr>e_wal := (e_wal e)\<lparr>wal_store := store\<rparr>\<rparr>, err) }"

section \<open>The compactor\<close>

definition SetSafeCompactionLSN :: "'m Engine \<Rightarrow> u64 \<Rightarrow> 'm Engine" where
  "SetSafeCompactionLSN e lsn = e\<lparr>safeCompactionLSN := lsn\<rparr>"

definition snapshotVersions :: "'m Engine \<Rightarrow> string list list" where
  "snapshotVersions e = versions e"

fun install_all :: "'m Engine \<Rightarrow> CompactionResult list \<Rightarrow> 'm Engine option" where
  "install_all e [] = Some e"
| "install_all e (r # rs) = do { e \<leftarrow> installCompaction e (cr_Level r) (cr_NewPath r) (cr_OldPaths r); install_all e rs }"

text \<open>One round of \<open>runCompactor\<close>, which waits (\<open>None\<close>) for a signal.\<close>

definition Compactor_round :: "'m eng_env \<Rightarrow> (nat \<Rightarrow> flush_in) \<Rightarrow> 'm Engine \<Rightarrow> 'm Engine option" where
  "Compactor_round env fis e =
     (if \<not> compactCh e then None
      else do { (disk, bm, results) \<leftarrow> CheckCompactionConditions (ee_sst env) (ee_xx env) (ee_LSMLevels env) (ee_CompactionThreshold env)
                  fis (e_disk e) (block_manager e) (dataRoot e) (snapshotVersions e) (safeCompactionLSN e);
                install_all (e\<lparr>compactCh := False, ss_writer := (ss_writer e)\<lparr>fw_disk := disk\<rparr>, block_manager := bm\<rparr>) results })"

section \<open>Start\<close>

fun Start_loop :: "'m eng_env \<Rightarrow> (nat \<Rightarrow> flush_in) \<Rightarrow> nat \<Rightarrow> 'm Engine \<Rightarrow> Entry list \<Rightarrow> 'm Engine option" where
  "Start_loop env fis n e [] = Some e"
| "Start_loop env fis n e (entry # entries) =
     (let value = (if e_Op entry = OpDelete then Tombstone else e_Value entry)
      in do { e \<leftarrow> applyWrite env (fis n) e (e_Key entry) value; Start_loop env fis (n + 1) e entries })"

text \<open>
  \<open>Start\<close> replays the log; when that fails it prints the error and starts no goroutine. \<open>fail\<close> decides for
  all segments alike, so a replay that fails has applied no entry.
\<close>

definition Engine_Start :: "'m eng_env \<Rightarrow> (nat \<Rightarrow> flush_in) \<Rightarrow> (io_op \<Rightarrow> bool) \<Rightarrow> 'm Engine \<Rightarrow> ('m Engine \<times> bool) option" where
  "Engine_Start env fis fail e =
     (case WAL_Replay fail (wal_store (e_wal e)) of
        Inl err \<Rightarrow> Some (e, False)
      | Inr entries \<Rightarrow> do { e \<leftarrow> Start_loop env fis 0 e entries; Some (e, True) })"

section \<open>read.go\<close>

text \<open>The loop over the tables of the levels, with the caches it leaves.\<close>

fun read_paths :: "'m eng_env \<Rightarrow> disk \<Rightarrow> TableCache \<Rightarrow> BlockManager \<Rightarrow> string \<Rightarrow> string list
    \<Rightarrow> (TableCache \<times> BlockManager \<times> (string \<times> bool) option) option" where
  "read_paths env disk tc bm key [] = Some (tc, bm, None)"
| "read_paths env disk tc bm key (path # paths) =
     do { (tc, bm, r) \<leftarrow> GetOrOpen (ee_xx env) disk tc bm path;
          (case r of
             Inl _ \<Rightarrow> read_paths env disk tc bm key paths
           | Inr reader \<Rightarrow>
               do { (bm, v) \<leftarrow> SSTable_Get (ee_sst env) (BlockManager_ReadAt (ee_xx env) disk) bm reader key;
                    (case v of
                       Inr (Some v) \<Rightarrow> Some (tc, bm, Some (if v = Tombstone then ('''', False) else (v, True)))
                     | _ \<Rightarrow> read_paths env disk tc bm key paths) }) }"

text \<open>The tables in the order of the search: level 0 reversed, the other levels as they are listed.\<close>

definition search_order :: "string list list \<Rightarrow> string list" where
  "search_order vs = concat (map (\<lambda>(i, paths). if i = 0 then reversedPaths paths else paths) (List.enumerate 0 vs))"

definition readFromSSTables :: "'m eng_env \<Rightarrow> 'm Engine \<Rightarrow> string \<Rightarrow> ('m Engine \<times> string \<times> bool) option" where
  "readFromSSTables env e key =
     do { (tc, bm, r) \<leftarrow> read_paths env (e_disk e) (tableCache e) (block_manager e) key (search_order (versions e));
          Some (e\<lparr>tableCache := tc, block_manager := bm\<rparr>, (case r of None \<Rightarrow> ('''', False) | Some x \<Rightarrow> x)) }"

fun read_immutables :: "ImmutableMemtable list \<Rightarrow> string \<Rightarrow> (string \<times> bool) option" where
  "read_immutables [] key = None"
| "read_immutables (im # ims) key =
     (case ImmutableMemtable_Get im key of
        (value, True) \<Rightarrow> Some (if value = Tombstone then ('''', False) else (value, True))
      | (_, False) \<Rightarrow> read_immutables ims key)"

definition Engine_Read :: "'m eng_env \<Rightarrow> int \<Rightarrow> 'm Engine \<Rightarrow> string \<Rightarrow> string
    \<Rightarrow> ('m Engine \<times> (eng_error + string \<times> bool)) option" where
  "Engine_Read env now e user key =
     (case e_limit now e user of
        (e, False) \<Rightarrow> Some (e, Inl (NotAllowed user))
      | (e, True) \<Rightarrow>
          do { r \<leftarrow> mo_Get (ee_ops env) (activeMem e) key;
               (case r of
                  (value, True) \<Rightarrow> Some (e, Inr (if value = Tombstone then ('''', False) else (value, True)))
                | (_, False) \<Rightarrow>
                    (case read_immutables (iq_Snapshot (immQueue e)) key of
                       Some x \<Rightarrow> Some (e, Inr x)
                     | None \<Rightarrow> do { (e, x) \<leftarrow> readFromSSTables env e key; Some (e, Inr x) })) })"

section \<open>scan.go, range\_scan.go and prefix\_scan.go\<close>

text \<open>The callback shared by the layers: the first layer that reports a key decides it.\<close>

definition scan_merge :: "KeyValue list \<Rightarrow> KeyValue list \<times> string list \<Rightarrow> KeyValue list \<times> string list" where
  "scan_merge calls acc =
     fold (\<lambda>(k, v) (results, seen). if k \<in> set seen then (results, seen)
             else (if v \<noteq> Tombstone then AList.update k v results else results, k # seen)) calls acc"

text \<open>The scan of the active memtable, which reports each key once.\<close>

definition scan_first :: "KeyValue list \<Rightarrow> KeyValue list \<times> string list" where
  "scan_first calls =
     fold (\<lambda>(k, v) (results, seen). (if v \<noteq> Tombstone then AList.update k v results else results, k # seen)) calls ([], [])"

fun scan_paths :: "'m eng_env \<Rightarrow> (BlockManager \<Rightarrow> SSTableReader \<Rightarrow> (BlockManager \<times> (sst_read_error + KeyValue list)) option)
    \<Rightarrow> disk \<Rightarrow> TableCache \<Rightarrow> BlockManager \<Rightarrow> KeyValue list \<times> string list \<Rightarrow> string list
    \<Rightarrow> (TableCache \<times> BlockManager \<times> KeyValue list \<times> string list) option" where
  "scan_paths env sstScan disk tc bm acc [] = Some (tc, bm, acc)"
| "scan_paths env sstScan disk tc bm acc (path # paths) =
     do { (tc, bm, r) \<leftarrow> GetOrOpen (ee_xx env) disk tc bm path;
          (case r of
             Inl _ \<Rightarrow> scan_paths env sstScan disk tc bm acc paths
           | Inr reader \<Rightarrow>
               do { (bm, res) \<leftarrow> sstScan bm reader;
                    (case res of
                       Inl _ \<Rightarrow> scan_paths env sstScan disk tc bm acc paths
                     | Inr calls \<Rightarrow> scan_paths env sstScan disk tc bm (scan_merge calls acc) paths) }) }"

definition Engine_scan :: "'m eng_env \<Rightarrow> 'm Engine \<Rightarrow> (string \<Rightarrow> bool)
    \<Rightarrow> (BlockManager \<Rightarrow> SSTableReader \<Rightarrow> (BlockManager \<times> (sst_read_error + KeyValue list)) option)
    \<Rightarrow> ('m Engine \<times> KeyValue list) option" where
  "Engine_scan env e keyPred sstScan =
     do { calls \<leftarrow> mo_Scan (ee_ops env) (activeMem e) keyPred;
          let acc = fold (\<lambda>im. scan_merge (ImmutableMemtable_Scan im keyPred)) (iq_Snapshot (immQueue e)) (scan_first calls);
          (tc, bm, results, seen) \<leftarrow> scan_paths env sstScan (e_disk e) (tableCache e) (block_manager e) acc (search_order (versions e));
          Some (e\<lparr>tableCache := tc, block_manager := bm\<rparr>, results) }"

definition sortedPairs :: "KeyValue list \<Rightarrow> KeyValue list" where
  "sortedPairs data = sort_key fst data"

text \<open>The page \<open>sorted[lo:hi]\<close>; bounds out of order or negative panic, as does the wrapped product.\<close>

definition page_of :: "KeyValue list \<Rightarrow> int \<Rightarrow> int \<Rightarrow> KeyValue list option" where
  "page_of pairs pageNum pageSize =
     (let lo = min (int (length pairs)) (wrap64 ((pageNum - 1) * pageSize));
          hi = min (int (length pairs)) (wrap64 (pageNum * pageSize))
      in if 0 \<le> lo \<and> lo \<le> hi then Some (take (nat (hi - lo)) (drop (nat lo) pairs)) else None)"

definition findAllRangeMatches :: "'m eng_env \<Rightarrow> 'm Engine \<Rightarrow> string \<Rightarrow> string \<Rightarrow> ('m Engine \<times> KeyValue list) option" where
  "findAllRangeMatches env e start end' =
     Engine_scan env e (\<lambda>key. key \<ge> start \<and> key \<le> end')
       (\<lambda>bm r. SSTable_RangeScan (ee_sst env) (BlockManager_ReadAt (ee_xx env) (e_disk e)) bm r start end')"

definition findAllPrefixMatches :: "'m eng_env \<Rightarrow> 'm Engine \<Rightarrow> string \<Rightarrow> ('m Engine \<times> KeyValue list) option" where
  "findAllPrefixMatches env e pre =
     Engine_scan env e (\<lambda>key. matchesPrefix pre key)
       (\<lambda>bm r. SSTable_PrefixScan (ee_sst env) (BlockManager_ReadAt (ee_xx env) (e_disk e)) bm r pre)"

definition Engine_RangeScan :: "'m eng_env \<Rightarrow> int \<Rightarrow> 'm Engine \<Rightarrow> string \<Rightarrow> string \<Rightarrow> string \<Rightarrow> int \<Rightarrow> int
    \<Rightarrow> ('m Engine \<times> (eng_error + KeyValue list)) option" where
  "Engine_RangeScan env now e user start end' pageNum pageSize =
     (case e_limit now e user of
        (e, False) \<Rightarrow> Some (e, Inl (NotAllowed user))
      | (e, True) \<Rightarrow>
          do { (e, results) \<leftarrow> findAllRangeMatches env e start end';
               page \<leftarrow> page_of (sortedPairs results) pageNum pageSize;
               Some (e, Inr page) })"

definition Engine_PrefixScan :: "'m eng_env \<Rightarrow> int \<Rightarrow> 'm Engine \<Rightarrow> string \<Rightarrow> string \<Rightarrow> int \<Rightarrow> int
    \<Rightarrow> ('m Engine \<times> (eng_error + KeyValue list)) option" where
  "Engine_PrefixScan env now e user pre pageNum pageSize =
     (case e_limit now e user of
        (e, False) \<Rightarrow> Some (e, Inl (NotAllowed user))
      | (e, True) \<Rightarrow>
          do { (e, results) \<leftarrow> findAllPrefixMatches env e pre;
               page \<leftarrow> page_of (sortedPairs results) pageNum pageSize;
               Some (e, Inr page) })"

record Iterator =
  it_data :: "KeyValue list"
  it_index :: nat
  it_stopped :: bool

definition newIterator :: "KeyValue list \<Rightarrow> Iterator" where
  "newIterator results = \<lparr>it_data = sortedPairs results, it_index = 0, it_stopped = False\<rparr>"

definition Iterator_Next :: "Iterator \<Rightarrow> Iterator \<times> string \<times> string \<times> bool" where
  "Iterator_Next it =
     (if it_stopped it \<or> it_index it \<ge> length (it_data it) then (it, '''', '''', False)
      else (case it_data it ! it_index it of
              (key, value) \<Rightarrow> (it\<lparr>it_index := it_index it + 1\<rparr>, key, value, it_index it + 1 < length (it_data it))))"

definition Iterator_Stop :: "Iterator \<Rightarrow> Iterator" where
  "Iterator_Stop it = it\<lparr>it_stopped := True\<rparr>"

definition Iterator_Reset :: "Iterator \<Rightarrow> Iterator" where
  "Iterator_Reset it = it\<lparr>it_index := 0, it_stopped := False\<rparr>"

definition Iterator_HasNext :: "Iterator \<Rightarrow> bool" where
  "Iterator_HasNext it \<longleftrightarrow> \<not> it_stopped it \<and> it_index it < length (it_data it)"

definition RangeIterate :: "'m eng_env \<Rightarrow> int \<Rightarrow> 'm Engine \<Rightarrow> string \<Rightarrow> string \<Rightarrow> string \<Rightarrow> ('m Engine \<times> (eng_error + Iterator)) option" where
  "RangeIterate env now e user start end' =
     (case e_limit now e user of
        (e, False) \<Rightarrow> Some (e, Inl (NotAllowed user))
      | (e, True) \<Rightarrow> do { (e, results) \<leftarrow> findAllRangeMatches env e start end'; Some (e, Inr (newIterator results)) })"

definition PrefixIterate :: "'m eng_env \<Rightarrow> int \<Rightarrow> 'm Engine \<Rightarrow> string \<Rightarrow> string \<Rightarrow> ('m Engine \<times> (eng_error + Iterator)) option" where
  "PrefixIterate env now e user pre =
     (case e_limit now e user of
        (e, False) \<Rightarrow> Some (e, Inl (NotAllowed user))
      | (e, True) \<Rightarrow> do { (e, results) \<leftarrow> findAllPrefixMatches env e pre; Some (e, Inr (newIterator results)) })"

section \<open>snapshot.go\<close>

record Snapshot =
  sn_LSN :: u64
  sn_SSTables :: "SnapshotFile list"
  sn_released :: bool

text \<open>
  The loop over the live tables: every file is pinned, a file that cannot be found ends the loop with an
  error (the files pinned before it stay pinned).
\<close>

fun snapshot_loop :: "'m Engine \<Rightarrow> SnapshotFile list \<Rightarrow> (nat \<times> string) list \<Rightarrow> 'm Engine \<times> (eng_error + SnapshotFile list)" where
  "snapshot_loop e files [] = (e, Inr files)"
| "snapshot_loop e files ((level, path) # rest) =
     (case map_of (e_disk e) path of
        None \<Rightarrow> (e, Inl (SnapshotStat path))
      | Some f \<Rightarrow> snapshot_loop (pinFile e path)
                    (files @ [\<lparr>sf_Level = level, sf_Path = path, sf_Size = int (length f)\<rparr>]) rest)"

text \<open>
  \<open>TakeSnapshot\<close> after \<open>drainActiveMem\<close> and \<open>WaitForPendingFlushes\<close>, which waits for the rounds of the
  flusher that empty the queue.
\<close>

definition snapshot_versions :: "'m Engine \<Rightarrow> 'm Engine \<times> (eng_error + Snapshot)" where
  "snapshot_versions e =
     (let lsn = appendedLSN (wal_store (e_wal e));
          paths = concat (map (\<lambda>(l, ps). map (Pair l) ps) (List.enumerate 0 (versions e)))
      in case snapshot_loop e [] paths of
           (e, Inl err) \<Rightarrow> (e, Inl err)
         | (e, Inr files) \<Rightarrow> (e, Inr \<lparr>sn_LSN = lsn, sn_SSTables = files, sn_released = False\<rparr>))"

definition Engine_TakeSnapshot :: "'m eng_env \<Rightarrow> (nat \<Rightarrow> flush_in) \<Rightarrow> (io_op \<Rightarrow> bool) \<Rightarrow> 'm Engine
    \<Rightarrow> ('m Engine \<times> (eng_error + Snapshot)) option" where
  "Engine_TakeSnapshot env fis fail e =
     do { e \<leftarrow> drainActiveMem env e; e \<leftarrow> WaitForPendingFlushes env fis fail e; Some (snapshot_versions e) }"

definition Snapshot_Release :: "'m Engine \<Rightarrow> Snapshot \<Rightarrow> 'm Engine \<times> Snapshot" where
  "Snapshot_Release e s =
     (if sn_released s then (e, s) else (unpinFiles e (sn_SSTables s), s\<lparr>sn_released := True\<rparr>))"

end
