(* ===== verification/EngineStore.thy ===== *)
theory EngineStore
  imports Engine
begin

text \<open>
  The engine as a key-value store. The layers of an engine (active memtable, immutable tables newest
  first, tables newest first) are looked up in order; the invariant \<open>eng_inv\<close> ties the files, the readers the
  table cache holds and the block cache to the data of each table. Every step of the engine keeps
  the invariant and, writes apart, the store the layers represent.
\<close>

section \<open>Layers\<close>

text \<open>The first layer that knows a key decides it.\<close>

fun layers_get :: "(string \<rightharpoonup> string) list \<Rightarrow> string \<rightharpoonup> string" where
  "layers_get [] = Map.empty"
| "layers_get (l # ls) = layers_get ls ++ l"

text \<open>What a scan has gathered from the layers represented by \<open>m\<close>: the live pairs among the selected keys.\<close>

definition live :: "(string \<rightharpoonup> string) \<Rightarrow> (string \<Rightarrow> bool) \<Rightarrow> string \<rightharpoonup> string" where
  "live m P k = (if P k \<and> m k \<noteq> Some Tombstone then m k else None)"

definition scan_state :: "(string \<rightharpoonup> string) \<Rightarrow> (string \<Rightarrow> bool) \<Rightarrow> KeyValue list \<times> string list \<Rightarrow> bool" where
  "scan_state m P acc \<longleftrightarrow> gmap_ok (fst acc) \<and> map_of (fst acc) = live m P \<and> set (snd acc) = {k. P k \<and> m k \<noteq> None}"

lemma scan_state_cong: "(\<And>k. P k \<Longrightarrow> m k = m' k) \<Longrightarrow> scan_state m P acc = scan_state m' P acc"
proof -
  assume *: "\<And>k. P k \<Longrightarrow> m k = m' k"
  have "live m P = live m' P" using * by (auto simp: live_def fun_eq_iff)
  moreover have "{k. P k \<and> m k \<noteq> None} = {k. P k \<and> m' k \<noteq> None}" using * by auto
  ultimately show ?thesis by (simp only: scan_state_def)
qed

lemma scan_merge_step:
  assumes "scan_state m P (results, seen)" and "P k"
  shows "scan_state (\<lambda>j. if j = k \<and> m k = None then Some v else m j) P
           (if k \<in> set seen then (results, seen) else (if v \<noteq> Tombstone then AList.update k v results else results, k # seen))"
  using assms by (auto simp: scan_state_def live_def fun_eq_iff update_conv' split: if_splits)

lemma scan_merge_Cons: "scan_merge ((k, v) # d) (results, seen) = scan_merge d
    (if k \<in> set seen then (results, seen) else (if v \<noteq> Tombstone then AList.update k v results else results, k # seen))"
  by (simp add: scan_merge_def)

lemma scan_merge_state:
  assumes "scan_state m P acc" and "gmap_ok d"
  shows "scan_state (map_of d ++ m) P (scan_merge (filter (\<lambda>kv. P (fst kv)) d) acc)"
  using assms
proof (induction d arbitrary: m acc)
  case Nil
  then show ?case by (simp add: scan_merge_def)
next
  case (Cons kv d)
  obtain k v where kv: "kv = (k, v)" by (cases kv)
  obtain results seen where acc: "acc = (results, seen)" by (cases acc)
  have dk: "map_of d k = None" using Cons.prems(2) by (auto simp: kv map_of_eq_None_iff)
  show ?case
  proof (cases "P k")
    case True
    let ?m = "\<lambda>j. if j = k \<and> m k = None then Some v else m j"
    have "scan_state ?m P (if k \<in> set seen then (results, seen) else (if v \<noteq> Tombstone then AList.update k v results else results, k # seen))"
      by (rule scan_merge_step) (use Cons.prems(1) acc True in simp_all)
    note ih = Cons.IH [OF this]
    have "map_of d ++ ?m = map_of (kv # d) ++ m" using dk by (auto simp: kv map_add_def fun_eq_iff split: option.splits)
    then have "scan_state (map_of (kv # d) ++ m) P (scan_merge (filter (\<lambda>kv. P (fst kv)) d)
        (if k \<in> set seen then (results, seen) else (if v \<noteq> Tombstone then AList.update k v results else results, k # seen)))"
      using ih Cons.prems(2) by (simp only:) simp
    then show ?thesis unfolding acc scan_merge_Cons [symmetric] kv by (simp only: filter.simps True fst_conv if_True)
  next
    case False
    have "scan_state (map_of d ++ m) P (scan_merge (filter (\<lambda>kv. P (fst kv)) d) acc)" using Cons by simp
    moreover have "(map_of (kv # d) ++ m) j = (map_of d ++ m) j" if "P j" for j
      using False that by (auto simp: kv map_add_def split: option.splits)
    ultimately show ?thesis using False scan_state_cong [of P "map_of (kv # d) ++ m" "map_of d ++ m"] by (simp add: kv fun_upd_def)
  qed
qed

lemma scan_first_merge: "gmap_ok calls \<Longrightarrow> scan_first calls = scan_merge calls ([], [])"
proof -
  have "fold (\<lambda>(k, v) (results, seen). (if v \<noteq> Tombstone then AList.update k v results else results, k # seen)) calls (r, s)
      = scan_merge calls (r, s)" if "gmap_ok calls" "fst ` set calls \<inter> set s = {}" for r s
    using that
  proof (induction calls arbitrary: r s)
    case (Cons kv calls)
    then show ?case by (cases kv) (auto simp: scan_merge_def)
  qed (simp add: scan_merge_def)
  then show "gmap_ok calls \<Longrightarrow> ?thesis" by (simp add: scan_first_def)
qed

lemma scan_state_empty: "scan_state Map.empty P ([], [])"
  by (simp add: scan_state_def live_def fun_eq_iff)

text \<open>The sorted pairs depend only on the map.\<close>

lemma sortedPairs_eqI:
  assumes "gmap_ok xs" and "gmap_ok ys" and "map_of xs = map_of ys"
  shows "sortedPairs xs = sortedPairs ys"
proof (rule map_sorted_distinct_set_unique [where f = fst])
  show "inj_on fst (set (sortedPairs xs) \<union> set (sortedPairs ys))"
    using assms map_of_inject_set [OF assms(1,2)] by (simp add: sortedPairs_def distinct_map)
  show "distinct (map fst (sortedPairs xs))" "distinct (map fst (sortedPairs ys))"
    using assms by (simp_all add: sortedPairs_def distinct_map)
  show "set (sortedPairs xs) = set (sortedPairs ys)"
    using assms map_of_inject_set [OF assms(1,2)] by (simp add: sortedPairs_def)
qed (simp_all add: sortedPairs_def)

section \<open>Reading the tables\<close>

text \<open>\<open>dm\<close> names the data of each table; a path is a readable table, and every cached reader reads its data.\<close>

definition table_at :: "sst_env \<Rightarrow> disk \<Rightarrow> (string \<rightharpoonup> KeyValue list) \<Rightarrow> string \<Rightarrow> bool" where
  "table_at env disk dm p \<longleftrightarrow> (\<exists>d f n lsn. dm p = Some d \<and> keys_sorted d \<and> map_of disk p = Some f \<and> table_file env f d n lsn)"

definition tc_ok :: "sst_env \<Rightarrow> disk \<Rightarrow> (string \<rightharpoonup> KeyValue list) \<Rightarrow> TableCache \<Rightarrow> bool" where
  "tc_ok env disk dm tc \<longleftrightarrow>
     (\<forall>p r. map_of (tc_cache tc) p = Some r \<longrightarrow> (\<exists>d. dm p = Some d \<and> reader_of env (map_of disk) r d))"

text \<open>The caches together: what \<open>GetOrOpen\<close> and the reads keep.\<close>

definition caches_ok :: "'m eng_env \<Rightarrow> int \<Rightarrow> (string \<rightharpoonup> byte list) \<Rightarrow> disk \<Rightarrow> (string \<rightharpoonup> KeyValue list) \<Rightarrow> TableCache \<Rightarrow> BlockManager \<Rightarrow> bool" where
  "caches_ok env cap files disk dm tc bm \<longleftrightarrow> tc_ok (ee_sst env) disk dm tc
     \<and> bm_inv (ee_xx env) (int (se_BlockSize (ee_sst env))) cap files disk bm"

lemma bm_inv_close: "bm_inv xx bs cap files disk bm \<Longrightarrow> bm_inv xx bs cap files disk (BlockManager_CloseFile bm p)"
  by (auto simp: bm_inv_def bm_ok_def BlockManager_CloseFile_def map_of_delete split: if_splits)

lemma tc_ok_delete: "tc_ok env disk dm tc \<Longrightarrow> tc_ok env disk dm (tc\<lparr>tc_lru := l, tc_cache := AList.delete p (tc_cache tc)\<rparr>)"
  by (auto simp: tc_ok_def delete_conv' split: if_splits)

lemma caches_evictLocked:
  assumes "caches_ok env cap files disk dm tc bm"
  shows "caches_ok env cap files disk dm (fst (tc_evictLocked tc bm)) (snd (tc_evictLocked tc bm))"
  using assms tc_ok_delete bm_inv_close by (simp add: caches_ok_def tc_evictLocked_def Let_def)

lemma GetOrOpen_ok:
  assumes c: "caches_ok env cap files disk dm tc bm" and t: "table_at (ee_sst env) disk dm p"
  shows "\<exists>tc' bm' r. GetOrOpen (ee_xx env) disk tc bm p = Some (tc', bm', Inr r) \<and> caches_ok env cap files disk dm tc' bm'
     \<and> reader_of (ee_sst env) (map_of disk) r (the (dm p)) \<and> keys_sorted (the (dm p))"
proof -
  obtain d f n lsn where d: "dm p = Some d" "keys_sorted d" "map_of disk p = Some f" "table_file (ee_sst env) f d n lsn"
    using t by (auto simp: table_at_def)
  have tc: "tc_ok (ee_sst env) disk dm tc" and bm: "bm_inv (ee_xx env) (int (se_BlockSize (ee_sst env))) cap files disk bm"
    using c by (auto simp: caches_ok_def)
  show ?thesis
  proof (cases "map_of (tc_cache tc) p")
    case (Some r)
    then have "reader_of (ee_sst env) (map_of disk) r d" using tc d(1) by (force simp: tc_ok_def)
    then show ?thesis using c d Some by (simp add: GetOrOpen_def caches_ok_def tc_ok_def)
  next
    case None
    obtain bm' r where o: "SSTable_Open (BlockManager_ReadAt (ee_xx env) disk) disk bm p = Some (bm', Inr r)"
      "bm_inv (ee_xx env) (int (se_BlockSize (ee_sst env))) cap files disk bm'" "reader_of (ee_sst env) (map_of disk) r d"
      using bm.Open_table [OF bm refl d(3,4)] by blast
    let ?tc = "tc\<lparr>tc_lru := p # tc_lru tc, tc_cache := AList.update p r (tc_cache tc)\<rparr>"
    have ok: "caches_ok env cap files disk dm ?tc bm'"
      using tc o(2,3) d(1) by (auto simp: caches_ok_def tc_ok_def update_conv')
    show ?thesis using ok caches_evictLocked [OF ok] d o
      by (simp add: GetOrOpen_def None Let_def case_prod_beta)
  qed
qed

lemma read_paths_ok:
  assumes "caches_ok env cap files disk dm tc bm" and "\<forall>p\<in>set paths. table_at (ee_sst env) disk dm p"
  shows "\<exists>tc' bm'. read_paths env disk tc bm key paths = Some (tc', bm',
       map_option (\<lambda>v. visible (Some v)) (layers_get (map (\<lambda>p. map_of (the (dm p))) paths) key)) \<and> caches_ok env cap files disk dm tc' bm'"
  using assms
proof (induction paths arbitrary: tc bm)
  case Nil
  then show ?case by simp
next
  case (Cons p paths)
  obtain tc1 bm1 r where g: "GetOrOpen (ee_xx env) disk tc bm p = Some (tc1, bm1, Inr r)" "caches_ok env cap files disk dm tc1 bm1"
    "reader_of (ee_sst env) (map_of disk) r (the (dm p))" "keys_sorted (the (dm p))"
    using GetOrOpen_ok [OF Cons.prems(1)] Cons.prems(2) by force
  obtain bm2 where s: "SSTable_Get (ee_sst env) (BlockManager_ReadAt (ee_xx env) disk) bm1 r key = Some (bm2, Inr (map_of (the (dm p)) key))"
    "caches_ok env cap files disk dm tc1 bm2"
    using bm.Get_table [OF _ g(3,4), of "ee_xx env" _ cap files bm1 key] g(2) unfolding caches_ok_def by blast
  show ?case using Cons.IH [OF s(2)] Cons.prems(2) s
    by (cases "map_of (the (dm p)) key") (auto simp: g(1) visible_def map_add_def)
qed

text \<open>A table scan that reports the selected entries and keeps the block cache.\<close>

definition scans :: "'m eng_env \<Rightarrow> int \<Rightarrow> (string \<rightharpoonup> byte list) \<Rightarrow> disk \<Rightarrow> (string \<Rightarrow> bool)
    \<Rightarrow> (BlockManager \<Rightarrow> SSTableReader \<Rightarrow> (BlockManager \<times> (sst_read_error + KeyValue list)) option) \<Rightarrow> bool" where
  "scans env cap files disk P sstScan \<longleftrightarrow> (\<forall>bm r d. bm_inv (ee_xx env) (int (se_BlockSize (ee_sst env))) cap files disk bm
     \<and> reader_of (ee_sst env) (map_of disk) r d \<and> keys_sorted d \<longrightarrow>
     (\<exists>bm'. sstScan bm r = Some (bm', Inr (filter (\<lambda>kv. P (fst kv)) d)) \<and> bm_inv (ee_xx env) (int (se_BlockSize (ee_sst env))) cap files disk bm'))"

lemma scan_paths_ok:
  assumes "caches_ok env cap files disk dm tc bm" and "\<forall>p\<in>set paths. table_at (ee_sst env) disk dm p"
    and s: "scans env cap files disk P sstScan" and "scan_state m P acc"
  shows "\<exists>tc' bm' acc'. scan_paths env sstScan disk tc bm acc paths = Some (tc', bm', acc') \<and> caches_ok env cap files disk dm tc' bm'
     \<and> scan_state (layers_get (map (\<lambda>p. map_of (the (dm p))) paths) ++ m) P acc'"
  using assms(1,2,4)
proof (induction paths arbitrary: tc bm acc m)
  case Nil
  then show ?case by simp
next
  case (Cons p paths)
  obtain tc1 bm1 r where g: "GetOrOpen (ee_xx env) disk tc bm p = Some (tc1, bm1, Inr r)" "caches_ok env cap files disk dm tc1 bm1"
    "reader_of (ee_sst env) (map_of disk) r (the (dm p))" "keys_sorted (the (dm p))"
    using GetOrOpen_ok [OF Cons.prems(1)] Cons.prems(2) by force
  let ?d = "the (dm p)"
  obtain bm2 where b: "sstScan bm1 r = Some (bm2, Inr (filter (\<lambda>kv. P (fst kv)) ?d))" "caches_ok env cap files disk dm tc1 bm2"
    using s g(2,3,4) unfolding scans_def caches_ok_def by blast
  have st: "scan_state (map_of ?d ++ m) P (scan_merge (filter (\<lambda>kv. P (fst kv)) ?d) acc)"
    using scan_merge_state [OF Cons.prems(3)] keys_sorted_distinct [OF g(4)] by blast
  show ?case using Cons.IH [OF b(2) _ st] Cons.prems(2) by (simp add: g(1) b(1) map_add_assoc)
qed

section \<open>Steps of the engine\<close>

text \<open>The final name of the table a writer of the directory makes with a fresh identifier.\<close>

definition table_path :: "string \<Rightarrow> string \<Rightarrow> string" where
  "table_path dir uuid = filepath_Join dir (''sstable/lvl0/sstable_'' @ uuid @ ''.db'')"

text \<open>
  A flush without I/O errors: the filter sizes are usable, the next identifier is new and files are
  within the range of \<open>int64\<close>.
\<close>

definition flush_ok :: "'m eng_env \<Rightarrow> flush_in \<Rightarrow> 'm Engine \<Rightarrow> 'm Engine \<Rightarrow> bool" where
  "flush_ok env fi e e' \<longleftrightarrow> fi_fail fi = no_sfail \<and> (\<forall>im\<in>set (iq_items (immQueue e)). env_ok (ee_sst env) (length (im_data im)))
     \<and> table_path (dataRoot e') (fi_uuid fi) \<notin> fst ` set (e_disk e') \<and> (\<forall>f\<in>snd ` set (e_disk e'). length f < 2 ^ 63)"

text \<open>
  The steps of the engine's goroutines and clients, compaction apart, with the writes they apply. A write that finds the queue full waits
  for a step of the flusher.
\<close>

inductive eng_step :: "'m eng_env \<Rightarrow> 'm Engine \<Rightarrow> KeyValue list \<Rightarrow> 'm Engine \<Rightarrow> bool" for env where
  es_write: "applyWriteToMem env now fail e user key value = Some (e', res) \<Longrightarrow>
     eng_step env e (case res of Inl _ \<Rightarrow> [] | Inr _ \<Rightarrow> [(key, value)]) e'"
| es_sync: "WaitDurable fails (e_wal e) lsn = Some (w, err) \<Longrightarrow> eng_step env e [] (e\<lparr>e_wal := w\<rparr>)"
| es_drain: "drainActiveMem env e = Some e' \<Longrightarrow> eng_step env e [] e'"
| es_flush: "Flusher_round env fi fail e = Some (Some e') \<Longrightarrow> flush_ok env fi e e' \<Longrightarrow> eng_step env e [] e'"
| es_read: "Engine_Read env now e user key = Some (e', res) \<Longrightarrow> eng_step env e [] e'"
| es_range: "Engine_RangeScan env now e user start stop pageNum pageSize = Some (e', page) \<Longrightarrow> eng_step env e [] e'"
| es_prefix: "Engine_PrefixScan env now e user pre pageNum pageSize = Some (e', page) \<Longrightarrow> eng_step env e [] e'"
| es_range_iter: "RangeIterate env now e user start stop = Some (e', it) \<Longrightarrow> eng_step env e [] e'"
| es_prefix_iter: "PrefixIterate env now e user pre = Some (e', it) \<Longrightarrow> eng_step env e [] e'"
| es_snapshot: "snapshot_versions e = (e', sn) \<Longrightarrow> eng_step env e [] e'"
| es_release: "Snapshot_Release e s = (e', s') \<Longrightarrow> eng_step env e [] e'"

inductive eng_run :: "'m eng_env \<Rightarrow> 'm Engine \<Rightarrow> KeyValue list \<Rightarrow> 'm Engine \<Rightarrow> bool" for env e0 where
  er_start: "eng_run env e0 [] e0"
| er_step: "eng_run env e0 ws e \<Longrightarrow> eng_step env e w e' \<Longrightarrow> eng_run env e0 (ws @ w) e'"

lemma table_path_tmp: "filepath_Join dir (generateFileName 0 uuid) = table_path dir uuid @ ''.tmp''"
proof -
  have "FormatUint10 0 = ''0''" by code_simp
  then show ?thesis by (simp add: table_path_def filepath_Join_def generateFileName_def)
qed

lemma e_limit_cong:
  assumes "e_limit now e user = (e', b)"
  shows "\<exists>ul. e' = e\<lparr>userLimiter := ul\<rparr>"
  using assms by (cases "skipRateLimit e") (auto simp: e_limit_def split: prod.splits intro: exI [of _ "userLimiter e"])

section \<open>The invariant\<close>

context memtable
begin

text \<open>The tables of level 0 are the files; the writer's next file is new.\<close>

definition disk_inv :: "'m eng_env \<Rightarrow> (string \<rightharpoonup> KeyValue list) \<Rightarrow> 'm Engine \<Rightarrow> string list \<Rightarrow> bool" where
  "disk_inv env dm e paths \<longleftrightarrow> (\<forall>p\<in>set paths. table_at (ee_sst env) (e_disk e) dm p \<and> (\<exists>q. p = q @ ''.db''))
     \<and> dom (map_of (e_disk e)) = set paths \<and> dom dm = set paths \<and> fw_fresh (se_BlockSize (ee_sst env)) (ss_writer e)
     \<and> fw_dataRoot (ss_writer e) = dataRoot e
     \<and> (\<exists>uuid. fw_location (ss_writer e) = table_path (dataRoot e) uuid @ ''.tmp'' \<and> table_path (dataRoot e) uuid \<notin> set paths)"

definition mem_inv :: "'m Engine \<Rightarrow> bool" where
  "mem_inv e \<longleftrightarrow> ok (activeMem e) \<and> \<not> iq_closed (immQueue e)
     \<and> (\<forall>im\<in>set (iq_items (immQueue e)). keys_sorted (im_data im) \<and> im_data im \<noteq> [])"

definition eng_inv :: "'m eng_env \<Rightarrow> int \<Rightarrow> (string \<rightharpoonup> KeyValue list) \<Rightarrow> 'm Engine \<Rightarrow> bool" where
  "eng_inv env cap dm e \<longleftrightarrow> ee_ops env = ops \<and> mem_inv e \<and> deferredDeletes e = []
     \<and> (\<exists>paths n. versions e = paths # replicate n [] \<and> disk_inv env dm e paths)
     \<and> (\<forall>files. map_of (e_disk e) \<subseteq>\<^sub>m files \<and> collision_free (ee_xx env) (int (se_BlockSize (ee_sst env))) files \<longrightarrow>
          caches_ok env cap files (e_disk e) dm (tableCache e) (block_manager e))"

definition eng_layers :: "(string \<rightharpoonup> KeyValue list) \<Rightarrow> 'm Engine \<Rightarrow> (string \<rightharpoonup> string) list" where
  "eng_layers dm e = content (activeMem e) # map (\<lambda>im. map_of (im_data im)) (rev (iq_items (immQueue e)))
     @ map (\<lambda>p. map_of (the (dm p))) (search_order (versions e))"

abbreviation eng_map :: "(string \<rightharpoonup> KeyValue list) \<Rightarrow> 'm Engine \<Rightarrow> string \<rightharpoonup> string" where
  "eng_map dm e \<equiv> layers_get (eng_layers dm e)"

lemma layers_get_append [simp]: "layers_get (xs @ ys) = layers_get ys ++ layers_get xs"
  by (induction xs) (simp_all add: map_add_assoc)

lemma search_order_level0 [simp]: "search_order (paths # replicate n []) = rev paths"
proof -
  have "concat (map (\<lambda>(i, ps). if i = 0 then reversedPaths ps else ps) (List.enumerate (Suc k) (replicate n []))) = []" for k
    by (induction n arbitrary: k) auto
  then show ?thesis by (simp add: search_order_def reversedPaths_def)
qed

text \<open>Changes to the rest of the state do not matter.\<close>

lemma eng_inv_cong:
  assumes "eng_inv env cap dm e" and "activeMem e' = activeMem e" and "immQueue e' = immQueue e" and "ss_writer e' = ss_writer e"
    and "block_manager e' = block_manager e" and "tableCache e' = tableCache e" and "versions e' = versions e"
    and "dataRoot e' = dataRoot e" and "deferredDeletes e' = []"
  shows "eng_inv env cap dm e' \<and> eng_map dm e' = eng_map dm e"
  using assms unfolding eng_inv_def mem_inv_def disk_inv_def eng_layers_def by simp

lemma add_inv:
  assumes inv: "eng_inv env cap dm e" and a: "mo_Add ops (activeMem e) k v = Some mem"
  shows "eng_inv env cap dm (e\<lparr>activeMem := mem\<rparr>) \<and> eng_map dm (e\<lparr>activeMem := mem\<rparr>) = (eng_map dm e)(k \<mapsto> v)
     \<and> ok mem \<and> content mem k = Some v"
proof -
  have m: "ok mem" "content mem = (content (activeMem e))(k \<mapsto> v)"
    using add_content [of "activeMem e" k v] inv a by (auto simp: eng_inv_def mem_inv_def)
  then show ?thesis using inv by (simp add: eng_inv_def mem_inv_def disk_inv_def eng_layers_def)
qed

lemma push_inv:
  assumes inv: "eng_inv env cap dm e" and raw: "mo_ToRaw ops (activeMem e) = Some r" "r \<noteq> []"
    and q: "iq_Push (immQueue e) (NewImmutableMemtable r lsn) = Some q"
  shows "eng_inv env cap dm (swapActiveMem env (e\<lparr>immQueue := q\<rparr>))
     \<and> eng_map dm (swapActiveMem env (e\<lparr>immQueue := q\<rparr>)) = eng_map dm e"
proof -
  have mem: "ok (activeMem e)" "\<not> iq_closed (immQueue e)" and ops: "ee_ops env = ops" using inv by (auto simp: eng_inv_def mem_inv_def)
  have r: "gmap_ok r" using memtable_axioms raw mem(1) by (metis memtable.raw option.inject)
  have qe: "q = (immQueue e)\<lparr>iq_items := iq_items (immQueue e) @ [NewImmutableMemtable r lsn]\<rparr>"
    using q mem(2) by (auto simp: iq_Push_def split: if_splits)
  have im: "keys_sorted (im_data (NewImmutableMemtable r lsn))" "im_data (NewImmutableMemtable r lsn) \<noteq> []"
    "map_of (im_data (NewImmutableMemtable r lsn)) = content (activeMem e)"
    using SortByKeys_props [OF r] raw(2) content_raw [OF raw(1)] by (auto simp: NewImmutableMemtable_def SortByKeys_def)
  have "eng_map dm (swapActiveMem env (e\<lparr>immQueue := q\<rparr>)) = eng_map dm e"
    by (simp add: eng_layers_def swapActiveMem_def qe im(3) ops content_new)
  moreover have "eng_inv env cap dm (swapActiveMem env (e\<lparr>immQueue := q\<rparr>))"
    using inv im(1,2) new(1) by (auto simp: eng_inv_def mem_inv_def disk_inv_def swapActiveMem_def qe ops)
  ultimately show ?thesis by blast
qed

lemma write_inv:
  assumes inv: "eng_inv env cap dm e" and w: "applyWriteToMem env now fail e user key value = Some (e', res)"
  shows "eng_inv env cap dm e' \<and> eng_map dm e' = (case res of Inl _ \<Rightarrow> eng_map dm e | Inr _ \<Rightarrow> (eng_map dm e)(key \<mapsto> value))"
proof -
  obtain e1 b where l: "e_limit now e user = (e1, b)" by (cases "e_limit now e user")
  obtain ul where e1: "e1 = e\<lparr>userLimiter := ul\<rparr>" using e_limit_cong [OF l] by blast
  have ops: "ee_ops env = ops" and dd: "deferredDeletes e = []" using inv by (auto simp: eng_inv_def)
  have i1: "eng_inv env cap dm (e1\<lparr>e_wal := w\<rparr>) \<and> eng_map dm (e1\<lparr>e_wal := w\<rparr>) = eng_map dm e" for w
    by (rule eng_inv_cong [OF inv]) (simp_all add: e1 dd)
  show ?thesis
  proof (cases b)
    case False
    then show ?thesis using w l i1 [of "e_wal e1"] by (auto simp: applyWriteToMem_def)
  next
    case True
    obtain store r where a: "(if value = Tombstone then WAL_AppendDelete fail (wal_store (e_wal e1)) key
          else WAL_AppendPut fail (wal_store (e_wal e1)) key value) = (store, r)" by (meson surj_pair)
    let ?e = "e1\<lparr>e_wal := (e_wal e1)\<lparr>wal_store := store\<rparr>\<rparr>"
    have w': "(case r of Inl err \<Rightarrow> Some (?e, Inl (WalWrite err)) | Inr lsn \<Rightarrow>
        do { mem \<leftarrow> mo_Add ops (activeMem e1) key value;
             if mo_GetSize ops mem \<ge> ee_MemtableSize env
             then do { raw \<leftarrow> mo_ToRaw ops mem; q \<leftarrow> iq_Push (immQueue e1) (NewImmutableMemtable raw lsn);
                       Some (swapActiveMem env (?e\<lparr>activeMem := mem, immQueue := q\<rparr>), Inr lsn) }
             else Some (?e\<lparr>activeMem := mem\<rparr>, Inr lsn) }) = Some (e', res)"
      using w unfolding applyWriteToMem_def by (simp add: l True a ops Let_def cong: if_cong sum.case_cong)
    show ?thesis
    proof (cases r)
      case (Inl err)
      then show ?thesis using w' i1 by auto
    next
      case (Inr lsn)
      have i2: "eng_inv env cap dm ?e" "eng_map dm ?e = eng_map dm e" using i1 by blast+
      obtain mem where m: "mo_Add ops (activeMem ?e) key value = Some mem" using w' Inr ops by (cases "mo_Add ops (activeMem e1) key value") auto
      note i3 = add_inv [OF i2(1) m]
      obtain raw where raw: "mo_ToRaw ops mem = Some raw" using i3 memtable_axioms by (metis memtable.raw)
      have "raw \<noteq> []" using i3 content_raw [OF raw] by auto
      note p = push_inv [OF conjunct1 [OF i3], unfolded select_convs, OF _ this, of lsn]
      show ?thesis
      proof (cases "mo_GetSize ops mem \<ge> ee_MemtableSize env")
        case True
        then obtain q where "iq_Push (immQueue e1) (NewImmutableMemtable raw lsn) = Some q" "res = Inr lsn"
          "e' = swapActiveMem env (?e\<lparr>activeMem := mem, immQueue := q\<rparr>)"
          using w' Inr ops m raw by (auto split: bind_splits)
        then show ?thesis using p raw i3 i2(2) by auto
      next
        case False
        then show ?thesis using w' Inr ops m raw i3 i2(2) by auto
      qed
    qed
  qed
qed

lemma drain_inv:
  assumes inv: "eng_inv env cap dm e" and d: "drainActiveMem env e = Some e'"
  shows "eng_inv env cap dm e' \<and> eng_map dm e' = eng_map dm e"
proof (cases "mo_GetSize ops (activeMem e) = 0")
  case True
  then show ?thesis using inv d by (simp add: drainActiveMem_def eng_inv_def)
next
  case False
  have ok: "ok (activeMem e)" and ops: "ee_ops env = ops" using inv by (auto simp: eng_inv_def mem_inv_def)
  obtain r where r: "mo_ToRaw ops (activeMem e) = Some r" using raw [OF ok] by blast
  have "r \<noteq> []" using size [OF ok r] False by auto
  then show ?thesis using push_inv [OF inv r] d False r ops by (auto simp: drainActiveMem_def split: bind_splits)
qed

text \<open>New files and new data of tables keep what is known of the old ones.\<close>

lemma table_at_mono:
  assumes "table_at env disk dm p" and "map_of disk \<subseteq>\<^sub>m map_of disk'" and "dm \<subseteq>\<^sub>m dm'"
  shows "table_at env disk' dm' p \<and> dm' p = dm p"
  using assms unfolding table_at_def map_le_def by (metis domI)

lemma reader_of_mono: "reader_of env files r d \<Longrightarrow> files \<subseteq>\<^sub>m files' \<Longrightarrow> reader_of env files' r d"
  unfolding reader_of_def map_le_def by (metis domI)

lemma caches_mono:
  assumes "caches_ok env cap files disk dm tc bm" and "map_of disk \<subseteq>\<^sub>m map_of disk'" and "dm \<subseteq>\<^sub>m dm'"
    and "map_of disk' \<subseteq>\<^sub>m files"
  shows "caches_ok env cap files disk' dm' tc bm"
proof -
  have "tc_ok (ee_sst env) disk' dm' tc"
    using assms(1,3) reader_of_mono [OF _ assms(2)] unfolding caches_ok_def tc_ok_def map_le_def by (metis domI)
  then show ?thesis using assms(1,4) by (auto simp: caches_ok_def bm_inv_def)
qed

lemma flush_disk:
  assumes inv: "disk_inv env dm e paths" and so: "keys_sorted d" and ne: "d \<noteq> []"
    and env: "env_ok (ee_sst env) (length d)" and fl: "fi_fail fi = no_sfail"
    and f: "e_flush env fi e d lsn = Some e'" and v: "versions e = paths # vs"
    and fresh: "table_path (dataRoot e') (fi_uuid fi) \<notin> fst ` set (e_disk e')" and len: "\<forall>f\<in>snd ` set (e_disk e'). length f < 2 ^ 63"
  shows "\<exists>path. path \<notin> set paths \<and> disk_inv env (dm(path \<mapsto> d)) e' (paths @ [path]) \<and> versions e' = (paths @ [path]) # vs
     \<and> map_of (e_disk e) \<subseteq>\<^sub>m map_of (e_disk e') \<and> (\<exists>fw vs'. e' = e\<lparr>ss_writer := fw, versions := vs'\<rparr>)"
proof -
  let ?bs = "se_BlockSize (ee_sst env)"
  obtain uuid where u: "fw_location (ss_writer e) = table_path (dataRoot e) uuid @ ''.tmp''" "table_path (dataRoot e) uuid \<notin> set paths"
    and fw: "fw_fresh ?bs (ss_writer e)" and dr: "fw_dataRoot (ss_writer e) = dataRoot e" and dom: "dom (map_of (e_disk e)) = set paths"
    and dd: "dom dm = set paths" and tabs: "\<forall>p\<in>set paths. table_at (ee_sst env) (e_disk e) dm p \<and> (\<exists>q. p = q @ ''.db'')"
    using inv by (auto simp: disk_inv_def)
  let ?p = "table_path (dataRoot e) uuid"
  obtain fw' bytes where w: "FlushMemtable (ee_sst env) no_sfail (fi_ts1 fi) (fi_ts2 fi) (fi_uuid fi) (ss_writer e) d lsn = Some (fw', ?p)"
    "length bytes < 2 ^ 63 \<longrightarrow> table_file (ee_sst env) bytes d (int (length d)) lsn"
    "map_of (fw_disk fw') = (map_of (e_disk e))(fw_location (ss_writer e) := None, ?p \<mapsto> bytes)"
    "fw_fresh ?bs fw'" "fw_dataRoot fw' = dataRoot e" "fw_location fw' = table_path (dataRoot e) (fi_uuid fi) @ ''.tmp''"
    using FlushMemtable_table [OF env fw ne u(1), of "fi_ts1 fi" "fi_ts2 fi" "fi_uuid fi" lsn] unfolding dr table_path_tmp by blast
  have e': "e' = e\<lparr>ss_writer := fw', versions := (paths @ [?p]) # vs\<rparr>"
    using f w(1) fl by (simp add: e_flush_def registerSSTable_def v)
  have notin: "fw_location (ss_writer e) \<notin> set paths" using tabs by (auto simp: u(1))
  then have tmp: "map_of (e_disk e) (fw_location (ss_writer e)) = None" using dom by auto
  have m: "map_of (e_disk e') = (map_of (e_disk e))(?p \<mapsto> bytes)" using w(3) tmp by (simp add: e' fun_upd_idem)
  have p0: "map_of (e_disk e) ?p = None" using u(2) dom by auto
  then have le: "map_of (e_disk e) \<subseteq>\<^sub>m map_of (e_disk e')" unfolding m by (auto simp: map_le_def)
  have dmle: "table_at (ee_sst env) (e_disk e') (dm(?p \<mapsto> d)) q \<and> (\<exists>r. q = r @ ''.db'')" if "q \<in> set paths" for q
  proof -
    have "table_at (ee_sst env) (e_disk e') dm q" "q \<noteq> ?p" using table_at_mono [OF _ le map_le_refl] tabs that u(2) by auto
    then show ?thesis using tabs that by (auto simp: table_at_def)
  qed
  have "(?p, bytes) \<in> set (e_disk e')" using m by (metis fun_upd_same map_of_SomeD)
  then have "table_file (ee_sst env) bytes d (int (length d)) lsn" using w(2) len by force
  then have new: "table_at (ee_sst env) (e_disk e') (dm(?p \<mapsto> d)) ?p" using so m by (auto simp: table_at_def)
  have "?p = (dataRoot e @ ''/sstable/lvl0/sstable_'' @ uuid) @ ''.db''" by (simp add: table_path_def filepath_Join_def)
  then have db: "\<exists>q. ?p = q @ ''.db''" by blast
  have dom': "dom (map_of (e_disk e')) = set (paths @ [?p])" using m dom by simp
  then have "table_path (dataRoot e) (fi_uuid fi) \<notin> set (paths @ [?p])"
    using fresh unfolding dom_map_of_conv_image_fst [symmetric] by (simp add: e')
  then have "disk_inv env (dm(?p \<mapsto> d)) e' (paths @ [?p])"
    using dmle new db dom' dd w(4,5,6) unfolding disk_inv_def by (auto simp: e')
  then show ?thesis using u(2) le e' by (intro exI [of _ ?p]) (auto simp: e')
qed

lemma flush_inv:
  assumes inv: "eng_inv env cap dm e" and r: "Flusher_round env fi fail e = Some (Some e')" and fo: "flush_ok env fi e e'"
  shows "\<exists>dm'. eng_inv env cap dm' e' \<and> eng_map dm' e' = eng_map dm e"
proof -
  obtain im ims where q: "iq_items (immQueue e) = im # ims"
    using r by (cases "iq_items (immQueue e)") (auto simp: Flusher_round_def iq_Peek_def split: if_splits)
  obtain e1 where e1: "e_flush env fi e (im_data im) (im_maxLSN im) = Some e1" and
    e': "e' = e1\<lparr>e_wal := (e_wal e1)\<lparr>wal_store := fst (Storage_PurgeUpTo fail (wal_store (e_wal e1)) (im_maxLSN im))\<rparr>, immQueue := iq_PopFront (immQueue e1),
        compactCh := (if skipCompaction e1 then compactCh e1 else True)\<rparr>"
    using r by (auto simp: Flusher_round_def iq_Peek_def q ImmutableMemtable_ToRaw_def Let_def split: bind_splits)
  obtain paths n where v: "versions e = paths # replicate n []" and di: "disk_inv env dm e paths" using inv by (auto simp: eng_inv_def)
  have mem: "mem_inv e" and imok: "keys_sorted (im_data im)" "im_data im \<noteq> []" using inv q by (auto simp: eng_inv_def mem_inv_def)
  have fo': "fi_fail fi = no_sfail" "env_ok (ee_sst env) (length (im_data im))"
    "table_path (dataRoot e1) (fi_uuid fi) \<notin> fst ` set (e_disk e1)" "\<forall>f\<in>snd ` set (e_disk e1). length f < 2 ^ 63"
    using fo by (auto simp: flush_ok_def q e')
  obtain path fw vs' where p: "path \<notin> set paths" "disk_inv env (dm(path \<mapsto> im_data im)) e1 (paths @ [path])"
    "versions e1 = (paths @ [path]) # replicate n []" "map_of (e_disk e) \<subseteq>\<^sub>m map_of (e_disk e1)" and fr: "e1 = e\<lparr>ss_writer := fw, versions := vs'\<rparr>"
    using flush_disk [OF di imok fo'(2,1) e1 v fo'(3,4)] by blast
  let ?dm = "dm(path \<mapsto> im_data im)"
  have disk: "e_disk e' = e_disk e1" by (simp add: e')
  have "dm path = None" using di p(1) by (auto simp: disk_inv_def)
  then have dle: "dm \<subseteq>\<^sub>m ?dm" by (auto simp: map_le_def)
  have ca: "caches_ok env cap files (e_disk e') ?dm (tableCache e') (block_manager e')"
    if f: "map_of (e_disk e') \<subseteq>\<^sub>m files" "collision_free (ee_xx env) (int (se_BlockSize (ee_sst env))) files" for files
  proof -
    have "map_of (e_disk e) \<subseteq>\<^sub>m files" using p(4) f(1) disk map_le_trans by metis
    then have c: "caches_ok env cap files (e_disk e) dm (tableCache e) (block_manager e)" using inv f(2) by (auto simp: eng_inv_def)
    have "caches_ok env cap files (e_disk e1) ?dm (tableCache e) (block_manager e)"
      by (rule caches_mono [OF c p(4) dle]) (use f(1) disk in simp)
    then show ?thesis by (simp add: e' fr)
  qed
  have old: "map (\<lambda>p. map_of (the (?dm p))) (rev paths) = map (\<lambda>p. map_of (the (dm p))) (rev paths)"
    using p(1) by (intro map_cong) auto
  have "eng_map ?dm (e'\<lparr>versions := (paths @ [path]) # replicate n []\<rparr>) = eng_map dm e"
    unfolding eng_layers_def v e' by (simp add: fr q iq_PopFront_def old del: fun_upd_apply map_map) (simp add: map_add_assoc)
  then have m: "eng_map ?dm e' = eng_map dm e" using p(3) by (simp add: e' eng_layers_def)
  have "mem_inv e'" using mem q by (auto simp: mem_inv_def e' fr iq_PopFront_def)
  moreover have "disk_inv env ?dm e' (paths @ [path])" using p(2) by (simp add: disk_inv_def e')
  ultimately have "eng_inv env cap ?dm e'" using inv ca p(3) unfolding eng_inv_def by (auto simp: e' fr)
  then show ?thesis using m by blast
qed

text \<open>Reads and scans change only the limiter and the caches.\<close>

definition files_for :: "'m eng_env \<Rightarrow> 'm Engine \<Rightarrow> (string \<rightharpoonup> byte list) \<Rightarrow> bool" where
  "files_for env e files \<longleftrightarrow> map_of (e_disk e) \<subseteq>\<^sub>m files \<and> collision_free (ee_xx env) (int (se_BlockSize (ee_sst env))) files"

abbreviation e_caches :: "'m eng_env \<Rightarrow> int \<Rightarrow> (string \<rightharpoonup> byte list) \<Rightarrow> (string \<rightharpoonup> KeyValue list) \<Rightarrow> 'm Engine \<Rightarrow> bool" where
  "e_caches env cap files dm e \<equiv> caches_ok env cap files (e_disk e) dm (tableCache e) (block_manager e)"

lemma eng_inv_caches: "eng_inv env cap dm e \<Longrightarrow> files_for env e files \<Longrightarrow> e_caches env cap files dm e"
  by (simp add: eng_inv_def files_for_def)

lemma caches_inv:
  assumes inv: "eng_inv env cap dm e" and e': "e' = e\<lparr>userLimiter := ul, tableCache := tc, block_manager := bm\<rparr>"
    and c: "\<And>files. files_for env e files \<Longrightarrow> e_caches env cap files dm e'"
  shows "eng_inv env cap dm e' \<and> eng_map dm e' = eng_map dm e"
proof -
  have "\<forall>files. map_of (e_disk e') \<subseteq>\<^sub>m files \<and> collision_free (ee_xx env) (int (se_BlockSize (ee_sst env))) files \<longrightarrow>
          caches_ok env cap files (e_disk e') dm (tableCache e') (block_manager e')"
    using c by (simp add: files_for_def e')
  then show ?thesis using inv unfolding eng_inv_def by (simp add: e' mem_inv_def disk_inv_def eng_layers_def)
qed

lemma search_tables:
  assumes "eng_inv env cap dm e"
  shows "\<forall>p\<in>set (search_order (versions e)). table_at (ee_sst env) (e_disk e) dm p"
  using assms by (auto simp: eng_inv_def disk_inv_def)

lemma read_immutables_get:
  assumes "\<forall>im\<in>set ims. keys_sorted (im_data im)"
  shows "read_immutables ims key = (case find (\<lambda>im. snd (visible (map_of (im_data im) key))) ims of
      None \<Rightarrow> None | Some im \<Rightarrow> Some (visible (map_of (im_data im) key)))"
  using assms
proof (induction ims)
  case (Cons im ims)
  then show ?case
    by (cases "map_of (im_data im) key") (auto simp: Immutable_Get_sorted visible_def)
qed simp

text \<open>What a read returns: the newest live value in memory, else the newest value of the tables unless it is a tombstone.\<close>

definition read_mem :: "'m Engine \<Rightarrow> string \<Rightarrow> (string \<times> bool) option" where
  "read_mem e key = (case visible (content (activeMem e) key) of
      (v, True) \<Rightarrow> Some (v, True) | (_, False) \<Rightarrow> read_immutables (rev (iq_items (immQueue e))) key)"

definition read_value :: "(string \<rightharpoonup> KeyValue list) \<Rightarrow> 'm Engine \<Rightarrow> string \<Rightarrow> string \<times> bool" where
  "read_value dm e key = (case read_mem e key of Some x \<Rightarrow> x
     | None \<Rightarrow> visible (layers_get (map (\<lambda>p. map_of (the (dm p))) (search_order (versions e))) key))"

lemma Engine_Read_ok:
  assumes inv: "eng_inv env cap dm e" and c: "e_caches env cap files dm e" and l: "e_limit now e user = (e1, True)"
  shows "\<exists>tc bm. Engine_Read env now e user key = Some (e1\<lparr>tableCache := tc, block_manager := bm\<rparr>, Inr (read_value dm e key))
     \<and> caches_ok env cap files (e_disk e) dm tc bm"
proof -
  obtain ul where e1: "e1 = e\<lparr>userLimiter := ul\<rparr>" using e_limit_cong [OF l] by blast
  have ops: "ee_ops env = ops" and ok: "ok (activeMem e)" using inv by (auto simp: eng_inv_def mem_inv_def)
  obtain tc bm where rp: "read_paths env (e_disk e) (tableCache e) (block_manager e) key (search_order (versions e)) = Some (tc, bm,
       map_option (\<lambda>v. visible (Some v)) (layers_get (map (\<lambda>p. map_of (the (dm p))) (search_order (versions e))) key))"
    "caches_ok env cap files (e_disk e) dm tc bm"
    using read_paths_ok [OF c search_tables [OF inv], of key] by blast
  have rs: "readFromSSTables env e1 key = Some (e1\<lparr>tableCache := tc, block_manager := bm\<rparr>,
      visible (layers_get (map (\<lambda>p. map_of (the (dm p))) (search_order (versions e))) key))"
    using rp(1) by (auto simp: readFromSSTables_def e1 visible_def split: option.splits)
  have same: "e1\<lparr>tableCache := tableCache e, block_manager := block_manager e\<rparr> = e1" by (simp add: e1)
  show ?thesis
  proof (cases "read_mem e key")
    case None
    have nf: "\<not> snd (visible (content (activeMem e) key))" "read_immutables (rev (iq_items (immQueue e))) key = None"
      using None by (auto simp: read_mem_def split: bool.splits prod.splits)
    obtain x where "visible (content (activeMem e) key) = (x, False)" using nf(1) by (cases "visible (content (activeMem e) key)") auto
    then have "Engine_Read env now e user key = Some (e1\<lparr>tableCache := tc, block_manager := bm\<rparr>, Inr (read_value dm e key))"
      using rs nf(2) by (simp add: Engine_Read_def l ops get_content ok e1 iq_Snapshot_def read_value_def None)
    then show ?thesis using rp(2) by blast
  next
    case (Some x)
    have "Engine_Read env now e user key = Some (e1, Inr x)"
      using Some by (cases "visible (content (activeMem e) key)")
        (auto simp: Engine_Read_def l ops get_content ok e1 iq_Snapshot_def read_mem_def visible_def split: bool.splits option.splits if_splits)
    then show ?thesis using c Some same by (intro exI [of _ "tableCache e"] exI [of _ "block_manager e"]) (simp add: read_value_def)
  qed
qed

lemma Engine_scan_ok:
  assumes inv: "eng_inv env cap dm e" and c: "e_caches env cap files dm e" and s: "scans env cap files (e_disk e) P sstScan"
  shows "\<exists>tc bm results. Engine_scan env e P sstScan = Some (e\<lparr>tableCache := tc, block_manager := bm\<rparr>, results)
     \<and> caches_ok env cap files (e_disk e) dm tc bm \<and> gmap_ok results \<and> map_of results = live (eng_map dm e) P"
proof -
  have ops: "ee_ops env = ops" and ok: "ok (activeMem e)" and ims: "\<forall>im\<in>set (iq_items (immQueue e)). keys_sorted (im_data im)"
    using inv by (auto simp: eng_inv_def mem_inv_def)
  obtain r where r: "mo_ToRaw ops (activeMem e) = Some r" "gmap_ok r" using raw [OF ok] by blast
  have calls: "mo_Scan ops (activeMem e) P = Some (filter (\<lambda>kv. P (fst kv)) r)" using scan [OF ok r(1), of P] by (simp add: case_prod_unfold)
  have 1: "scan_state (content (activeMem e)) P (scan_first (filter (\<lambda>kv. P (fst kv)) r))"
    using scan_merge_state [OF scan_state_empty r(2)] r(2) by (simp add: scan_first_merge distinct_map_filter content_raw [OF r(1)])
  have 2: "scan_state (layers_get (map (\<lambda>im. map_of (im_data im)) ims) ++ m) P
      (fold (\<lambda>im. scan_merge (ImmutableMemtable_Scan im P)) ims acc)" if "scan_state m P acc" "\<forall>im\<in>set ims. keys_sorted (im_data im)" for m acc ims
    using that
  proof (induction ims arbitrary: m acc)
    case (Cons im ims)
    have "scan_state (map_of (im_data im) ++ m) P (scan_merge (ImmutableMemtable_Scan im P) acc)"
      using scan_merge_state [OF Cons.prems(1)] keys_sorted_distinct Cons.prems(2) by (simp add: ImmutableMemtable_Scan_def case_prod_unfold)
    then show ?case using Cons.IH [of "map_of (im_data im) ++ m"] Cons.prems(2) by (simp add: map_add_assoc)
  qed simp
  let ?acc = "fold (\<lambda>im. scan_merge (ImmutableMemtable_Scan im P)) (iq_Snapshot (immQueue e)) (scan_first (filter (\<lambda>kv. P (fst kv)) r))"
  have "scan_state (layers_get (map (\<lambda>im. map_of (im_data im)) (rev (iq_items (immQueue e)))) ++ content (activeMem e)) P ?acc"
    unfolding iq_Snapshot_def by (rule 2 [OF 1]) (use ims in simp)
  note sp = scan_paths_ok [OF c search_tables [OF inv] s this]
  obtain tc bm acc' where sp: "scan_paths env sstScan (e_disk e) (tableCache e) (block_manager e) ?acc (search_order (versions e)) = Some (tc, bm, acc')"
    "caches_ok env cap files (e_disk e) dm tc bm" "scan_state (eng_map dm e) P acc'"
    using sp unfolding eng_layers_def by (auto simp: map_add_assoc)
  obtain results seen where "acc' = (results, seen)" by (cases acc')
  then show ?thesis using sp calls by (auto simp: Engine_scan_def ops scan_state_def)
qed

lemma scans_range: "scans env cap files disk (\<lambda>key. key \<ge> start \<and> key \<le> stop)
    (\<lambda>bm r. SSTable_RangeScan (ee_sst env) (BlockManager_ReadAt (ee_xx env) disk) bm r start stop)"
  unfolding scans_def
proof (intro allI impI, elim conjE)
  fix bm r d
  assume "bm_inv (ee_xx env) (int (se_BlockSize (ee_sst env))) cap files disk bm" "reader_of (ee_sst env) (map_of disk) r d" "keys_sorted d"
  from bm.RangeScan_table [OF this, of start stop]
  show "\<exists>bm'. SSTable_RangeScan (ee_sst env) (BlockManager_ReadAt (ee_xx env) disk) bm r start stop
      = Some (bm', Inr (filter (\<lambda>kv. fst kv \<ge> start \<and> fst kv \<le> stop) d))
      \<and> bm_inv (ee_xx env) (int (se_BlockSize (ee_sst env))) cap files disk bm'" .
qed

lemma scans_prefix: "scans env cap files disk (\<lambda>key. matchesPrefix pre key)
    (\<lambda>bm r. SSTable_PrefixScan (ee_sst env) (BlockManager_ReadAt (ee_xx env) disk) bm r pre)"
  unfolding scans_def
proof (intro allI impI, elim conjE)
  fix bm r d
  assume "bm_inv (ee_xx env) (int (se_BlockSize (ee_sst env))) cap files disk bm" "reader_of (ee_sst env) (map_of disk) r d" "keys_sorted d"
  from bm.PrefixScan_table [OF this, of pre]
  show "\<exists>bm'. SSTable_PrefixScan (ee_sst env) (BlockManager_ReadAt (ee_xx env) disk) bm r pre
      = Some (bm', Inr (filter (\<lambda>kv. matchesPrefix pre (fst kv)) d))
      \<and> bm_inv (ee_xx env) (int (se_BlockSize (ee_sst env))) cap files disk bm'" .
qed

text \<open>A search of all layers keeps the invariant, whatever it is for.\<close>

lemma scan_inv:
  assumes inv: "eng_inv env cap dm e" and s: "\<And>files. scans env cap files (e_disk e) P sstScan"
    and r: "Engine_scan env e P sstScan = Some (e', results)"
  shows "eng_inv env cap dm e' \<and> eng_map dm e' = eng_map dm e"
proof -
  obtain tc bm where e': "e' = e\<lparr>tableCache := tc, block_manager := bm\<rparr>"
    using r by (auto simp: Engine_scan_def split: bind_splits)
  have c: "e_caches env cap files dm e'" if "files_for env e files" for files
    using Engine_scan_ok [OF inv eng_inv_caches [OF inv that] s [of files]] r by auto
  show ?thesis by (rule caches_inv [OF inv _ c, where ul = "userLimiter e" and tc = tc and bm = bm]) (simp_all add: e')
qed

lemma limit_inv:
  assumes "eng_inv env cap dm e" and "e_limit now e user = (e1, b)"
  shows "eng_inv env cap dm e1 \<and> eng_map dm e1 = eng_map dm e"
proof -
  obtain ul where "e1 = e\<lparr>userLimiter := ul\<rparr>" using e_limit_cong [OF assms(2)] by blast
  moreover have "deferredDeletes e = []" using assms(1) by (simp add: eng_inv_def)
  ultimately show ?thesis by (intro eng_inv_cong [OF assms(1)]) simp_all
qed

lemma caches_same: "\<exists>tc bm. e = e\<lparr>tableCache := tc, block_manager := bm\<rparr>"
  by (intro exI [of _ "tableCache e"] exI [of _ "block_manager e"]) simp

lemma read_inv:
  assumes inv: "eng_inv env cap dm e" and r: "Engine_Read env now e user key = Some (e', res)"
  shows "eng_inv env cap dm e' \<and> eng_map dm e' = eng_map dm e"
proof -
  obtain e1 b where l: "e_limit now e user = (e1, b)" by (cases "e_limit now e user")
  obtain ul where e1: "e1 = e\<lparr>userLimiter := ul\<rparr>" using e_limit_cong [OF l] by blast
  show ?thesis
  proof (cases b)
    case False
    then show ?thesis using r limit_inv [OF inv l] by (auto simp: Engine_Read_def l)
  next
    case True
    have "\<exists>tc bm. e' = e1\<lparr>tableCache := tc, block_manager := bm\<rparr>"
      using r by (auto simp: Engine_Read_def l True readFromSSTables_def split: bind_splits prod.splits bool.splits option.splits
          intro: caches_same)
    then obtain tc bm where e': "e' = e1\<lparr>tableCache := tc, block_manager := bm\<rparr>" by blast
    have c: "e_caches env cap files dm e'" if "files_for env e files" for files
      using Engine_Read_ok [OF inv eng_inv_caches [OF inv that] _, of now user e1 key] l True r by (auto simp: e1)
    show ?thesis by (rule caches_inv [OF inv _ c, where ul = ul and tc = tc and bm = bm]) (simp_all add: e' e1)
  qed
qed

text \<open>The four scans share the limiter check and the search.\<close>

lemma limited_scan_inv:
  assumes inv: "eng_inv env cap dm e" and s: "\<And>files. scans env cap files (e_disk e) P sstScan"
    and r: "(case e_limit now e user of (e, False) \<Rightarrow> Some (e, Inl (NotAllowed user))
      | (e, True) \<Rightarrow> do { (e, results) \<leftarrow> Engine_scan env e P sstScan; x \<leftarrow> f results; Some (e, Inr x) }) = Some (e', res)"
  shows "eng_inv env cap dm e' \<and> eng_map dm e' = eng_map dm e"
proof -
  obtain e1 b where l: "e_limit now e user = (e1, b)" by (cases "e_limit now e user")
  have i1: "eng_inv env cap dm e1 \<and> eng_map dm e1 = eng_map dm e" by (rule limit_inv [OF inv l])
  show ?thesis
  proof (cases b)
    case False
    then show ?thesis using r i1 by (auto simp: l)
  next
    case True
    then obtain results where "Engine_scan env e1 P sstScan = Some (e', results)" using r by (auto simp: l split: bind_splits)
    moreover have "e_disk e1 = e_disk e" using e_limit_cong [OF l] by auto
    ultimately show ?thesis using scan_inv [of env cap dm e1 P sstScan e' results] i1 s by metis
  qed
qed

lemma limit_disk: "e_disk (fst (e_limit now e user)) = e_disk e"
  by (cases "e_limit now e user") (use e_limit_cong in fastforce)

lemma scan_ops:
  "Engine_RangeScan env now e user start stop pageNum pageSize =
     (case e_limit now e user of (e, False) \<Rightarrow> Some (e, Inl (NotAllowed user))
      | (e1, True) \<Rightarrow> do { (e, results) \<leftarrow> Engine_scan env e1 (\<lambda>key. key \<ge> start \<and> key \<le> stop)
            (\<lambda>bm r. SSTable_RangeScan (ee_sst env) (BlockManager_ReadAt (ee_xx env) (e_disk e)) bm r start stop);
          x \<leftarrow> page_of (sortedPairs results) pageNum pageSize; Some (e, Inr x) })"
  "RangeIterate env now e user start stop =
     (case e_limit now e user of (e, False) \<Rightarrow> Some (e, Inl (NotAllowed user))
      | (e1, True) \<Rightarrow> do { (e, results) \<leftarrow> Engine_scan env e1 (\<lambda>key. key \<ge> start \<and> key \<le> stop)
            (\<lambda>bm r. SSTable_RangeScan (ee_sst env) (BlockManager_ReadAt (ee_xx env) (e_disk e)) bm r start stop);
          x \<leftarrow> Some (newIterator results); Some (e, Inr x) })"
  "Engine_PrefixScan env now e user pre pageNum pageSize =
     (case e_limit now e user of (e, False) \<Rightarrow> Some (e, Inl (NotAllowed user))
      | (e1, True) \<Rightarrow> do { (e, results) \<leftarrow> Engine_scan env e1 (\<lambda>key. matchesPrefix pre key)
            (\<lambda>bm r. SSTable_PrefixScan (ee_sst env) (BlockManager_ReadAt (ee_xx env) (e_disk e)) bm r pre);
          x \<leftarrow> page_of (sortedPairs results) pageNum pageSize; Some (e, Inr x) })"
  "PrefixIterate env now e user pre =
     (case e_limit now e user of (e, False) \<Rightarrow> Some (e, Inl (NotAllowed user))
      | (e1, True) \<Rightarrow> do { (e, results) \<leftarrow> Engine_scan env e1 (\<lambda>key. matchesPrefix pre key)
            (\<lambda>bm r. SSTable_PrefixScan (ee_sst env) (BlockManager_ReadAt (ee_xx env) (e_disk e)) bm r pre);
          x \<leftarrow> Some (newIterator results); Some (e, Inr x) })"
  using limit_disk [of now e user]
  unfolding Engine_RangeScan_def RangeIterate_def Engine_PrefixScan_def PrefixIterate_def findAllRangeMatches_def findAllPrefixMatches_def
  by (cases "e_limit now e user"; cases "snd (e_limit now e user)"; simp)+

lemma snapshot_frame: "\<exists>pins. fst (snapshot_loop e files ps) = e\<lparr>pinned := pins\<rparr>"
proof (induction ps arbitrary: e files)
  case Nil
  show ?case by (intro exI [of _ "pinned e"]) simp
next
  case (Cons lp ps)
  obtain l p where lp: "lp = (l, p)" by (cases lp)
  show ?case
  proof (cases "map_of (e_disk e) p")
    case None
    then show ?thesis by (intro exI [of _ "pinned e"]) (simp add: lp)
  next
    case (Some f)
    obtain pins where "fst (snapshot_loop (pinFile e p) (files @ [\<lparr>sf_Level = l, sf_Path = p, sf_Size = int (length f)\<rparr>]) ps)
        = (pinFile e p)\<lparr>pinned := pins\<rparr>" using Cons.IH by blast
    then show ?thesis using Some by (intro exI [of _ pins]) (simp add: lp pinFile_def)
  qed
qed

lemma snapshot_versions_frame:
  assumes "snapshot_versions e = (e', sn)"
  shows "\<exists>pins. e' = e\<lparr>pinned := pins\<rparr>"
proof -
  define paths where "paths = concat (map (\<lambda>(l, ps). map (Pair l) ps) (List.enumerate 0 (versions e)))"
  obtain e1 r where l: "snapshot_loop e [] paths = (e1, r)" by (cases "snapshot_loop e [] paths")
  have "e' = e1" using assms by (cases r) (simp_all add: snapshot_versions_def paths_def [symmetric] l)
  then show ?thesis using snapshot_frame [of e "[]" paths] by (simp add: l)
qed

lemma release_frame:
  assumes "Snapshot_Release e s = (e', s')" and "deferredDeletes e = []"
  shows "\<exists>pins. e' = e\<lparr>pinned := pins, deferredDeletes := []\<rparr>"
proof (cases "sn_released s")
  case True
  then show ?thesis using assms by (intro exI [of _ "pinned e"]) (simp add: Snapshot_Release_def)
next
  case False
  then show ?thesis using assms by (auto simp: Snapshot_Release_def unpinFiles_def Let_def)
qed

lemma step_inv:
  assumes "eng_step env e w e'" and inv: "eng_inv env cap dm e"
  shows "\<exists>dm'. eng_inv env cap dm' e' \<and> eng_map dm' e' = eng_map dm e ++ map_of (rev w)"
  using assms(1)
proof cases
  case (es_write now fail user key v res)
  then show ?thesis using write_inv [OF inv es_write(2)] by (cases res) auto
next
  case (es_sync fails lsn w err)
  have "eng_inv env cap dm e' \<and> eng_map dm e' = eng_map dm e"
    by (rule eng_inv_cong [OF inv]) (use es_sync inv in \<open>simp_all add: eng_inv_def\<close>)
  then show ?thesis using es_sync by auto
next
  case es_drain
  then show ?thesis using drain_inv [OF inv] by auto
next
  case (es_flush fi fail)
  then show ?thesis using flush_inv [OF inv] by auto
next
  case (es_read now user key res)
  then show ?thesis using read_inv [OF inv es_read(2)] by auto
next
  case (es_range now user start stop pageNum pageSize page)
  have "eng_inv env cap dm e' \<and> eng_map dm e' = eng_map dm e"
    by (rule limited_scan_inv [OF inv scans_range es_range(2) [unfolded scan_ops]])
  then show ?thesis using es_range by auto
next
  case (es_prefix now user pre pageNum pageSize page)
  have "eng_inv env cap dm e' \<and> eng_map dm e' = eng_map dm e"
    by (rule limited_scan_inv [OF inv scans_prefix es_prefix(2) [unfolded scan_ops]])
  then show ?thesis using es_prefix by auto
next
  case (es_range_iter now user start stop it)
  have "eng_inv env cap dm e' \<and> eng_map dm e' = eng_map dm e"
    by (rule limited_scan_inv [OF inv scans_range es_range_iter(2) [unfolded scan_ops]])
  then show ?thesis using es_range_iter by auto
next
  case (es_prefix_iter now user pre it)
  have "eng_inv env cap dm e' \<and> eng_map dm e' = eng_map dm e"
    by (rule limited_scan_inv [OF inv scans_prefix es_prefix_iter(2) [unfolded scan_ops]])
  then show ?thesis using es_prefix_iter by auto
next
  case (es_snapshot sn)
  obtain pins where e': "e' = e\<lparr>pinned := pins\<rparr>" using snapshot_versions_frame [OF es_snapshot(2)] by blast
  have "eng_inv env cap dm e' \<and> eng_map dm e' = eng_map dm e"
    by (rule eng_inv_cong [OF inv]) (use e' inv in \<open>simp_all add: eng_inv_def\<close>)
  then show ?thesis using es_snapshot by auto
next
  case (es_release s s')
  obtain pins where e': "e' = e\<lparr>pinned := pins, deferredDeletes := []\<rparr>"
    using release_frame [OF es_release(2)] inv by (auto simp: eng_inv_def)
  have "eng_inv env cap dm e' \<and> eng_map dm e' = eng_map dm e"
    by (rule eng_inv_cong [OF inv]) (simp_all add: e')
  then show ?thesis using es_release by auto
qed

lemma run_inv:
  assumes "eng_run env e0 ws e" and "eng_inv env cap Map.empty e0" and "eng_map Map.empty e0 = Map.empty"
  shows "\<exists>dm. eng_inv env cap dm e \<and> eng_map dm e = map_of (rev ws)"
  using assms(1)
proof induction
  case er_start
  then show ?case using assms(2,3) by auto
next
  case (er_step ws e w e')
  then obtain dm where "eng_inv env cap dm e" "eng_map dm e = map_of (rev ws)" by blast
  then show ?case using step_inv [OF er_step(2)] by fastforce
qed

lemma new_inv:
  assumes "ee_ops env = ops" and "0 < ee_LSMLevels env" and "bs_ok (se_BlockSize (ee_sst env))"
    and e_def: "e = newEngine env maxImm cap tcs dir0 uuid [] w noLimit noCompaction"
  shows "eng_inv env cap Map.empty e \<and> eng_map Map.empty e = Map.empty"
proof -
  let ?bs = "se_BlockSize (ee_sst env)"
  obtain n where n: "ee_LSMLevels env = Suc n" using assms(2) gr0_implies_Suc by blast
  have vs: "map (ListSSTablesInLevel [] dir0) [0..<Suc n] = [] # replicate n []"
  proof -
    have "ListSSTablesInLevel [] dir0 = (\<lambda>_. [])" by (simp add: fun_eq_iff ListSSTablesInLevel_def dir_files_def)
    then show ?thesis by (simp add: map_replicate_const del: upt_Suc)
  qed
  have tmp: "concat (map (\<lambda>l. dir_files [] (SSTableLevelDir dir0 l) ''.db.tmp'') [0..<Suc n]) = []"
    by (simp add: dir_files_def)
  let ?maxImm = "if maxImm < 1 then 3 else maxImm"
  have e: "e = \<lparr>userLimiter = [], activeMem = mo_New ops, immQueue = newImmutableQueue ?maxImm, e_wal = w,
      ss_writer = NewFileWriterInDir ?bs '''' dir0 uuid [], block_manager = NewBlockManager (int ?bs) cap,
      tableCache = NewTableCache tcs, compactCh = False, versions = [] # replicate n [], dataRoot = dir0, skipRateLimit = noLimit,
      skipCompaction = noCompaction, pinned = [], deferredDeletes = [], safeCompactionLSN = 0\<rparr>"
    unfolding e_def newEngine_def initVersions_def Let_def n assms(1)
    by (simp add: vs tmp NewFileWriterInDir_def del: upt_Suc)
  have fw: "fw_fresh ?bs (NewFileWriterInDir ?bs '''' dir0 uuid [])"
    by (simp add: fw_fresh_def fw_state_def NewFileWriterInDir_def)
  have "bm_ok (ee_xx env) (int ?bs) cap files (NewBlockManager (int ?bs) cap)" for files
    using assms(3) by (intro bm_ok_new) (simp add: bs_ok_def)
  then have ca: "collision_free (ee_xx env) (int ?bs) files \<Longrightarrow> caches_ok env cap files [] Map.empty (NewTableCache tcs) (NewBlockManager (int ?bs) cap)" for files
    by (simp add: caches_ok_def tc_ok_def NewTableCache_def bm_inv_def Let_def)
  have "disk_inv env Map.empty e []"
    using fw table_path_tmp [of dir0 uuid] by (auto simp: disk_inv_def e NewFileWriterInDir_def intro: exI [of _ uuid])
  moreover have "mem_inv e" using new(1) by (simp add: mem_inv_def e newImmutableQueue_def Let_def)
  ultimately have "eng_inv env cap Map.empty e" using assms(1) ca unfolding eng_inv_def by (auto simp: e NewFileWriterInDir_def)
  moreover have "eng_map Map.empty e = Map.empty"
    by (simp add: eng_layers_def e content_new newImmutableQueue_def Let_def)
  ultimately show ?thesis by blast
qed

end

section \<open>The store an engine implements\<close>

text \<open>The reference: the writes in order update one map; a scan lists its live pairs in key order.\<close>

definition spec_store :: "KeyValue list \<Rightarrow> KeyValue list" where
  "spec_store ws = fold (\<lambda>(k, v). AList.update k v) ws []"

definition spec_scan :: "KeyValue list \<Rightarrow> (string \<Rightarrow> bool) \<Rightarrow> KeyValue list" where
  "spec_scan ws P = sortedPairs (filter (\<lambda>(k, v). P k \<and> v \<noteq> Tombstone) (spec_store ws))"

lemma spec_store_map: "gmap_ok (spec_store ws)" "map_of (spec_store ws) = map_of (rev ws)"
proof -
  have "gmap_ok m \<longrightarrow> gmap_ok (fold (\<lambda>(k, v). AList.update k v) ws m)
      \<and> map_of (fold (\<lambda>(k, v). AList.update k v) ws m) = map_of m ++ map_of (rev ws)" for m :: "KeyValue list"
  proof (induction ws arbitrary: m)
    case (Cons kv ws)
    then show ?case by (cases kv) (auto simp: update_conv' map_add_def fun_eq_iff split: option.splits)
  qed simp
  from this [of "[]"] show "gmap_ok (spec_store ws)" "map_of (spec_store ws) = map_of (rev ws)" by (simp_all add: spec_store_def)
qed

lemma map_of_live:
  assumes "gmap_ok m"
  shows "map_of (filter (\<lambda>(k, v). P k \<and> v \<noteq> Tombstone) m) = live (map_of m) P"
proof -
  have "map_of (filter (\<lambda>(k, v). P k \<and> v \<noteq> Tombstone) m) k = live (map_of m) P k" for k
    using assms by (induction m) (auto simp: live_def map_of_eq_None_iff split: if_splits)
  then show ?thesis by blast
qed

lemma sortedPairs_live:
  assumes "gmap_ok results" and "map_of results = live (map_of (rev ws)) P"
  shows "sortedPairs results = spec_scan ws P"
  unfolding spec_scan_def
  by (rule sortedPairs_eqI) (use assms spec_store_map [of ws] map_of_live [OF spec_store_map(1), of P ws] distinct_map_filter in auto)

context memtable
begin

text \<open>In a reachable state every scan of the layers lists the live pairs of the store.\<close>

lemma limited_scan_result:
  assumes inv: "eng_inv env cap dm e" and m: "eng_map dm e = map_of (rev ws)" and f: "files_for env e files"
    and s: "\<And>files. scans env cap files (e_disk e) P sstScan"
  shows "map_option snd (case e_limit now e user of (e, False) \<Rightarrow> Some (e, Inl (NotAllowed user))
      | (e, True) \<Rightarrow> do { (e, results) \<leftarrow> Engine_scan env e P sstScan; x \<leftarrow> g (sortedPairs results); Some (e, Inr x) })
    = (if snd (e_limit now e user) then map_option Inr (g (spec_scan ws P)) else Some (Inl (NotAllowed user)))"
proof -
  obtain e1 b where l: "e_limit now e user = (e1, b)" by (cases "e_limit now e user")
  have i1: "eng_inv env cap dm e1" "eng_map dm e1 = eng_map dm e" using limit_inv [OF inv l] by blast+
  have d: "e_disk e1 = e_disk e" using limit_disk [of now e user] by (simp add: l)
  obtain tc bm results where r: "Engine_scan env e1 P sstScan = Some (e1\<lparr>tableCache := tc, block_manager := bm\<rparr>, results)"
    "gmap_ok results" "map_of results = live (map_of (rev ws)) P"
    using Engine_scan_ok [OF i1(1) eng_inv_caches [OF i1(1), of files], of P sstScan] s f
    unfolding files_for_def d i1(2) m by blast
  show ?thesis by (cases b; cases "g (spec_scan ws P)") (simp_all add: l r(1) sortedPairs_live [OF r(2,3)])
qed

lemma read_live:
  assumes "\<forall>im\<in>set ims. keys_sorted (im_data im)"
  shows "layers_get (map (\<lambda>im. map_of (im_data im)) ims) key = None \<Longrightarrow> read_immutables ims key = None"
    and "layers_get (map (\<lambda>im. map_of (im_data im)) ims) key = Some v \<Longrightarrow> v \<noteq> Tombstone \<Longrightarrow> read_immutables ims key = Some (v, True)"
  using assms by (induction ims) (auto simp: Immutable_Get_sorted visible_def map_add_def split: option.splits)

lemma read_value_live:
  assumes "mem_inv e"
  shows "eng_map dm e key = None \<Longrightarrow> read_value dm e key = ('''', False)"
    and "eng_map dm e key = Some v \<Longrightarrow> v \<noteq> Tombstone \<Longrightarrow> read_value dm e key = (v, True)"
proof -
  have ims: "\<forall>im\<in>set (rev (iq_items (immQueue e))). keys_sorted (im_data im)" using assms by (auto simp: mem_inv_def)
  show "eng_map dm e key = None \<Longrightarrow> read_value dm e key = ('''', False)"
    using read_live(1) [OF ims] by (auto simp: eng_layers_def read_value_def read_mem_def visible_def)
  show "eng_map dm e key = Some v \<Longrightarrow> v \<noteq> Tombstone \<Longrightarrow> read_value dm e key = (v, True)"
    using read_live [OF ims] by (auto simp: eng_layers_def read_value_def read_mem_def visible_def map_add_def split: option.splits)
qed

lemma read_result:
  assumes inv: "eng_inv env cap dm e" and f: "files_for env e files"
  shows "map_option snd (Engine_Read env now e user key)
    = Some (if snd (e_limit now e user) then Inr (read_value dm e key) else Inl (NotAllowed user))"
proof -
  obtain e1 b where l: "e_limit now e user = (e1, b)" by (cases "e_limit now e user")
  show ?thesis
  proof (cases b)
    case True
    then show ?thesis using Engine_Read_ok [OF inv eng_inv_caches [OF inv f], of now user e1 key] l by auto
  next
    case False
    then show ?thesis by (simp add: Engine_Read_def l)
  qed
qed

end

text \<open>
  C2: The engine implements one ordered map, seen through its scans. From an engine opened on an empty directory,
  after any interleaving of writes (put and delete, applied by the writer), syncs, rotations of the memtable, rounds of the
  flusher, reads, scans and snapshots, with compaction switched off and table files written without I/O errors under fresh names, a
  range scan and a prefix scan return exactly the requested page of the live pairs of the reference map: the last write of each
  key counts, deleted keys do not appear, and pairs are in key order, wherever the entries
  are (memtable, queue of immutable tables, any number of files) and whatever the table cache and the block cache hold.
\<close>

theorem scans_refine_store:
  assumes "eng_run env (newEngine env maxImm cap tcs dir0 uuid [] w noLimit True) ws e"
    and "ee_ops env = HashMap_ops" and "0 < ee_LSMLevels env" and "bs_ok (se_BlockSize (ee_sst env))"
    and "collision_free (ee_xx env) (int (se_BlockSize (ee_sst env))) (map_of (e_disk e))"
  shows "map_option snd (Engine_RangeScan env now e user start stop pageNum pageSize)
      = (if snd (e_limit now e user) then map_option Inr (page_of (spec_scan ws (\<lambda>k. start \<le> k \<and> k \<le> stop)) pageNum pageSize)
         else Some (Inl (NotAllowed user))) \<and>
    map_option snd (Engine_PrefixScan env now e user pre pageNum pageSize)
      = (if snd (e_limit now e user) then map_option Inr (page_of (spec_scan ws (matchesPrefix pre)) pageNum pageSize)
         else Some (Inl (NotAllowed user)))"
proof -
  obtain dm where dm: "hm.eng_inv env cap dm e" "hm.eng_map dm e = map_of (rev ws)"
    using hm.run_inv [OF assms(1)] hm.new_inv [OF assms(2,3,4) refl] by blast
  have f: "hm.files_for env e (map_of (e_disk e))" using assms(5) by (simp add: hm.files_for_def)
  note r = hm.limited_scan_result [OF dm f, where g = "\<lambda>s. page_of s pageNum pageSize"]
  show ?thesis unfolding hm.scan_ops by (intro conjI r hm.scans_range hm.scans_prefix)
qed

text \<open>
  C38: A point read returns the latest live value. In the same runs, \<open>Read\<close> of a key whose last write is
  not a delete returns that value, and \<open>Read\<close> of a key that was never written reports absence.
\<close>

theorem read_latest_value:
  assumes "eng_run env (newEngine env maxImm cap tcs dir0 uuid [] w noLimit True) ws e"
    and "ee_ops env = HashMap_ops" and "0 < ee_LSMLevels env" and "bs_ok (se_BlockSize (ee_sst env))"
    and "collision_free (ee_xx env) (int (se_BlockSize (ee_sst env))) (map_of (e_disk e))" and "snd (e_limit now e user)"
    and "map_of (rev ws) key \<noteq> Some Tombstone"
  shows "map_option snd (Engine_Read env now e user key)
    = Some (Inr (case map_of (rev ws) key of None \<Rightarrow> ('''', False) | Some v \<Rightarrow> (v, True)))"
proof -
  obtain dm where dm: "hm.eng_inv env cap dm e" "hm.eng_map dm e = map_of (rev ws)"
    using hm.run_inv [OF assms(1)] hm.new_inv [OF assms(2,3,4) refl] by blast
  have f: "hm.files_for env e (map_of (e_disk e))" using assms(5) by (simp add: hm.files_for_def)
  have mi: "hm.mem_inv e" using dm(1) by (simp add: hm.eng_inv_def)
  show ?thesis using hm.read_result [OF dm(1) f, of now user key] hm.read_value_live [OF mi, of dm key] assms(6,7) dm(2)
    by (cases "map_of (rev ws) key") simp_all
qed

text \<open>A small engine whose memtable is rotated at every write.\<close>

definition small_eng :: "HashMap eng_env" where
  "small_eng = \<lparr>ee_ops = HashMap_ops, ee_sst = small_env, ee_xx = last_digit, ee_MemtableSize = 1, ee_LSMLevels = 2,
     ee_CompactionThreshold = 4\<rparr>"

definition small_e :: "WAL \<Rightarrow> ImmutableMemtable list \<Rightarrow> HashMap Engine" where
  "small_e w ims = (newEngine small_eng 4 2 2 ''d'' ''u'' [] w True True)
     \<lparr>immQueue := \<lparr>iq_items = ims, iq_max = 4, iq_closed = False\<rparr>\<rparr>"

lemma small_e_fields [simp]:
  "skipRateLimit (small_e w ims)" "e_wal (small_e w ims) = w" "activeMem (small_e w ims) = NewHashMap"
  "immQueue (small_e w ims) = \<lparr>iq_items = ims, iq_max = 4, iq_closed = False\<rparr>" "e_disk (small_e w ims) = []"
  by (simp_all add: small_e_def newEngine_def initVersions_def Let_def NewFileWriterInDir_def dir_files_def small_eng_def HashMap_ops_def numeral_2_eq_2)

lemma small_e_new: "newEngine small_eng 4 2 2 ''d'' ''u'' [] w True True = small_e w []"
  by (simp add: small_e_def newEngine_def initVersions_def Let_def newImmutableQueue_def)

lemma small_write:
  assumes a: "(if v = Tombstone then WAL_AppendDelete no_fail (wal_store w) k else WAL_AppendPut no_fail (wal_store w) k v) = (store, Inr lsn)"
    and "k \<noteq> ''''" and "length ims < 4"
  shows "applyWriteToMem small_eng 0 no_fail (small_e w ims) user k v
    = Some (small_e (w\<lparr>wal_store := store\<rparr>) (ims @ [NewImmutableMemtable [(k, v)] lsn]), Inr lsn)"
proof -
  let ?q = "\<lparr>iq_items = ims @ [NewImmutableMemtable [(k, v)] lsn], iq_max = 4, iq_closed = False\<rparr>"
  let ?h = "HashMap_Add NewHashMap k v"
  have h: "mo_Add HashMap_ops NewHashMap k v = Some ?h" "mo_ToRaw HashMap_ops ?h = Some [(k, v)]" "1 \<le> mo_GetSize HashMap_ops ?h"
    using assms(2) by (cases k; simp add: HashMap_ops_def HashMap_Add_def NewHashMap_def HashMap_ToRaw_def HashMap_GetSize_def entryBytes_def)+
  have l: "e_limit 0 (small_e w ims) user = (small_e w ims, True)" by (simp add: e_limit_def)
  have u: "swapActiveMem small_eng (small_e w ims\<lparr>e_wal := w\<lparr>wal_store := store\<rparr>, activeMem := ?h, immQueue := ?q\<rparr>)
      = small_e (w\<lparr>wal_store := store\<rparr>) (ims @ [NewImmutableMemtable [(k, v)] lsn])"
    by (simp add: swapActiveMem_def small_e_def newEngine_def initVersions_def Let_def small_eng_def HashMap_ops_def)
  have se: "ee_ops small_eng = HashMap_ops" "ee_MemtableSize small_eng = 1" by (simp_all add: small_eng_def)
  have q: "iq_Push \<lparr>iq_items = ims, iq_max = 4, iq_closed = False\<rparr> (NewImmutableMemtable [(k, v)] lsn) = Some ?q"
    using assms(3) by (simp add: iq_Push_def)
  show ?thesis unfolding applyWriteToMem_def by (simp add: l a h se q u split del: if_split cong: if_cong)
qed

text \<open>Three writes: two keys, then a delete of the first.\<close>

lemma small_run:
  obtains w w2 w3 ims2 ims3 where
    "eng_run small_eng (newEngine small_eng 4 2 2 ''d'' ''u'' [] w True True) [(''a'', ''1''), (''b'', ''2'')] (small_e w2 ims2)"
    "eng_run small_eng (newEngine small_eng 4 2 2 ''d'' ''u'' [] w True True) [(''a'', ''1''), (''b'', ''2''), (''a'', Tombstone)] (small_e w3 ims3)"
proof -
  obtain s0 where s0: "NewAppendStorageInDir no_fail [] 65536 8 = (s0, None)" using fresh_exists by blast
  obtain s3 where "WAL_append_all s0 [WPut ''a'' ''1'', WPut ''b'' ''2'', WDelete ''a''] = (s3, Some [1, 2, 3])"
    using append_all_inv [OF fresh_inv(1) [OF s0], of "[WPut ''a'' ''1'', WPut ''b'' ''2'', WDelete ''a'']"] fresh_inv [OF s0] by auto
  then obtain s1 s2 where s: "WAL_AppendPut no_fail s0 ''a'' ''1'' = (s1, Inr 1)" "WAL_AppendPut no_fail s1 ''b'' ''2'' = (s2, Inr 2)"
    "WAL_AppendDelete no_fail s2 ''a'' = (s3, Inr 3)"
    by (auto split: prod.splits sum.splits)
  define w where "w = NewWALWithStorage s0 ''group''"
  have w0: "wal_store w = s0" by (simp add: w_def NewWALWithStorage_def)
  have nt: "''1'' \<noteq> Tombstone" "''2'' \<noteq> Tombstone" by (simp_all add: Tombstone_def)
  have r0: "eng_run small_eng (newEngine small_eng 4 2 2 ''d'' ''u'' [] w True True) [] (small_e w [])"
    unfolding small_e_new by (rule eng_run.er_start)
  let ?i1 = "[] @ [NewImmutableMemtable [(''a'', ''1'')] 1]" and ?w1 = "w\<lparr>wal_store := s1\<rparr>"
  let ?i2 = "?i1 @ [NewImmutableMemtable [(''b'', ''2'')] 2]" and ?w2 = "?w1\<lparr>wal_store := s2\<rparr>"
  have e1: "applyWriteToMem small_eng 0 no_fail (small_e w []) ''u'' ''a'' ''1'' = Some (small_e ?w1 ?i1, Inr 1)"
    by (rule small_write) (simp_all add: w0 s nt)
  have e2: "applyWriteToMem small_eng 0 no_fail (small_e ?w1 ?i1) ''u'' ''b'' ''2'' = Some (small_e ?w2 ?i2, Inr 2)"
    by (rule small_write) (simp_all add: s nt)
  have e3: "applyWriteToMem small_eng 0 no_fail (small_e ?w2 ?i2) ''u'' ''a'' Tombstone
      = Some (small_e (?w2\<lparr>wal_store := s3\<rparr>) (?i2 @ [NewImmutableMemtable [(''a'', Tombstone)] 3]), Inr 3)"
    by (rule small_write) (simp_all add: s)
  note r1 = eng_run.er_step [OF r0 eng_step.es_write [OF e1]]
  note r2 = eng_run.er_step [OF r1 eng_step.es_write [OF e2]]
  note r3 = eng_run.er_step [OF r2 eng_step.es_write [OF e3]]
  show thesis by (rule that [OF r2 [simplified] r3 [simplified]])
qed

lemma small_eng_ok: "ee_ops small_eng = HashMap_ops" "0 < ee_LSMLevels small_eng" "bs_ok (se_BlockSize (ee_sst small_eng))"
  "collision_free (ee_xx small_eng) (int (se_BlockSize (ee_sst small_eng))) (map_of (e_disk (small_e w ims)))"
  by (simp_all add: small_eng_def small_env_def bs_ok_def collision_free_def)

lemma small_limit: "snd (e_limit 0 (small_e w ims) user)"
  by (simp add: e_limit_def)

theorem scans_refine_store_witness:
  "\<exists>w e. eng_run small_eng (newEngine small_eng 4 2 2 ''d'' ''u'' [] w True True) [(''a'', ''1''), (''b'', ''2''), (''a'', Tombstone)] e \<and>
   map_option snd (Engine_RangeScan small_eng 0 e ''u'' ''a'' ''z'' 1 10) = Some (Inr [(''b'', ''2'')]) \<and>
   map_option snd (Engine_PrefixScan small_eng 0 e ''u'' ''a'' 1 10) = Some (Inr [])"
proof -
  obtain w w3 ims where r: "eng_run small_eng (newEngine small_eng 4 2 2 ''d'' ''u'' [] w True True)
      [(''a'', ''1''), (''b'', ''2''), (''a'', Tombstone)] (small_e w3 ims)" by (rule small_run)
  have p: "page_of (spec_scan [(''a'', ''1''), (''b'', ''2''), (''a'', Tombstone)] (\<lambda>k. ''a'' \<le> k \<and> k \<le> ''z'')) 1 10 = Some [(''b'', ''2'')]"
    "page_of (spec_scan [(''a'', ''1''), (''b'', ''2''), (''a'', Tombstone)] (matchesPrefix ''a'')) 1 10 = Some []"
    by code_simp+
  have "map_option snd (Engine_RangeScan small_eng 0 (small_e w3 ims) ''u'' ''a'' ''z'' 1 10) = Some (Inr [(''b'', ''2'')]) \<and>
      map_option snd (Engine_PrefixScan small_eng 0 (small_e w3 ims) ''u'' ''a'' 1 10) = Some (Inr [])"
    using scans_refine_store [OF r small_eng_ok, of 0 "''u''" "''a''" "''z''" 1 10 "''a''"]
    by (simp only: small_limit p if_True option.map)
  then show ?thesis using r by blast
qed

theorem read_latest_value_witness:
  "\<exists>w e. eng_run small_eng (newEngine small_eng 4 2 2 ''d'' ''u'' [] w True True) [(''a'', ''1''), (''b'', ''2'')] e \<and>
   map_option snd (Engine_Read small_eng 0 e ''u'' ''a'') = Some (Inr (''1'', True))"
proof -
  obtain w w2 ims where r: "eng_run small_eng (newEngine small_eng 4 2 2 ''d'' ''u'' [] w True True)
      [(''a'', ''1''), (''b'', ''2'')] (small_e w2 ims)" by (rule small_run)
  have n: "map_of (rev [(''a'', ''1''), (''b'', ''2'')]) ''a'' \<noteq> Some Tombstone" by (simp add: Tombstone_def)
  have "map_option snd (Engine_Read small_eng 0 (small_e w2 ims) ''u'' ''a'') = Some (Inr (''1'', True))"
    using read_latest_value [OF r small_eng_ok small_limit n] by simp
  then show ?thesis using r by blast
qed

section \<open>Deletes and point reads\<close>

text \<open>
  A delete does not change what \<open>Read\<close> returns for a key the active memtable does not hold: the lookups of the
  memtable and of the immutable tables report a tombstone as absence, so the search goes on to the older layers,
  and a value written before is still returned. Scans do see the delete.
\<close>

lemma delete_keeps_older_value:
  assumes ops: "ee_ops env = HashMap_ops" and ok: "HashMap_ok (activeMem e)" and n: "hm.content (activeMem e) key = None"
    and sk: "skipRateLimit e" and w: "applyWriteToMem env now fail e user key Tombstone = Some (e', Inr lsn)"
  shows "map_option snd (Engine_Read env now' e' user' key) = map_option snd (Engine_Read env now' e user' key)"
proof -
  have l: "e_limit now e user = (e, True)" by (simp add: e_limit_def sk)
  obtain store r where a: "WAL_AppendDelete fail (wal_store (e_wal e)) key = (store, r)" by (meson surj_pair)
  let ?e = "e\<lparr>e_wal := (e_wal e)\<lparr>wal_store := store\<rparr>\<rparr>"
  obtain mem where m: "mo_Add HashMap_ops (activeMem e) key Tombstone = Some mem" "HashMap_ok mem"
    "hm.content mem = (hm.content (activeMem e))(key \<mapsto> Tombstone)" using hm.add_content [OF ok] by blast
  obtain raw where raw: "mo_ToRaw HashMap_ops mem = Some raw" "gmap_ok raw" using hm.raw [OF m(2)] by blast
  have hid: "ImmutableMemtable_Get (NewImmutableMemtable raw k) key = ('''', False)" for k
  proof -
    have "map_of raw key = Some Tombstone" using hm.content_raw [OF raw(1)] m(3) by (metis fun_upd_same)
    then show ?thesis using Immutable_Get [OF raw(2)] by (simp add: visible_def)
  qed
  have g0: "mo_Get HashMap_ops (activeMem e) key = Some ('''', False)" using hm.get_content [OF ok] n by (simp add: visible_def)
  have g1: "mo_Get HashMap_ops mem key = Some ('''', False)" using hm.get_content [OF m(2)] m(3) by (simp add: visible_def)
  have g2: "mo_Get HashMap_ops (mo_New HashMap_ops) key = Some ('''', False)"
    using hm.get_content [OF hm.new(1)] hm.content_new by (simp add: visible_def)
  have "e' = ?e\<lparr>activeMem := mem\<rparr> \<or> (\<exists>q k. e' = swapActiveMem env (?e\<lparr>activeMem := mem, immQueue := q\<rparr>)
      \<and> iq_Push (immQueue e) (NewImmutableMemtable raw k) = Some q)"
    using w by (auto simp: applyWriteToMem_def l a ops m(1) raw(1) Let_def split: sum.splits if_splits bind_splits)
  then consider (stay) "e' = ?e\<lparr>activeMem := mem\<rparr>"
    | (rotate) q k where "e' = swapActiveMem env (?e\<lparr>activeMem := mem, immQueue := q\<rparr>)" "iq_Push (immQueue e) (NewImmutableMemtable raw k) = Some q"
    by blast
  then show ?thesis
  proof cases
    case stay
    then show ?thesis
      by (simp add: Engine_Read_def e_limit_def sk ops g0 g1 readFromSSTables_def split: option.splits bind_splits)
  next
    case rotate
    have "read_immutables (iq_Snapshot q) key = read_immutables (iq_Snapshot (immQueue e)) key"
      using rotate(2) by (auto simp: iq_Push_def iq_Snapshot_def hid split: if_splits)
    then show ?thesis unfolding rotate(1)
      by (simp add: Engine_Read_def e_limit_def sk ops g0 g2 swapActiveMem_def readFromSSTables_def split: option.splits bind_splits)
  qed
qed

end
