(* ===== verification/EngineSafety.thy ===== *)
theory EngineSafety
  imports EngineStore
begin

text \<open>
  Safety of the engine: synchronous writes that were answered without an error survive a crash, whatever
  syncs fail, and the files of a snapshot stay on disk until it is released.
\<close>

section \<open>Waiting for durability\<close>

lemma notifySubs_simps [simp]:
  "wal_store (notifySubs w) = wal_store w" "wal_flushedLSN (notifySubs w) = wal_flushedLSN w" "wal_syncMode (notifySubs w) = wal_syncMode w"
  by (simp_all add: notifySubs_def)

lemma Sync_fails:
  assumes inv: "wal_inv s ids recs"
  shows "if f OpSync then Storage_Sync f s = (s, Some IOError) else Storage_Sync f s = Storage_Sync no_fail s"
proof -
  have "s_file s = Some (SegmentName (segmentID s))" "writeBuffer s = []" using inv by (auto simp: wal_inv_def)
  then show ?thesis by (simp add: Storage_Sync_def syncLocked_def flushLocked_def)
qed

text \<open>A log whose cached durable LSN is not ahead of the storage.\<close>

definition wal_ok :: "WAL \<Rightarrow> u64 list \<Rightarrow> (u64 \<Rightarrow> Record list) \<Rightarrow> bool" where
  "wal_ok w ids recs \<longleftrightarrow> wal_inv (wal_store w) ids recs \<and> wal_flushedLSN w \<le> durableLSN (wal_store w)"

text \<open>One sync of the log: it fails and changes nothing, or everything appended is durable.\<close>

lemma Sync_cases:
  assumes "wal_inv s ids recs" and "Storage_Sync f s = (s', err)"
  shows "wal_inv s' ids recs \<and> durableLSN s \<le> durableLSN s' \<and> appendedLSN s' = appendedLSN s \<and> segmentID s' = segmentID s
     \<and> (if err = None then durableLSN s' = appendedLSN s else s' = s)"
proof (cases "f OpSync")
  case True
  then show ?thesis using Sync_fails [OF assms(1), of f] assms by auto
next
  case False
  have "durableLSN s \<le> appendedLSN s" using assms(1) by (simp add: wal_inv_def)
  then show ?thesis using Sync_fails [OF assms(1), of f] Sync_inv [OF assms(1)] assms(2) False by auto
qed

lemma WaitDurable_loop_done: "lsn \<le> wal_flushedLSN w \<Longrightarrow> WaitDurable_loop fails n w lsn = Some (w, None)"
  by (subst WaitDurable_loop.simps) simp

lemma WaitDurable_ok:
  assumes ok: "wal_ok w ids recs" and lsn: "lsn \<le> appendedLSN (wal_store w)"
  shows "\<exists>w' err. WaitDurable fails w lsn = Some (w', err) \<and> wal_ok w' ids recs \<and> (err = None \<longrightarrow> lsn \<le> durableLSN (wal_store w'))
     \<and> durableLSN (wal_store w) \<le> durableLSN (wal_store w') \<and> appendedLSN (wal_store w') = appendedLSN (wal_store w)
     \<and> segmentID (wal_store w') = segmentID (wal_store w)"
proof -
  have inv: "wal_inv (wal_store w) ids recs" and fl: "wal_flushedLSN w \<le> durableLSN (wal_store w)" using ok by (auto simp: wal_ok_def)
  obtain s err where s: "Storage_Sync (fails 0) (wal_store w) = (s, err)" by fastforce
  note c = Sync_cases [OF inv s]
  show ?thesis
  proof (cases "wal_syncMode w = ''sync''")
    case True
    have "wal_flushedLSN w \<le> durableLSN s" using c fl by auto
    then show ?thesis using True s c lsn by (auto simp: WaitDurable_def wal_ok_def split: if_splits)
  next
    case group: False
    show ?thesis
    proof (cases "lsn \<le> wal_flushedLSN w")
      case True
      then show ?thesis using group ok fl WaitDurable_loop_done [OF True] by (auto simp: WaitDurable_def intro: order_trans)
    next
      case False
      let ?w = "notifySubs (w\<lparr>wal_store := s, wal_flushedLSN := durableLSN s\<rparr>)"
      have u: "WaitDurable fails w lsn = (if err \<noteq> None \<and> lsn > durableLSN s then Some (?w, err) else WaitDurable_loop fails (0 + 1) ?w lsn)"
        unfolding WaitDurable_def using group False by (subst WaitDurable_loop.simps) (simp add: s Let_def)
      have ok': "wal_ok ?w ids recs" using c by (simp add: wal_ok_def)
      show ?thesis
      proof (cases "err \<noteq> None \<and> lsn > durableLSN s")
        case True
        then show ?thesis using u ok' c by auto
      next
        case no: False
        then have le: "lsn \<le> durableLSN s" using c lsn by (auto split: if_splits)
        then have "WaitDurable_loop fails (0 + 1) ?w lsn = Some (?w, None)" by (intro WaitDurable_loop_done) simp
        then show ?thesis using u no ok' c le by auto
      qed
    qed
  qed
qed

section \<open>Batches of the writer\<close>

definition write_op :: "string \<Rightarrow> string \<Rightarrow> wal_op" where
  "write_op key value = (if value = Tombstone then WDelete key else WPut key value)"

abbreviation req_op :: "writeReq \<Rightarrow> wal_op" where
  "req_op r \<equiv> write_op (wr_key r) (wr_value r)"

text \<open>A write of the writer changes the log by one record of its operation, or not at all.\<close>

lemma write_log:
  assumes w: "applyWriteToMem env now no_fail e user key value = Some (e', res)" and ok: "wal_ok (e_wal e) ids recs"
    and size: "op_size (write_op key value) < 2 ^ 32 - 25"
    and room: "unat (segmentID (wal_store (e_wal e))) + 1 < max_segments" and lsn: "appendedLSN (wal_store (e_wal e)) \<noteq> -1"
  shows "case res of Inl _ \<Rightarrow> e_wal e' = e_wal e
    | Inr l \<Rightarrow> l = appendedLSN (wal_store (e_wal e)) + 1 \<and> (\<exists>ids' recs'. wal_ok (e_wal e') ids' recs'
        \<and> log_of ids' recs' = log_of ids recs @ [op_record l (write_op key value)]
        \<and> appendedLSN (wal_store (e_wal e')) = l \<and> unat (segmentID (wal_store (e_wal e'))) \<le> unat (segmentID (wal_store (e_wal e))) + 1
        \<and> durableLSN (wal_store (e_wal e)) \<le> durableLSN (wal_store (e_wal e')) \<and> wal_syncMode (e_wal e') = wal_syncMode (e_wal e))"
proof -
  let ?s = "wal_store (e_wal e)" and ?o = "write_op key value"
  obtain e1 b where l: "e_limit now e user = (e1, b)" by (cases "e_limit now e user")
  obtain ul where e1: "e1 = e\<lparr>userLimiter := ul\<rparr>" using e_limit_cong [OF l] by blast
  have inv: "wal_inv ?s ids recs" and n: "nextLSN ?s = appendedLSN ?s + 1" using ok by (auto simp: wal_ok_def wal_inv_def)
  let ?r = "op_record (nextLSN ?s) ?o"
  have r: "rec_ok ?r" "r_LSN ?r = nextLSN ?s" using op_record_ok [OF size] by (auto simp: write_op_def)
  obtain s' ids' recs' where s': "Storage_Append no_fail ?s (r_Op ?r) (r_Key ?r) (r_Value ?r) = (s', Inr (nextLSN ?s))"
    "wal_inv s' ids' recs'" "log_of ids' recs' = log_of ids recs @ [?r]" "appendedLSN s' = nextLSN ?s"
    "unat (segmentID s') \<le> unat (segmentID ?s) + 1" "durableLSN ?s \<le> durableLSN s'"
    using Append_inv [OF inv r lsn room] unfolding r(2) by blast
  have a: "(if value = Tombstone then WAL_AppendDelete no_fail ?s key else WAL_AppendPut no_fail ?s key value) = (s', Inr (nextLSN ?s))"
    using append_op_eq [of no_fail ?s ?o "nextLSN ?s"] s'(1) by (simp add: write_op_def split: if_splits)
  show ?thesis
  proof (cases b)
    case False
    then show ?thesis using w by (auto simp: applyWriteToMem_def l e1)
  next
    case True
    have "res = Inr (nextLSN ?s) \<and> e_wal e' = (e_wal e)\<lparr>wal_store := s'\<rparr>"
      using w True
      by (simp add: applyWriteToMem_def l e1 a cong: if_cong split del: if_split) (auto simp: swapActiveMem_def Let_def split: bind_splits if_splits)
    then show ?thesis using s' n ok by (auto simp: wal_ok_def intro: order_trans intro!: exI [of _ ids'] exI [of _ recs'])
  qed
qed

text \<open>What is known of a batch: its successful writes are records of the log, and the synchronous ones lie at or below the LSN to wait for.\<close>

lemma batch_log:
  assumes "apply_batch env now no_fail e mx ns rs = Some (e', res, mx', ns')" and "wal_ok (e_wal e) ids recs"
    and "\<forall>r\<in>set rs. op_size (req_op r) < 2 ^ 32 - 25"
    and "unat (segmentID (wal_store (e_wal e))) + length rs < max_segments"
    and "unat (appendedLSN (wal_store (e_wal e))) + length rs < 2 ^ 64" and "mx \<le> appendedLSN (wal_store (e_wal e))"
  shows "length res = length rs \<and> mx \<le> mx' \<and> (ns \<longrightarrow> ns') \<and> mx' \<le> appendedLSN (wal_store (e_wal e')) \<and>
    (\<exists>ids' recs'. wal_ok (e_wal e') ids' recs' \<and> set (log_of ids recs) \<subseteq> set (log_of ids' recs')
       \<and> durableLSN (wal_store (e_wal e)) \<le> durableLSN (wal_store (e_wal e'))
       \<and> unat (segmentID (wal_store (e_wal e'))) \<le> unat (segmentID (wal_store (e_wal e))) + length rs
       \<and> unat (appendedLSN (wal_store (e_wal e'))) \<le> unat (appendedLSN (wal_store (e_wal e))) + length rs
       \<and> (\<forall>i l. i < length rs \<and> res ! i = Inr l \<longrightarrow> op_record l (req_op (rs ! i)) \<in> set (log_of ids' recs')
            \<and> (wr_sync (rs ! i) \<longrightarrow> l \<le> mx' \<and> ns')))"
  using assms
proof (induction rs arbitrary: e mx ns res ids recs)
  case Nil
  then show ?case by auto
next
  case (Cons r rs)
  let ?s = "wal_store (e_wal e)"
  obtain e1 res1 where w: "applyWriteToMem env now no_fail e (wr_user r) (wr_key r) (wr_value r) = Some (e1, res1)"
    using Cons.prems(1) by (auto split: bind_splits)
  define mn where "mn = (case res1 of Inl _ \<Rightarrow> (mx, ns) | Inr lsn \<Rightarrow> if wr_sync r \<and> lsn > mx then (lsn, True) else (mx, ns))"
  obtain ress where b: "apply_batch env now no_fail e1 (fst mn) (snd mn) rs = Some (e', ress, mx', ns')" "res = res1 # ress"
    using Cons.prems(1) by (auto simp: w Let_def case_prod_beta mn_def split: bind_splits)
  have nm: "appendedLSN ?s \<noteq> -1" using Cons.prems(5) by (auto simp: unsigned_minus_1_eq_mask mask_eq_exp_minus_1)
  have sz: "op_size (req_op r) < 2 ^ 32 - 25" "\<forall>r\<in>set rs. op_size (req_op r) < 2 ^ 32 - 25" using Cons.prems(3) by auto
  have room: "unat (segmentID ?s) + 1 < max_segments" using Cons.prems(4) by simp
  note wl = write_log [OF w Cons.prems(2) sz(1) room nm]
  show ?case
  proof (cases res1)
    case (Inl err)
    have ew: "e_wal e1 = e_wal e" and mn: "mn = (mx, ns)" using wl Inl by (auto simp: mn_def)
    note ih = Cons.IH [OF b(1) Cons.prems(2) [folded ew] sz(2), unfolded ew mn fst_conv snd_conv]
    have "unat (segmentID ?s) + length rs < max_segments" "unat (appendedLSN ?s) + length rs < 2 ^ 64" using Cons.prems(4,5) by auto
    note ih = ih [OF this Cons.prems(6)]
    then obtain ids' recs' where 2: "wal_ok (e_wal e') ids' recs'" "set (log_of ids recs) \<subseteq> set (log_of ids' recs')"
      "\<forall>i l. i < length rs \<and> ress ! i = Inr l \<longrightarrow> op_record l (req_op (rs ! i)) \<in> set (log_of ids' recs') \<and> (wr_sync (rs ! i) \<longrightarrow> l \<le> mx' \<and> ns')"
      by blast
    have "\<forall>i l. i < length (r # rs) \<and> (res1 # ress) ! i = Inr l \<longrightarrow> op_record l (req_op ((r # rs) ! i)) \<in> set (log_of ids' recs')
        \<and> (wr_sync ((r # rs) ! i) \<longrightarrow> l \<le> mx' \<and> ns')"
      using 2(3) Inl by (auto simp: nth_Cons split: nat.splits)
    then show ?thesis unfolding b(2) using ih 2(1,2) by (intro conjI exI [of _ ids'] exI [of _ recs']) auto
  next
    case (Inr l)
    obtain ids1 recs1 where 1: "l = appendedLSN ?s + 1" "wal_ok (e_wal e1) ids1 recs1"
      "log_of ids1 recs1 = log_of ids recs @ [op_record l (req_op r)]" "appendedLSN (wal_store (e_wal e1)) = l"
      "unat (segmentID (wal_store (e_wal e1))) \<le> unat (segmentID ?s) + 1"
      "durableLSN ?s \<le> durableLSN (wal_store (e_wal e1))"
      using wl Inr by auto
    have mxl: "mx < l" using Cons.prems(6) u64_less_inc [OF nm] 1(1) by simp
    have mn: "mx \<le> fst mn" "fst mn \<le> l" "ns \<longrightarrow> snd mn" "wr_sync r \<longrightarrow> l \<le> fst mn \<and> snd mn"
      using mxl by (auto simp: mn_def Inr)
    have ul: "unat l = unat (appendedLSN ?s) + 1" using unat_u64_inc [OF nm] 1(1) by simp
    have "unat (segmentID (wal_store (e_wal e1))) + length rs < max_segments"
      "unat (appendedLSN (wal_store (e_wal e1))) + length rs < 2 ^ 64"
      using Cons.prems(4,5) 1(4,5) ul by auto
    note ih = Cons.IH [OF b(1) 1(2) sz(2) this, unfolded 1(4), OF mn(2)]
    then obtain ids' recs' where 2: "wal_ok (e_wal e') ids' recs'" "set (log_of ids1 recs1) \<subseteq> set (log_of ids' recs')"
      "\<forall>i l. i < length rs \<and> ress ! i = Inr l \<longrightarrow> op_record l (req_op (rs ! i)) \<in> set (log_of ids' recs') \<and> (wr_sync (rs ! i) \<longrightarrow> l \<le> mx' \<and> ns')"
      by blast
    have 3: "\<forall>i l. i < length (r # rs) \<and> (res1 # ress) ! i = Inr l \<longrightarrow> op_record l (req_op ((r # rs) ! i)) \<in> set (log_of ids' recs')
        \<and> (wr_sync ((r # rs) ! i) \<longrightarrow> l \<le> mx' \<and> ns')"
      using 2(2,3) Inr 1(3) mn ih by (auto simp: nth_Cons split: nat.splits intro: order_trans)
    have "mx \<le> mx'" "durableLSN ?s \<le> durableLSN (wal_store (e_wal e'))" using mn(1) ih 1(6) by (auto intro: order_trans)
    then show ?thesis unfolding b(2) using ih 2(1,2) 1(3,5) mn(3) ul 3 by (intro conjI exI [of _ ids'] exI [of _ recs']) auto
  qed
qed

lemma Writer_batch_log:
  assumes w: "Writer_batch env now no_fail sfails e batch = Some (e', early, late)" and ok: "wal_ok (e_wal e) ids recs"
    and sz: "\<forall>r\<in>set batch. op_size (req_op r) < 2 ^ 32 - 25"
    and room: "unat (segmentID (wal_store (e_wal e))) + length batch < max_segments"
      "unat (appendedLSN (wal_store (e_wal e))) + length batch < 2 ^ 64"
  shows "\<exists>ids' recs'. wal_ok (e_wal e') ids' recs' \<and> set (log_of ids recs) \<subseteq> set (log_of ids' recs')
       \<and> durableLSN (wal_store (e_wal e)) \<le> durableLSN (wal_store (e_wal e'))
       \<and> unat (segmentID (wal_store (e_wal e'))) \<le> unat (segmentID (wal_store (e_wal e))) + length batch
       \<and> unat (appendedLSN (wal_store (e_wal e'))) \<le> unat (appendedLSN (wal_store (e_wal e))) + length batch
       \<and> (\<forall>i. (i, None) \<in> set late \<longrightarrow> (\<exists>l. op_record l (req_op (batch ! i)) \<in> set (log_of ids' recs') \<and> l \<le> durableLSN (wal_store (e_wal e'))))"
proof -
  obtain e1 res mx ns where b: "apply_batch env now no_fail e 0 False batch = Some (e1, res, mx, ns)"
    using w by (auto simp: Writer_batch_def split: bind_splits)
  have "length res = length batch \<and> mx \<le> appendedLSN (wal_store (e_wal e1)) \<and> (\<exists>ids' recs'. wal_ok (e_wal e1) ids' recs'
       \<and> set (log_of ids recs) \<subseteq> set (log_of ids' recs')
       \<and> durableLSN (wal_store (e_wal e)) \<le> durableLSN (wal_store (e_wal e1))
       \<and> unat (segmentID (wal_store (e_wal e1))) \<le> unat (segmentID (wal_store (e_wal e))) + length batch
       \<and> unat (appendedLSN (wal_store (e_wal e1))) \<le> unat (appendedLSN (wal_store (e_wal e))) + length batch
       \<and> (\<forall>i l. i < length batch \<and> res ! i = Inr l \<longrightarrow> op_record l (req_op (batch ! i)) \<in> set (log_of ids' recs')
            \<and> (wr_sync (batch ! i) \<longrightarrow> l \<le> mx \<and> ns)))"
    using batch_log [OF b ok sz room] by simp
  then obtain ids' recs' where 1: "wal_ok (e_wal e1) ids' recs'" "set (log_of ids recs) \<subseteq> set (log_of ids' recs')"
      "\<forall>i l. i < length batch \<and> res ! i = Inr l \<longrightarrow> op_record l (req_op (batch ! i)) \<in> set (log_of ids' recs') \<and> (wr_sync (batch ! i) \<longrightarrow> l \<le> mx \<and> ns)"
    and 2: "mx \<le> appendedLSN (wal_store (e_wal e1))" "durableLSN (wal_store (e_wal e)) \<le> durableLSN (wal_store (e_wal e1))"
       "unat (segmentID (wal_store (e_wal e1))) \<le> unat (segmentID (wal_store (e_wal e))) + length batch"
       "unat (appendedLSN (wal_store (e_wal e1))) \<le> unat (appendedLSN (wal_store (e_wal e))) + length batch"
    by blast
  obtain w2 serr where d: "(if ns then WaitDurable sfails (e_wal e1) mx else Some (e_wal e1, None)) = Some (w2, serr)"
    "e' = e1\<lparr>e_wal := w2\<rparr>"
    and late: "late = map (\<lambda>i. (i, case (case res ! i of Inl err \<Rightarrow> Some err | Inr _ \<Rightarrow> None) of Some x \<Rightarrow> Some x | None \<Rightarrow> map_option WalSync serr))
                       (filter (\<lambda>i. wr_sync (batch ! i)) [0..<length batch])"
    using w by (auto simp: Writer_batch_def b Let_def split: bind_splits)
  have 3: "wal_ok w2 ids' recs' \<and> (ns \<and> serr = None \<longrightarrow> mx \<le> durableLSN (wal_store w2)) \<and> durableLSN (wal_store (e_wal e1)) \<le> durableLSN (wal_store w2)
      \<and> appendedLSN (wal_store w2) = appendedLSN (wal_store (e_wal e1)) \<and> segmentID (wal_store w2) = segmentID (wal_store (e_wal e1))"
    using d(1) WaitDurable_ok [OF 1(1) 2(1), of sfails] 1(1) by (cases ns) auto
  have "\<exists>l. op_record l (req_op (batch ! i)) \<in> set (log_of ids' recs') \<and> l \<le> durableLSN (wal_store w2)" if i: "(i, None) \<in> set late" for i
  proof -
    obtain l where "i < length batch" "wr_sync (batch ! i)" "res ! i = Inr l" "serr = None"
      using i by (auto simp: late split: sum.splits option.splits)
    then show ?thesis using 1(3) 3 by (metis order_trans)
  qed
  then show ?thesis using 1(2) 2 3 d(2) by (intro exI [of _ ids'] exI [of _ recs']) (auto intro: order_trans)
qed

text \<open>
  Rounds of the writer, each with its clock, the failures of its syncs and its batch, and the operations
  of the synchronous requests that were answered without an error.
\<close>

fun writer_run :: "'m eng_env \<Rightarrow> 'm Engine \<Rightarrow> (int \<times> (nat \<Rightarrow> io_op \<Rightarrow> bool) \<times> writeReq list) list \<Rightarrow> ('m Engine \<times> wal_op list) option" where
  "writer_run env e [] = Some (e, [])"
| "writer_run env e ((now, sfails, batch) # rounds) =
     do { (e, early, late) \<leftarrow> Writer_batch env now no_fail sfails e batch;
          (e, acks) \<leftarrow> writer_run env e rounds;
          Some (e, map (\<lambda>(i, err). req_op (batch ! i)) (filter (\<lambda>(i, err). err = None) late) @ acks) }"

abbreviation requests :: "(int \<times> (nat \<Rightarrow> io_op \<Rightarrow> bool) \<times> writeReq list) list \<Rightarrow> writeReq list" where
  "requests rounds \<equiv> concat (map (\<lambda>r. snd (snd r)) rounds)"

lemma writer_run_log:
  assumes "writer_run env e rounds = Some (e', acks)" and "wal_ok (e_wal e) ids recs"
    and "\<forall>r\<in>set (requests rounds). op_size (req_op r) < 2 ^ 32 - 25"
    and "unat (segmentID (wal_store (e_wal e))) + length (requests rounds) < max_segments"
    and "unat (appendedLSN (wal_store (e_wal e))) + length (requests rounds) < 2 ^ 64"
  shows "\<exists>ids' recs'. wal_ok (e_wal e') ids' recs' \<and> set (log_of ids recs) \<subseteq> set (log_of ids' recs')
       \<and> durableLSN (wal_store (e_wal e)) \<le> durableLSN (wal_store (e_wal e'))
       \<and> (\<forall>a\<in>set acks. \<exists>l. op_record l a \<in> set (log_of ids' recs') \<and> l \<le> durableLSN (wal_store (e_wal e')))"
  using assms
proof (induction rounds arbitrary: e acks ids recs)
  case Nil
  then show ?case by auto
next
  case (Cons x rounds)
  obtain now sfails batch where x: "x = (now, sfails, batch)" by (cases x)
  obtain e1 early late acks1 where b: "Writer_batch env now no_fail sfails e batch = Some (e1, early, late)"
    "writer_run env e1 rounds = Some (e', acks1)"
    "acks = map (\<lambda>(i, err). req_op (batch ! i)) (filter (\<lambda>(i, err). err = None) late) @ acks1"
    using Cons.prems(1) by (auto simp: x split: bind_splits)
  have sz: "\<forall>r\<in>set batch. op_size (req_op r) < 2 ^ 32 - 25" "\<forall>r\<in>set (requests rounds). op_size (req_op r) < 2 ^ 32 - 25"
    using Cons.prems(3) by (auto simp: x)
  have room: "unat (segmentID (wal_store (e_wal e))) + length batch < max_segments"
      "unat (appendedLSN (wal_store (e_wal e))) + length batch < 2 ^ 64" using Cons.prems(4,5) by (auto simp: x)
  obtain ids1 recs1 where 1: "wal_ok (e_wal e1) ids1 recs1" "set (log_of ids recs) \<subseteq> set (log_of ids1 recs1)"
       "durableLSN (wal_store (e_wal e)) \<le> durableLSN (wal_store (e_wal e1))"
       "unat (segmentID (wal_store (e_wal e1))) \<le> unat (segmentID (wal_store (e_wal e))) + length batch"
       "unat (appendedLSN (wal_store (e_wal e1))) \<le> unat (appendedLSN (wal_store (e_wal e))) + length batch"
       "\<forall>i. (i, None) \<in> set late \<longrightarrow> (\<exists>l. op_record l (req_op (batch ! i)) \<in> set (log_of ids1 recs1) \<and> l \<le> durableLSN (wal_store (e_wal e1)))"
    using Writer_batch_log [OF b(1) Cons.prems(2) sz(1) room] by blast
  have "unat (segmentID (wal_store (e_wal e1))) + length (requests rounds) < max_segments"
    "unat (appendedLSN (wal_store (e_wal e1))) + length (requests rounds) < 2 ^ 64"
    using 1(4,5) Cons.prems(4,5) by (auto simp: x)
  from Cons.IH [OF b(2) 1(1) sz(2) this] obtain ids' recs' where 2: "wal_ok (e_wal e') ids' recs'" "set (log_of ids1 recs1) \<subseteq> set (log_of ids' recs')"
    "durableLSN (wal_store (e_wal e1)) \<le> durableLSN (wal_store (e_wal e'))"
    "\<forall>a\<in>set acks1. \<exists>l. op_record l a \<in> set (log_of ids' recs') \<and> l \<le> durableLSN (wal_store (e_wal e'))" by blast
  have "\<exists>l. op_record l a \<in> set (log_of ids' recs') \<and> l \<le> durableLSN (wal_store (e_wal e'))" if aa: "a \<in> set acks" for a
  proof (cases "a \<in> set acks1")
    case True
    then show ?thesis using 2(4) by blast
  next
    case False
    then obtain i where "(i, None) \<in> set late" "a = req_op (batch ! i)" using aa b(3) by auto
    then show ?thesis using 1(6) 2(2,3) by (meson order_trans subsetD)
  qed
  then show ?case using 1 2 by (intro exI [of _ ids'] exI [of _ recs']) (auto intro: order_trans)
qed


definition small_req :: writeReq where
  "small_req = \<lparr>wr_user = ''u'', wr_key = ''a'', wr_value = ''1'', wr_sync = True\<rparr>"

lemma small_writer:
  assumes "NewAppendStorageInDir no_fail [] 65536 8 = (s0, None)"
  shows "\<exists>e. writer_run small_eng (small_e (NewWALWithStorage s0 ''group'') []) [(0, \<lambda>_. no_fail, [small_req])] = Some (e, [WPut ''a'' ''1''])"
proof -
  let ?w = "NewWALWithStorage s0 ''group''"
  note f = fresh_inv [OF assms]
  have ok: "wal_ok ?w [1] (\<lambda>_. [])" using f(1) by (simp add: wal_ok_def NewWALWithStorage_def)
  obtain s1 ids recs where 1: "WAL_append_all s0 [WPut ''a'' ''1''] = (s1, Some [1])" "wal_inv s1 ids recs" "unat (appendedLSN s1) = 1"
    using append_all_inv [OF f(1), of "[WPut ''a'' ''1'']"] f(2-4) by auto
  have "appendedLSN s1 = 1" using 1(3) by (metis unat_1 word_unat_eq_iff)
  moreover have "WAL_AppendPut no_fail s0 ''a'' ''1'' = (s1, Inr 1)" using 1(1) by (auto split: prod.splits sum.splits)
  ultimately have s1: "WAL_AppendPut no_fail s0 ''a'' ''1'' = (s1, Inr 1)" "wal_inv s1 ids recs" "appendedLSN s1 = 1" using 1(2) by auto
  obtain s2 where s2: "Storage_Sync no_fail s1 = (s2, None)" "durableLSN s2 = 1" using Sync_inv [OF s1(2)] s1(3) by auto
  have nt: "''1'' \<noteq> Tombstone" by (simp add: Tombstone_def)
  have a: "applyWriteToMem small_eng 0 no_fail (small_e ?w []) ''u'' ''a'' ''1''
      = Some (small_e (?w\<lparr>wal_store := s1\<rparr>) ([] @ [NewImmutableMemtable [(''a'', ''1'')] 1]), Inr 1)"
    by (rule small_write) (simp_all add: NewWALWithStorage_def s1 nt)
  have d: "durableLSN s0 = 0" using f(1,3) by (simp add: wal_inv_def)
  have "WaitDurable (\<lambda>_. no_fail) (?w\<lparr>wal_store := s1\<rparr>) 1 = Some (?w\<lparr>wal_store := s2, wal_flushedLSN := 1\<rparr>, None)"
    unfolding WaitDurable_def
    by (subst WaitDurable_loop.simps) (simp add: NewWALWithStorage_def s2 d Let_def WaitDurable_loop_done notifySubs_def)
  then show ?thesis by (simp add: small_req_def Writer_batch_def a write_op_def nt)
qed


section \<open>Snapshots pin their files\<close>

text \<open>
  Snapshots, releases and compactions of an engine, with the snapshots that are held and the files there were when
  each was taken. The other steps (writes, flushes, the merges of compactions) only add files under new names.
\<close>

inductive snap_run :: "'m Engine \<Rightarrow> 'm Engine \<Rightarrow> (Snapshot \<times> disk) list \<Rightarrow> bool" for e0 where
  sr_start: "snap_run e0 e0 []"
| sr_take: "snap_run e0 e held \<Longrightarrow> snapshot_versions e = (e', Inr sn) \<Longrightarrow> snap_run e0 e' ((sn, e_disk e) # held)"
| sr_fail: "snap_run e0 e held \<Longrightarrow> snapshot_versions e = (e', Inl err) \<Longrightarrow> snap_run e0 e' held"
| sr_release: "snap_run e0 e (xs @ (s, d) # ys) \<Longrightarrow> Snapshot_Release e s = (e', s') \<Longrightarrow> snap_run e0 e' (xs @ ys)"
| sr_compact: "snap_run e0 e held \<Longrightarrow> installCompaction e level newPath oldPaths = Some e' \<Longrightarrow> snap_run e0 e' held"
| sr_other: "snap_run e0 e held \<Longrightarrow> map_of (e_disk e) \<subseteq>\<^sub>m map_of (e_disk e') \<Longrightarrow> pinned e' = pinned e \<Longrightarrow>
     deferredDeletes e' = deferredDeletes e \<Longrightarrow> snap_run e0 e' held"

definition snap_pins :: "Snapshot \<Rightarrow> string \<Rightarrow> int" where
  "snap_pins s p = int (count_list (map sf_Path (sn_SSTables s)) p)"

text \<open>Every pin of a held snapshot is counted, and its files are as they were.\<close>

definition held_ok :: "'m Engine \<Rightarrow> (Snapshot \<times> disk) list \<Rightarrow> bool" where
  "held_ok e held \<longleftrightarrow> (\<forall>p. (\<Sum>(s, d)\<leftarrow>held. snap_pins s p) \<le> vget (pinned e) p)
     \<and> (\<forall>(s, d)\<in>set held. \<not> sn_released s \<and> (\<forall>f\<in>set (sn_SSTables s). map_of (e_disk e) (sf_Path f) = map_of d (sf_Path f)
          \<and> (\<exists>c. map_of d (sf_Path f) = Some c \<and> sf_Size f = int (length c))))"

lemma snap_pins_nonneg: "0 \<le> (\<Sum>(s, d)\<leftarrow>held. snap_pins s p)"
  by (induction held) (auto simp: snap_pins_def)

lemma held_pinned:
  assumes "(\<Sum>(s, d)\<leftarrow>held. snap_pins s (sf_Path f)) \<le> n" and "(s, d) \<in> set held" and "f \<in> set (sn_SSTables s)"
  shows "0 < n"
proof -
  obtain xs ys where "held = xs @ (s, d) # ys" using assms(2) by (auto simp: in_set_conv_decomp)
  moreover have "0 < snap_pins s (sf_Path f)" using assms(3) count_list_0_iff [of "map sf_Path (sn_SSTables s)" "sf_Path f"] by (auto simp: snap_pins_def)
  ultimately show ?thesis using assms(1) snap_pins_nonneg [of "sf_Path f" xs] snap_pins_nonneg [of "sf_Path f" ys] by simp
qed

lemma vget_delete: "vget (AList.delete k m) j = (if j = k then 0 else vget m j)"
  by (simp add: vget_def delete_conv')

lemma vget_unpin: "vget (fold (\<lambda>f. unpin1 (sf_Path f)) fs pins) p = vget pins p - int (count_list (map sf_Path fs) p)"
proof (induction fs arbitrary: pins)
  case (Cons f fs)
  have "vget (unpin1 (sf_Path f) pins) p = vget pins p - (if p = sf_Path f then 1 else 0)"
    by (auto simp: unpin1_def vget_delete Let_def)
  then show ?case using Cons.IH [of "unpin1 (sf_Path f) pins"] by auto
qed simp

lemma fold_remove:
  "\<exists>dk. fold (\<lambda>p e. e_remove e p) ps e = e\<lparr>ss_writer := (ss_writer e)\<lparr>fw_disk := dk\<rparr>\<rparr>
     \<and> (\<forall>q. q \<notin> set ps \<longrightarrow> map_of dk q = map_of (e_disk e) q)"
proof (induction ps arbitrary: e)
  case Nil
  show ?case by (intro exI [of _ "e_disk e"]) simp
next
  case (Cons p ps)
  then obtain dk where "fold (\<lambda>p e. e_remove e p) ps (e_remove e p) = (e_remove e p)\<lparr>ss_writer := (ss_writer (e_remove e p))\<lparr>fw_disk := dk\<rparr>\<rparr>"
    "\<forall>q. q \<notin> set ps \<longrightarrow> map_of dk q = map_of (e_disk (e_remove e p)) q" by blast
  then show ?case by (intro exI [of _ dk]) (simp add: e_remove_def delete_conv')
qed

lemma deleteFiles_keeps:
  "pinned (deleteFiles e ps) = pinned e \<and> (\<forall>q. 0 < vget (pinned e) q \<longrightarrow> map_of (e_disk (deleteFiles e ps)) q = map_of (e_disk e) q)"
proof (induction ps arbitrary: e)
  case Nil
  then show ?case by (simp add: deleteFiles_def)
next
  case (Cons p ps)
  let ?e = "if vget (pinned e) p > 0 then e\<lparr>deferredDeletes := deferredDeletes e @ [p]\<rparr> else e_remove e p"
  have "deleteFiles e (p # ps) = deleteFiles ?e ps" by (simp add: deleteFiles_def)
  moreover have "pinned ?e = pinned e" by (simp add: e_remove_def)
  moreover have "map_of (e_disk ?e) q = map_of (e_disk e) q" if "0 < vget (pinned e) q" for q
    using that by (auto simp: e_remove_def delete_conv')
  ultimately show ?case using Cons.IH [of ?e] by metis
qed

lemma snapshot_loop_pins:
  assumes "snapshot_loop e files ps = (e', r)"
  shows "e_disk e' = e_disk e \<and> (\<forall>p. vget (pinned e) p \<le> vget (pinned e') p)
    \<and> (case r of Inl _ \<Rightarrow> True | Inr fs \<Rightarrow> \<exists>new. fs = files @ new
         \<and> (\<forall>p. vget (pinned e') p = vget (pinned e) p + int (count_list (map sf_Path new) p))
         \<and> (\<forall>f\<in>set new. \<exists>c. map_of (e_disk e) (sf_Path f) = Some c \<and> sf_Size f = int (length c)))"
  using assms
proof (induction ps arbitrary: e files)
  case Nil
  then show ?case by auto
next
  case (Cons lp ps)
  obtain l p where lp: "lp = (l, p)" by (cases lp)
  show ?case
  proof (cases "map_of (e_disk e) p")
    case None
    then show ?thesis using Cons.prems by (auto simp: lp)
  next
    case (Some c)
    let ?f = "\<lparr>sf_Level = l, sf_Path = p, sf_Size = int (length c)\<rparr>"
    have "snapshot_loop (pinFile e p) (files @ [?f]) ps = (e', r)" using Cons.prems Some by (simp add: lp)
    note ih = Cons.IH [OF this]
    have pin: "e_disk (pinFile e p) = e_disk e" "vget (pinned (pinFile e p)) q = vget (pinned e) q + (if q = p then 1 else 0)" for q
      by (auto simp: pinFile_def)
    have le: "vget (pinned e) q \<le> vget (pinned e') q" for q using ih pin(2) [of q] by (smt (verit))
    show ?thesis
    proof (cases r)
      case (Inl err)
      then show ?thesis using ih le pin(1) by simp
    next
      case (Inr fs)
      then obtain new where n: "fs = (files @ [?f]) @ new"
        "\<forall>q. vget (pinned e') q = vget (pinned (pinFile e p)) q + int (count_list (map sf_Path new) q)"
        "\<forall>f\<in>set new. \<exists>c. map_of (e_disk e) (sf_Path f) = Some c \<and> sf_Size f = int (length c)" using ih pin(1) by auto
      then show ?thesis using le ih Inr Some by (auto simp: pin intro!: exI [of _ "?f # new"])
    qed
  qed
qed

lemma held_keep:
  assumes ok: "held_ok e held" and pins: "\<And>p. (\<Sum>(s, d)\<leftarrow>held'. snap_pins s p) \<le> vget (pinned e') p" and sub: "set held' \<subseteq> set held"
    and disk: "\<And>s d f. (s, d) \<in> set held' \<Longrightarrow> f \<in> set (sn_SSTables s) \<Longrightarrow> map_of (e_disk e') (sf_Path f) = map_of (e_disk e) (sf_Path f)"
  shows "held_ok e' held'"
  using ok pins sub disk unfolding held_ok_def by (auto simp: subset_iff split: prod.splits) metis+

lemma take_ok:
  assumes ok: "held_ok e held" and t: "snapshot_versions e = (e', r)"
  shows "case r of Inl _ \<Rightarrow> held_ok e' held | Inr sn \<Rightarrow> held_ok e' ((sn, e_disk e) # held)"
proof -
  define ps where "ps = concat (map (\<lambda>(l, ps). map (Pair l) ps) (List.enumerate 0 (versions e)))"
  obtain e1 r1 where l: "snapshot_loop e [] ps = (e1, r1)" by (cases "snapshot_loop e [] ps")
  have e': "e' = e1" using t by (cases r1) (simp_all add: snapshot_versions_def ps_def [symmetric] l)
  note pins = snapshot_loop_pins [OF l]
  have old: "held_ok e' held"
    by (rule held_keep [OF ok]) (use pins ok in \<open>auto simp: e' held_ok_def intro: order_trans\<close>)
  show ?thesis
  proof (cases r1)
    case (Inl err)
    then show ?thesis using t old by (auto simp: snapshot_versions_def ps_def [symmetric] l)
  next
    case (Inr fs)
    then have n: "\<forall>p. vget (pinned e1) p = vget (pinned e) p + int (count_list (map sf_Path fs) p)"
      "\<forall>f\<in>set fs. \<exists>c. map_of (e_disk e) (sf_Path f) = Some c \<and> sf_Size f = int (length c)" using pins by auto
    obtain sn where r: "r = Inr sn" "sn_SSTables sn = fs" "\<not> sn_released sn"
      using t Inr by (auto simp: snapshot_versions_def ps_def [symmetric] l)
    have "(\<Sum>(s, d)\<leftarrow>(sn, e_disk e) # held. snap_pins s p) \<le> vget (pinned e') p" for p
      using ok n(1) by (simp add: held_ok_def snap_pins_def r e')
    then show ?thesis using old n(2) r pins unfolding held_ok_def by (auto simp: e')
  qed
qed

lemma release_ok:
  assumes ok: "held_ok e (xs @ (s, d) # ys)" and r: "Snapshot_Release e s = (e', s')"
  shows "held_ok e' (xs @ ys)"
proof -
  let ?pins = "fold (\<lambda>f. unpin1 (sf_Path f)) (sn_SSTables s) (pinned e)"
  have nr: "\<not> sn_released s" using ok by (auto simp: held_ok_def)
  let ?ds = "filter (\<lambda>p. \<not> vget ?pins p > 0) (deferredDeletes e)"
  obtain dk where dk: "fold (\<lambda>p e. e_remove e p) ?ds (e\<lparr>pinned := ?pins\<rparr>) = e\<lparr>pinned := ?pins, ss_writer := (ss_writer e)\<lparr>fw_disk := dk\<rparr>\<rparr>"
    "\<forall>q. q \<notin> set ?ds \<longrightarrow> map_of dk q = map_of (e_disk e) q"
    using fold_remove [of ?ds "e\<lparr>pinned := ?pins\<rparr>"] by auto
  have e': "e' = e\<lparr>pinned := ?pins, ss_writer := (ss_writer e)\<lparr>fw_disk := dk\<rparr>, deferredDeletes := filter (\<lambda>p. vget ?pins p > 0) (deferredDeletes e)\<rparr>"
    using r nr by (simp add: Snapshot_Release_def unpinFiles_def Let_def dk(1))
  have pins: "(\<Sum>(s, d)\<leftarrow>xs @ ys. snap_pins s p) \<le> vget (pinned e') p" for p
  proof -
    have "(\<Sum>(s, d)\<leftarrow>xs @ (s, d) # ys. snap_pins s p) \<le> vget (pinned e) p" using ok unfolding held_ok_def by blast
    then show ?thesis unfolding e' by (simp add: vget_unpin snap_pins_def)
  qed
  show ?thesis
  proof (rule held_keep [OF ok pins])
    fix s1 d1 f
    assume f: "(s1, d1) \<in> set (xs @ ys)" "f \<in> set (sn_SSTables s1)"
    then have "0 < vget ?pins (sf_Path f)" using held_pinned [OF pins f] by (simp add: e')
    then show "map_of (e_disk e') (sf_Path f) = map_of (e_disk e) (sf_Path f)" using dk(2) by (simp add: e')
  qed auto
qed

lemma compact_ok:
  assumes ok: "held_ok e held" and c: "installCompaction e level newPath oldPaths = Some e'"
  shows "held_ok e' held"
proof -
  obtain e1 where e': "e' = deleteFiles e1 oldPaths" and e1: "pinned e1 = pinned e" "e_disk e1 = e_disk e"
    using c by (auto simp: installCompaction_def Let_def case_prod_beta split: if_splits)
  note d = deleteFiles_keeps [of e1 oldPaths]
  have pins: "(\<Sum>(s, d)\<leftarrow>held. snap_pins s p) \<le> vget (pinned e) p" for p using ok unfolding held_ok_def by blast
  show ?thesis
    by (rule held_keep [OF ok]) (use d pins held_pinned [OF pins] in \<open>auto simp: e' e1\<close>)
qed

lemma snap_run_ok: "snap_run e0 e held \<Longrightarrow> \<forall>p. 0 \<le> vget (pinned e0) p \<Longrightarrow> held_ok e held"
proof (induction rule: snap_run.induct)
  case sr_start
  then show ?case by (simp add: held_ok_def)
next
  case (sr_take e held e' sn)
  then show ?case using take_ok [of e held e' "Inr sn"] by simp
next
  case (sr_fail e held e' err)
  then show ?case using take_ok [of e held e' "Inl err"] by simp
next
  case (sr_release e xs s d ys e' s')
  then show ?case using release_ok by blast
next
  case (sr_compact e held level newPath oldPaths e')
  then show ?case using compact_ok by blast
next
  case (sr_other e held e')
  then have ok: "held_ok e held" by blast
  show ?case
  proof (rule held_keep [OF ok])
    fix s d f
    assume "(s, d) \<in> set held" "f \<in> set (sn_SSTables s)"
    then obtain c where "map_of (e_disk e) (sf_Path f) = Some c" using ok by (fastforce simp: held_ok_def)
    then show "map_of (e_disk e') (sf_Path f) = map_of (e_disk e) (sf_Path f)" using sr_other(2) by (force simp: map_le_def)
  qed (use ok sr_other in \<open>auto simp: held_ok_def\<close>)
qed

text \<open>
  C39: The files of a snapshot stay. Whatever snapshots are taken (also ones that fail half way), released in any order,
  and whatever compactions delete their inputs meanwhile, each file of a snapshot that is still held exists on disk with the content and the
  size it had when the snapshot was taken.
\<close>

theorem snapshot_files_stay:
  assumes "snap_run e0 e held" and "pinned e0 = []" and "(sn, d) \<in> set held" and "f \<in> set (sn_SSTables sn)"
  shows "\<exists>c. map_of (e_disk e) (sf_Path f) = Some c \<and> map_of d (sf_Path f) = Some c \<and> sf_Size f = int (length c)"
proof -
  have "held_ok e held" using snap_run_ok [OF assms(1)] assms(2) by simp
  then show ?thesis using assms(3,4) unfolding held_ok_def by fastforce
qed

definition snap_e0 :: "HashMap Engine" where
  "snap_e0 = (let e = small_e (NewWALWithStorage (fst (NewAppendStorageInDir no_fail [] 1 1)) ''group'') []
     in e\<lparr>versions := [[''p''], []], ss_writer := (ss_writer e)\<lparr>fw_disk := [(''p'', [1, 2])]\<rparr>, pinned := []\<rparr>)"

text \<open>A snapshot is taken, a compaction merges its file away, and the file is still there.\<close>

theorem snapshot_files_stay_witness:
  "\<exists>e1 sn e2. snapshot_versions snap_e0 = (e1, Inr sn) \<and> map sf_Path (sn_SSTables sn) = [''p'']
     \<and> installCompaction e1 0 ''q'' [''p''] = Some e2 \<and> versions e2 = [[], [''q'']]
     \<and> (\<exists>c. map_of (e_disk e2) ''p'' = Some c \<and> length c = 2)"
proof -
  let ?f = "\<lparr>sf_Level = 0, sf_Path = ''p'', sf_Size = 2\<rparr>"
  let ?e1 = "pinFile snap_e0 ''p''" and ?sn = "\<lparr>sn_LSN = appendedLSN (wal_store (e_wal snap_e0)), sn_SSTables = [?f], sn_released = False\<rparr>"
  have v: "versions snap_e0 = [[''p''], []]" "e_disk snap_e0 = [(''p'', [1, 2])]" "pinned snap_e0 = []" by (simp_all add: snap_e0_def Let_def)
  have s: "snapshot_versions snap_e0 = (?e1, Inr ?sn)" by (simp add: snapshot_versions_def v)
  have v1: "versions ?e1 = [[''p''], []]" by (simp add: pinFile_def v)
  obtain e2 where e2: "installCompaction ?e1 0 ''q'' [''p''] = Some e2"
    by (simp add: installCompaction_def v1 Let_def case_prod_beta)
  have vs: "versions (deleteFiles e ps) = versions e" for e :: "HashMap Engine" and ps
    unfolding deleteFiles_def by (induction ps arbitrary: e) (auto simp: e_remove_def)
  have v2: "versions e2 = [[], [''q'']]" using e2 by (auto simp: installCompaction_def v1 Let_def case_prod_beta vs)
  have r: "snap_run snap_e0 e2 [(?sn, e_disk snap_e0)]"
    by (rule snap_run.sr_compact [OF snap_run.sr_take [OF snap_run.sr_start s] e2])
  have "\<exists>c. map_of (e_disk e2) (sf_Path ?f) = Some c \<and> map_of (e_disk snap_e0) (sf_Path ?f) = Some c \<and> sf_Size ?f = int (length c)"
    by (rule snapshot_files_stay [OF r v(3), where sn = ?sn and d = "e_disk snap_e0"]) simp_all
  then show ?thesis using s e2 v2 by auto
qed

end
