(* ===== verification/Spec2Isabelle.thy ===== *)
theory Spec2Isabelle
  imports Versioning RingTable Memtable Wal ClusterConfig Cluster Membership Repair Tablet Bloom
    MerkleRoot BlockCache TableRead WalCursor Compacter Engine EngineStore EngineSafety
begin

text \<open>
  Verification of a distributed key-value store.

  \<^bold>\<open>The program.\<close> A node (\<open>cmd/node/main.go\<close>) couples a storage engine (\<open>src/engine\<close>, \<open>src/memtable\<close>,
  \<open>src/wal\<close>, \<open>src/sstable\<close>, \<open>src/service\<close>) with a leaderless cluster layer (\<open>src/cluster\<close>). A client's write
  reaches a coordinator, which asks the node's range table for the owners of the key, stamps the
  value with a vector clock and a time (an envelope), sends it to every owner and answers once a
  quorum has acknowledged; a read asks a quorum and reconciles the envelopes it gets. Every replica
  keeps envelopes in its engine through the node store. In the background a node gossips its
  member table, synchronises its range map with peers whose map is newer, compares Merkle
  digests of its ranges with the other replicas and repairs what differs, and splits or merges
  ranges by size.

  \<^bold>\<open>Theories and the code they model.\<close>

  \<^item> \<open>Prelude\<close>: Go maps as association lists, \<open>sort.Search\<close>, \<open>encoding/binary\<close>, \<open>strconv\<close>, wrapping integers.
  \<^item> \<open>Versioning\<close>: \<open>src/cluster/versioning\<close> and the clock and envelope conversions of
    \<open>src/cluster/transport/convert.go\<close>. Vector clocks are ordered pointwise (\<open>Compare\<close> decides that order,
    \<open>VectorClock_Merge\<close> is its join); \<open>Reconcile\<close> returns the maximal envelopes. The locale \<open>version_order\<close>
    states what reconciliation needs of a comparison; \<open>clocks\<close> interprets it on \<open>Compare\<close>.
  \<^item> \<open>Ring\<close>, \<open>RingTable\<close>: \<open>src/cluster/ring\<close>. A range map is a list of ranges with generations; merging two
    maps cuts at all boundaries, takes the range with the higher generation, bumps the generation
    when two proposals tie and coalesces. The locale \<open>map_store\<close> states that merging keeps a map
    valid and never lowers a key's generation; \<open>tab\<close> interprets it on \<open>Table_Merge\<close>, and every run of the
    cluster's syncers keeps every table valid and its generations monotone.
  \<^item> \<open>Memtable\<close>: \<open>src/memtable\<close>. The locale \<open>memtable\<close> is the contract of the Go interface; \<open>hm\<close> and \<open>bt\<close>
    interpret it on the hash map and on the B-tree, whose insertion (preemptive splits) is shown to
    keep the balance and to implement a finite map.
  \<^item> \<open>Wal\<close>: \<open>src/wal\<close>. Records with CRC-32, segments, rotation, sync, purge, reopening and replay, every
    I/O error a branch; a crash may cut each file behind its synced bytes.
  \<^item> \<open>WalCursor\<close>: the waits for durability, the subscribers of \<open>src/wal/wal.go\<close> and the cursor of \<open>src/wal/cursor.go\<close>, which
    delivers exactly the durable entries behind its start.
  \<^item> \<open>ClusterConfig\<close>: \<open>src/cluster/config\<close>. Defaults, file, environment and validation.
  \<^item> \<open>NodeStore\<close>: \<open>src/cluster/node\<close>. The store over the engine interface and the node service.
  \<^item> \<open>Coordination\<close>, \<open>Cluster\<close>: \<open>src/cluster/coordination\<close>. The quorum path as a fold over the responses of
    the replicas; the locale \<open>replica_group\<close> states what a coordinator needs of replica clients, and
    \<open>cl\<close> interprets it on the nodes of a cluster over a network that loses requests or responses.
  \<^item> \<open>Membership\<close>: \<open>src/cluster/membership\<close>. The member table, the gossiper's tick and the service. The
    locale \<open>join_store\<close> is the contract of a store merged by a join; \<open>prec\<close> and \<open>rme\<close> interpret it on the
    precedence and on the range-map epoch of a member.
  \<^item> \<open>AntiEntropy\<close>, \<open>Repair\<close>: \<open>src/cluster/antientropy\<close> and the adapters of \<open>cmd/node/main.go\<close>. The tree walk
    over bucket digests; the locale \<open>replica_pair\<close> states the contract between a scheduler, its local
    store and a remote peer, \<open>ae\<close> interprets it on two nodes of the cluster, and a walk with no lost
    call leaves both replicas with the same reconciled rows.
  \<^item> \<open>Tablet\<close>: \<open>src/cluster/tablet\<close>. Replica assignment, size estimate, split boundary, scheduler tick.
  \<^item> \<open>Bloom\<close>, \<open>MerkleRoot\<close>: \<open>src/models/bloom_filter\<close> and \<open>src/models/merkle_tree\<close>. The filters of a table, without
    false negatives, and the root over its values.
  \<^item> \<open>BlockCache\<close>: \<open>src/service/block_manager\<close>. The LRU cache of blocks and the reads of any span of bytes; the
    locale \<open>block_reader\<close> is what a reader of files needs, \<open>bm\<close> interprets it on the block manager.
  \<^item> \<open>SSTable\<close>, \<open>TableFormat\<close>, \<open>TableRead\<close>: \<open>src/service/file_writer\<close>, \<open>src/service/ss_parser\<close> and \<open>src/sstable\<close>. The block
    writer, the sections of a table file with every I/O error, and the reader; over \<open>block_reader\<close> a
    flushed table is shown to give back its entries by lookups, range scans and prefix scans.
  \<^item> \<open>Compacter\<close>: \<open>src/service/ss_compacter\<close>. The merge of sorted tables through a binary heap and the choice of
    the tables to merge.
  \<^item> \<open>Engine\<close>, \<open>EngineStore\<close>, \<open>EngineSafety\<close>: \<open>src/engine\<close>, \<open>src/sstable/table_cache.go\<close> and the rate
    limiter. The rounds of the writer, flusher and compactor goroutines and the
    clients' operations are functions on the engine state; \<open>eng_step\<close> and \<open>eng_run\<close> are their interleavings. In the
    context of the locale \<open>memtable\<close> the layers of the engine (memtable, queue, tables) are shown to
    represent a map from keys to the latest write, for both memtables. Compaction is outside these
    runs because its merge keeps the oldest version of a key (\<open>merge_keeps_oldest\<close>); what it does keep is
    stated in \<open>Compacter\<close>, and that it never removes a file of a held snapshot in \<open>EngineSafety\<close>, which also
    shows that a write acknowledged as synchronous survives a crash.

  \<^bold>\<open>How the code is rendered.\<close> A struct is a record, an interface a record of functions (the parameter of
  its client), a Go panic is \<open>None\<close> and an error a constructor of an error type. A mutex makes the
  guarded operation one step; a ticker goroutine is the sequence of its ticks, with the random
  choices and the answers of the network as arguments. \<open>uint64\<close> is \<open>64 word\<close> and wraps around.

  \<^bold>\<open>Bounds and termination.\<close> Recursions end by measures: the tree walk by the remaining depth
  (\<open>MaxDepth\<close>), the B-tree by its height, the segment reader by the bytes left. The paging loop of
  \<open>NodeStore_ScanRawRange\<close> may run forever on an arbitrary engine and is a \<open>partial_function\<close>; on an engine
  that pages correctly it is shown to return, with fewer than \<open>2 ^ 62\<close> rows so that the page arithmetic
  stays within 64 bits. The merge of a compaction and the wait for durability are partial functions
  too; the first is shown to return a result on sorted tables, the second after at most one sync. \<open>Next\<close> of a cursor
  ends by the segments and bytes left.

  \<^bold>\<open>Not modelled.\<close> gRPC servers, connection caches and generated protobuf code (transport); the
  command line (\<open>cmd/main.go\<close>) and process wiring (\<open>run\<close> in \<open>cmd/node/main.go\<close>); the probabilistic sketches
  under \<open>src/models\<close> that no other package uses. JSON, the file system's directory listing order,
  digests and clocks are arguments of the definitions that use them.
\<close>

end
